(* ===== verification/TxPrelude.thy ===== *)
theory TxPrelude
  imports Main "HOL-Library.Word"
begin

text \<open>
  Shared vocabulary of the development: the C integer types as words, the truth value of a
  flag test, the result type of code that may abort, the \<open>LIST_FOREACH_SAFE\<close> loop, and the
  generic lemmas on flags, lists and partial maps that every component uses.
\<close>

unbundle bit_operations_syntax

section \<open>Machine types\<close>

type_synonym u32 = "32 word"
type_synonym u64 = "64 word"

text \<open>
  \<open>int\<close> fields that are used as bit sets (\<open>tx_flags\<close>, \<open>tx_busy\<close>) and \<open>unsigned\<close> fields are
  \<open>u32\<close>, \<open>size_t\<close> fields are \<open>u64\<close> (an LP64 platform). \<open>int\<close> fields used as counters are
  \<open>int\<close>: signed overflow is undefined in C, so on every defined execution the two agree.
\<close>

definition c_int :: "u64 \<Rightarrow> int" where
  \<comment> \<open>the cast \<open>(int)x\<close> of a \<open>size_t\<close>\<close>
  "c_int x = sint (ucast x :: u32)"

section \<open>Flag words\<close>

named_theorems flags \<open>rewriting of flag tests over flag updates\<close>
named_theorems flag_defs \<open>the values of the flag constants\<close>

definition has :: "u32 \<Rightarrow> u32 \<Rightarrow> bool" where
  \<comment> \<open>the truth value of the C expression \<open>f & m\<close>\<close>
  "has f m \<longleftrightarrow> f AND m \<noteq> 0"

lemma has_zero [flags]: "\<not> has 0 m" "\<not> has f 0"
  by (simp_all add: has_def)

lemma has_or [flags]: "has (f OR m) k \<longleftrightarrow> has f k \<or> has m k"
proof -
  have "(f OR m) AND k = (f AND k) OR (m AND k)"
    by (rule bit.conj_disj_distrib2)
  then show ?thesis by (simp add: has_def or_eq_0_iff)
qed

lemma has_or_mask [flags]: "has f (m OR k) \<longleftrightarrow> has f m \<or> has f k"
proof -
  have "f AND (m OR k) = (f AND m) OR (f AND k)"
    by (rule bit.conj_disj_distrib)
  then show ?thesis by (simp add: has_def or_eq_0_iff)
qed

lemma has_clear_other: "m AND k = 0 \<Longrightarrow> has (f AND NOT m) k \<longleftrightarrow> has f k"
proof -
  assume *: "m AND k = 0"
  have "(f AND NOT m) AND k = f AND k"
  proof (rule bit_word_eqI)
    fix n assume "n < LENGTH(32)"
    from * have "\<not> (bit m n \<and> bit k n)"
      by (metis bit_and_iff bit_0_eq bot_apply bot_bool_def)
    then show "bit ((f AND NOT m) AND k) n \<longleftrightarrow> bit (f AND k) n"
      using \<open>n < LENGTH(32)\<close> by (auto simp: bit_simps)
  qed
  then show ?thesis by (simp add: has_def)
qed

lemma has_clear_sub: "k AND NOT m = 0 \<Longrightarrow> \<not> has (f AND NOT m) k"
proof -
  assume "k AND NOT m = 0"
  then have "f AND (NOT m AND k) = 0" by (simp add: ac_simps)
  then show ?thesis by (simp add: has_def and.assoc)
qed

text \<open>A flag is a single bit: testing for the bit and comparing with the mask agree.\<close>

lemma single_bit: "n < 32 \<Longrightarrow> f AND (2 ^ n :: u32) = (if bit f n then 2 ^ n else 0)"
  by (rule bit_word_eqI) (auto simp: bit_simps)

lemma has_single: "m = (2 ^ n :: u32) \<Longrightarrow> n < 32 \<Longrightarrow> f AND m = m \<longleftrightarrow> has f m"
  by (auto simp: has_def single_bit)

section \<open>Results\<close>

text \<open>How a call can end the process instead of returning.\<close>

datatype tx_error =
    AssertFail          \<comment> \<open>\<open>assert\<close>, \<open>TX_ASSERT\<close>\<close>
  | PanicExit           \<comment> \<open>\<open>TX_PANIC\<close>, \<open>error_check\<close>: \<open>exit(-1)\<close>\<close>
  | SafeExit            \<comment> \<open>\<open>FAILURE_SAFEEXIT\<close>: \<open>exit(0)\<close>\<close>
  | NullDeref           \<comment> \<open>a read or call through a null pointer\<close>
  | UseAfterFree        \<comment> \<open>a read or write through a pointer to a deleted object\<close>
  | BufferOverflow      \<comment> \<open>a write past the end of a fixed array\<close>

type_synonym 'a res = "tx_error + 'a"

fun res_bind :: "'a res \<Rightarrow> ('a \<Rightarrow> 'b res) \<Rightarrow> 'b res" where
  "res_bind (Inl e) f = Inl e"
| "res_bind (Inr x) f = f x"

text \<open>A call that does not return has no result; where the result of an option is needed at once it is a failure.\<close>

definition opt_res :: "'a option \<Rightarrow> 'a res" where
  "opt_res x = (case x of None \<Rightarrow> Inl AssertFail | Some y \<Rightarrow> Inr y)"

lemma res_bind_Inr_iff: "res_bind m f = Inr y \<longleftrightarrow> (\<exists>x. m = Inr x \<and> f x = Inr y)"
  by (cases m) auto

definition c_assert :: "bool \<Rightarrow> 'a \<Rightarrow> 'a res" where
  "c_assert c x = (if c then Inr x else Inl AssertFail)"

lemma c_assert_True [simp]: "c_assert True x = Inr x"
  and c_assert_False [simp]: "c_assert False x = Inl AssertFail"
  by (simp_all add: c_assert_def)

section \<open>Lists\<close>

lemma distinct_split_unique:
  assumes "xs @ x # ys = us @ x # vs" and "distinct (xs @ x # ys)"
  shows "us = xs \<and> vs = ys"
proof -
  from assms have "x \<notin> set xs" "x \<notin> set us" "x \<notin> set ys" "x \<notin> set vs"
    by (auto dest: arg_cong [where f = distinct])
  then show ?thesis using assms(1) by (metis append_Cons_eq_iff)
qed

lemma removeAll_middle:
  "distinct (xs @ x # ys) \<Longrightarrow> removeAll x (xs @ x # ys) = xs @ ys"
  by (simp add: removeAll_append removeAll_id)

end
