(* ===== verification/TxQueue.thy ===== *)
theory TxQueue
  imports TxPrelude
begin

text \<open>
  The intrusive doubly linked lists of \<open>include/libtx/queue.h\<close>, at the level of the pointers the
  \<open>LIST_*\<close> macros write, and their refinement to HOL lists.

  An element holds the pointer \<open>le_next\<close> and the \<^emph>\<open>address\<close> of the pointer that points to it,
  \<open>le_prev\<close>: the \<open>lh_first\<close> field of a head or the \<open>le_next\<close> field of another element. Such an
  address is a \<open>slot\<close>; \<open>*le_prev\<close> is \<open>slot_read\<close> and \<open>slot_write\<close>. A list heap holds these three
  fields for all elements and heads. The predicate \<open>list_rep\<close> says which lists the heads hold;
  each macro is shown to do to those lists what its comment in the header promises.
\<close>

section \<open>Heads, entries and slots\<close>

datatype ('n, 'h) slot =
    NoSlot        \<comment> \<open>a null \<open>le_prev\<close>: the entry was never linked\<close>
  | First 'h      \<comment> \<open>\<open>&head->lh_first\<close>\<close>
  | Next 'n       \<comment> \<open>\<open>&elm->field.le_next\<close>\<close>

record ('n, 'h) lheap =
  le_next :: "'n \<Rightarrow> 'n option"
  le_prev :: "'n \<Rightarrow> ('n, 'h) slot"
  lh_first :: "'h \<Rightarrow> 'n option"

fun slot_read :: "('n, 'h) lheap \<Rightarrow> ('n, 'h) slot \<Rightarrow> 'n option" where
  "slot_read H NoSlot = None"
| "slot_read H (First h) = lh_first H h"
| "slot_read H (Next n) = le_next H n"

text \<open>
  A store through a null \<open>le_prev\<close> is undefined in C; the model leaves the heap as it is. No
  theorem depends on it: \<open>list_rep\<close> gives every linked element a proper \<open>le_prev\<close>.
\<close>

fun slot_write :: "('n, 'h) slot \<Rightarrow> 'n option \<Rightarrow> ('n, 'h) lheap \<Rightarrow> ('n, 'h) lheap" where
  "slot_write NoSlot v H = H"
| "slot_write (First h) v H = H\<lparr>lh_first := (lh_first H)(h := v)\<rparr>"
| "slot_write (Next n) v H = H\<lparr>le_next := (le_next H)(n := v)\<rparr>"

definition set_prev :: "'n \<Rightarrow> ('n, 'h) slot \<Rightarrow> ('n, 'h) lheap \<Rightarrow> ('n, 'h) lheap" where
  "set_prev n sl H = H\<lparr>le_prev := (le_prev H)(n := sl)\<rparr>"

text \<open>\<open>if (p != NULL) p->field.le_prev = sl\<close>, the first statement of three of the macros.\<close>

definition set_prev_opt :: "'n option \<Rightarrow> ('n, 'h) slot \<Rightarrow> ('n, 'h) lheap \<Rightarrow> ('n, 'h) lheap" where
  "set_prev_opt p sl H = (case p of None \<Rightarrow> H | Some n \<Rightarrow> set_prev n sl H)"

section \<open>The macros\<close>

definition LIST_INIT :: "'h \<Rightarrow> ('n, 'h) lheap \<Rightarrow> ('n, 'h) lheap" where
  "LIST_INIT h H = slot_write (First h) None H"

definition LIST_EMPTY :: "('n, 'h) lheap \<Rightarrow> 'h \<Rightarrow> bool" where
  "LIST_EMPTY H h \<longleftrightarrow> lh_first H h = None"

definition LIST_INSERT_HEAD :: "'h \<Rightarrow> 'n \<Rightarrow> ('n, 'h) lheap \<Rightarrow> ('n, 'h) lheap" where
  "LIST_INSERT_HEAD h elm H =
     (let H1 = slot_write (Next elm) (lh_first H h) H;
          H2 = set_prev_opt (le_next H1 elm) (Next elm) H1;
          H3 = slot_write (First h) (Some elm) H2
      in set_prev elm (First h) H3)"

definition LIST_INSERT_BEFORE :: "'n \<Rightarrow> 'n \<Rightarrow> ('n, 'h) lheap \<Rightarrow> ('n, 'h) lheap" where
  "LIST_INSERT_BEFORE listelm elm H =
     (let H1 = set_prev elm (le_prev H listelm) H;
          H2 = slot_write (Next elm) (Some listelm) H1;
          H3 = slot_write (le_prev H2 listelm) (Some elm) H2
      in set_prev listelm (Next elm) H3)"

definition LIST_INSERT_AFTER :: "'n \<Rightarrow> 'n \<Rightarrow> ('n, 'h) lheap \<Rightarrow> ('n, 'h) lheap" where
  "LIST_INSERT_AFTER listelm elm H =
     (let H1 = slot_write (Next elm) (le_next H listelm) H;
          H2 = set_prev_opt (le_next H1 elm) (Next elm) H1;
          H3 = slot_write (Next listelm) (Some elm) H2
      in set_prev elm (Next listelm) H3)"

definition LIST_REMOVE :: "'n \<Rightarrow> ('n, 'h) lheap \<Rightarrow> ('n, 'h) lheap" where
  "LIST_REMOVE elm H =
     (let H1 = set_prev_opt (le_next H elm) (le_prev H elm) H
      in slot_write (le_prev H1 elm) (le_next H1 elm) H1)"

text \<open>
  \<open>LIST_FOREACH_SAFE(var, head, field, tvar) body\<close>: the successor is read before the body runs,
  so the body may unlink \<open>var\<close>. \<open>nx\<close> reads the successor in the state the body works on. The
  loop is not structurally bounded (a corrupt list may be cyclic): it is a partial function,
  where \<open>None\<close> means that it does not end.
\<close>

partial_function (option) list_foreach_safe ::
    "('s \<Rightarrow> 'n \<Rightarrow> 'n option) \<Rightarrow> ('n \<Rightarrow> 's \<Rightarrow> 's) \<Rightarrow> 'n option \<Rightarrow> 's \<Rightarrow> 's option" where
  "list_foreach_safe nx body var s =
     (case var of
        None \<Rightarrow> Some s
      | Some n \<Rightarrow> list_foreach_safe nx body (nx s n) (body n s))"

text \<open>\<open>LIST_FOREACH(np, head, field) if (p np) return np;\<close>: the search the initialisers use.\<close>

partial_function (option) list_search ::
    "('n \<Rightarrow> 'n option) \<Rightarrow> ('n \<Rightarrow> bool) \<Rightarrow> 'n option \<Rightarrow> 'n option option" where
  "list_search nx p var =
     (case var of
        None \<Rightarrow> Some None
      | Some n \<Rightarrow> if p n then Some (Some n) else list_search nx p (nx n))"

section \<open>Representation\<close>

text \<open>
  \<open>lseg H sl xs p\<close>: from the slot \<open>sl\<close> the pointers run through the elements \<open>xs\<close>, each with the
  address of its predecessor's pointer in \<open>le_prev\<close>, and the last pointer holds \<open>p\<close>.
\<close>

fun lseg :: "('n, 'h) lheap \<Rightarrow> ('n, 'h) slot \<Rightarrow> 'n list \<Rightarrow> 'n option \<Rightarrow> bool" where
  "lseg H sl [] p \<longleftrightarrow> slot_read H sl = p"
| "lseg H sl (x # xs) p \<longleftrightarrow> slot_read H sl = Some x \<and> le_prev H x = sl \<and> lseg H (Next x) xs p"

definition end_slot :: "('n, 'h) slot \<Rightarrow> 'n list \<Rightarrow> ('n, 'h) slot" where
  "end_slot sl xs = (if xs = [] then sl else Next (last xs))"

definition disjoint_lists :: "('h \<rightharpoonup> 'n list) \<Rightarrow> bool" where
  "disjoint_lists Q \<longleftrightarrow>
     (\<forall>h xs. Q h = Some xs \<longrightarrow> distinct xs) \<and>
     (\<forall>h h' xs ys. Q h = Some xs \<longrightarrow> Q h' = Some ys \<longrightarrow> h \<noteq> h' \<longrightarrow> set xs \<inter> set ys = {})"

definition list_rep :: "('n, 'h) lheap \<Rightarrow> ('h \<rightharpoonup> 'n list) \<Rightarrow> bool" where
  "list_rep H Q \<longleftrightarrow>
     (\<forall>h xs. Q h = Some xs \<longrightarrow> lseg H (First h) xs None) \<and> disjoint_lists Q"

definition unlinked :: "('h \<rightharpoonup> 'n list) \<Rightarrow> 'n \<Rightarrow> bool" where
  "unlinked Q n \<longleftrightarrow> (\<forall>h xs. Q h = Some xs \<longrightarrow> n \<notin> set xs)"

definition linked :: "('h \<rightharpoonup> 'n list) \<Rightarrow> 'n \<Rightarrow> bool" where
  "linked Q n \<longleftrightarrow> \<not> unlinked Q n"

lemma unlinkedD: "unlinked Q x \<Longrightarrow> Q h = Some xs \<Longrightarrow> x \<notin> set xs"
  by (auto simp: unlinked_def)

lemma linked_iff: "linked Q x \<longleftrightarrow> (\<exists>h xs. Q h = Some xs \<and> x \<in> set xs)"
  by (auto simp: linked_def unlinked_def)

subsection \<open>Segments\<close>

lemma end_slot_simps [simp]:
  "end_slot sl [] = sl" "end_slot sl (x # xs) = end_slot (Next x) xs"
  by (simp_all add: end_slot_def)

lemma lseg_append:
  "lseg H sl (xs @ y # ys) p \<longleftrightarrow>
     lseg H sl xs (Some y) \<and> le_prev H y = end_slot sl xs \<and> lseg H (Next y) ys p"
  by (induction xs arbitrary: sl) auto

lemma lseg_frame:
  assumes "slot_read H' sl = slot_read H sl"
    and "\<And>x. x \<in> set xs \<Longrightarrow> le_next H' x = le_next H x \<and> le_prev H' x = le_prev H x"
  shows "lseg H' sl xs p \<longleftrightarrow> lseg H sl xs p"
  using assms by (induction xs arbitrary: sl) auto

lemma slot_write_prev [simp]: "le_prev (slot_write sl v H) = le_prev H"
  by (cases sl) auto

text \<open>Redirecting the last pointer of a segment changes where it leads, and nothing else.\<close>

lemma lseg_redirect:
  assumes "lseg H sl xs p" and "distinct xs" and "sl \<noteq> NoSlot"
    and "\<And>n. sl = Next n \<Longrightarrow> n \<notin> set xs"
  shows "lseg (slot_write (end_slot sl xs) q H) sl xs q"
  using assms
proof (induction xs arbitrary: sl)
  case Nil
  then show ?case by (cases sl) auto
next
  case (Cons x xs)
  have keep: "slot_read (slot_write (end_slot (Next x) xs) q H) sl = slot_read H sl"
    using Cons.prems by (cases sl; cases xs rule: rev_cases) (auto simp: end_slot_def)
  show ?case
    using Cons.IH [of "Next x"] Cons.prems keep by simp
qed

lemma end_slot_cases:
  "sl \<noteq> NoSlot \<Longrightarrow> end_slot sl xs \<noteq> NoSlot"
  by (simp add: end_slot_def)

lemma set_prev_simps [simp]:
  "le_next (set_prev n sl H) = le_next H" "lh_first (set_prev n sl H) = lh_first H"
  "le_prev (set_prev n sl H) = (le_prev H)(n := sl)"
  by (simp_all add: set_prev_def)

lemma set_prev_opt_simps [simp]:
  "le_next (set_prev_opt p sl H) = le_next H" "lh_first (set_prev_opt p sl H) = lh_first H"
  "set_prev_opt None sl H = H" "set_prev_opt (Some n) sl H = set_prev n sl H"
  by (simp_all add: set_prev_opt_def split: option.split)

lemma slot_read_cong:
  "le_next H' = le_next H \<Longrightarrow> lh_first H' = lh_first H \<Longrightarrow> slot_read H' sl = slot_read H sl"
  by (cases sl) auto

subsection \<open>Representation of a family of lists\<close>

lemma list_repD:
  assumes "list_rep H Q" and "Q h = Some xs"
  shows "lseg H (First h) xs None" and "distinct xs"
  using assms by (auto simp: list_rep_def disjoint_lists_def)

lemma disjoint_listsD:
  "disjoint_lists Q \<Longrightarrow> Q h = Some xs \<Longrightarrow> Q h' = Some ys \<Longrightarrow> x \<in> set xs \<Longrightarrow> x \<in> set ys \<Longrightarrow> h = h'"
  unfolding disjoint_lists_def by (metis IntI empty_iff)

lemma list_rep_unique_head:
  "list_rep H Q \<Longrightarrow> Q h = Some xs \<Longrightarrow> Q h' = Some ys \<Longrightarrow> x \<in> set xs \<Longrightarrow> x \<in> set ys \<Longrightarrow> h = h'"
  unfolding list_rep_def by (blast dest: disjoint_listsD)

text \<open>
  The frame rule the macros share: a heap that changes only one head and the entries of one list
  (and of elements of no list) still represents every other list.
\<close>

lemma list_rep_update:
  assumes rep: "list_rep H Q"
    and new: "lseg H' (First h) xs' None" "distinct xs'"
    and old: "\<And>x. x \<in> set xs' \<Longrightarrow> unlinked Q x \<or> (\<exists>xs. Q h = Some xs \<and> x \<in> set xs)"
    and heads: "\<And>g. g \<noteq> h \<Longrightarrow> lh_first H' g = lh_first H g"
    and entries: "\<And>g ys y. g \<noteq> h \<Longrightarrow> Q g = Some ys \<Longrightarrow> y \<in> set ys \<Longrightarrow>
      le_next H' y = le_next H y \<and> le_prev H' y = le_prev H y"
  shows "list_rep H' (Q(h \<mapsto> xs'))"
proof -
  have segs: "lseg H' (First g) ys None" if "(Q(h \<mapsto> xs')) g = Some ys" for g ys
  proof (cases "g = h")
    case True
    with that new show ?thesis by simp
  next
    case False
    with that have ys: "Q g = Some ys" by simp
    have "lseg H' (First g) ys None \<longleftrightarrow> lseg H (First g) ys None"
      by (rule lseg_frame) (use False ys heads entries in auto)
    with list_repD(1) [OF rep ys] show ?thesis by simp
  qed
  have apart: "x \<notin> set xs'" if "g \<noteq> h" "Q g = Some ys" "x \<in> set ys" for g ys x
    using old [of x] that rep by (auto simp: unlinked_def dest: list_rep_unique_head)
  have "disjoint_lists Q" using rep by (simp add: list_rep_def)
  then have "disjoint_lists (Q(h \<mapsto> xs'))"
    using new(2) apart unfolding disjoint_lists_def
    by (auto split: if_splits dest: apart)
  with segs show ?thesis by (simp add: list_rep_def)
qed


subsection \<open>What the macros do to the lists\<close>

lemma end_slot_write_next:
  "n \<notin> set xs \<Longrightarrow> le_next (slot_write (end_slot (First h) xs) v H) n = le_next H n"
  by (cases xs rule: rev_cases) (auto simp: end_slot_def)

lemma end_slot_write_first:
  "g \<noteq> h \<Longrightarrow> lh_first (slot_write (end_slot (First h) xs) v H) g = lh_first H g"
  by (cases xs rule: rev_cases) (auto simp: end_slot_def)

lemma slot_read_next_head: "lseg H sl ys None \<Longrightarrow> slot_read H sl = (case ys of [] \<Rightarrow> None | y # _ \<Rightarrow> Some y)"
  by (cases ys) auto

lemma list_rep_first:
  "list_rep H Q \<Longrightarrow> Q h = Some xs \<Longrightarrow> lh_first H h = (case xs of [] \<Rightarrow> None | x # _ \<Rightarrow> Some x)"
  by (drule (1) list_repD(1)) (cases xs; simp)

lemma list_rep_next:
  "list_rep H Q \<Longrightarrow> Q h = Some (xs @ x # ys) \<Longrightarrow>
     le_next H x = (case ys of [] \<Rightarrow> None | y # _ \<Rightarrow> Some y)"
  by (drule (1) list_repD(1)) (cases ys; simp add: lseg_append)

lemma list_rep_prev:
  "list_rep H Q \<Longrightarrow> Q h = Some (xs @ x # ys) \<Longrightarrow> le_prev H x = end_slot (First h) xs"
  by (drule (1) list_repD(1)) (simp add: lseg_append)

lemma list_rep_INIT: "list_rep H Q \<Longrightarrow> list_rep (LIST_INIT h H) (Q(h \<mapsto> []))"
  by (rule list_rep_update) (auto simp: LIST_INIT_def)

lemma list_rep_REMOVE:
  assumes rep: "list_rep H Q" and at: "Q h = Some (xs @ x # ys)"
  shows "list_rep (LIST_REMOVE x H) (Q(h \<mapsto> xs @ ys))"
proof -
  define e where "e = end_slot (First h :: ('a, 'b) slot) xs"
  note seg = list_repD(1) [OF rep at, unfolded lseg_append]
  have dist: "distinct (xs @ x # ys)" by (rule list_repD(2) [OF rep at])
  have nxt: "le_next H x = (case ys of [] \<Rightarrow> None | y # _ \<Rightarrow> Some y)"
    by (rule list_rep_next [OF rep at])
  have prv: "le_prev H x = e" unfolding e_def by (rule list_rep_prev [OF rep at])
  define H1 where "H1 = set_prev_opt (le_next H x) e H"
  have H': "LIST_REMOVE x H = slot_write e (le_next H x) H1"
    using dist nxt by (cases ys) (auto simp: LIST_REMOVE_def H1_def prv Let_def)
  have keep: "le_next (LIST_REMOVE x H) n = le_next H n" if "n \<notin> set xs" for n
    using that unfolding H' e_def by (simp add: end_slot_write_next H1_def)
  have front: "lseg (LIST_REMOVE x H) (First h) xs (le_next H x)"
  proof -
    have "lseg H1 (First h) xs (Some x)"
      using seg dist nxt
      by (subst lseg_frame [where H = H]) (auto simp: H1_def set_prev_opt_def split: option.split list.splits)
    then show ?thesis unfolding H' e_def
      by (rule lseg_redirect) (use dist in auto)
  qed
  have whole: "lseg (LIST_REMOVE x H) (First h) (xs @ ys) None"
  proof (cases ys)
    case Nil
    with front nxt show ?thesis by simp
  next
    case (Cons z zs)
    have keep_prev: "le_prev (LIST_REMOVE x H) n = le_prev H n" if "n \<noteq> z" for n
      using that Cons by (simp add: H' H1_def nxt)
    have "lseg (LIST_REMOVE x H) (Next z) zs None \<longleftrightarrow> lseg H (Next z) zs None"
    proof (rule lseg_frame)
      show "slot_read (LIST_REMOVE x H) (Next z) = slot_read H (Next z)"
        using keep [of z] dist Cons by simp
      show "le_next (LIST_REMOVE x H) n = le_next H n \<and> le_prev (LIST_REMOVE x H) n = le_prev H n"
        if "n \<in> set zs" for n
        using that keep [of n] keep_prev [of n] dist Cons by auto
    qed
    with front seg nxt Cons show ?thesis
      by (simp add: lseg_append H' H1_def e_def [symmetric])
  qed
  show ?thesis
  proof (rule list_rep_update [OF rep whole])
    show "distinct (xs @ ys)" using dist by auto
    show "unlinked Q n \<or> (\<exists>zs. Q h = Some zs \<and> n \<in> set zs)" if "n \<in> set (xs @ ys)" for n
      using that at by auto
    show "lh_first (LIST_REMOVE x H) g = lh_first H g" if "g \<noteq> h" for g
      using that unfolding H' e_def by (simp add: end_slot_write_first H1_def)
    show "le_next (LIST_REMOVE x H) y = le_next H y \<and> le_prev (LIST_REMOVE x H) y = le_prev H y"
      if "g \<noteq> h" "Q g = Some zs" "y \<in> set zs" for g zs y
    proof -
      have "y \<notin> set (xs @ x # ys)"
        using that at list_rep_unique_head [OF rep] by blast
      then have "le_next (LIST_REMOVE x H) y = le_next H y"
        and "le_prev (LIST_REMOVE x H) y = le_prev H y"
        by (simp add: keep, auto simp: H' H1_def nxt split: list.split)
      then show ?thesis by simp
    qed
  qed
qed

lemma list_rep_INSERT_HEAD:
  assumes rep: "list_rep H Q" and at: "Q h = Some xs" and new: "unlinked Q x"
  shows "list_rep (LIST_INSERT_HEAD h x H) (Q(h \<mapsto> x # xs))"
proof -
  have fresh: "x \<notin> set xs" by (rule unlinkedD [OF new at])
  have dist: "distinct xs" and seg: "lseg H (First h) xs None" using list_repD [OF rep at] by auto
  have fst: "lh_first H h = (case xs of [] \<Rightarrow> None | y # _ \<Rightarrow> Some y)"
    by (rule list_rep_first [OF rep at])
  let ?H = "LIST_INSERT_HEAD h x H"
  have next': "le_next ?H = (le_next H)(x := lh_first H h)"
    and first': "lh_first ?H = (lh_first H)(h := Some x)"
    and prev': "le_prev ?H = (case xs of [] \<Rightarrow> (le_prev H)(x := First h)
                  | y # _ \<Rightarrow> (le_prev H)(y := Next x, x := First h))"
    by (auto simp: LIST_INSERT_HEAD_def Let_def fst split: list.split)
  have whole: "lseg ?H (First h) (x # xs) None"
  proof (cases xs)
    case Nil
    then show ?thesis by (simp add: next' first' prev' fst)
  next
    case (Cons y ys)
    have "lseg ?H (Next y) ys None \<longleftrightarrow> lseg H (Next y) ys None"
      by (rule lseg_frame) (use dist fresh Cons in \<open>auto simp: next' prev'\<close>)
    with seg Cons fresh show ?thesis by (auto simp: next' first' prev' fst)
  qed
  show ?thesis
  proof (rule list_rep_update [OF rep whole])
    show "distinct (x # xs)" using dist fresh by simp
    show "unlinked Q n \<or> (\<exists>zs. Q h = Some zs \<and> n \<in> set zs)" if "n \<in> set (x # xs)" for n
      using that at new by auto
    show "lh_first ?H g = lh_first H g" if "g \<noteq> h" for g using that by (simp add: first')
    show "le_next ?H y = le_next H y \<and> le_prev ?H y = le_prev H y"
      if "g \<noteq> h" "Q g = Some zs" "y \<in> set zs" for g zs y
    proof -
      have "y \<notin> set xs" "y \<noteq> x"
        using that at new list_rep_unique_head [OF rep] by (blast, auto simp: unlinked_def)
      then show ?thesis by (auto simp: next' prev' split: list.split)
    qed
  qed
qed

lemma list_rep_INSERT_BEFORE:
  assumes rep: "list_rep H Q" and at: "Q h = Some (xs @ l # ys)" and new: "unlinked Q x"
  shows "list_rep (LIST_INSERT_BEFORE l x H) (Q(h \<mapsto> xs @ x # l # ys))"
proof -
  define e where "e = end_slot (First h :: ('a, 'b) slot) xs"
  note seg = list_repD(1) [OF rep at, unfolded lseg_append]
  have dist: "distinct (xs @ l # ys)" by (rule list_repD(2) [OF rep at])
  have fresh: "x \<notin> set (xs @ l # ys)" by (rule unlinkedD [OF new at])
  have prv: "le_prev H l = e" unfolding e_def by (rule list_rep_prev [OF rep at])
  let ?H = "LIST_INSERT_BEFORE l x H"
  define H2 where "H2 = slot_write (Next x) (Some l) (set_prev x e H)"
  have H': "?H = set_prev l (Next x) (slot_write e (Some x) H2)"
    using fresh by (simp add: LIST_INSERT_BEFORE_def Let_def prv H2_def)
  have keep: "le_next ?H n = (if n = x then Some l else le_next H n)" if "n \<notin> set xs" for n
    using that unfolding H' e_def by (simp add: end_slot_write_next H2_def)
  have keep_prev: "le_prev ?H n = (if n = l then Next x else if n = x then e else le_prev H n)" for n
    by (simp add: H' H2_def)
  have "lseg H2 (First h) xs (Some l) \<longleftrightarrow> lseg H (First h) xs (Some l)"
    by (rule lseg_frame) (use fresh in \<open>auto simp: H2_def\<close>)
  then have "lseg (slot_write e (Some x) H2) (First h) xs (Some x)"
    unfolding e_def by (intro lseg_redirect) (use seg dist in auto)
  moreover have "lseg ?H (First h) xs (Some x) \<longleftrightarrow> lseg (slot_write e (Some x) H2) (First h) xs (Some x)"
    by (rule lseg_frame) (use dist in \<open>auto simp: H' intro!: slot_read_cong\<close>)
  ultimately have front: "lseg ?H (First h) xs (Some x)" by simp
  have "lseg ?H (Next l) ys None \<longleftrightarrow> lseg H (Next l) ys None"
  proof (rule lseg_frame)
    show "slot_read ?H (Next l) = slot_read H (Next l)" using keep [of l] dist fresh by auto
    show "le_next ?H n = le_next H n \<and> le_prev ?H n = le_prev H n" if "n \<in> set ys" for n
    proof -
      have "n \<notin> set xs" "n \<noteq> x" "n \<noteq> l" using that dist fresh by auto
      then show ?thesis by (simp add: keep keep_prev)
    qed
  qed
  with front seg fresh have whole: "lseg ?H (First h) (xs @ x # l # ys) None"
    using keep [of x] by (simp add: lseg_append keep_prev e_def [symmetric])
  show ?thesis
  proof (rule list_rep_update [OF rep whole])
    show "distinct (xs @ x # l # ys)" using dist fresh by auto
    show "unlinked Q n \<or> (\<exists>zs. Q h = Some zs \<and> n \<in> set zs)" if "n \<in> set (xs @ x # l # ys)" for n
      using that at new by auto
    show "lh_first ?H g = lh_first H g" if "g \<noteq> h" for g
      using that unfolding H' e_def by (simp add: end_slot_write_first H2_def)
    show "le_next ?H y = le_next H y \<and> le_prev ?H y = le_prev H y"
      if "g \<noteq> h" "Q g = Some zs" "y \<in> set zs" for g zs y
    proof -
      have "y \<notin> set (xs @ l # ys)" using that at list_rep_unique_head [OF rep] by blast
      moreover have "y \<noteq> x" using that new by (auto simp: unlinked_def)
      ultimately show ?thesis by (simp add: keep keep_prev)
    qed
  qed
qed

lemma list_rep_INSERT_AFTER:
  assumes rep: "list_rep H Q" and at: "Q h = Some (xs @ l # ys)" and new: "unlinked Q x"
  shows "list_rep (LIST_INSERT_AFTER l x H) (Q(h \<mapsto> xs @ l # x # ys))"
proof -
  note seg = list_repD(1) [OF rep at, unfolded lseg_append]
  have dist: "distinct (xs @ l # ys)" by (rule list_repD(2) [OF rep at])
  have fresh: "x \<notin> set (xs @ l # ys)" by (rule unlinkedD [OF new at])
  have nxt: "le_next H l = (case ys of [] \<Rightarrow> None | y # _ \<Rightarrow> Some y)"
    by (rule list_rep_next [OF rep at])
  let ?H = "LIST_INSERT_AFTER l x H"
  have next': "le_next ?H = (le_next H)(x := le_next H l, l := Some x)"
    and first': "lh_first ?H = lh_first H"
    and prev': "le_prev ?H = (case ys of [] \<Rightarrow> (le_prev H)(x := Next l)
                  | y # _ \<Rightarrow> (le_prev H)(y := Next x, x := Next l))"
    by (auto simp: LIST_INSERT_AFTER_def Let_def nxt split: list.split)
  have front: "lseg ?H (First h) xs (Some l) \<longleftrightarrow> lseg H (First h) xs (Some l)"
    by (rule lseg_frame)
      (use dist fresh in \<open>auto simp: next' first' prev' split: list.split\<close>)
  have rest: "lseg ?H (Next x) ys None"
  proof (cases ys)
    case Nil
    then show ?thesis using fresh by (simp add: next' nxt)
  next
    case (Cons y zs)
    have "lseg ?H (Next y) zs None \<longleftrightarrow> lseg H (Next y) zs None"
      by (rule lseg_frame) (use dist fresh Cons in \<open>auto simp: next' prev'\<close>)
    with seg Cons fresh show ?thesis by (auto simp: next' prev' nxt)
  qed
  have "le_prev ?H l = le_prev H l"
    using dist fresh by (auto simp: prev' split: list.split)
  moreover have "le_prev ?H x = Next l"
    using dist fresh by (auto simp: prev' split: list.split)
  ultimately have whole: "lseg ?H (First h) (xs @ l # x # ys) None"
    using seg front rest by (simp add: lseg_append next')
  show ?thesis
  proof (rule list_rep_update [OF rep whole])
    show "distinct (xs @ l # x # ys)" using dist fresh by auto
    show "unlinked Q n \<or> (\<exists>zs. Q h = Some zs \<and> n \<in> set zs)" if "n \<in> set (xs @ l # x # ys)" for n
      using that at new by auto
    show "lh_first ?H g = lh_first H g" if "g \<noteq> h" for g by (simp add: first')
    show "le_next ?H y = le_next H y \<and> le_prev ?H y = le_prev H y"
      if "g \<noteq> h" "Q g = Some zs" "y \<in> set zs" for g zs y
    proof -
      have "y \<notin> set (xs @ l # ys)" using that at list_rep_unique_head [OF rep] by blast
      moreover have "y \<noteq> x" using that new by (auto simp: unlinked_def)
      ultimately show ?thesis by (auto simp: next' prev' split: list.split)
    qed
  qed
qed

section \<open>The lists as values\<close>

text \<open>
  The abstract effect of the macros on the family of lists \<open>Q\<close>. This is the level at which the
  components state their invariants.
\<close>

fun ins_before :: "'n \<Rightarrow> 'n \<Rightarrow> 'n list \<Rightarrow> 'n list" where
  "ins_before l x [] = []"
| "ins_before l x (y # ys) = (if y = l then x # y # ys else y # ins_before l x ys)"

definition q_remove :: "'n \<Rightarrow> ('h \<rightharpoonup> 'n list) \<Rightarrow> ('h \<rightharpoonup> 'n list)" where
  "q_remove x Q = (\<lambda>h. map_option (removeAll x) (Q h))"

definition q_before :: "'n \<Rightarrow> 'n \<Rightarrow> ('h \<rightharpoonup> 'n list) \<Rightarrow> ('h \<rightharpoonup> 'n list)" where
  "q_before l x Q = (\<lambda>h. map_option (ins_before l x) (Q h))"

definition q_head :: "'h \<Rightarrow> 'n \<Rightarrow> ('h \<rightharpoonup> 'n list) \<Rightarrow> ('h \<rightharpoonup> 'n list)" where
  "q_head h x Q = Q(h := map_option ((#) x) (Q h))"

definition list_head :: "'n list \<Rightarrow> 'n option" where
  "list_head xs = (case xs of [] \<Rightarrow> None | x # _ \<Rightarrow> Some x)"

lemma list_head_simps [simp]: "list_head [] = None" "list_head (x # xs) = Some x"
  by (simp_all add: list_head_def)

lemma list_head_None [simp]: "list_head xs = None \<longleftrightarrow> xs = []"
  by (cases xs) auto

lemma ins_before_notin [simp]: "l \<notin> set xs \<Longrightarrow> ins_before l x xs = xs"
  by (induction xs) auto

lemma ins_before_append: "l \<notin> set xs \<Longrightarrow> ins_before l x (xs @ l # ys) = xs @ x # l # ys"
  by (induction xs) auto

lemma set_ins_before: "set (ins_before l x xs) = (if l \<in> set xs then insert x (set xs) else set xs)"
  by (induction xs) auto

lemma q_remove_apply [simp]: "q_remove x Q h = map_option (removeAll x) (Q h)"
  and q_before_apply [simp]: "q_before l x Q h = map_option (ins_before l x) (Q h)"
  and q_head_apply [simp]: "q_head g x Q h = (if h = g then map_option ((#) x) (Q h) else Q h)"
  by (simp_all add: q_remove_def q_before_def q_head_def)

lemma dom_q [simp]:
  "dom (q_remove x Q) = dom Q" "dom (q_before l x Q) = dom Q" "dom (q_head h x Q) = dom Q"
  by (auto simp: dom_def)

lemma unlinked_q_remove [simp]: "unlinked (q_remove x Q) y \<longleftrightarrow> y = x \<or> unlinked Q y"
proof -
  have "linked (q_remove x Q) y \<longleftrightarrow> y \<noteq> x \<and> linked Q y"
    unfolding linked_iff q_remove_apply by (auto; metis Diff_iff insertE set_removeAll singletonD)
  then show ?thesis by (auto simp: linked_def)
qed

lemma linked_q_remove [simp]: "linked (q_remove x Q) y \<longleftrightarrow> y \<noteq> x \<and> linked Q y"
  by (simp add: linked_def)

lemma linked_q_before [simp]:
  "linked (q_before l x Q) y \<longleftrightarrow> linked Q y \<or> (y = x \<and> linked Q l)"
  by (fastforce simp: linked_iff set_ins_before split: if_splits)

lemma linked_q_head [simp]:
  "h \<in> dom Q \<Longrightarrow> linked (q_head h x Q) y \<longleftrightarrow> linked Q y \<or> y = x"
proof -
  assume "h \<in> dom Q"
  then obtain zs where zs: "Q h = Some zs" by auto
  have "linked (q_head h x Q) y \<longleftrightarrow> (\<exists>g ys. (if g = h then Some (x # zs) else Q g) = Some ys \<and> y \<in> set ys)"
    unfolding linked_iff by (simp add: zs cong: if_cong)
  also have "\<dots> \<longleftrightarrow> linked Q y \<or> y = x"
    unfolding linked_iff by (metis list.set_intros(1,2) option.inject set_ConsD zs)
  finally show ?thesis .
qed

lemma q_remove_unlinked: "unlinked Q x \<Longrightarrow> q_remove x Q = Q"
proof
  fix h assume "unlinked Q x"
  then show "q_remove x Q h = Q h"
    by (cases "Q h") (auto simp: removeAll_id dest: unlinkedD)
qed

section \<open>The interface the components use\<close>

text \<open>
  The queue operations as their clients know them: the laws speak of the family of lists \<open>Q\<close>, not
  of pointers. \<open>init\<close> on a non-empty head is not a list operation by itself: the timer wheel
  copies a head, empties the original and then unlinks the elements one by one, through entries
  whose \<open>le_prev\<close> still is the address of the original head.
\<close>

locale intrusive_queue =
  fixes rep :: "'m \<Rightarrow> ('h \<rightharpoonup> 'n list) \<Rightarrow> bool"
    and first :: "'m \<Rightarrow> 'h \<Rightarrow> 'n option"
    and succ :: "'m \<Rightarrow> 'n \<Rightarrow> 'n option"
    and init :: "'h \<Rightarrow> 'm \<Rightarrow> 'm"
    and ihead :: "'h \<Rightarrow> 'n \<Rightarrow> 'm \<Rightarrow> 'm"
    and ibefore :: "'n \<Rightarrow> 'n \<Rightarrow> 'm \<Rightarrow> 'm"
    and unlink :: "'n \<Rightarrow> 'm \<Rightarrow> 'm"
  assumes disjoint: "rep m Q \<Longrightarrow> disjoint_lists Q"
    and first: "rep m Q \<Longrightarrow> Q h = Some xs \<Longrightarrow> first m h = list_head xs"
    and succ: "rep m Q \<Longrightarrow> Q h = Some (xs @ x # ys) \<Longrightarrow> succ m x = list_head ys"
    and init: "rep m Q \<Longrightarrow> rep (init h m) (Q(h \<mapsto> []))"
    and init_unlink: "rep m Q \<Longrightarrow> Q h = Some (x # xs) \<Longrightarrow> unlink x (init h m) = unlink x m"
    and init_succ: "succ (init h m) = succ m"
    and ihead: "rep m Q \<Longrightarrow> h \<in> dom Q \<Longrightarrow> unlinked Q x \<Longrightarrow> rep (ihead h x m) (q_head h x Q)"
    and ibefore: "rep m Q \<Longrightarrow> linked Q l \<Longrightarrow> unlinked Q x \<Longrightarrow> rep (ibefore l x m) (q_before l x Q)"
    and unlink: "rep m Q \<Longrightarrow> linked Q x \<Longrightarrow> rep (unlink x m) (q_remove x Q)"
begin

lemma requeue_before:
  "rep m Q \<Longrightarrow> linked Q x \<Longrightarrow> linked Q l \<Longrightarrow> x \<noteq> l \<Longrightarrow>
     rep (ibefore l x (unlink x m)) (q_before l x (q_remove x Q))"
  by (rule ibefore) (auto intro: unlink)

lemma requeue_head:
  "rep m Q \<Longrightarrow> linked Q x \<Longrightarrow> h \<in> dom Q \<Longrightarrow>
     rep (ihead h x (unlink x m)) (q_head h x (q_remove x Q))"
  by (rule ihead) (auto intro: unlink)

lemma one_list: "rep m Q \<Longrightarrow> Q h = Some xs \<Longrightarrow> Q g = Some ys \<Longrightarrow> x \<in> set xs \<Longrightarrow> x \<in> set ys \<Longrightarrow> g = h"
  by (drule disjoint) (auto dest: disjoint_listsD)

lemma distinct_list: "rep m Q \<Longrightarrow> Q h = Some xs \<Longrightarrow> distinct xs"
  by (drule disjoint) (auto simp: disjoint_lists_def)

lemma unlink_front:
  assumes "rep m Q" and "Q h = Some (x # xs)"
  shows "rep (unlink x m) (q_remove x Q)" and "q_remove x Q h = Some xs"
proof -
  have "x \<notin> set xs" using distinct_list [OF assms] by simp
  with assms show "q_remove x Q h = Some xs" by (simp add: removeAll_id)
  show "rep (unlink x m) (q_remove x Q)"
    using assms(2) by (intro unlink [OF assms(1)]) (fastforce simp: linked_iff)
qed

lemma unlink_detached_front:
  assumes "rep m Q" and "Q h = Some (x # xs)"
  shows "rep (unlink x (init h m)) (q_remove x Q)"
  using unlink_front(1) [OF assms] by (simp add: init_unlink [OF assms])

end

lemma list_head_case: "(case xs of [] \<Rightarrow> None | y # _ \<Rightarrow> Some y) = list_head xs"
  by (simp add: list_head_def)

lemma q_remove_at:
  assumes "list_rep H Q" and "Q h = Some (xs @ x # ys)"
  shows "q_remove x Q = Q(h \<mapsto> xs @ ys)"
proof
  fix g
  show "q_remove x Q g = (Q(h \<mapsto> xs @ ys)) g"
  proof (cases "g = h")
    case True
    then show ?thesis
      using assms(2) removeAll_middle list_repD(2) [OF assms] by fastforce
  next
    case False
    then have "x \<notin> set zs" if "Q g = Some zs" for zs
      using that assms list_rep_unique_head by fastforce
    with False show ?thesis by (cases "Q g") (auto simp: removeAll_id)
  qed
qed

lemma q_before_at:
  assumes "list_rep H Q" and "Q h = Some (xs @ l # ys)"
  shows "q_before l x Q = Q(h \<mapsto> xs @ x # l # ys)"
proof
  fix g
  show "q_before l x Q g = (Q(h \<mapsto> xs @ x # l # ys)) g"
  proof (cases "g = h")
    case True
    then show ?thesis
      using assms(2) ins_before_append list_repD(2) [OF assms] by fastforce
  next
    case False
    then have "l \<notin> set zs" if "Q g = Some zs" for zs
      using that assms list_rep_unique_head by fastforce
    with False show ?thesis by (cases "Q g") auto
  qed
qed

lemma linked_split:
  assumes "linked Q x"
  obtains h xs ys where "Q h = Some (xs @ x # ys)"
  using assms unfolding linked_iff by (metis split_list)

lemma LIST_REMOVE_after_INIT:
  "le_prev H x = First h \<Longrightarrow> LIST_REMOVE x (LIST_INIT h H) = LIST_REMOVE x H"
  by (auto simp: LIST_REMOVE_def LIST_INIT_def set_prev_opt_def set_prev_def Let_def split: option.split)

interpretation tq: intrusive_queue list_rep lh_first le_next LIST_INIT LIST_INSERT_HEAD
  LIST_INSERT_BEFORE LIST_REMOVE
proof unfold_locales
  fix H :: "('n, 'h) lheap" and Q h g l x xs ys
  assume rep: "list_rep H Q"
  show "disjoint_lists Q" using rep by (simp add: list_rep_def)
  show "lh_first H h = list_head xs" if "Q h = Some xs"
    using list_rep_first [OF rep that] by (simp add: list_head_def)
  show "le_next H x = list_head ys" if "Q h = Some (xs @ x # ys)"
    using list_rep_next [OF rep that] by (simp add: list_head_def)
  show "list_rep (LIST_INIT h H) (Q(h \<mapsto> []))" by (rule list_rep_INIT [OF rep])
  show "LIST_REMOVE x (LIST_INIT h H) = LIST_REMOVE x H" if "Q h = Some (x # xs)"
    using list_rep_prev [OF rep, of h "[]" x xs] that by (simp add: LIST_REMOVE_after_INIT)
  show "list_rep (LIST_INSERT_HEAD h x H) (q_head h x Q)" if "h \<in> dom Q" "unlinked Q x"
    using that list_rep_INSERT_HEAD [OF rep] by (auto simp: q_head_def)
  show "list_rep (LIST_INSERT_BEFORE l x H) (q_before l x Q)" if "linked Q l" "unlinked Q x"
    using that list_rep_INSERT_BEFORE [OF rep] q_before_at [OF rep] by (metis linked_split)
  show "list_rep (LIST_REMOVE x H) (q_remove x Q)" if "linked Q x"
    using that list_rep_REMOVE [OF rep] q_remove_at [OF rep] by (metis linked_split)
qed (simp add: LIST_INIT_def)

section \<open>Loops over lists\<close>

text \<open>
  The loop returns, and folds the body over the list it started with, whenever each body leaves
  the rest of the list alone: \<open>I rest s\<close> says that \<open>rest\<close> is still to come in state \<open>s\<close>.
\<close>

lemma list_foreach_safe_fold:
  assumes step: "\<And>n rest s. I (n # rest) s \<Longrightarrow> nx s n = list_head rest \<and> I rest (body n s)"
    and start: "I xs s"
  shows "list_foreach_safe nx body (list_head xs) s = Some (fold body xs s) \<and> I [] (fold body xs s)"
  using start
proof (induction xs arbitrary: s)
  case Nil
  then show ?case by (simp add: list_foreach_safe.simps)
next
  case (Cons n rest)
  then show ?case using step [OF Cons.prems] by (simp add: list_foreach_safe.simps)
qed

lemma list_foreach_safe_keeps:
  assumes "list_foreach_safe nx body v s = Some s'" and "P s" and step: "\<And>n s. P s \<Longrightarrow> P (body n s)"
  shows "P s'"
proof -
  have "(\<forall>n s. P s \<longrightarrow> P (body n s)) \<longrightarrow> P s \<longrightarrow> P s'"
    using assms(1)
  proof (induction nx body v s s' rule: list_foreach_safe.raw_induct [rotated, consumes 1, case_names 1])
    case (1 rec nx body v s r)
    show ?case
    proof (cases v)
      case None
      then show ?thesis using 1(2) by simp
    next
      case (Some n)
      then have "rec nx body (nx s n) (body n s) = Some r" using 1(2) by simp
      from 1(1) [OF this] show ?thesis by blast
    qed
  qed
  from this [rule_format, OF step assms(2)] show ?thesis .
qed

lemma list_search_rep:
  assumes "list_rep H Q" and "Q h = Some (us @ xs)"
  shows "list_search (le_next H) p (list_head xs) = Some (find p xs)"
  using assms(2)
proof (induction xs arbitrary: us)
  case Nil
  then show ?case by (simp add: list_search.simps)
next
  case (Cons x xs)
  have "le_next H x = list_head xs" using tq.succ [OF assms(1) Cons.prems] .
  moreover have "list_search (le_next H) p (list_head xs) = Some (find p xs)"
    using Cons.IH [of "us @ [x]"] Cons.prems by simp
  ultimately show ?case by (simp add: list_search.simps)
qed

end
