(* ===== verification/TxLists.thy ===== *)
theory TxLists
  imports TxQueue
begin

text \<open>
  The other three families of \<open>include/libtx/queue.h\<close>: singly linked lists (\<open>SLIST\<close>), singly linked tail
  queues (\<open>STAILQ\<close>) and tail queues (\<open>TAILQ\<close>), at the level of the pointers the macros write. Each is
  shown to be a \<open>LIST\<close> of theory \<open>TxQueue\<close>: a tail queue has the same entries and a pointer to its last
  slot, a singly linked list has entries without \<open>le_prev\<close>, which then exists in the proof only. The
  library itself uses \<open>LIST\<close> alone; the header offers all four. The debugging variant of the header
  (\<open>QUEUE_MACRO_DEBUG\<close>) is off.
\<close>

section \<open>Singly linked lists\<close>

record ('n, 'h) sheap =
  sle_next :: "'n \<Rightarrow> 'n option"
  slh_first :: "'h \<Rightarrow> 'n option"

definition SLIST_EMPTY :: "('n, 'h) sheap \<Rightarrow> 'h \<Rightarrow> bool" where
  "SLIST_EMPTY H h \<longleftrightarrow> slh_first H h = None"

definition SLIST_INIT :: "'h \<Rightarrow> ('n, 'h) sheap \<Rightarrow> ('n, 'h) sheap" where
  "SLIST_INIT h H = H\<lparr>slh_first := (slh_first H)(h := None)\<rparr>"

definition SLIST_INSERT_AFTER :: "'n \<Rightarrow> 'n \<Rightarrow> ('n, 'h) sheap \<Rightarrow> ('n, 'h) sheap" where
  "SLIST_INSERT_AFTER slistelm elm H =
     (let H1 = H\<lparr>sle_next := (sle_next H)(elm := sle_next H slistelm)\<rparr>
      in H1\<lparr>sle_next := (sle_next H1)(slistelm := Some elm)\<rparr>)"

definition SLIST_INSERT_HEAD :: "'h \<Rightarrow> 'n \<Rightarrow> ('n, 'h) sheap \<Rightarrow> ('n, 'h) sheap" where
  "SLIST_INSERT_HEAD h elm H =
     (let H1 = H\<lparr>sle_next := (sle_next H)(elm := slh_first H h)\<rparr>
      in H1\<lparr>slh_first := (slh_first H1)(h := Some elm)\<rparr>)"

text \<open>The next pointer of a null element is a dereference of null.\<close>

definition SLIST_REMOVE_HEAD :: "'h \<Rightarrow> ('n, 'h) sheap \<Rightarrow> ('n, 'h) sheap res" where
  "SLIST_REMOVE_HEAD h H =
     (case slh_first H h of
        None \<Rightarrow> Inl NullDeref
      | Some f \<Rightarrow> Inr (H\<lparr>slh_first := (slh_first H)(h := sle_next H f)\<rparr>))"

text \<open>The loop of \<open>SLIST_REMOVE\<close> and \<open>STAILQ_REMOVE\<close>, \<open>while (NEXT(curelm) != elm) curelm = NEXT(curelm)\<close>.\<close>

partial_function (option) find_prev :: "('n \<Rightarrow> 'n option) \<Rightarrow> 'n \<Rightarrow> 'n option \<Rightarrow> 'n res option" where
  "find_prev nx elm curelm =
     (case curelm of
        None \<Rightarrow> Some (Inl NullDeref)
      | Some c \<Rightarrow> if nx c = Some elm then Some (Inr c) else find_prev nx elm (nx c))"

definition SLIST_REMOVE :: "'h \<Rightarrow> 'n \<Rightarrow> ('n, 'h) sheap \<Rightarrow> ('n, 'h) sheap res option" where
  "SLIST_REMOVE h elm H =
     (if slh_first H h = Some elm then Some (SLIST_REMOVE_HEAD h H)
      else
        map_option (\<lambda>r. res_bind r (\<lambda>curelm.
          case sle_next H curelm of
            None \<Rightarrow> Inl NullDeref
          | Some e \<Rightarrow> Inr (H\<lparr>sle_next := (sle_next H)(curelm := sle_next H e)\<rparr>)))
          (find_prev (sle_next H) elm (slh_first H h)))"

section \<open>Singly linked tail queues\<close>

text \<open>\<open>stqh_last\<close> is the address of the pointer that is null at the end, a slot as in \<open>TxQueue\<close>.\<close>

record ('n, 'h) stheap =
  stqe_next :: "'n \<Rightarrow> 'n option"
  stqh_first :: "'h \<Rightarrow> 'n option"
  stqh_last :: "'h \<Rightarrow> ('n, 'h) slot"

fun st_write :: "('n, 'h) slot \<Rightarrow> 'n option \<Rightarrow> ('n, 'h) stheap \<Rightarrow> ('n, 'h) stheap" where
  "st_write NoSlot v H = H"
| "st_write (First h) v H = H\<lparr>stqh_first := (stqh_first H)(h := v)\<rparr>"
| "st_write (Next n) v H = H\<lparr>stqe_next := (stqe_next H)(n := v)\<rparr>"

definition st_last :: "'h \<Rightarrow> ('n, 'h) slot \<Rightarrow> ('n, 'h) stheap \<Rightarrow> ('n, 'h) stheap" where
  "st_last h sl H = H\<lparr>stqh_last := (stqh_last H)(h := sl)\<rparr>"

definition STAILQ_EMPTY :: "('n, 'h) stheap \<Rightarrow> 'h \<Rightarrow> bool" where
  "STAILQ_EMPTY H h \<longleftrightarrow> stqh_first H h = None"

definition STAILQ_INIT :: "'h \<Rightarrow> ('n, 'h) stheap \<Rightarrow> ('n, 'h) stheap" where
  "STAILQ_INIT h H = st_last h (First h) (st_write (First h) None H)"

definition STAILQ_CONCAT :: "'h \<Rightarrow> 'h \<Rightarrow> ('n, 'h) stheap \<Rightarrow> ('n, 'h) stheap" where
  "STAILQ_CONCAT head1 head2 H =
     (if \<not> STAILQ_EMPTY H head2 then
        let H1 = st_write (stqh_last H head1) (stqh_first H head2) H;
            H2 = st_last head1 (stqh_last H1 head2) H1
        in STAILQ_INIT head2 H2
      else H)"

definition STAILQ_INSERT_AFTER :: "'h \<Rightarrow> 'n \<Rightarrow> 'n \<Rightarrow> ('n, 'h) stheap \<Rightarrow> ('n, 'h) stheap" where
  "STAILQ_INSERT_AFTER h tqelm elm H =
     (let H1 = st_write (Next elm) (stqe_next H tqelm) H;
          H2 = (if stqe_next H1 elm = None then st_last h (Next elm) H1 else H1)
      in st_write (Next tqelm) (Some elm) H2)"

definition STAILQ_INSERT_HEAD :: "'h \<Rightarrow> 'n \<Rightarrow> ('n, 'h) stheap \<Rightarrow> ('n, 'h) stheap" where
  "STAILQ_INSERT_HEAD h elm H =
     (let H1 = st_write (Next elm) (stqh_first H h) H;
          H2 = (if stqe_next H1 elm = None then st_last h (Next elm) H1 else H1)
      in st_write (First h) (Some elm) H2)"

definition STAILQ_INSERT_TAIL :: "'h \<Rightarrow> 'n \<Rightarrow> ('n, 'h) stheap \<Rightarrow> ('n, 'h) stheap" where
  "STAILQ_INSERT_TAIL h elm H =
     (let H1 = st_write (Next elm) None H;
          H2 = st_write (stqh_last H1 h) (Some elm) H1
      in st_last h (Next elm) H2)"

text \<open>\<open>container_of\<close> of the last slot, which of the head's own slot would be no element.\<close>

definition STAILQ_LAST :: "('n, 'h) stheap \<Rightarrow> 'h \<Rightarrow> 'n option res" where
  "STAILQ_LAST H h =
     (if STAILQ_EMPTY H h then Inr None
      else case stqh_last H h of Next n \<Rightarrow> Inr (Some n) | _ \<Rightarrow> Inl UseAfterFree)"

definition STAILQ_REMOVE_HEAD :: "'h \<Rightarrow> ('n, 'h) stheap \<Rightarrow> ('n, 'h) stheap res" where
  "STAILQ_REMOVE_HEAD h H =
     (case stqh_first H h of
        None \<Rightarrow> Inl NullDeref
      | Some f \<Rightarrow>
          let H1 = st_write (First h) (stqe_next H f) H
          in Inr (if stqh_first H1 h = None then st_last h (First h) H1 else H1))"

definition STAILQ_REMOVE_HEAD_UNTIL :: "'h \<Rightarrow> 'n \<Rightarrow> ('n, 'h) stheap \<Rightarrow> ('n, 'h) stheap" where
  "STAILQ_REMOVE_HEAD_UNTIL h elm H =
     (let H1 = st_write (First h) (stqe_next H elm) H
      in if stqh_first H1 h = None then st_last h (First h) H1 else H1)"

definition STAILQ_REMOVE :: "'h \<Rightarrow> 'n \<Rightarrow> ('n, 'h) stheap \<Rightarrow> ('n, 'h) stheap res option" where
  "STAILQ_REMOVE h elm H =
     (if stqh_first H h = Some elm then Some (STAILQ_REMOVE_HEAD h H)
      else
        map_option (\<lambda>r. res_bind r (\<lambda>curelm.
          case stqe_next H curelm of
            None \<Rightarrow> Inl NullDeref
          | Some e \<Rightarrow>
              let H1 = st_write (Next curelm) (stqe_next H e) H
              in Inr (if stqe_next H1 curelm = None then st_last h (Next curelm) H1 else H1)))
          (find_prev (stqe_next H) elm (stqh_first H h)))"

section \<open>Tail queues\<close>

record ('n, 'h) theap =
  tqe_next :: "'n \<Rightarrow> 'n option"
  tqe_prev :: "'n \<Rightarrow> ('n, 'h) slot"
  tqh_first :: "'h \<Rightarrow> 'n option"
  tqh_last :: "'h \<Rightarrow> ('n, 'h) slot"

fun tq_read :: "('n, 'h) theap \<Rightarrow> ('n, 'h) slot \<Rightarrow> 'n option" where
  "tq_read H NoSlot = None"
| "tq_read H (First h) = tqh_first H h"
| "tq_read H (Next n) = tqe_next H n"

fun tq_write :: "('n, 'h) slot \<Rightarrow> 'n option \<Rightarrow> ('n, 'h) theap \<Rightarrow> ('n, 'h) theap" where
  "tq_write NoSlot v H = H"
| "tq_write (First h) v H = H\<lparr>tqh_first := (tqh_first H)(h := v)\<rparr>"
| "tq_write (Next n) v H = H\<lparr>tqe_next := (tqe_next H)(n := v)\<rparr>"

definition tq_prev :: "'n \<Rightarrow> ('n, 'h) slot \<Rightarrow> ('n, 'h) theap \<Rightarrow> ('n, 'h) theap" where
  "tq_prev n sl H = H\<lparr>tqe_prev := (tqe_prev H)(n := sl)\<rparr>"

definition tq_last :: "'h \<Rightarrow> ('n, 'h) slot \<Rightarrow> ('n, 'h) theap \<Rightarrow> ('n, 'h) theap" where
  "tq_last h sl H = H\<lparr>tqh_last := (tqh_last H)(h := sl)\<rparr>"

definition TAILQ_EMPTY :: "('n, 'h) theap \<Rightarrow> 'h \<Rightarrow> bool" where
  "TAILQ_EMPTY H h \<longleftrightarrow> tqh_first H h = None"

definition TAILQ_INIT :: "'h \<Rightarrow> ('n, 'h) theap \<Rightarrow> ('n, 'h) theap" where
  "TAILQ_INIT h H = tq_last h (First h) (tq_write (First h) None H)"

definition TAILQ_CONCAT :: "'h \<Rightarrow> 'h \<Rightarrow> ('n, 'h) theap \<Rightarrow> ('n, 'h) theap" where
  "TAILQ_CONCAT head1 head2 H =
     (case tqh_first H head2 of
        None \<Rightarrow> H
      | Some f \<Rightarrow>
          let H1 = tq_write (tqh_last H head1) (Some f) H;
              H2 = tq_prev f (tqh_last H1 head1) H1;
              H3 = tq_last head1 (tqh_last H2 head2) H2
          in TAILQ_INIT head2 H3)"

definition TAILQ_INSERT_AFTER :: "'h \<Rightarrow> 'n \<Rightarrow> 'n \<Rightarrow> ('n, 'h) theap \<Rightarrow> ('n, 'h) theap" where
  "TAILQ_INSERT_AFTER h listelm elm H =
     (let H1 = tq_write (Next elm) (tqe_next H listelm) H;
          H2 = (case tqe_next H1 elm of Some n \<Rightarrow> tq_prev n (Next elm) H1 | None \<Rightarrow> tq_last h (Next elm) H1);
          H3 = tq_write (Next listelm) (Some elm) H2
      in tq_prev elm (Next listelm) H3)"

definition TAILQ_INSERT_BEFORE :: "'n \<Rightarrow> 'n \<Rightarrow> ('n, 'h) theap \<Rightarrow> ('n, 'h) theap" where
  "TAILQ_INSERT_BEFORE listelm elm H =
     (let H1 = tq_prev elm (tqe_prev H listelm) H;
          H2 = tq_write (Next elm) (Some listelm) H1;
          H3 = tq_write (tqe_prev H2 listelm) (Some elm) H2
      in tq_prev listelm (Next elm) H3)"

definition TAILQ_INSERT_HEAD :: "'h \<Rightarrow> 'n \<Rightarrow> ('n, 'h) theap \<Rightarrow> ('n, 'h) theap" where
  "TAILQ_INSERT_HEAD h elm H =
     (let H1 = tq_write (Next elm) (tqh_first H h) H;
          H2 = (case tqe_next H1 elm of Some n \<Rightarrow> tq_prev n (Next elm) H1 | None \<Rightarrow> tq_last h (Next elm) H1);
          H3 = tq_write (First h) (Some elm) H2
      in tq_prev elm (First h) H3)"

definition TAILQ_INSERT_TAIL :: "'h \<Rightarrow> 'n \<Rightarrow> ('n, 'h) theap \<Rightarrow> ('n, 'h) theap" where
  "TAILQ_INSERT_TAIL h elm H =
     (let H1 = tq_write (Next elm) None H;
          H2 = tq_prev elm (tqh_last H1 h) H1;
          H3 = tq_write (tqh_last H2 h) (Some elm) H2
      in tq_last h (Next elm) H3)"

definition TAILQ_REMOVE :: "'h \<Rightarrow> 'n \<Rightarrow> ('n, 'h) theap \<Rightarrow> ('n, 'h) theap" where
  "TAILQ_REMOVE h elm H =
     (let H1 = (case tqe_next H elm of Some n \<Rightarrow> tq_prev n (tqe_prev H elm) H | None \<Rightarrow> tq_last h (tqe_prev H elm) H)
      in tq_write (tqe_prev H1 elm) (tqe_next H1 elm) H1)"

text \<open>
  \<open>((struct headname *)p)->tqh_last\<close>: heads and entries have the same layout, so of a slot of a head it is
  \<open>tqh_last\<close>, of a slot of an element its \<open>tqe_prev\<close>.
\<close>

fun slot_last :: "('n, 'h) theap \<Rightarrow> ('n, 'h) slot \<Rightarrow> ('n, 'h) slot" where
  "slot_last H NoSlot = NoSlot"
| "slot_last H (First h) = tqh_last H h"
| "slot_last H (Next n) = tqe_prev H n"

definition TAILQ_LAST :: "('n, 'h) theap \<Rightarrow> 'h \<Rightarrow> 'n option" where
  "TAILQ_LAST H h = tq_read H (slot_last H (tqh_last H h))"

definition TAILQ_PREV :: "('n, 'h) theap \<Rightarrow> 'n \<Rightarrow> 'n option" where
  "TAILQ_PREV H elm = tq_read H (slot_last H (tqe_prev H elm))"

section \<open>Loops\<close>

text \<open>
  The \<open>FOREACH_SAFE\<close> macros read the successor before the body (\<open>list_foreach_safe\<close>), the \<open>FOREACH\<close> macros
  after it. \<open>hp\<close> reads the lists in the state the body works on.
\<close>

partial_function (option) list_foreach ::
    "('s \<Rightarrow> 'n \<Rightarrow> 'n option) \<Rightarrow> ('n \<Rightarrow> 's \<Rightarrow> 's) \<Rightarrow> 'n option \<Rightarrow> 's \<Rightarrow> 's option" where
  "list_foreach nx body var s =
     (case var of
        None \<Rightarrow> Some s
      | Some n \<Rightarrow> let s' = body n s in list_foreach nx body (nx s' n) s')"

definition SLIST_FOREACH :: "('s \<Rightarrow> ('n, 'h) sheap) \<Rightarrow> 'h \<Rightarrow> ('n \<Rightarrow> 's \<Rightarrow> 's) \<Rightarrow> 's \<Rightarrow> 's option" where
  "SLIST_FOREACH hp h body s = list_foreach (\<lambda>s. sle_next (hp s)) body (slh_first (hp s) h) s"

definition SLIST_FOREACH_SAFE :: "('s \<Rightarrow> ('n, 'h) sheap) \<Rightarrow> 'h \<Rightarrow> ('n \<Rightarrow> 's \<Rightarrow> 's) \<Rightarrow> 's \<Rightarrow> 's option" where
  "SLIST_FOREACH_SAFE hp h body s = list_foreach_safe (\<lambda>s. sle_next (hp s)) body (slh_first (hp s) h) s"

definition STAILQ_FOREACH :: "('s \<Rightarrow> ('n, 'h) stheap) \<Rightarrow> 'h \<Rightarrow> ('n \<Rightarrow> 's \<Rightarrow> 's) \<Rightarrow> 's \<Rightarrow> 's option" where
  "STAILQ_FOREACH hp h body s = list_foreach (\<lambda>s. stqe_next (hp s)) body (stqh_first (hp s) h) s"

definition STAILQ_FOREACH_SAFE :: "('s \<Rightarrow> ('n, 'h) stheap) \<Rightarrow> 'h \<Rightarrow> ('n \<Rightarrow> 's \<Rightarrow> 's) \<Rightarrow> 's \<Rightarrow> 's option" where
  "STAILQ_FOREACH_SAFE hp h body s = list_foreach_safe (\<lambda>s. stqe_next (hp s)) body (stqh_first (hp s) h) s"

definition TAILQ_FOREACH :: "('s \<Rightarrow> ('n, 'h) theap) \<Rightarrow> 'h \<Rightarrow> ('n \<Rightarrow> 's \<Rightarrow> 's) \<Rightarrow> 's \<Rightarrow> 's option" where
  "TAILQ_FOREACH hp h body s = list_foreach (\<lambda>s. tqe_next (hp s)) body (tqh_first (hp s) h) s"

definition TAILQ_FOREACH_SAFE :: "('s \<Rightarrow> ('n, 'h) theap) \<Rightarrow> 'h \<Rightarrow> ('n \<Rightarrow> 's \<Rightarrow> 's) \<Rightarrow> 's \<Rightarrow> 's option" where
  "TAILQ_FOREACH_SAFE hp h body s = list_foreach_safe (\<lambda>s. tqe_next (hp s)) body (tqh_first (hp s) h) s"

definition TAILQ_FOREACH_REVERSE ::
    "('s \<Rightarrow> ('n, 'h) theap) \<Rightarrow> 'h \<Rightarrow> ('n \<Rightarrow> 's \<Rightarrow> 's) \<Rightarrow> 's \<Rightarrow> 's option" where
  "TAILQ_FOREACH_REVERSE hp h body s =
     list_foreach (\<lambda>s n. TAILQ_PREV (hp s) n) body (TAILQ_LAST (hp s) h) s"

definition TAILQ_FOREACH_REVERSE_SAFE ::
    "('s \<Rightarrow> ('n, 'h) theap) \<Rightarrow> 'h \<Rightarrow> ('n \<Rightarrow> 's \<Rightarrow> 's) \<Rightarrow> 's \<Rightarrow> 's option" where
  "TAILQ_FOREACH_REVERSE_SAFE hp h body s =
     list_foreach_safe (\<lambda>s n. TAILQ_PREV (hp s) n) body (TAILQ_LAST (hp s) h) s"

text \<open>\<open>SLIST_FOREACH_PREVPTR\<close>: the loop variable is the address of the pointer to the element.\<close>

fun sl_read :: "('n, 'h) sheap \<Rightarrow> ('n, 'h) slot \<Rightarrow> 'n option" where
  "sl_read H NoSlot = None"
| "sl_read H (First h) = slh_first H h"
| "sl_read H (Next n) = sle_next H n"

partial_function (option) slist_foreach_prevptr ::
    "('s \<Rightarrow> ('n, 'h) sheap) \<Rightarrow> ('n \<Rightarrow> ('n, 'h) slot \<Rightarrow> 's \<Rightarrow> 's) \<Rightarrow> ('n, 'h) slot \<Rightarrow> 's \<Rightarrow> 's option" where
  "slist_foreach_prevptr hp body varp s =
     (case sl_read (hp s) varp of
        None \<Rightarrow> Some s
      | Some var \<Rightarrow> slist_foreach_prevptr hp body (Next var) (body var varp s))"

definition SLIST_FOREACH_PREVPTR ::
    "('s \<Rightarrow> ('n, 'h) sheap) \<Rightarrow> 'h \<Rightarrow> ('n \<Rightarrow> ('n, 'h) slot \<Rightarrow> 's \<Rightarrow> 's) \<Rightarrow> 's \<Rightarrow> 's option" where
  "SLIST_FOREACH_PREVPTR hp h body s = slist_foreach_prevptr hp body (First h) s"

text \<open>The two kinds of loop agree when no body touches the links.\<close>

lemma list_foreach_const:
  assumes "list_foreach_safe (\<lambda>_. nx) body v s = Some s'"
  shows "list_foreach (\<lambda>_. nx) body v s = Some s'"
proof -
  have "\<forall>nx0. nx = (\<lambda>_. nx0) \<longrightarrow> list_foreach nx body v s = Some s'"
    if "list_foreach_safe nx body v s = Some s'" for nx
    using that
  proof (induction nx body v s s' rule: list_foreach_safe.raw_induct [rotated, consumes 1, case_names 1])
    case (1 rec nx body v s r)
    then show ?case by (cases v) (auto simp: list_foreach.simps Let_def)
  qed
  from this [OF assms] show ?thesis by simp
qed

section \<open>What the macros do to the links\<close>

text \<open>Appending at the last slot, and moving one list behind another, for the links of \<open>LIST\<close>.\<close>

lemma list_rep_append:
  assumes rep: "list_rep H Q" and at: "Q h = Some xs" and new: "unlinked Q x"
  shows "list_rep (set_prev x (end_slot (First h) xs) (slot_write (end_slot (First h) xs) (Some x)
    (slot_write (Next x) None H))) (Q(h \<mapsto> xs @ [x]))"
proof (cases xs rule: rev_cases)
  case Nil
  have "lh_first H h = None" using list_rep_first [OF rep at] by (simp add: Nil)
  then show ?thesis using list_rep_INSERT_HEAD [OF rep at new]
    by (simp add: Nil LIST_INSERT_HEAD_def Let_def)
next
  case (snoc ys l)
  have "x \<noteq> l" using unlinkedD [OF new at] by (simp add: snoc)
  moreover have "le_next H l = None" using list_rep_next [OF rep, of h ys l "[]"] at by (simp add: snoc)
  ultimately show ?thesis using list_rep_INSERT_AFTER [OF rep, of h ys l "[]" x] at new
    by (simp add: snoc LIST_INSERT_AFTER_def Let_def end_slot_def)
qed

lemma list_rep_concat:
  assumes rep: "list_rep H Q" and at: "Q h = Some xs" "Q g = Some (y # ys)" "h \<noteq> g"
  shows "list_rep (LIST_INIT g (set_prev y (end_slot (First h) xs) (slot_write (end_slot (First h) xs) (Some y) H)))
    (Q(h \<mapsto> xs @ y # ys, g \<mapsto> []))" (is "list_rep ?H _")
proof -
  define e where "e = end_slot (First h :: ('a, 'b) slot) xs"
  define H0 where "H0 = LIST_INIT g H"
  have rep0: "list_rep H0 (Q(g \<mapsto> []))" unfolding H0_def by (rule list_rep_INIT [OF rep])
  have apart: "set xs \<inter> set (y # ys) = {}"
    using list_rep_unique_head [OF rep at(1,2)] at(3) by blast
  have dist: "distinct xs" "distinct (y # ys)"
    using list_repD(2) [OF rep at(1)] list_repD(2) [OF rep at(2)] by simp_all
  have H': "?H = set_prev y e (slot_write e (Some y) H0)"
    unfolding H0_def e_def using at(3) by (cases xs rule: rev_cases) (auto simp: LIST_INIT_def set_prev_def end_slot_def fun_upd_twist)
  have e: "e \<noteq> Next z" if "z \<in> set (y # ys)" for z
    using apart that by (cases xs rule: rev_cases) (auto simp: e_def end_slot_def)
  have keep: "le_next ?H n = le_next H n" if "n \<notin> set xs" for n
    using that unfolding H' e_def by (simp add: end_slot_write_next H0_def LIST_INIT_def)
  have "lseg H0 (First h) xs None"
    using list_repD(1) [OF rep0] at by simp
  then have "lseg (slot_write e (Some y) H0) (First h) xs (Some y)"
    unfolding e_def by (rule lseg_redirect) (use dist in auto)
  moreover have "lseg ?H (First h) xs (Some y) \<longleftrightarrow> lseg (slot_write e (Some y) H0) (First h) xs (Some y)"
    by (rule lseg_frame) (use apart in \<open>auto simp: H' intro!: slot_read_cong\<close>)
  ultimately have front: "lseg ?H (First h) xs (Some y)" by simp
  have "lseg H (Next y) ys None" using list_repD(1) [OF rep at(2)] by simp
  moreover have "lseg ?H (Next y) ys None \<longleftrightarrow> lseg H (Next y) ys None"
  proof (rule lseg_frame)
    show "slot_read ?H (Next y) = slot_read H (Next y)" using keep [of y] apart by auto
    show "le_next ?H n = le_next H n \<and> le_prev ?H n = le_prev H n" if "n \<in> set ys" for n
      using that keep [of n] apart dist(2) by (auto simp: LIST_INIT_def)
  qed
  ultimately have whole: "lseg ?H (First h) (xs @ y # ys) None"
    using front by (simp add: lseg_append LIST_INIT_def e_def [symmetric])
  have "list_rep ?H ((Q(g \<mapsto> []))(h \<mapsto> xs @ y # ys))"
  proof (rule list_rep_update [OF rep0 whole])
    show "distinct (xs @ y # ys)" using dist apart by auto
    show "unlinked (Q(g \<mapsto> [])) n \<or> (\<exists>zs. (Q(g \<mapsto> [])) h = Some zs \<and> n \<in> set zs)" if "n \<in> set (xs @ y # ys)" for n
    proof (cases "n \<in> set xs")
      case True
      then show ?thesis using at by auto
    next
      case False
      then have n: "n \<in> set (y # ys)" using that by auto
      have "k = g" if "Q k = Some zs" "n \<in> set zs" for k zs
        using list_rep_unique_head [OF rep at(2) that(1) n that(2)] by simp
      then show ?thesis by (auto simp: unlinked_def split: if_splits)
    qed
    show "lh_first ?H k = lh_first H0 k" if "k \<noteq> h" for k
      using that unfolding H' e_def by (simp add: end_slot_write_first)
    show "le_next ?H n = le_next H0 n \<and> le_prev ?H n = le_prev H0 n"
      if "k \<noteq> h" "(Q(g \<mapsto> [])) k = Some zs" "n \<in> set zs" for k zs n
    proof -
      have k: "Q k = Some zs" "k \<noteq> g" using that by (auto split: if_splits)
      then have "n \<notin> set xs" "n \<noteq> y"
        using that list_rep_unique_head [OF rep] at by (blast, fastforce)
      then show ?thesis using keep by (auto simp: LIST_INIT_def H0_def)
    qed
  qed
  then show ?thesis using at(3) by (simp add: fun_upd_twist)
qed

lemma list_rep_drop:
  assumes rep: "list_rep H Q" and at: "Q h = Some (xs @ x # ys)"
  shows "list_rep (set_prev_opt (le_next H x) (First h) (slot_write (First h) (le_next H x) H)) (Q(h \<mapsto> ys))"
    (is "list_rep ?H _")
proof -
  have nxt: "le_next H x = (case ys of [] \<Rightarrow> None | y # _ \<Rightarrow> Some y)" by (rule list_rep_next [OF rep at])
  have seg: "lseg H (Next x) ys None" using list_repD(1) [OF rep at] by (simp add: lseg_append)
  have dist: "distinct (xs @ x # ys)" by (rule list_repD(2) [OF rep at])
  have "lseg ?H (First h) ys None"
  proof (cases ys)
    case (Cons y zs)
    have "lseg ?H (Next y) zs None \<longleftrightarrow> lseg H (Next y) zs None"
      by (rule lseg_frame) (use dist Cons in \<open>auto simp: nxt\<close>)
    then show ?thesis using seg by (simp add: Cons nxt)
  qed (simp add: nxt)
  then show ?thesis
  proof (rule list_rep_update [OF rep])
    show "distinct ys" using dist by simp
    show "unlinked Q n \<or> (\<exists>zs. Q h = Some zs \<and> n \<in> set zs)" if "n \<in> set ys" for n
      using that at by auto
    show "lh_first ?H g = lh_first H g" if "g \<noteq> h" for g using that by simp
    show "le_next ?H y = le_next H y \<and> le_prev ?H y = le_prev H y"
      if "g \<noteq> h" "Q g = Some zs" "y \<in> set zs" for g zs y
    proof -
      have "y \<notin> set (xs @ x # ys)" using that at list_rep_unique_head [OF rep] by blast
      then show ?thesis by (auto simp: nxt split: list.split)
    qed
  qed
qed


section \<open>Sequences of operations and what they mean\<close>

text \<open>
  One operation of the four families. \<open>lop_spec\<close> is its meaning on the lists of the heads; it is \<open>None\<close>
  where the macro may not be used: on a head that holds no list, next to an element of no list, or with an
  element that is still linked.
\<close>

datatype ('n, 'h) lop =
    LInit 'h
  | LHead 'h 'n
  | LTail 'h 'n
  | LAfter 'h 'n 'n
  | LBefore 'n 'n
  | LConcat 'h 'h
  | LRemove 'h 'n
  | LRemoveHead 'h
  | LRemoveUntil 'h 'n

fun ins_after :: "'n \<Rightarrow> 'n \<Rightarrow> 'n list \<Rightarrow> 'n list" where
  "ins_after l x [] = []"
| "ins_after l x (y # ys) = (if y = l then y # x # ys else y # ins_after l x ys)"

fun after_elem :: "'n \<Rightarrow> 'n list \<Rightarrow> 'n list" where
  "after_elem x [] = []"
| "after_elem x (y # ys) = (if y = x then ys else after_elem x ys)"

fun lop_spec :: "('n, 'h) lop \<Rightarrow> ('h \<rightharpoonup> 'n list) \<Rightarrow> ('h \<rightharpoonup> 'n list) option" where
  "lop_spec (LInit h) Q = Some (Q(h \<mapsto> []))"
| "lop_spec (LHead h x) Q =
     (case Q h of Some xs \<Rightarrow> if unlinked Q x then Some (Q(h \<mapsto> x # xs)) else None | None \<Rightarrow> None)"
| "lop_spec (LTail h x) Q =
     (case Q h of Some xs \<Rightarrow> if unlinked Q x then Some (Q(h \<mapsto> xs @ [x])) else None | None \<Rightarrow> None)"
| "lop_spec (LAfter h l x) Q =
     (case Q h of
        Some xs \<Rightarrow> if l \<in> set xs \<and> unlinked Q x then Some (Q(h \<mapsto> ins_after l x xs)) else None
      | None \<Rightarrow> None)"
| "lop_spec (LBefore l x) Q = (if linked Q l \<and> unlinked Q x then Some (q_before l x Q) else None)"
| "lop_spec (LConcat h g) Q =
     (case (Q h, Q g) of
        (Some xs, Some ys) \<Rightarrow> if h \<noteq> g then Some (Q(h \<mapsto> xs @ ys, g \<mapsto> [])) else None
      | _ \<Rightarrow> None)"
| "lop_spec (LRemove h x) Q =
     (case Q h of Some xs \<Rightarrow> if x \<in> set xs then Some (Q(h \<mapsto> removeAll x xs)) else None | None \<Rightarrow> None)"
| "lop_spec (LRemoveHead h) Q = (case Q h of Some (x # xs) \<Rightarrow> Some (Q(h \<mapsto> xs)) | _ \<Rightarrow> None)"
| "lop_spec (LRemoveUntil h x) Q =
     (case Q h of Some xs \<Rightarrow> if x \<in> set xs then Some (Q(h \<mapsto> after_elem x xs)) else None | None \<Rightarrow> None)"

fun lops_spec :: "('n, 'h) lop list \<Rightarrow> ('h \<rightharpoonup> 'n list) \<Rightarrow> ('h \<rightharpoonup> 'n list) option" where
  "lops_spec [] Q = Some Q"
| "lops_spec (p # ps) Q = Option.bind (lop_spec p Q) (lops_spec ps)"

text \<open>The macros of each family; \<open>None\<close> where the family has no such macro.\<close>

fun slist_op :: "('n, 'h) lop \<Rightarrow> (('n, 'h) sheap \<Rightarrow> ('n, 'h) sheap res option) option" where
  "slist_op (LInit h) = Some (Some \<circ> Inr \<circ> SLIST_INIT h)"
| "slist_op (LHead h x) = Some (Some \<circ> Inr \<circ> SLIST_INSERT_HEAD h x)"
| "slist_op (LAfter h l x) = Some (Some \<circ> Inr \<circ> SLIST_INSERT_AFTER l x)"
| "slist_op (LRemove h x) = Some (SLIST_REMOVE h x)"
| "slist_op (LRemoveHead h) = Some (Some \<circ> SLIST_REMOVE_HEAD h)"
| "slist_op _ = None"

fun stailq_op :: "('n, 'h) lop \<Rightarrow> (('n, 'h) stheap \<Rightarrow> ('n, 'h) stheap res option) option" where
  "stailq_op (LInit h) = Some (Some \<circ> Inr \<circ> STAILQ_INIT h)"
| "stailq_op (LHead h x) = Some (Some \<circ> Inr \<circ> STAILQ_INSERT_HEAD h x)"
| "stailq_op (LTail h x) = Some (Some \<circ> Inr \<circ> STAILQ_INSERT_TAIL h x)"
| "stailq_op (LAfter h l x) = Some (Some \<circ> Inr \<circ> STAILQ_INSERT_AFTER h l x)"
| "stailq_op (LConcat h g) = Some (Some \<circ> Inr \<circ> STAILQ_CONCAT h g)"
| "stailq_op (LRemove h x) = Some (STAILQ_REMOVE h x)"
| "stailq_op (LRemoveHead h) = Some (Some \<circ> STAILQ_REMOVE_HEAD h)"
| "stailq_op (LRemoveUntil h x) = Some (Some \<circ> Inr \<circ> STAILQ_REMOVE_HEAD_UNTIL h x)"
| "stailq_op _ = None"

fun list_op :: "('n, 'h) lop \<Rightarrow> (('n, 'h) lheap \<Rightarrow> ('n, 'h) lheap res option) option" where
  "list_op (LInit h) = Some (Some \<circ> Inr \<circ> LIST_INIT h)"
| "list_op (LHead h x) = Some (Some \<circ> Inr \<circ> LIST_INSERT_HEAD h x)"
| "list_op (LAfter h l x) = Some (Some \<circ> Inr \<circ> LIST_INSERT_AFTER l x)"
| "list_op (LBefore l x) = Some (Some \<circ> Inr \<circ> LIST_INSERT_BEFORE l x)"
| "list_op (LRemove h x) = Some (Some \<circ> Inr \<circ> LIST_REMOVE x)"
| "list_op _ = None"

fun tailq_op :: "('n, 'h) lop \<Rightarrow> (('n, 'h) theap \<Rightarrow> ('n, 'h) theap res option) option" where
  "tailq_op (LInit h) = Some (Some \<circ> Inr \<circ> TAILQ_INIT h)"
| "tailq_op (LHead h x) = Some (Some \<circ> Inr \<circ> TAILQ_INSERT_HEAD h x)"
| "tailq_op (LTail h x) = Some (Some \<circ> Inr \<circ> TAILQ_INSERT_TAIL h x)"
| "tailq_op (LAfter h l x) = Some (Some \<circ> Inr \<circ> TAILQ_INSERT_AFTER h l x)"
| "tailq_op (LBefore l x) = Some (Some \<circ> Inr \<circ> TAILQ_INSERT_BEFORE l x)"
| "tailq_op (LConcat h g) = Some (Some \<circ> Inr \<circ> TAILQ_CONCAT h g)"
| "tailq_op (LRemove h x) = Some (Some \<circ> Inr \<circ> TAILQ_REMOVE h x)"
| "tailq_op _ = None"

text \<open>A program of such operations: an error or a loop that does not end stops it.\<close>

fun run_ops :: "(('n, 'h) lop \<Rightarrow> ('m \<Rightarrow> 'm res option) option) \<Rightarrow> ('n, 'h) lop list \<Rightarrow> 'm \<Rightarrow> 'm res option" where
  "run_ops f [] m = Some (Inr m)"
| "run_ops f (p # ps) m =
     (case f p of
        None \<Rightarrow> None
      | Some g \<Rightarrow> (case g m of Some (Inr m') \<Rightarrow> run_ops f ps m' | r \<Rightarrow> r))"

definition offers :: "(('n, 'h) lop \<Rightarrow> ('m \<Rightarrow> 'm res option) option) \<Rightarrow> ('n, 'h) lop list \<Rightarrow> bool" where
  "offers f ps \<longleftrightarrow> list_all (\<lambda>p. f p \<noteq> None) ps"

lemma after_elem_append: "x \<notin> set xs \<Longrightarrow> after_elem x (xs @ x # ys) = ys"
  by (induction xs) auto

lemma ins_after_append: "l \<notin> set xs \<Longrightarrow> ins_after l x (xs @ l # ys) = xs @ l # x # ys"
  by (induction xs) auto

text \<open>
  What each operation of the specification asks for and gives, at the place in the list where it acts;
  \<open>disjoint_lists\<close> makes that place unique.
\<close>

lemma distinct_at: "disjoint_lists Q \<Longrightarrow> Q h = Some xs \<Longrightarrow> distinct xs"
  by (auto simp: disjoint_lists_def)

lemma split_at:
  assumes "disjoint_lists Q" and "Q h = Some zs" and "x \<in> set zs"
  obtains xs ys where "zs = xs @ x # ys" and "x \<notin> set xs" and "x \<notin> set ys"
  using split_list [OF assms(3)] distinct_at [OF assms(1,2)] by auto

lemma lop_after:
  assumes "lop_spec (LAfter h l x) Q = Some Q'" and "disjoint_lists Q"
  obtains xs ys where "Q h = Some (xs @ l # ys)" and "unlinked Q x" and "Q' = Q(h \<mapsto> xs @ l # x # ys)"
proof -
  obtain zs where zs: "Q h = Some zs" "l \<in> set zs" "unlinked Q x" "Q' = Q(h \<mapsto> ins_after l x zs)"
    using assms(1) by (auto split: option.splits if_splits)
  obtain xs ys where "zs = xs @ l # ys" "l \<notin> set xs" using split_at [OF assms(2) zs(1,2)] .
  then show ?thesis using that zs by (simp add: ins_after_append)
qed

lemma lop_remove:
  assumes "lop_spec (LRemove h x) Q = Some Q'" and "disjoint_lists Q"
  obtains xs ys where "Q h = Some (xs @ x # ys)" and "x \<notin> set xs" and "Q' = Q(h \<mapsto> xs @ ys)"
proof -
  obtain zs where zs: "Q h = Some zs" "x \<in> set zs" "Q' = Q(h \<mapsto> removeAll x zs)"
    using assms(1) by (auto split: option.splits if_splits)
  obtain xs ys where "zs = xs @ x # ys" "x \<notin> set xs" "x \<notin> set ys" using split_at [OF assms(2) zs(1,2)] .
  then show ?thesis using that zs by (simp add: removeAll_id)
qed

lemma lop_until:
  assumes "lop_spec (LRemoveUntil h x) Q = Some Q'" and "disjoint_lists Q"
  obtains xs ys where "Q h = Some (xs @ x # ys)" and "Q' = Q(h \<mapsto> ys)"
proof -
  obtain zs where zs: "Q h = Some zs" "x \<in> set zs" "Q' = Q(h \<mapsto> after_elem x zs)"
    using assms(1) by (auto split: option.splits if_splits)
  obtain xs ys where "zs = xs @ x # ys" "x \<notin> set xs" using split_at [OF assms(2) zs(1,2)] .
  then show ?thesis using that zs by (simp add: after_elem_append)
qed

lemma lop_before:
  assumes "lop_spec (LBefore l x) Q = Some Q'" and "list_rep H Q"
  obtains h xs ys where "Q h = Some (xs @ l # ys)" and "unlinked Q x" and "Q' = Q(h \<mapsto> xs @ x # l # ys)"
proof -
  have "linked Q l" "unlinked Q x" "Q' = q_before l x Q" using assms(1) by (auto split: if_splits)
  then show ?thesis using that linked_split q_before_at [OF assms(2)] by metis
qed

lemma lop_concat:
  assumes "lop_spec (LConcat h g) Q = Some Q'"
  obtains xs ys where "Q h = Some xs" and "Q g = Some ys" and "h \<noteq> g" and "Q' = Q(h \<mapsto> xs @ ys, g \<mapsto> [])"
  using assms by (auto split: option.splits if_splits)

section \<open>The interfaces\<close>

text \<open>
  What a client of one of the families relies on: the macros offered do what \<open>lop_spec\<close> says, and the first
  element and the successors are those of the list. A tail queue also gives the last element, and
  \<open>TAILQ\<close> the predecessors.
\<close>

locale queue_macros =
  fixes rep :: "'m \<Rightarrow> ('h \<rightharpoonup> 'n list) \<Rightarrow> bool"
    and mop :: "('n, 'h) lop \<Rightarrow> ('m \<Rightarrow> 'm res option) option"
    and first :: "'m \<Rightarrow> 'h \<Rightarrow> 'n option"
    and succ :: "'m \<Rightarrow> 'n \<Rightarrow> 'n option"
  assumes start: "rep m Map.empty"
    and first: "rep m Q \<Longrightarrow> Q h = Some xs \<Longrightarrow> first m h = list_head xs"
    and succ: "rep m Q \<Longrightarrow> Q h = Some (xs @ x # ys) \<Longrightarrow> succ m x = list_head ys"
    and step: "rep m Q \<Longrightarrow> mop p = Some f \<Longrightarrow> lop_spec p Q = Some Q' \<Longrightarrow> \<exists>m'. f m = Some (Inr m') \<and> rep m' Q'"
begin

lemma steps:
  assumes "offers mop ps" and "lops_spec ps Q = Some Q'" and "rep m Q"
  shows "\<exists>m'. run_ops mop ps m = Some (Inr m') \<and> rep m' Q'"
  using assms
proof (induction ps arbitrary: Q m)
  case (Cons p ps)
  obtain f Q1 where f: "mop p = Some f" "lop_spec p Q = Some Q1" "lops_spec ps Q1 = Some Q'"
    using Cons.prems(1,2) by (auto simp: offers_def bind_eq_Some_conv)
  obtain m1 where m1: "f m = Some (Inr m1)" "rep m1 Q1" using step [OF Cons.prems(3) f(1,2)] by blast
  have "\<exists>m'. run_ops mop ps m1 = Some (Inr m') \<and> rep m' Q'"
    using Cons.IH [OF _ f(3) m1(2)] Cons.prems(1) by (simp add: offers_def)
  then show ?case by (simp add: f(1) m1(1))
qed simp

lemma first_None: "rep m Q \<Longrightarrow> Q h = Some xs \<Longrightarrow> first m h = None \<longleftrightarrow> xs = []"
  by (simp add: first)

text \<open>The loop over a list none of whose bodies touches the links.\<close>

lemma walk_from:
  assumes "rep m Q" and "Q h = Some (us @ xs)"
  shows "list_foreach_safe (\<lambda>_. succ m) body (list_head xs) s = Some (fold body xs s)"
  using assms(2)
proof (induction xs arbitrary: us s)
  case Nil
  then show ?case by (simp add: list_foreach_safe.simps)
next
  case (Cons x xs)
  have "succ m x = list_head xs" by (rule succ [OF assms(1) Cons.prems])
  then show ?case using Cons.IH [of "us @ [x]"] Cons.prems by (simp add: list_foreach_safe.simps)
qed

lemma walk:
  assumes "rep m Q" and "Q h = Some xs"
  shows "list_foreach_safe (\<lambda>_. succ m) body (first m h) s = Some (fold body xs s)"
    and "list_foreach (\<lambda>_. succ m) body (first m h) s = Some (fold body xs s)"
proof -
  show *: "list_foreach_safe (\<lambda>_. succ m) body (first m h) s = Some (fold body xs s)"
    using walk_from [of m Q h "[]" xs] assms by (simp add: first)
  show "list_foreach (\<lambda>_. succ m) body (first m h) s = Some (fold body xs s)"
    by (rule list_foreach_const [OF *])
qed

end

locale tail_queue_macros = queue_macros +
  fixes lastof :: "'a \<Rightarrow> 'b \<Rightarrow> 'c option res"
  assumes lastof: "rep m Q \<Longrightarrow> Q h = Some xs \<Longrightarrow> lastof m h = Inr (list_head (rev xs))"

locale two_way_macros = tail_queue_macros +
  fixes pred :: "'a \<Rightarrow> 'c \<Rightarrow> 'c option"
  assumes pred: "rep m Q \<Longrightarrow> Q h = Some (xs @ x # ys) \<Longrightarrow> pred m x = list_head (rev xs)"
begin

lemma walk_back_from:
  assumes "rep m Q" and "Q h = Some (rev xs @ us)"
  shows "list_foreach_safe (\<lambda>_. pred m) body (list_head xs) s = Some (fold body xs s)"
  using assms(2)
proof (induction xs arbitrary: us s)
  case Nil
  then show ?case by (simp add: list_foreach_safe.simps)
next
  case (Cons x xs)
  have "pred m x = list_head xs" using pred [OF assms(1), of h "rev xs" x us] Cons.prems by simp
  then show ?case using Cons.IH [of "x # us"] Cons.prems by (simp add: list_foreach_safe.simps)
qed

lemma walk_back:
  assumes "rep m Q" and "Q h = Some xs" and "lastof m h = Inr l"
  shows "list_foreach_safe (\<lambda>_. pred m) body l s = Some (fold body (rev xs) s)"
    and "list_foreach (\<lambda>_. pred m) body l s = Some (fold body (rev xs) s)"
proof -
  show *: "list_foreach_safe (\<lambda>_. pred m) body l s = Some (fold body (rev xs) s)"
    using walk_back_from [of m Q h "rev xs" "[]"] assms by (simp add: lastof)
  show "list_foreach (\<lambda>_. pred m) body l s = Some (fold body (rev xs) s)"
    by (rule list_foreach_const [OF *])
qed

end

section \<open>Doubly linked lists\<close>

lemma list_rep_lop:
  assumes rep: "list_rep H Q" and op: "list_op p = Some f" and spec: "lop_spec p Q = Some Q'"
  shows "\<exists>H'. f H = Some (Inr H') \<and> list_rep H' Q'"
proof -
  have Q: "disjoint_lists Q" using rep by (simp add: list_rep_def)
  show ?thesis
  proof (cases p)
    case (LInit h)
    then show ?thesis using op spec list_rep_INIT [OF rep] by auto
  next
    case (LHead h x)
    then show ?thesis using op spec list_rep_INSERT_HEAD [OF rep] by (auto split: option.splits if_splits)
  next
    case (LAfter h l x)
    then show ?thesis using op lop_after [OF spec [unfolded LAfter] Q] list_rep_INSERT_AFTER [OF rep] by fastforce
  next
    case (LBefore l x)
    then show ?thesis using op lop_before [OF spec [unfolded LBefore] rep] list_rep_INSERT_BEFORE [OF rep] by fastforce
  next
    case (LRemove h x)
    then show ?thesis using op lop_remove [OF spec [unfolded LRemove] Q] list_rep_REMOVE [OF rep] by fastforce
  qed (use op in auto)
qed

interpretation dl: queue_macros list_rep list_op lh_first le_next
  by unfold_locales
    (simp add: list_rep_def disjoint_lists_def, fact tq.first, fact tq.succ, fact list_rep_lop)


section \<open>Singly linked lists are lists\<close>

text \<open>
  The \<open>LIST\<close> a singly linked list would be with suitable \<open>le_prev\<close>: the \<open>LIST\<close> macros act on the forward
  pointers of that view as the \<open>SLIST\<close> and \<open>STAILQ\<close> macros do.
\<close>

definition fwd :: "('n \<Rightarrow> ('n, 'h) slot) \<Rightarrow> ('n \<Rightarrow> 'n option) \<Rightarrow> ('h \<Rightarrow> 'n option) \<Rightarrow> ('n, 'h) lheap" where
  "fwd prv nx fs = \<lparr>le_next = nx, le_prev = prv, lh_first = fs\<rparr>"

definition fwd_rep :: "('n \<Rightarrow> 'n option) \<Rightarrow> ('h \<Rightarrow> 'n option) \<Rightarrow> ('h \<rightharpoonup> 'n list) \<Rightarrow> bool" where
  "fwd_rep nx fs Q \<longleftrightarrow> (\<exists>prv. list_rep (fwd prv nx fs) Q)"

lemma fwd_simps [simp]:
  "le_next (fwd prv nx fs) = nx" "le_prev (fwd prv nx fs) = prv" "lh_first (fwd prv nx fs) = fs"
  "set_prev n sl (fwd prv nx fs) = fwd (prv(n := sl)) nx fs"
  "fwd prv nx fs\<lparr>lh_first := fs'\<rparr> = fwd prv nx fs'" "fwd prv nx fs\<lparr>le_next := nx'\<rparr> = fwd prv nx' fs"
  by (simp_all add: fwd_def set_prev_def)

lemma set_prev_opt_fwd [simp]:
  "set_prev_opt v sl (fwd prv nx fs) = fwd (case v of None \<Rightarrow> prv | Some n \<Rightarrow> prv(n := sl)) nx fs"
  by (simp add: set_prev_opt_def split: option.split)

lemma fwd_repI: "list_rep (fwd prv nx fs) Q \<Longrightarrow> fwd_rep nx fs Q"
  by (auto simp: fwd_rep_def)

lemma fwd_disjoint: "fwd_rep nx fs Q \<Longrightarrow> disjoint_lists Q"
  by (auto simp: fwd_rep_def list_rep_def)

lemma fwd_start: "fwd_rep nx fs Map.empty"
  by (simp add: fwd_rep_def list_rep_def disjoint_lists_def)

lemma fwd_first: "fwd_rep nx fs Q \<Longrightarrow> Q h = Some xs \<Longrightarrow> fs h = list_head xs"
  unfolding fwd_rep_def using tq.first by fastforce

lemma fwd_succ: "fwd_rep nx fs Q \<Longrightarrow> Q h = Some (xs @ x # ys) \<Longrightarrow> nx x = list_head ys"
  unfolding fwd_rep_def using tq.succ by fastforce

lemma fwd_init: "fwd_rep nx fs Q \<Longrightarrow> fwd_rep nx (fs(h := None)) (Q(h \<mapsto> []))"
  unfolding fwd_rep_def by (erule exE, drule list_rep_INIT [of _ _ h]) (auto simp: LIST_INIT_def)

lemma fwd_head:
  assumes "fwd_rep nx fs Q" and "Q h = Some xs" and "unlinked Q x"
  shows "fwd_rep (nx(x := fs h)) (fs(h := Some x)) (Q(h \<mapsto> x # xs))"
proof -
  obtain prv where "list_rep (fwd prv nx fs) Q" using assms(1) by (auto simp: fwd_rep_def)
  from list_rep_INSERT_HEAD [OF this assms(2,3)] show ?thesis
    by (auto simp: LIST_INSERT_HEAD_def intro: fwd_repI)
qed

lemma fwd_after:
  assumes "fwd_rep nx fs Q" and "Q h = Some (xs @ l # ys)" and "unlinked Q x"
  shows "fwd_rep (nx(x := nx l, l := Some x)) fs (Q(h \<mapsto> xs @ l # x # ys))"
proof -
  obtain prv where "list_rep (fwd prv nx fs) Q" using assms(1) by (auto simp: fwd_rep_def)
  from list_rep_INSERT_AFTER [OF this assms(2,3)] show ?thesis
    by (auto simp: LIST_INSERT_AFTER_def intro: fwd_repI)
qed

lemma fwd_drop:
  assumes "fwd_rep nx fs Q" and "Q h = Some (xs @ x # ys)"
  shows "fwd_rep nx (fs(h := nx x)) (Q(h \<mapsto> ys))"
proof -
  obtain prv where "list_rep (fwd prv nx fs) Q" using assms(1) by (auto simp: fwd_rep_def)
  from list_rep_drop [OF this assms(2)] show ?thesis by (auto intro: fwd_repI)
qed

lemma fwd_remove:
  assumes "fwd_rep nx fs Q" and at: "Q h = Some (xs @ c # x # ys)"
  shows "fwd_rep (nx(c := nx x)) fs (Q(h \<mapsto> xs @ c # ys))"
proof -
  obtain prv where rep: "list_rep (fwd prv nx fs) Q" using assms(1) by (auto simp: fwd_rep_def)
  have at': "Q h = Some ((xs @ [c]) @ x # ys)" using at by simp
  have "prv x = Next c" using list_rep_prev [OF rep at'] by (simp add: end_slot_def)
  moreover have "nx x \<noteq> Some x"
    using list_rep_next [OF rep at'] list_repD(2) [OF rep at'] by (auto split: list.splits)
  ultimately show ?thesis using list_rep_REMOVE [OF rep at']
    by (auto simp: LIST_REMOVE_def intro: fwd_repI split: option.splits)
qed

text \<open>A slot of a non-null address, as the writes through \<open>stqh_last\<close> need it.\<close>

definition fwd_put :: "('n, 'h) slot \<Rightarrow> 'n option \<Rightarrow>
    ('n \<Rightarrow> 'n option) \<times> ('h \<Rightarrow> 'n option) \<Rightarrow> ('n \<Rightarrow> 'n option) \<times> ('h \<Rightarrow> 'n option)" where
  "fwd_put sl v m = (case sl of NoSlot \<Rightarrow> m | First h \<Rightarrow> (fst m, (snd m)(h := v)) | Next n \<Rightarrow> ((fst m)(n := v), snd m))"

lemma slot_write_fwd: "slot_write sl v (fwd prv nx fs) = fwd prv (fst (fwd_put sl v (nx, fs))) (snd (fwd_put sl v (nx, fs)))"
  by (cases sl) (simp_all add: fwd_put_def fwd_def)

lemma fwd_put_simps [simp]:
  "fwd_put (First h) v (nx, fs) = (nx, fs(h := v))" "fwd_put (Next n) v (nx, fs) = (nx(n := v), fs)"
  by (simp_all add: fwd_put_def)

lemma fwd_append:
  assumes "fwd_rep nx fs Q" and "Q h = Some xs" and "unlinked Q x"
    and "fwd_put (end_slot (First h) xs) (Some x) (nx(x := None), fs) = (nx', fs')"
  shows "fwd_rep nx' fs' (Q(h \<mapsto> xs @ [x]))"
proof -
  obtain prv where "list_rep (fwd prv nx fs) Q" using assms(1) by (auto simp: fwd_rep_def)
  from list_rep_append [OF this assms(2,3)] show ?thesis
    by (auto simp: slot_write_fwd assms(4) intro: fwd_repI)
qed

lemma fwd_concat:
  assumes "fwd_rep nx fs Q" and "Q h = Some xs" and "Q g = Some (y # ys)" and "h \<noteq> g"
    and "fwd_put (end_slot (First h) xs) (Some y) (nx, fs) = (nx', fs')"
  shows "fwd_rep nx' (fs'(g := None)) (Q(h \<mapsto> xs @ y # ys, g \<mapsto> []))"
proof -
  obtain prv where "list_rep (fwd prv nx fs) Q" using assms(1) by (auto simp: fwd_rep_def)
  from list_rep_concat [OF this assms(2,3,4)] show ?thesis
    by (auto simp: slot_write_fwd assms(5) LIST_INIT_def intro: fwd_repI)
qed

text \<open>The search finds the predecessor of an element, and falls off the list without one.\<close>

lemma find_prev_from:
  assumes "fwd_rep nx fs Q" and "Q h = Some (us @ xs @ c # x # ys)" and "x \<notin> set (xs @ [c])"
  shows "find_prev nx x (list_head (xs @ [c])) = Some (Inr c)"
  using assms(2,3)
proof (induction xs arbitrary: us)
  case Nil
  then have "nx c = Some x" using fwd_succ [OF assms(1), of h us c "x # ys"] by simp
  then show ?case by (simp add: find_prev.simps)
next
  case (Cons y xs)
  have "nx y = list_head (xs @ [c])"
    using fwd_succ [OF assms(1), of h us y "xs @ c # x # ys"] Cons.prems(1) by (cases xs) simp_all
  moreover have "list_head (xs @ [c]) \<noteq> Some x" using Cons.prems(2) by (cases xs) auto
  ultimately show ?case using Cons.IH [of "us @ [y]"] Cons.prems by (simp add: find_prev.simps)
qed

lemma find_prev_absent:
  assumes "fwd_rep nx fs Q" and "Q h = Some (us @ xs)" and "x \<notin> set xs"
  shows "find_prev nx x (list_head xs) = Some (Inl NullDeref)"
  using assms(2,3)
proof (induction xs arbitrary: us)
  case Nil
  then show ?case by (simp add: find_prev.simps)
next
  case (Cons y xs)
  have "nx y = list_head xs" by (rule fwd_succ [OF assms(1) Cons.prems(1)])
  moreover have "list_head xs \<noteq> Some x" using Cons.prems(2) by (cases xs) auto
  ultimately show ?case using Cons.IH [of "us @ [y]"] Cons.prems by (simp add: find_prev.simps)
qed

lemma remove_place:
  assumes "fwd_rep nx fs Q" and "Q h = Some (xs @ x # ys)" and "x \<notin> set xs"
  obtains "xs = []" and "fs h = Some x"
  | us c where "xs = us @ [c]" and "fs h \<noteq> Some x" and "find_prev nx x (fs h) = Some (Inr c)" and "nx c = Some x"
proof (cases xs rule: rev_cases)
  case Nil
  then show ?thesis using that(1) fwd_first [OF assms(1,2)] by simp
next
  case (snoc us c)
  have "fs h = list_head (us @ [c])" using fwd_first [OF assms(1,2)] by (cases us) (simp_all add: snoc)
  moreover have "nx c = Some x" using fwd_succ [OF assms(1), of h us c "x # ys"] assms(2) by (simp add: snoc)
  moreover have "list_head (us @ [c]) \<noteq> Some x" using assms(3) snoc by (cases us) auto
  ultimately show ?thesis
    using that(2) [OF snoc] find_prev_from [OF assms(1), of h "[]" us c x ys] assms(2,3) by (simp add: snoc)
qed

definition slist_rep :: "('n, 'h) sheap \<Rightarrow> ('h \<rightharpoonup> 'n list) \<Rightarrow> bool" where
  "slist_rep H Q \<longleftrightarrow> fwd_rep (sle_next H) (slh_first H) Q"

lemma slist_rep_lop:
  assumes rep: "slist_rep H Q" and op: "slist_op p = Some f" and spec: "lop_spec p Q = Some Q'"
  shows "\<exists>H'. f H = Some (Inr H') \<and> slist_rep H' Q'"
proof -
  note fwd = rep [unfolded slist_rep_def]
  note Q = fwd_disjoint [OF fwd]
  show ?thesis
  proof (cases p)
    case (LInit h)
    then show ?thesis using op spec fwd_init [OF fwd] by (auto simp: SLIST_INIT_def slist_rep_def)
  next
    case (LHead h x)
    then show ?thesis using op spec fwd_head [OF fwd]
      by (auto simp: SLIST_INSERT_HEAD_def slist_rep_def split: option.splits if_splits)
  next
    case (LAfter h l x)
    obtain xs ys where at: "Q h = Some (xs @ l # ys)" "unlinked Q x" "Q' = Q(h \<mapsto> xs @ l # x # ys)"
      by (rule lop_after [OF spec [unfolded LAfter] Q])
    then show ?thesis using op LAfter fwd_after [OF fwd at(1,2)]
      by (auto simp: SLIST_INSERT_AFTER_def slist_rep_def)
  next
    case (LRemove h x)
    obtain xs ys where at: "Q h = Some (xs @ x # ys)" "x \<notin> set xs" "Q' = Q(h \<mapsto> xs @ ys)"
      by (rule lop_remove [OF spec [unfolded LRemove] Q])
    show ?thesis
    proof (rule remove_place [OF fwd at(1,2)])
      assume "xs = []" "slh_first H h = Some x"
      then show ?thesis using op LRemove at fwd_drop [OF fwd at(1)]
        by (auto simp: SLIST_REMOVE_def SLIST_REMOVE_HEAD_def slist_rep_def)
    next
      fix us c
      assume c: "xs = us @ [c]" "slh_first H h \<noteq> Some x" "find_prev (sle_next H) x (slh_first H h) = Some (Inr c)"
        "sle_next H c = Some x"
      then show ?thesis using op LRemove at fwd_remove [OF fwd, of h us c x ys]
        by (auto simp: SLIST_REMOVE_def slist_rep_def)
    qed
  next
    case (LRemoveHead h)
    obtain x xs where at: "Q h = Some ([] @ x # xs)" "Q' = Q(h \<mapsto> xs)"
      using spec LRemoveHead by (auto split: option.splits list.splits)
    then show ?thesis using op LRemoveHead fwd_drop [OF fwd at(1)] fwd_first [OF fwd at(1)]
      by (auto simp: SLIST_REMOVE_HEAD_def slist_rep_def)
  qed (use op in auto)
qed

interpretation sl: queue_macros slist_rep slist_op slh_first sle_next
proof unfold_locales
  fix H :: "('n, 'h) sheap" and Q h x xs ys
  show "slist_rep H Map.empty" by (simp add: slist_rep_def fwd_start)
  show "slh_first H h = list_head xs" if "slist_rep H Q" "Q h = Some xs"
    using that by (simp add: slist_rep_def fwd_first)
  show "sle_next H x = list_head ys" if "slist_rep H Q" "Q h = Some (xs @ x # ys)"
    using that by (simp add: slist_rep_def fwd_succ)
qed (fact slist_rep_lop)


section \<open>Singly linked tail queues are lists with a last slot\<close>

definition tails :: "('h \<Rightarrow> ('n, 'h) slot) \<Rightarrow> ('h \<rightharpoonup> 'n list) \<Rightarrow> bool" where
  "tails lst Q \<longleftrightarrow> (\<forall>h xs. Q h = Some xs \<longrightarrow> lst h = end_slot (First h) xs)"

lemma tailsD: "tails lst Q \<Longrightarrow> Q h = Some xs \<Longrightarrow> lst h = end_slot (First h) xs"
  by (simp add: tails_def)

lemma tails_upd: "tails lst Q \<Longrightarrow> sl = end_slot (First h) xs \<Longrightarrow> tails (lst(h := sl)) (Q(h \<mapsto> xs))"
  by (simp add: tails_def)

lemma tails_same: "tails lst Q \<Longrightarrow> lst h = end_slot (First h) xs \<Longrightarrow> tails lst (Q(h \<mapsto> xs))"
  by (simp add: tails_def)

lemma end_slot_snoc [simp]: "end_slot sl (xs @ [x]) = Next x"
  by (simp add: end_slot_def)

lemma end_slot_append_Cons [simp]: "end_slot sl (xs @ x # ys) = end_slot (Next x) ys"
  by (simp add: end_slot_def)

lemma list_head_snoc [simp]: "\<exists>y. list_head (xs @ [x]) = Some y"
  by (cases xs) simp_all

definition stailq_rep :: "('n, 'h) stheap \<Rightarrow> ('h \<rightharpoonup> 'n list) \<Rightarrow> bool" where
  "stailq_rep H Q \<longleftrightarrow> fwd_rep (stqe_next H) (stqh_first H) Q \<and> tails (stqh_last H) Q"

lemma st_simps [simp]:
  "stqe_next (st_last h sl H) = stqe_next H" "stqh_first (st_last h sl H) = stqh_first H"
  "stqh_last (st_last h sl H) = (stqh_last H)(h := sl)" "stqh_last (st_write s v H) = stqh_last H"
  by (auto simp: st_last_def) (cases s; simp)

lemma st_write_put: "fwd_put sl v (stqe_next H, stqh_first H) = (stqe_next (st_write sl v H), stqh_first (st_write sl v H))"
  by (cases sl) (simp_all add: fwd_put_def)

lemma STAILQ_HEAD_rep:
  assumes rep: "stailq_rep H Q" and at: "Q h = Some xs" and new: "unlinked Q x"
  shows "stailq_rep (STAILQ_INSERT_HEAD h x H) (Q(h \<mapsto> x # xs))"
proof -
  note fwd = rep [unfolded stailq_rep_def, THEN conjunct1] and lst = rep [unfolded stailq_rep_def, THEN conjunct2]
  have "stqh_first H h = list_head xs" by (rule fwd_first [OF fwd at])
  then show ?thesis using fwd_head [OF fwd at new] tailsD [OF lst at]
    by (auto simp: stailq_rep_def STAILQ_INSERT_HEAD_def Let_def end_slot_def intro!: tails_upd [OF lst] tails_same [OF lst])
qed

lemma STAILQ_TAIL_rep:
  assumes rep: "stailq_rep H Q" and at: "Q h = Some xs" and new: "unlinked Q x"
  shows "stailq_rep (STAILQ_INSERT_TAIL h x H) (Q(h \<mapsto> xs @ [x]))"
proof -
  note fwd = rep [unfolded stailq_rep_def, THEN conjunct1] and lst = rep [unfolded stailq_rep_def, THEN conjunct2]
  let ?H1 = "st_write (Next x) None H"
  have "fwd_put (end_slot (First h) xs) (Some x) ((stqe_next H)(x := None), stqh_first H) =
      (stqe_next (st_write (end_slot (First h) xs) (Some x) ?H1), stqh_first (st_write (end_slot (First h) xs) (Some x) ?H1))"
    using st_write_put [of _ _ ?H1] by simp
  from fwd_append [OF fwd at new this] show ?thesis
    using tailsD [OF lst at] by (simp add: stailq_rep_def STAILQ_INSERT_TAIL_def Let_def tails_upd [OF lst])
qed

lemma STAILQ_AFTER_rep:
  assumes rep: "stailq_rep H Q" and at: "Q h = Some (xs @ l # ys)" and new: "unlinked Q x"
  shows "stailq_rep (STAILQ_INSERT_AFTER h l x H) (Q(h \<mapsto> xs @ l # x # ys))"
proof -
  note fwd = rep [unfolded stailq_rep_def, THEN conjunct1] and lst = rep [unfolded stailq_rep_def, THEN conjunct2]
  have "stqe_next H l = list_head ys" by (rule fwd_succ [OF fwd at])
  then show ?thesis using fwd_after [OF fwd at new] tailsD [OF lst at]
    by (auto simp: stailq_rep_def STAILQ_INSERT_AFTER_def Let_def end_slot_def intro!: tails_upd [OF lst] tails_same [OF lst])
qed

lemma STAILQ_CONCAT_rep:
  assumes rep: "stailq_rep H Q" and at: "Q h = Some xs" "Q g = Some ys" "h \<noteq> g"
  shows "stailq_rep (STAILQ_CONCAT h g H) (Q(h \<mapsto> xs @ ys, g \<mapsto> []))"
proof -
  note fwd = rep [unfolded stailq_rep_def, THEN conjunct1] and lst = rep [unfolded stailq_rep_def, THEN conjunct2]
  have first: "stqh_first H g = list_head ys" by (rule fwd_first [OF fwd at(2)])
  show ?thesis
  proof (cases ys)
    case Nil
    have "Q(h \<mapsto> xs @ ys, g \<mapsto> []) = Q" using at Nil by auto
    then show ?thesis using rep first Nil by (simp add: STAILQ_CONCAT_def STAILQ_EMPTY_def)
  next
    case (Cons y zs)
    have "tails ((stqh_last H)(h := end_slot (First g) ys, g := First g)) (Q(h \<mapsto> xs @ ys, g \<mapsto> []))"
      by (intro tails_upd lst) (simp_all add: Cons)
    then show ?thesis
      using fwd_concat [OF fwd at(1) _ at(3) st_write_put, of y zs] at first Cons tailsD [OF lst]
      by (simp add: stailq_rep_def STAILQ_CONCAT_def STAILQ_EMPTY_def STAILQ_INIT_def Let_def)
  qed
qed

lemma STAILQ_UNTIL_rep:
  assumes rep: "stailq_rep H Q" and at: "Q h = Some (xs @ x # ys)"
  shows "stailq_rep (STAILQ_REMOVE_HEAD_UNTIL h x H) (Q(h \<mapsto> ys))"
proof -
  note fwd = rep [unfolded stailq_rep_def, THEN conjunct1] and lst = rep [unfolded stailq_rep_def, THEN conjunct2]
  have "stqe_next H x = list_head ys" by (rule fwd_succ [OF fwd at])
  then show ?thesis using fwd_drop [OF fwd at] tailsD [OF lst at]
    by (auto simp: stailq_rep_def STAILQ_REMOVE_HEAD_UNTIL_def Let_def end_slot_def intro!: tails_upd [OF lst] tails_same [OF lst])
qed

lemma STAILQ_REMOVE_HEAD_until:
  "stqh_first H h = Some x \<Longrightarrow> STAILQ_REMOVE_HEAD h H = Inr (STAILQ_REMOVE_HEAD_UNTIL h x H)"
  by (simp add: STAILQ_REMOVE_HEAD_def STAILQ_REMOVE_HEAD_UNTIL_def Let_def)

lemma STAILQ_REMOVE_rep:
  assumes rep: "stailq_rep H Q" and at: "Q h = Some (xs @ x # ys)" and new: "x \<notin> set xs"
  shows "\<exists>H'. STAILQ_REMOVE h x H = Some (Inr H') \<and> stailq_rep H' (Q(h \<mapsto> xs @ ys))"
proof -
  note fwd = rep [unfolded stailq_rep_def, THEN conjunct1] and lst = rep [unfolded stailq_rep_def, THEN conjunct2]
  show ?thesis
  proof (rule remove_place [OF fwd at new])
    assume "xs = []" and "stqh_first H h = Some x"
    then show ?thesis using STAILQ_UNTIL_rep [OF rep at] by (simp add: STAILQ_REMOVE_def STAILQ_REMOVE_HEAD_until)
  next
    fix us c
    assume c: "xs = us @ [c]" "stqh_first H h \<noteq> Some x"
      "find_prev (stqe_next H) x (stqh_first H h) = Some (Inr c)" "stqe_next H c = Some x"
    have "stqe_next H x = list_head ys" by (rule fwd_succ [OF fwd at])
    then show ?thesis using c at fwd_remove [OF fwd, of h us c x ys] tailsD [OF lst at]
      by (auto simp: stailq_rep_def STAILQ_REMOVE_def Let_def end_slot_def intro!: tails_upd [OF lst] tails_same [OF lst])
  qed
qed

lemma stailq_rep_lop:
  assumes rep: "stailq_rep H Q" and op: "stailq_op p = Some f" and spec: "lop_spec p Q = Some Q'"
  shows "\<exists>H'. f H = Some (Inr H') \<and> stailq_rep H' Q'"
proof -
  have fwd: "fwd_rep (stqe_next H) (stqh_first H) Q" using rep by (simp add: stailq_rep_def)
  note Q = fwd_disjoint [OF fwd]
  show ?thesis
  proof (cases p)
    case (LInit h)
    have "stailq_rep (STAILQ_INIT h H) (Q(h \<mapsto> []))"
      using rep by (simp add: STAILQ_INIT_def stailq_rep_def fwd_init tails_upd)
    then show ?thesis using op spec LInit by auto
  next
    case (LHead h x)
    then show ?thesis using op spec STAILQ_HEAD_rep [OF rep] by (auto split: option.splits if_splits)
  next
    case (LTail h x)
    then show ?thesis using op spec STAILQ_TAIL_rep [OF rep] by (auto split: option.splits if_splits)
  next
    case (LAfter h l x)
    then show ?thesis using op lop_after [OF spec [unfolded LAfter] Q] STAILQ_AFTER_rep [OF rep] by fastforce
  next
    case (LConcat h g)
    then show ?thesis using op lop_concat [OF spec [unfolded LConcat]] STAILQ_CONCAT_rep [OF rep] by fastforce
  next
    case (LRemove h x)
    obtain xs ys where at: "Q h = Some (xs @ x # ys)" "x \<notin> set xs" "Q' = Q(h \<mapsto> xs @ ys)"
      by (rule lop_remove [OF spec [unfolded LRemove] Q])
    show ?thesis using op LRemove at STAILQ_REMOVE_rep [OF rep at(1,2)] by auto
  next
    case (LRemoveHead h)
    obtain x xs where at: "Q h = Some ([] @ x # xs)" "Q' = Q(h \<mapsto> xs)"
      using spec LRemoveHead by (auto split: option.splits list.splits)
    have "stqh_first H h = Some x" using fwd_first [OF fwd at(1)] by simp
    then show ?thesis using op LRemoveHead at STAILQ_UNTIL_rep [OF rep at(1)] by (auto simp: STAILQ_REMOVE_HEAD_until)
  next
    case (LRemoveUntil h x)
    then show ?thesis using op lop_until [OF spec [unfolded LRemoveUntil] Q] STAILQ_UNTIL_rep [OF rep] by fastforce
  qed (use op in auto)
qed

interpretation st: tail_queue_macros stailq_rep stailq_op stqh_first stqe_next STAILQ_LAST
proof unfold_locales
  fix H :: "('n, 'h) stheap" and Q h x xs ys
  show "stailq_rep H Map.empty" by (simp add: stailq_rep_def fwd_start tails_def)
  show "stqh_first H h = list_head xs" if "stailq_rep H Q" "Q h = Some xs"
    using that by (auto simp: stailq_rep_def dest: fwd_first)
  show "stqe_next H x = list_head ys" if "stailq_rep H Q" "Q h = Some (xs @ x # ys)"
    using that by (auto simp: stailq_rep_def dest: fwd_succ)
  show "STAILQ_LAST H h = Inr (list_head (rev xs))" if "stailq_rep H Q" "Q h = Some xs"
    using that tailsD [of "stqh_last H" Q h xs]
    by (cases xs rule: rev_cases) (auto simp: stailq_rep_def STAILQ_LAST_def STAILQ_EMPTY_def fwd_first)
qed (fact stailq_rep_lop)

section \<open>Tail queues are lists with a last slot\<close>

definition tq_view :: "('n, 'h) theap \<Rightarrow> ('n, 'h) lheap" where
  "tq_view H = \<lparr>le_next = tqe_next H, le_prev = tqe_prev H, lh_first = tqh_first H\<rparr>"

definition tailq_rep :: "('n, 'h) theap \<Rightarrow> ('h \<rightharpoonup> 'n list) \<Rightarrow> bool" where
  "tailq_rep H Q \<longleftrightarrow> list_rep (tq_view H) Q \<and> tails (tqh_last H) Q"

lemma tq_view_fields [simp]:
  "le_next (tq_view H) = tqe_next H" "le_prev (tq_view H) = tqe_prev H" "lh_first (tq_view H) = tqh_first H"
  "tq_view (H\<lparr>tqe_next := nx\<rparr>) = tq_view H\<lparr>le_next := nx\<rparr>" "tq_view (H\<lparr>tqh_first := fs\<rparr>) = tq_view H\<lparr>lh_first := fs\<rparr>"
  by (simp_all add: tq_view_def)

lemma tq_view_write [simp]: "tq_view (tq_write sl v H) = slot_write sl v (tq_view H)"
  by (cases sl) (simp_all add: tq_view_def)

lemma lh_first_view_write [simp]: "lh_first (slot_write sl v (tq_view H)) = tqh_first (tq_write sl v H)"
  by (cases sl) simp_all

lemma tq_view_prev [simp]: "tq_view (tq_prev n sl H) = set_prev n sl (tq_view H)"
  by (simp add: tq_view_def tq_prev_def set_prev_def)

lemma tq_view_last [simp]: "tq_view (tq_last h sl H) = tq_view H"
  by (simp add: tq_view_def tq_last_def)

lemma tq_fields [simp]:
  "tqh_last (tq_last h sl H) = (tqh_last H)(h := sl)" "tqh_last (tq_write s v H) = tqh_last H"
  "tqh_last (tq_prev n sl H) = tqh_last H" "tqe_next (tq_prev n sl H) = tqe_next H"
  "tqe_next (tq_last h sl H) = tqe_next H" "tqh_first (tq_prev n sl H) = tqh_first H"
  "tqh_first (tq_last h sl H) = tqh_first H" "tqe_prev (tq_write s v H) = tqe_prev H"
  "tqe_prev (tq_last h sl H) = tqe_prev H" "tqe_prev (tq_prev n sl H) = (tqe_prev H)(n := sl)"
  by (auto simp: tq_last_def tq_prev_def) (cases s; simp)+

lemma tailq_repD:
  assumes "tailq_rep H Q"
  shows "list_rep (tq_view H) Q" and "tails (tqh_last H) Q"
  using assms by (simp_all add: tailq_rep_def)

text \<open>The links after each macro are those of the \<open>LIST\<close> macro.\<close>

lemma tq_view_ops:
  "tq_view (TAILQ_INIT h H) = LIST_INIT h (tq_view H)"
  "tq_view (TAILQ_INSERT_HEAD h x H) = LIST_INSERT_HEAD h x (tq_view H)"
  "tq_view (TAILQ_INSERT_AFTER h l x H) = LIST_INSERT_AFTER l x (tq_view H)"
  "tq_view (TAILQ_INSERT_BEFORE l x H) = LIST_INSERT_BEFORE l x (tq_view H)"
  "tq_view (TAILQ_REMOVE h x H) = LIST_REMOVE x (tq_view H)"
  by (auto simp: TAILQ_INIT_def LIST_INIT_def TAILQ_INSERT_HEAD_def LIST_INSERT_HEAD_def TAILQ_INSERT_AFTER_def
      LIST_INSERT_AFTER_def TAILQ_INSERT_BEFORE_def LIST_INSERT_BEFORE_def TAILQ_REMOVE_def LIST_REMOVE_def
      Let_def set_prev_opt_def split: option.split)


lemma TAILQ_HEAD_rep:
  assumes rep: "tailq_rep H Q" and at: "Q h = Some xs" and new: "unlinked Q x"
  shows "tailq_rep (TAILQ_INSERT_HEAD h x H) (Q(h \<mapsto> x # xs))"
proof -
  note list = tailq_repD(1) [OF rep] and lst = tailq_repD(2) [OF rep]
  have first: "tqh_first H h = list_head xs" using tq.first [OF list at] by simp
  have "tails (tqh_last (TAILQ_INSERT_HEAD h x H)) (Q(h \<mapsto> x # xs))"
    using tailsD [OF lst at] first
    by (cases xs) (auto simp: TAILQ_INSERT_HEAD_def Let_def end_slot_def intro!: tails_upd [OF lst] tails_same [OF lst])
  then show ?thesis using list_rep_INSERT_HEAD [OF list at new] by (simp add: tailq_rep_def tq_view_ops)
qed

lemma TAILQ_AFTER_rep:
  assumes rep: "tailq_rep H Q" and at: "Q h = Some (xs @ l # ys)" and new: "unlinked Q x"
  shows "tailq_rep (TAILQ_INSERT_AFTER h l x H) (Q(h \<mapsto> xs @ l # x # ys))"
proof -
  note list = tailq_repD(1) [OF rep] and lst = tailq_repD(2) [OF rep]
  have nxt: "tqe_next H l = list_head ys" using tq.succ [OF list at] by simp
  have "tails (tqh_last (TAILQ_INSERT_AFTER h l x H)) (Q(h \<mapsto> xs @ l # x # ys))"
    using tailsD [OF lst at] nxt
    by (cases ys) (auto simp: TAILQ_INSERT_AFTER_def Let_def end_slot_def intro!: tails_upd [OF lst] tails_same [OF lst])
  then show ?thesis using list_rep_INSERT_AFTER [OF list at new] by (simp add: tailq_rep_def tq_view_ops)
qed

lemma TAILQ_BEFORE_rep:
  assumes rep: "tailq_rep H Q" and at: "Q h = Some (xs @ l # ys)" and new: "unlinked Q x"
  shows "tailq_rep (TAILQ_INSERT_BEFORE l x H) (Q(h \<mapsto> xs @ x # l # ys))"
proof -
  note list = tailq_repD(1) [OF rep] and lst = tailq_repD(2) [OF rep]
  have "tails (tqh_last (TAILQ_INSERT_BEFORE l x H)) (Q(h \<mapsto> xs @ x # l # ys))"
    using tailsD [OF lst at] by (auto simp: TAILQ_INSERT_BEFORE_def Let_def intro!: tails_same [OF lst])
  then show ?thesis using list_rep_INSERT_BEFORE [OF list at new] by (simp add: tailq_rep_def tq_view_ops)
qed

lemma TAILQ_REMOVE_rep:
  assumes rep: "tailq_rep H Q" and at: "Q h = Some (xs @ x # ys)"
  shows "tailq_rep (TAILQ_REMOVE h x H) (Q(h \<mapsto> xs @ ys))"
proof -
  note list = tailq_repD(1) [OF rep] and lst = tailq_repD(2) [OF rep]
  have nxt: "tqe_next H x = list_head ys" and prev: "tqe_prev H x = end_slot (First h) xs"
    using tq.succ [OF list at] list_rep_prev [OF list at] by simp_all
  have "tails (tqh_last (TAILQ_REMOVE h x H)) (Q(h \<mapsto> xs @ ys))"
    using tailsD [OF lst at] nxt prev
    by (cases ys) (auto simp: TAILQ_REMOVE_def Let_def intro!: tails_upd [OF lst] tails_same [OF lst])
  then show ?thesis using list_rep_REMOVE [OF list at] by (simp add: tailq_rep_def tq_view_ops)
qed

lemma TAILQ_TAIL_rep:
  assumes rep: "tailq_rep H Q" and at: "Q h = Some xs" and new: "unlinked Q x"
  shows "tailq_rep (TAILQ_INSERT_TAIL h x H) (Q(h \<mapsto> xs @ [x]))"
proof -
  note list = tailq_repD(1) [OF rep] and lst = tailq_repD(2) [OF rep]
  let ?e = "end_slot (First h) xs"
  have "tq_view (TAILQ_INSERT_TAIL h x H) = slot_write ?e (Some x) (set_prev x ?e (slot_write (Next x) None (tq_view H)))"
    using tailsD [OF lst at] by (simp add: TAILQ_INSERT_TAIL_def Let_def)
  also have "\<dots> = set_prev x ?e (slot_write ?e (Some x) (slot_write (Next x) None (tq_view H)))"
    by (cases ?e) (simp_all add: set_prev_def)
  finally show ?thesis
    using list_rep_append [OF list at new] tails_upd [OF lst, of "Next x" h "xs @ [x]"]
    by (simp add: tailq_rep_def TAILQ_INSERT_TAIL_def Let_def)
qed

lemma TAILQ_CONCAT_rep:
  assumes rep: "tailq_rep H Q" and at: "Q h = Some xs" "Q g = Some ys" "h \<noteq> g"
  shows "tailq_rep (TAILQ_CONCAT h g H) (Q(h \<mapsto> xs @ ys, g \<mapsto> []))"
proof -
  note list = tailq_repD(1) [OF rep] and lst = tailq_repD(2) [OF rep]
  have first: "tqh_first H g = list_head ys" using tq.first [OF list at(2)] by simp
  show ?thesis
  proof (cases ys)
    case Nil
    have "Q(h \<mapsto> xs @ ys, g \<mapsto> []) = Q" using at Nil by auto
    then show ?thesis using rep first Nil by (simp add: TAILQ_CONCAT_def)
  next
    case (Cons y zs)
    have "tails ((tqh_last H)(h := end_slot (First g) ys, g := First g)) (Q(h \<mapsto> xs @ ys, g \<mapsto> []))"
      by (intro tails_upd lst) (simp_all add: Cons)
    then show ?thesis
      using list_rep_concat [OF list at(1) _ at(3), of y zs] at first Cons tailsD [OF lst]
      by (simp add: tailq_rep_def TAILQ_CONCAT_def TAILQ_INIT_def LIST_INIT_def Let_def)
  qed
qed

lemma tailq_rep_lop:
  assumes rep: "tailq_rep H Q" and op: "tailq_op p = Some f" and spec: "lop_spec p Q = Some Q'"
  shows "\<exists>H'. f H = Some (Inr H') \<and> tailq_rep H' Q'"
proof -
  note list = tailq_repD(1) [OF rep]
  have Q: "disjoint_lists Q" using list by (simp add: list_rep_def)
  show ?thesis
  proof (cases p)
    case (LInit h)
    have "tailq_rep (TAILQ_INIT h H) (Q(h \<mapsto> []))"
      using list_rep_INIT [OF list, of h] tails_upd [OF tailq_repD(2) [OF rep], of "First h" h "[]"]
      by (simp add: tailq_rep_def tq_view_ops) (simp add: TAILQ_INIT_def)
    then show ?thesis using op spec LInit by auto
  next
    case (LHead h x)
    then show ?thesis using op spec TAILQ_HEAD_rep [OF rep] by (auto split: option.splits if_splits)
  next
    case (LTail h x)
    then show ?thesis using op spec TAILQ_TAIL_rep [OF rep] by (auto split: option.splits if_splits)
  next
    case (LAfter h l x)
    then show ?thesis using op lop_after [OF spec [unfolded LAfter] Q] TAILQ_AFTER_rep [OF rep] by fastforce
  next
    case (LBefore l x)
    then show ?thesis using op lop_before [OF spec [unfolded LBefore] list] TAILQ_BEFORE_rep [OF rep] by fastforce
  next
    case (LConcat h g)
    then show ?thesis using op lop_concat [OF spec [unfolded LConcat]] TAILQ_CONCAT_rep [OF rep] by fastforce
  next
    case (LRemove h x)
    then show ?thesis using op lop_remove [OF spec [unfolded LRemove] Q] TAILQ_REMOVE_rep [OF rep] by fastforce
  qed (use op in auto)
qed

text \<open>The two dereferences behind \<open>TAILQ_LAST\<close> and \<open>TAILQ_PREV\<close>.\<close>

lemma tq_last_read:
  assumes rep: "tailq_rep H Q" and at: "Q h = Some (xs @ ys)"
  shows "tq_read H (slot_last H (end_slot (First h) xs)) = list_head (rev xs)"
proof (cases xs rule: rev_cases)
  case Nil
  have "tqh_last H h = end_slot (First h) ys" using tailsD [OF tailq_repD(2) [OF rep] at] Nil by simp
  moreover have "slot_read (tq_view H) (end_slot (First h) ys) = None"
    using list_repD(1) [OF tailq_repD(1) [OF rep] at] Nil
    by (cases ys rule: rev_cases) (simp_all add: lseg_append)
  ultimately show ?thesis using Nil by (cases ys rule: rev_cases) simp_all
next
  case (snoc us l)
  have at': "Q h = Some (us @ l # ys)" using at snoc by simp
  have "tqe_prev H l = end_slot (First h) us" using list_rep_prev [OF tailq_repD(1) [OF rep] at'] by simp
  moreover have "slot_read (tq_view H) (end_slot (First h) us) = Some l"
    using list_repD(1) [OF tailq_repD(1) [OF rep] at'] by (cases us rule: rev_cases) (simp_all add: lseg_append)
  ultimately show ?thesis using snoc by (cases us rule: rev_cases) simp_all
qed

interpretation ta: two_way_macros tailq_rep tailq_op tqh_first tqe_next "\<lambda>H h. Inr (TAILQ_LAST H h)" TAILQ_PREV
proof unfold_locales
  fix H :: "('n, 'h) theap" and Q h x xs ys
  show "tailq_rep H Map.empty" by (simp add: tailq_rep_def tails_def list_rep_def disjoint_lists_def)
  show "tqh_first H h = list_head xs" if "tailq_rep H Q" "Q h = Some xs"
    using tq.first [OF tailq_repD(1) [OF that(1)] that(2)] by simp
  show "tqe_next H x = list_head ys" if "tailq_rep H Q" "Q h = Some (xs @ x # ys)"
    using tq.succ [OF tailq_repD(1) [OF that(1)] that(2)] by simp
  show "Inr (TAILQ_LAST H h) = Inr (list_head (rev xs))" if "tailq_rep H Q" "Q h = Some xs"
    using tq_last_read [of H Q h xs "[]"] that tailsD [OF tailq_repD(2) [OF that(1)] that(2)] by (simp add: TAILQ_LAST_def)
  show "TAILQ_PREV H x = list_head (rev xs)" if "tailq_rep H Q" "Q h = Some (xs @ x # ys)"
    using tq_last_read [OF that] list_rep_prev [OF tailq_repD(1) [OF that(1)] that(2)] by (simp add: TAILQ_PREV_def)
qed (fact tailq_rep_lop)

section \<open>The families as their users see them\<close>

lemma slist_prevptr_from:
  assumes "slist_rep H Q" and "Q h = Some (us @ xs)"
  shows "slist_foreach_prevptr (\<lambda>_. H) body (end_slot (First h) us) s =
    Some (fold (\<lambda>(x, p). body x p) (zip xs (end_slot (First h) us # map Next xs)) s)"
  using assms(2)
proof (induction xs arbitrary: us s)
  case Nil
  have "sl_read H (end_slot (First h) us) = None"
    using sl.first [OF assms(1) Nil] sl.succ [OF assms(1), of h _ _ "[]"] Nil
    by (cases us rule: rev_cases) simp_all
  then show ?case by (simp add: slist_foreach_prevptr.simps)
next
  case (Cons x xs)
  have "sl_read H (end_slot (First h) us) = Some x"
    using sl.first [OF assms(1) Cons.prems] sl.succ [OF assms(1), of h _ _ "x # xs"] Cons.prems
    by (cases us rule: rev_cases) simp_all
  then show ?case using Cons.IH [of "us @ [x]"] Cons.prems by (simp add: slist_foreach_prevptr.simps)
qed

lemma slist_prevptr:
  "slist_rep H Q \<Longrightarrow> Q h = Some xs \<Longrightarrow>
     SLIST_FOREACH_PREVPTR (\<lambda>_. H) h body s = Some (fold (\<lambda>(x, p). body x p) (zip xs (First h # map Next xs)) s)"
  using slist_prevptr_from [of H Q h "[]" xs] by (simp add: SLIST_FOREACH_PREVPTR_def)

text \<open>Removing an element that is not in the list walks off its end.\<close>

lemma slist_remove_absent:
  assumes "slist_rep H Q" and "Q h = Some xs" and "x \<notin> set xs"
  shows "SLIST_REMOVE h x H = Some (Inl NullDeref)"
proof -
  have "slh_first H h = list_head xs" by (rule sl.first [OF assms(1,2)])
  moreover have "list_head xs \<noteq> Some x" using assms(3) by (cases xs) auto
  ultimately show ?thesis
    using find_prev_absent [of _ _ Q h "[]" xs x] assms by (simp add: SLIST_REMOVE_def slist_rep_def)
qed

text \<open>C20. Tail queues. Take any program of the \<open>TAILQ\<close> macros that keeps the rules of their use (elements are
  inserted when they are in no queue, neighbours and removed elements are in the queue named) and run it on
  heads and entries that hold the queues \<open>Q\<close>. It ends without error and the heads hold exactly the queues
  that the list operations give. \<open>TAILQ_LAST\<close> is then the last element, the forward loops visit
  each queue in order, and the loops backwards, through the \<open>tqh_last\<close> of a head that is in truth an
  entry, visit it in reverse.
\<close>

theorem tailq_sequences:
  assumes rep: "tailq_rep H Q" and macros: "offers tailq_op ps" and rules: "lops_spec ps Q = Some Q'"
  shows "\<exists>H'. run_ops tailq_op ps H = Some (Inr H') \<and> tailq_rep H' Q' \<and>
    (\<forall>h xs. Q' h = Some xs \<longrightarrow>
       TAILQ_EMPTY H' h = (xs = []) \<and>
       TAILQ_LAST H' h = list_head (rev xs) \<and>
       TAILQ_FOREACH (\<lambda>_. H') h body s = Some (fold body xs s) \<and>
       TAILQ_FOREACH_SAFE (\<lambda>_. H') h body s = Some (fold body xs s) \<and>
       TAILQ_FOREACH_REVERSE (\<lambda>_. H') h body s = Some (fold body (rev xs) s) \<and>
       TAILQ_FOREACH_REVERSE_SAFE (\<lambda>_. H') h body s = Some (fold body (rev xs) s))"
proof -
  obtain H' where H': "run_ops tailq_op ps H = Some (Inr H')" "tailq_rep H' Q'"
    using ta.steps [OF macros rules rep] by blast
  show ?thesis
    by (rule exI [of _ H'])
      (simp add: H' ta.first_None [OF H'(2)] ta.walk [OF H'(2)] ta.walk_back [OF H'(2)] ta.lastof [OF H'(2), simplified]
        TAILQ_EMPTY_def TAILQ_FOREACH_def TAILQ_FOREACH_SAFE_def TAILQ_FOREACH_REVERSE_def TAILQ_FOREACH_REVERSE_SAFE_def)
qed

text \<open>C21. Singly linked lists. A program of the \<open>STAILQ\<close> macros that keeps the rules of their use ends without
  error, its removals included, which search the predecessor from the head; the heads hold the lists
  that the list operations give, \<open>STAILQ_LAST\<close> is the last element and the loops visit each list in order.
  If the program uses only macros that \<open>SLIST\<close> has too, the same program on \<open>SLIST\<close> heads gives the same lists.
\<close>

theorem singly_linked_sequences:
  assumes rep: "stailq_rep H Q" and reps: "slist_rep G Q" and macros: "offers stailq_op ps"
    and rules: "lops_spec ps Q = Some Q'"
  shows "(\<exists>H'. run_ops stailq_op ps H = Some (Inr H') \<and> stailq_rep H' Q' \<and>
      (\<forall>h xs. Q' h = Some xs \<longrightarrow>
         STAILQ_EMPTY H' h = (xs = []) \<and>
         STAILQ_LAST H' h = Inr (list_head (rev xs)) \<and>
         STAILQ_FOREACH (\<lambda>_. H') h body s = Some (fold body xs s) \<and>
         STAILQ_FOREACH_SAFE (\<lambda>_. H') h body s = Some (fold body xs s))) \<and>
    (offers slist_op ps \<longrightarrow> (\<exists>G'. run_ops slist_op ps G = Some (Inr G') \<and> slist_rep G' Q' \<and>
      (\<forall>h xs. Q' h = Some xs \<longrightarrow>
         SLIST_EMPTY G' h = (xs = []) \<and>
         SLIST_FOREACH (\<lambda>_. G') h body s = Some (fold body xs s) \<and>
         SLIST_FOREACH_SAFE (\<lambda>_. G') h body s = Some (fold body xs s))))"
proof (intro conjI impI)
  obtain H' where H': "run_ops stailq_op ps H = Some (Inr H')" "stailq_rep H' Q'"
    using st.steps [OF macros rules rep] by blast
  show "\<exists>H'. run_ops stailq_op ps H = Some (Inr H') \<and> stailq_rep H' Q' \<and>
      (\<forall>h xs. Q' h = Some xs \<longrightarrow>
         STAILQ_EMPTY H' h = (xs = []) \<and>
         STAILQ_LAST H' h = Inr (list_head (rev xs)) \<and>
         STAILQ_FOREACH (\<lambda>_. H') h body s = Some (fold body xs s) \<and>
         STAILQ_FOREACH_SAFE (\<lambda>_. H') h body s = Some (fold body xs s))"
    by (rule exI [of _ H'])
      (simp add: H' st.first_None [OF H'(2)] st.walk [OF H'(2)] st.lastof [OF H'(2)]
        STAILQ_EMPTY_def STAILQ_FOREACH_def STAILQ_FOREACH_SAFE_def)
next
  assume "offers slist_op ps"
  from sl.steps [OF this rules reps] obtain G' where G': "run_ops slist_op ps G = Some (Inr G')" "slist_rep G' Q'"
    by blast
  show "\<exists>G'. run_ops slist_op ps G = Some (Inr G') \<and> slist_rep G' Q' \<and>
      (\<forall>h xs. Q' h = Some xs \<longrightarrow>
         SLIST_EMPTY G' h = (xs = []) \<and>
         SLIST_FOREACH (\<lambda>_. G') h body s = Some (fold body xs s) \<and>
         SLIST_FOREACH_SAFE (\<lambda>_. G') h body s = Some (fold body xs s))"
    by (rule exI [of _ G'])
      (simp add: G' sl.first_None [OF G'(2)] sl.walk [OF G'(2)] SLIST_EMPTY_def SLIST_FOREACH_def SLIST_FOREACH_SAFE_def)
qed

text \<open>Witnesses: heads and entries whose pointers are garbage before the initialisers run.\<close>

definition garbage_tailq :: "(nat, nat) theap" where
  "garbage_tailq = \<lparr>tqe_next = \<lambda>_. Some 7, tqe_prev = \<lambda>_. NoSlot, tqh_first = \<lambda>_. Some 9, tqh_last = \<lambda>_. NoSlot\<rparr>"

definition garbage_stailq :: "(nat, nat) stheap" where
  "garbage_stailq = \<lparr>stqe_next = \<lambda>_. Some 7, stqh_first = \<lambda>_. Some 9, stqh_last = \<lambda>_. NoSlot\<rparr>"

definition garbage_slist :: "(nat, nat) sheap" where
  "garbage_slist = \<lparr>sle_next = \<lambda>_. Some 7, slh_first = \<lambda>_. Some 9\<rparr>"

lemma unlinked_simps:
  "unlinked Map.empty x" "unlinked (Q(h \<mapsto> xs)) x \<longleftrightarrow> x \<notin> set xs \<and> unlinked (Q(h := None)) x"
  by (auto simp: unlinked_def)

lemma tailq_sequences_witness:
  "\<exists>H'. run_ops tailq_op [LInit 0, LTail 0 1, LTail 0 2, LHead 0 3, LInit 1, LTail 1 4, LConcat 0 1,
        LRemove 0 2, LAfter 0 4 (5::nat), LTail 1 2] garbage_tailq = Some (Inr H') \<and>
     TAILQ_LAST H' 0 = Some 5 \<and> TAILQ_LAST H' (1::nat) = Some 2 \<and>
     TAILQ_FOREACH_REVERSE (\<lambda>_. H') 0 (\<lambda>n ns. ns @ [n]) [] = Some [5, 4, 1, 3]"
proof -
  let ?ps = "[LInit 0, LTail 0 1, LTail 0 2, LHead 0 3, LInit 1, LTail 1 4, LConcat 0 1,
    LRemove 0 2, LAfter 0 4 (5::nat), LTail (1::nat) 2]"
  have "tailq_rep garbage_tailq Map.empty" by (rule ta.start)
  moreover have "offers tailq_op ?ps" by (simp add: offers_def)
  moreover have "lops_spec ?ps Map.empty = Some [0 \<mapsto> [3, 1, 4, 5], 1 \<mapsto> [2]]"
    by (simp add: unlinked_simps fun_upd_twist)
  ultimately obtain H' where run: "run_ops tailq_op ?ps garbage_tailq = Some (Inr H')"
    and obs: "\<forall>h xs. [0 \<mapsto> [3, 1, 4, 5], 1 \<mapsto> [2]] h = Some xs \<longrightarrow> TAILQ_LAST H' h = list_head (rev xs) \<and>
      TAILQ_FOREACH_REVERSE (\<lambda>_. H') h (\<lambda>n ns. ns @ [n]) [] = Some (fold (\<lambda>n ns. ns @ [n]) (rev xs) [])"
    using tailq_sequences [of garbage_tailq Map.empty ?ps "[0 \<mapsto> [3, 1, 4, 5], 1 \<mapsto> [2]]" "\<lambda>n ns. ns @ [n]" "[]"] by blast
  show ?thesis
    using obs [rule_format, of 0 "[3, 1, 4, 5]"] obs [rule_format, of 1 "[2]"]
    by (intro exI [of _ H'] conjI run) simp_all
qed

lemma singly_linked_sequences_witness:
  "(\<exists>H'. run_ops stailq_op [LInit 0, LHead 0 1, LHead 0 2, LAfter 0 1 (3::nat), LRemove 0 1] garbage_stailq = Some (Inr H') \<and>
      STAILQ_LAST H' (0::nat) = Inr (Some 3)) \<and>
   (\<exists>G'. run_ops slist_op [LInit 0, LHead 0 1, LHead 0 2, LAfter 0 1 (3::nat), LRemove 0 1] garbage_slist = Some (Inr G') \<and>
      SLIST_FOREACH (\<lambda>_. G') (0::nat) (\<lambda>n ns. ns @ [n]) [] = Some [2, 3])"
proof -
  let ?ps = "[LInit (0::nat), LHead 0 1, LHead 0 2, LAfter 0 1 (3::nat), LRemove 0 1]"
  have "stailq_rep garbage_stailq Map.empty" "slist_rep garbage_slist Map.empty" by (rule st.start, rule sl.start)
  moreover have "offers stailq_op ?ps" "offers slist_op ?ps" by (simp_all add: offers_def)
  moreover have "lops_spec ?ps Map.empty = Some [0 \<mapsto> [2, 3]]"
    by (simp add: unlinked_simps)
  ultimately obtain H' G' where run: "run_ops stailq_op ?ps garbage_stailq = Some (Inr H')"
      "run_ops slist_op ?ps garbage_slist = Some (Inr G')"
    and obs: "\<forall>h xs. [0 \<mapsto> [2, 3]] h = Some xs \<longrightarrow> STAILQ_LAST H' h = Inr (list_head (rev xs))"
      "\<forall>h xs. [0 \<mapsto> [2, 3]] h = Some xs \<longrightarrow>
        SLIST_FOREACH (\<lambda>_. G') h (\<lambda>n ns. ns @ [n]) [] = Some (fold (\<lambda>n ns. ns @ [n]) xs [])"
    using singly_linked_sequences [of garbage_stailq Map.empty garbage_slist ?ps "[0 \<mapsto> [2, 3]]" "\<lambda>n ns. ns @ [n]" "[]"] by blast
  show ?thesis
    using obs(1) [rule_format, of 0 "[2, 3]"] obs(2) [rule_format, of 0 "[2, 3]"]
    by (intro conjI exI [of _ H'] exI [of _ G'] run) simp_all
qed

end
