(* ===== verification/TxState.thy ===== *)
theory TxState
  imports TxQueue
begin

text \<open>
  The data of the library: the structures of \<open>include/tx_loop.h\<close>, \<open>tx_timer.h\<close>, \<open>tx_poll.h\<close>,
  \<open>tx_aiocb.h\<close> and of the pollers, and the memory they live in.

  A pointer is a value of a datatype with one constructor per place an object of its type can
  live: a \<open>tx_task_t\<close> is a caller's own (\<open>Task\<close>), the \<open>tx_tailer\<close> of a loop, the \<open>phony\<close> local of
  \<open>tx_loop_main\<close>, the task of a poller or of a task stack. \<open>container_of\<close> is then a match on the
  constructor. A nullable pointer is an \<open>option\<close>. The \<open>LIST_ENTRY\<close> fields of tasks and timers are in
  the two list heaps \<open>tq\<close> and \<open>mq\<close>.
\<close>

section \<open>Pointers\<close>

datatype loop_p = DefaultLoop | NewLoop nat
datatype ring_p = Ring nat | NullRing   \<comment> \<open>\<open>NULL\<close>, where it is stored in a timer\<close>
datatype timer_p = Timer nat
datatype aiocb_p = Aiocb nat
datatype stack_p = Stack nat
datatype epoll_p = Epoll nat
datatype kqueue_p = Kqueue nat
datatype port_p = Port nat
datatype ovl_p = Ovl nat

datatype poll_p =
    Callout ring_p          \<comment> \<open>\<open>&ring->tx_tm_callout\<close>\<close>
  | EpollTask epoll_p       \<comment> \<open>\<open>&epoll->epoll_task\<close>\<close>
  | KqueuePoll kqueue_p     \<comment> \<open>\<open>&kqueue->kqueue_poll\<close>\<close>
  | PortPoll port_p         \<comment> \<open>\<open>&port->port_poll\<close>\<close>

datatype task_p =
    Task nat
  | Tailer loop_p           \<comment> \<open>\<open>&up->tx_tailer\<close>\<close>
  | Phony loop_p            \<comment> \<open>the local \<open>phony\<close> of \<open>tx_loop_main(up)\<close>\<close>
  | PollTask poll_p         \<comment> \<open>\<open>&poll->tx_task\<close>\<close>
  | SchedTask stack_p       \<comment> \<open>\<open>&stack->tx_sched\<close>\<close>

datatype taskq_p =
    LoopQ loop_p            \<comment> \<open>\<open>&up->tx_taskq\<close>\<close>
  | UserQ nat               \<comment> \<open>a \<open>tx_task_q\<close> of the caller\<close>

datatype timerq_p =
    StTimers ring_p         \<comment> \<open>\<open>&ring->tx_st_timers\<close>\<close>
  | MiTimers ring_p nat     \<comment> \<open>\<open>&ring->tx_mi_timers[i]\<close>\<close>
  | MaTimers ring_p nat     \<comment> \<open>\<open>&ring->tx_ma_timers[i]\<close>\<close>

datatype void_p =
    VNull | VTask task_p | VTimer timer_p | VRing ring_p | VEpoll epoll_p | VKqueue kqueue_p
  | VPort port_p | VStack stack_p | VAiocb aiocb_p | VUser nat

datatype call_p =
    NullCall | TimerPolling | EpollPolling | KqueuePolling | PortPolling | StackCallback | UserCall nat

datatype ball_call_p = NullBall | UserBall nat

datatype ops_p = NoOps | EpollOps | KqueueOps | PortOps
datatype fops_p = NoFops | GenericFops

section \<open>Structures\<close>

record tx_task_t =
  task_flags :: u32
  tx_reason :: void_p
  task_data :: void_p
  task_call :: call_p
  task_loop :: loop_p

record tx_loop_t =
  tx_busy :: u32
  tx_stop :: int
  tx_break :: int
  tx_actives :: int
  tx_upcount :: int
  tx_holder :: void_p
  tx_poller :: "poll_p option"
  tx_current :: "task_p option"

record tx_task_ball_t =
  ball_uflag :: int
  ball_data :: void_p
  ball_call :: ball_call_p

record tx_task_stack_t =
  tx_top :: int
  stack_flag :: int
  tx_code :: int
  stack_uflag :: int
  tx_balls :: "tx_task_ball_t list"

record tx_timer_t =
  timer_flags :: u32
  interval :: u32
  timer_task :: "task_p option"
  tx_ring :: ring_p

record tx_timer_ring =
  tx_st_tick :: u64
  tx_mi_tick :: u64
  tx_mi_wheel :: u64
  tx_ma_tick :: u64
  tx_ma_wheel :: u64

record tx_aiocb =
  tx_fd :: int
  filp_flags :: u32
  tx_privp :: "ovl_p option"               \<comment> \<open>used by the completion port only\<close>
  filp_poll :: poll_p
  tx_fops :: fops_p
  tx_filterin :: "task_p option"
  tx_filterout :: "task_p option"

record tx_epoll_t =
  epoll_fd :: int
  epoll_refcnt :: int

record tx_kqueue_t =
  kqueue_fd :: int
  kqueue_refcnt :: int

record tx_overlapped_t =
  ov_refcnt :: int
  ov_newfd :: int
  ov_filp :: "aiocb_p option"
  ov_cache :: "8 word list"                \<comment> \<open>what was copied to \<open>tx_cache\<close>\<close>

text \<open>The requests the pollers make of the kernel, as they are recorded in the memory.\<close>

datatype kcall =
    EpollAdd epoll_p int u32 aiocb_p      \<comment> \<open>\<open>epoll_ctl(EPOLL_CTL_ADD)\<close>: descriptor, events, \<open>data.ptr\<close>\<close>
  | EpollMod epoll_p int u32 aiocb_p
  | EpollDel epoll_p int aiocb_p
  | KeventAdd kqueue_p int bool aiocb_p   \<comment> \<open>\<open>EV_ADD|EV_ONESHOT\<close>; \<open>True\<close> for \<open>EVFILT_READ\<close>\<close>
  | KeventDel kqueue_p int "bool list" aiocb_p
  | Sent aiocb_p "8 word list"            \<comment> \<open>bytes the kernel took for the block's descriptor\<close>
  | CloseFd int
  | Input int "8 word list"             \<comment> \<open>bytes \<open>read\<close> took from a descriptor\<close>
  | Output int "8 word list"            \<comment> \<open>bytes written to a descriptor that has no block\<close>

section \<open>Memory\<close>

text \<open>The I/O half and the task half of the memory.\<close>

record tx_io =
  poll_ops :: "poll_p \<Rightarrow> ops_p"            \<comment> \<open>\<open>poll->tx_ops\<close>\<close>
  aiocbs :: "aiocb_p \<Rightarrow> tx_aiocb"
  epolls :: "epoll_p \<Rightarrow> tx_epoll_t"
  kqueues :: "kqueue_p \<Rightarrow> tx_kqueue_t"
  overlappeds :: "ovl_p \<Rightarrow> tx_overlapped_t"
  ovl_live :: "ovl_p \<Rightarrow> bool"              \<comment> \<open>allocated and not deleted\<close>
  pq :: "(ovl_p, port_p) lheap"           \<comment> \<open>\<open>port->port_list\<close>\<close>
  in_flight :: "ovl_p \<Rightarrow> bool \<Rightarrow> bool"     \<comment> \<open>the kernel uses its \<open>tx_send\<close> (\<open>True\<close>), \<open>tx_recv\<close>\<close>
  lp_accept :: bool                       \<comment> \<open>\<open>lpAcceptEx\<close> is not null\<close>
  lp_connect :: bool                      \<comment> \<open>\<open>lpConnectEx\<close> is not null\<close>
  kcalls :: "kcall list"

record tx_mem =
  tasks :: "task_p \<Rightarrow> tx_task_t"
  loops :: "loop_p \<Rightarrow> tx_loop_t"
  tq :: "(task_p, taskq_p) lheap"
  default_init :: bool                     \<comment> \<open>\<open>static int _init\<close> of \<open>tx_loop_default\<close>\<close>
  stacks :: "stack_p \<Rightarrow> tx_task_stack_t"
  timers :: "timer_p \<Rightarrow> tx_timer_t"
  rings :: "ring_p \<Rightarrow> tx_timer_ring"
  ring_live :: "ring_p \<Rightarrow> bool"            \<comment> \<open>allocated and not deleted\<close>
  loop_freed :: "loop_p \<Rightarrow> bool"           \<comment> \<open>freed by \<open>tx_loop_delete\<close>\<close>
  mq :: "(timer_p, timerq_p) lheap"
  tx_ticks :: u32
  cells :: "nat \<Rightarrow> int"                   \<comment> \<open>integer variables of the program around the library\<close>
  io :: tx_io

definition on_tq :: "((task_p, taskq_p) lheap \<Rightarrow> (task_p, taskq_p) lheap) \<Rightarrow> tx_mem \<Rightarrow> tx_mem" where
  "on_tq f s = s\<lparr>tq := f (tq s)\<rparr>"

definition on_mq :: "((timer_p, timerq_p) lheap \<Rightarrow> (timer_p, timerq_p) lheap) \<Rightarrow> tx_mem \<Rightarrow> tx_mem" where
  "on_mq f s = s\<lparr>mq := f (mq s)\<rparr>"

definition upd_task :: "task_p \<Rightarrow> (tx_task_t \<Rightarrow> tx_task_t) \<Rightarrow> tx_mem \<Rightarrow> tx_mem" where
  "upd_task t f s = s\<lparr>tasks := (tasks s)(t := f (tasks s t))\<rparr>"

definition upd_loop :: "loop_p \<Rightarrow> (tx_loop_t \<Rightarrow> tx_loop_t) \<Rightarrow> tx_mem \<Rightarrow> tx_mem" where
  "upd_loop up f s = s\<lparr>loops := (loops s)(up := f (loops s up))\<rparr>"

definition upd_stack :: "stack_p \<Rightarrow> (tx_task_stack_t \<Rightarrow> tx_task_stack_t) \<Rightarrow> tx_mem \<Rightarrow> tx_mem" where
  "upd_stack k f s = s\<lparr>stacks := (stacks s)(k := f (stacks s k))\<rparr>"

definition upd_timer :: "timer_p \<Rightarrow> (tx_timer_t \<Rightarrow> tx_timer_t) \<Rightarrow> tx_mem \<Rightarrow> tx_mem" where
  "upd_timer m f s = s\<lparr>timers := (timers s)(m := f (timers s m))\<rparr>"

definition upd_ring :: "ring_p \<Rightarrow> (tx_timer_ring \<Rightarrow> tx_timer_ring) \<Rightarrow> tx_mem \<Rightarrow> tx_mem" where
  "upd_ring r f s = s\<lparr>rings := (rings s)(r := f (rings s r))\<rparr>"

definition upd_io :: "(tx_io \<Rightarrow> tx_io) \<Rightarrow> tx_mem \<Rightarrow> tx_mem" where
  "upd_io f s = s\<lparr>io := f (io s)\<rparr>"

definition upd_filp :: "aiocb_p \<Rightarrow> (tx_aiocb \<Rightarrow> tx_aiocb) \<Rightarrow> tx_mem \<Rightarrow> tx_mem" where
  "upd_filp a f = upd_io (\<lambda>i. i\<lparr>aiocbs := (aiocbs i)(a := f (aiocbs i a))\<rparr>)"

definition upd_epoll :: "epoll_p \<Rightarrow> (tx_epoll_t \<Rightarrow> tx_epoll_t) \<Rightarrow> tx_mem \<Rightarrow> tx_mem" where
  "upd_epoll e f = upd_io (\<lambda>i. i\<lparr>epolls := (epolls i)(e := f (epolls i e))\<rparr>)"

definition upd_kqueue :: "kqueue_p \<Rightarrow> (tx_kqueue_t \<Rightarrow> tx_kqueue_t) \<Rightarrow> tx_mem \<Rightarrow> tx_mem" where
  "upd_kqueue k f = upd_io (\<lambda>i. i\<lparr>kqueues := (kqueues i)(k := f (kqueues i k))\<rparr>)"

definition upd_ovl :: "ovl_p \<Rightarrow> (tx_overlapped_t \<Rightarrow> tx_overlapped_t) \<Rightarrow> tx_mem \<Rightarrow> tx_mem" where
  "upd_ovl v f = upd_io (\<lambda>i. i\<lparr>overlappeds := (overlappeds i)(v := f (overlappeds i v))\<rparr>)"

definition on_pq :: "((ovl_p, port_p) lheap \<Rightarrow> (ovl_p, port_p) lheap) \<Rightarrow> tx_mem \<Rightarrow> tx_mem" where
  "on_pq f = upd_io (\<lambda>i. i\<lparr>pq := f (pq i)\<rparr>)"

definition log_kcall :: "kcall \<Rightarrow> tx_mem \<Rightarrow> tx_mem" where
  "log_kcall c = upd_io (\<lambda>i. i\<lparr>kcalls := kcalls i @ [c]\<rparr>)"

lemmas mem_defs = on_tq_def on_mq_def upd_task_def upd_loop_def upd_stack_def upd_timer_def upd_ring_def

lemmas io_defs = upd_io_def upd_filp_def upd_epoll_def upd_kqueue_def upd_ovl_def on_pq_def log_kcall_def

text \<open>Memory in which every byte is zero, the state of static data and of \<open>memset(p, 0, n)\<close>.\<close>

definition zero_task :: tx_task_t where
  "zero_task = \<lparr>task_flags = 0, tx_reason = VNull, task_data = VNull, task_call = NullCall,
     task_loop = DefaultLoop\<rparr>"

definition zero_loop :: tx_loop_t where
  "zero_loop = \<lparr>tx_busy = 0, tx_stop = 0, tx_break = 0, tx_actives = 0, tx_upcount = 0,
     tx_holder = VNull, tx_poller = None, tx_current = None\<rparr>"

definition zero_ball :: tx_task_ball_t where
  "zero_ball = \<lparr>ball_uflag = 0, ball_data = VNull, ball_call = NullBall\<rparr>"

definition zero_stack :: tx_task_stack_t where
  "zero_stack = \<lparr>tx_top = 0, stack_flag = 0, tx_code = 0, stack_uflag = 0,
     tx_balls = replicate 10 zero_ball\<rparr>"

definition zero_lheap :: "('n, 'h) lheap" where
  "zero_lheap = \<lparr>le_next = (\<lambda>_. None), le_prev = (\<lambda>_. NoSlot), lh_first = (\<lambda>_. None)\<rparr>"

definition zero_io :: tx_io where
  "zero_io =
    \<lparr>poll_ops = (\<lambda>_. NoOps),
     aiocbs = (\<lambda>_. \<lparr>tx_fd = 0, filp_flags = 0, tx_privp = None, filp_poll = EpollTask (Epoll 0),
       tx_fops = NoFops, tx_filterin = None, tx_filterout = None\<rparr>),
     epolls = (\<lambda>_. \<lparr>epoll_fd = 0, epoll_refcnt = 0\<rparr>),
     kqueues = (\<lambda>_. \<lparr>kqueue_fd = 0, kqueue_refcnt = 0\<rparr>),
     overlappeds = (\<lambda>_. \<lparr>ov_refcnt = 0, ov_newfd = 0, ov_filp = None, ov_cache = []\<rparr>),
     ovl_live = (\<lambda>_. False), pq = zero_lheap, in_flight = (\<lambda>_ _. False),
     lp_accept = False, lp_connect = False, kcalls = []\<rparr>"

definition zero_mem :: tx_mem where
  "zero_mem =
    \<lparr>tasks = (\<lambda>_. zero_task), loops = (\<lambda>_. zero_loop), tq = zero_lheap,
     default_init = False, stacks = (\<lambda>_. zero_stack),
     timers = (\<lambda>_. \<lparr>timer_flags = 0, interval = 0, timer_task = None, tx_ring = NullRing\<rparr>),
     rings = (\<lambda>_. \<lparr>tx_st_tick = 0, tx_mi_tick = 0, tx_mi_wheel = 0, tx_ma_tick = 0, tx_ma_wheel = 0\<rparr>),
     ring_live = (\<lambda>_. False), loop_freed = (\<lambda>_. False), mq = zero_lheap, tx_ticks = 0, cells = (\<lambda>_. 0), io = zero_io\<rparr>"

end
