(* ===== verification/TxTask.thy ===== *)
theory TxTask
  imports TxState
begin

text \<open>
  The task half of \<open>tx_loop.cpp\<close>: activating, dropping, marking, recording and waking tasks, the
  loop's own fields, and \<open>tx_poll.cpp\<close>. \<open>TX_CHECK\<close> only prints a diagnostic and is left out.
\<close>

section \<open>Flags\<close>

definition TASK_IDLE :: u32 where [flag_defs]: "TASK_IDLE = 0x1"
definition TASK_BUSY :: u32 where [flag_defs]: "TASK_BUSY = 0x2"
definition TASK_PENDING :: u32 where [flag_defs]: "TASK_PENDING = 0x4"
definition TASK_USER_MARK :: u32 where [flag_defs]: "TASK_USER_MARK = 0x8"

lemma task_flag_tests [flags]:
  "has TASK_IDLE TASK_IDLE" "\<not> has TASK_IDLE TASK_BUSY" "\<not> has TASK_IDLE TASK_PENDING"
  "\<not> has TASK_BUSY TASK_IDLE" "has TASK_BUSY TASK_BUSY" "\<not> has TASK_BUSY TASK_PENDING"
  "\<not> has TASK_PENDING TASK_IDLE" "\<not> has TASK_PENDING TASK_BUSY" "has TASK_PENDING TASK_PENDING"
  "\<not> has TASK_USER_MARK TASK_IDLE" "\<not> has TASK_USER_MARK TASK_BUSY"
  "\<not> has TASK_USER_MARK TASK_PENDING"
  by (simp_all add: has_def flag_defs)

lemma task_masks:
  "TASK_IDLE AND TASK_BUSY = 0" "TASK_IDLE AND TASK_PENDING = 0" "TASK_BUSY AND TASK_IDLE = 0"
  "TASK_BUSY AND TASK_PENDING = 0" "TASK_PENDING AND TASK_IDLE = 0" "TASK_PENDING AND TASK_BUSY = 0"
  "TASK_USER_MARK AND TASK_IDLE = 0" "TASK_USER_MARK AND TASK_BUSY = 0"
  "TASK_USER_MARK AND TASK_PENDING = 0"
  by (simp_all add: flag_defs)

lemma task_flag_clears [flags]:
  "\<not> has (f AND NOT TASK_IDLE) TASK_IDLE" "\<not> has (f AND NOT TASK_BUSY) TASK_BUSY"
  "\<not> has (f AND NOT TASK_PENDING) TASK_PENDING"
  "has (f AND NOT TASK_IDLE) TASK_BUSY = has f TASK_BUSY"
  "has (f AND NOT TASK_IDLE) TASK_PENDING = has f TASK_PENDING"
  "has (f AND NOT TASK_BUSY) TASK_IDLE = has f TASK_IDLE"
  "has (f AND NOT TASK_BUSY) TASK_PENDING = has f TASK_PENDING"
  "has (f AND NOT TASK_PENDING) TASK_IDLE = has f TASK_IDLE"
  "has (f AND NOT TASK_PENDING) TASK_BUSY = has f TASK_BUSY"
  "has (f AND NOT TASK_USER_MARK) TASK_IDLE = has f TASK_IDLE"
  "has (f AND NOT TASK_USER_MARK) TASK_BUSY = has f TASK_BUSY"
  "has (f AND NOT TASK_USER_MARK) TASK_PENDING = has f TASK_PENDING"
  by (simp_all add: has_clear_other has_clear_sub task_masks)

lemma task_flag_masks [flags]:
  "f AND TASK_IDLE = TASK_IDLE \<longleftrightarrow> has f TASK_IDLE" "f AND TASK_BUSY = TASK_BUSY \<longleftrightarrow> has f TASK_BUSY"
  using has_single [of TASK_IDLE 0 f] has_single [of TASK_BUSY 1 f] by (simp_all add: flag_defs)

section \<open>Tasks\<close>

definition tx_loop_get :: "task_p \<Rightarrow> tx_mem \<Rightarrow> loop_p" where
  "tx_loop_get task s = task_loop (tasks s task)"

definition tx_task_init :: "task_p \<Rightarrow> loop_p \<Rightarrow> call_p \<Rightarrow> void_p \<Rightarrow> tx_mem \<Rightarrow> tx_mem" where
  "tx_task_init task loop call data s =
     upd_task task (\<lambda>t. t\<lparr>task_call := call, task_data := data, task_loop := loop,
       task_flags := TASK_IDLE\<rparr>) s"

definition tx_task_mark :: "task_p \<Rightarrow> tx_mem \<Rightarrow> tx_mem" where
  "tx_task_mark task s =
     upd_task task (\<lambda>t. t\<lparr>task_flags := task_flags t OR TASK_USER_MARK\<rparr>) s"

definition tx_task_drop :: "task_p option \<Rightarrow> tx_mem \<Rightarrow> tx_mem" where
  "tx_task_drop task s =
     (case task of
        None \<Rightarrow> s
      | Some t \<Rightarrow>
          if task_flags (tasks s t) AND TASK_IDLE \<noteq> TASK_IDLE then
            let s1 = upd_task t (\<lambda>u. u\<lparr>task_flags := task_flags u AND NOT TASK_PENDING\<rparr>) s;
                s2 = upd_task t (\<lambda>u. u\<lparr>task_flags := task_flags u AND NOT TASK_BUSY\<rparr>) s1;
                s3 = on_tq (LIST_REMOVE t) s2
            in upd_task t (\<lambda>u. u\<lparr>task_flags := task_flags u OR TASK_IDLE\<rparr>) s3
          else s)"

definition tx_task_active :: "task_p option \<Rightarrow> void_p \<Rightarrow> tx_mem \<Rightarrow> tx_mem" where
  "tx_task_active task reason s =
     (case task of
        None \<Rightarrow> s
      | Some t \<Rightarrow>
          let up = task_loop (tasks s t) in
          if tx_stop (loops s up) = 0 \<and> task_flags (tasks s t) AND TASK_BUSY \<noteq> TASK_BUSY then
            let s1 = tx_task_drop (Some t) s;
                s2 = on_tq (LIST_INSERT_BEFORE (Tailer up) t) s1;
                s3 = upd_task t (\<lambda>u. u\<lparr>task_flags := task_flags u AND NOT TASK_IDLE\<rparr>) s2;
                s4 = upd_task t (\<lambda>u. u\<lparr>task_flags := task_flags u OR TASK_BUSY\<rparr>) s3;
                s5 = upd_task t (\<lambda>u. u\<lparr>tx_reason := reason\<rparr>) s4;
                s6 = upd_loop up (\<lambda>l. l\<lparr>tx_actives := tx_actives l + 1\<rparr>) s5
            in upd_loop up (\<lambda>l. l\<lparr>tx_busy := tx_busy l OR 1\<rparr>) s6
          else s)"

definition tx_task_record :: "taskq_p \<Rightarrow> task_p \<Rightarrow> tx_mem \<Rightarrow> tx_mem" where
  "tx_task_record taskq task s =
     (let s1 = tx_task_drop (Some task) s;
          s2 = on_tq (LIST_INSERT_HEAD taskq task) s1;
          s3 = upd_task task (\<lambda>u. u\<lparr>task_flags := task_flags u OR TASK_PENDING\<rparr>) s2
      in upd_task task (\<lambda>u. u\<lparr>task_flags := task_flags u AND NOT TASK_IDLE\<rparr>) s3)"

definition wakeup_one :: "void_p \<Rightarrow> task_p \<Rightarrow> tx_mem \<Rightarrow> tx_mem" where
  \<comment> \<open>the body of the loop of \<open>tx_task_wakeup\<close>\<close>
  "wakeup_one reason cur s =
     tx_task_active (Some cur) reason
       (upd_task cur (\<lambda>u. u\<lparr>task_flags := task_flags u AND NOT TASK_PENDING\<rparr>) s)"

definition tx_task_wakeup :: "taskq_p \<Rightarrow> void_p \<Rightarrow> tx_mem \<Rightarrow> tx_mem option" where
  "tx_task_wakeup taskq reason s =
     map_option (on_tq (LIST_INIT taskq))
       (list_foreach_safe (\<lambda>s n. le_next (tq s) n) (wakeup_one reason) (lh_first (tq s) taskq) s)"

section \<open>Loops\<close>

definition tx_loop_default :: "tx_mem \<Rightarrow> loop_p \<times> tx_mem" where
  "tx_loop_default s =
     (if \<not> default_init s then
        let s1 = on_tq (LIST_INIT (LoopQ DefaultLoop)) s;
            s2 = on_tq (LIST_INSERT_HEAD (LoopQ DefaultLoop) (Tailer DefaultLoop)) s1
        in (DefaultLoop, s2\<lparr>default_init := True\<rparr>)
      else (DefaultLoop, s))"

text \<open>\<open>tx_loop_new\<close>: the argument is what \<open>malloc\<close> returned. The block, tailer included, is zeroed.\<close>

definition tx_loop_new :: "loop_p option \<Rightarrow> tx_mem \<Rightarrow> loop_p option \<times> tx_mem" where
  "tx_loop_new malloc s =
     (case malloc of
        None \<Rightarrow> (None, s)
      | Some up \<Rightarrow>
          let s1 = upd_loop up (\<lambda>_. zero_loop) (upd_task (Tailer up) (\<lambda>_. zero_task) s);
              s2 = on_tq (LIST_INIT (LoopQ up)) s1;
              s3 = on_tq (LIST_INSERT_HEAD (LoopQ up) (Tailer up)) s2;
              s4 = upd_loop up (\<lambda>l. l\<lparr>tx_holder := VNull, tx_poller := None, tx_break := 0,
                     tx_stop := 0, tx_busy := 0\<rparr>) s3
          in (Some up, s4\<lparr>loop_freed := (loop_freed s4)(up := False)\<rparr>))"

text \<open>\<open>tx_loop_delete\<close>; its \<open>TX_CHECK\<close> is the result, \<open>False\<close> when the diagnostic is printed.\<close>

definition tx_loop_delete :: "loop_p \<Rightarrow> tx_mem \<Rightarrow> bool \<times> tx_mem" where
  "tx_loop_delete up s =
     (if up \<noteq> DefaultLoop
      then (lh_first (tq s) (LoopQ up) \<noteq> None, s\<lparr>loop_freed := (loop_freed s)(up := True)\<rparr>)
      else (True, s))"

text \<open>What \<open>tx_task_null\<close> returns the address of.\<close>

definition tx_task_null :: tx_task_t where
  "tx_task_null = \<lparr>task_flags = 0, tx_reason = VNull, task_data = VNull, task_call = NullCall,
     task_loop = DefaultLoop\<rparr>"

definition tx_loop_break :: "loop_p \<Rightarrow> tx_mem \<Rightarrow> tx_mem" where
  "tx_loop_break up s = upd_loop up (\<lambda>l. l\<lparr>tx_break := 1\<rparr>) s"

definition tx_loop_stop :: "loop_p \<Rightarrow> tx_mem \<Rightarrow> tx_mem" where
  "tx_loop_stop up s = upd_loop up (\<lambda>l. l\<lparr>tx_stop := 1\<rparr>) s"

definition tx_loop_timeout :: "loop_p \<Rightarrow> void_p \<Rightarrow> tx_mem \<Rightarrow> int" where
  "tx_loop_timeout up verify s =
     (let l = loops s up in
      if has (tx_busy l) 0x3 \<and> tx_actives l > 0 then 0
      else if tx_break l > 0 then 0
      else if tx_holder l = VNull then 10000
      else if tx_holder l = verify then 10000
      else 0)"

section \<open>Pollers' tasks: \<open>tx_poll.cpp\<close>\<close>

definition tx_poll_init :: "poll_p \<Rightarrow> loop_p \<Rightarrow> call_p \<Rightarrow> void_p \<Rightarrow> tx_mem \<Rightarrow> tx_mem" where
  "tx_poll_init poll loop call data s = tx_task_init (PollTask poll) loop call data s"

definition tx_poll_get :: "loop_p \<Rightarrow> tx_mem \<Rightarrow> poll_p option" where
  "tx_poll_get loop s = tx_poller (loops s loop)"

definition tx_poll_active :: "poll_p \<Rightarrow> tx_mem \<Rightarrow> tx_mem" where
  "tx_poll_active poll s =
     (let task = PollTask poll;
          up = task_loop (tasks s task)
      in if tx_stop (loops s up) = 0 \<and> has (task_flags (tasks s task)) TASK_IDLE then
           let s1 = on_tq (LIST_INSERT_BEFORE (Tailer up) task) s;
               s2 = upd_task task (\<lambda>u. u\<lparr>task_flags := task_flags u AND NOT TASK_IDLE\<rparr>) s1
           in upd_loop up (\<lambda>l. l\<lparr>tx_busy := tx_busy l OR 0\<rparr>) s2
         else s)"

end
