(* ===== verification/TxTaskInv.thy ===== *)
theory TxTaskInv
  imports TxTask
begin

text \<open>
  The invariant of tasks, queues and the loop's counters, and its preservation by every task
  operation of \<open>tx_loop.cpp\<close> and \<open>tx_poll.cpp\<close>.

  \<open>T\<close> is the set of initialised tasks, \<open>U\<close> the set of
  initialised list heads (the loops' queues and the callers' wait queues), \<open>M\<close> the
  set of loops whose \<open>tx_loop_main\<close> is running (its \<open>phony\<close> is linked), \<open>Q\<close> the family of lists the
  heap represents.
\<close>

section \<open>Reading a task\<close>

definition idle :: "tx_mem \<Rightarrow> task_p \<Rightarrow> bool" where
  "idle s t \<longleftrightarrow> has (task_flags (tasks s t)) TASK_IDLE"

definition busy :: "tx_mem \<Rightarrow> task_p \<Rightarrow> bool" where
  "busy s t \<longleftrightarrow> has (task_flags (tasks s t)) TASK_BUSY"

definition pending :: "tx_mem \<Rightarrow> task_p \<Rightarrow> bool" where
  "pending s t \<longleftrightarrow> has (task_flags (tasks s t)) TASK_PENDING"

abbreviation loop_of :: "tx_mem \<Rightarrow> task_p \<Rightarrow> loop_p" where
  "loop_of s t \<equiv> task_loop (tasks s t)"

definition stopped :: "tx_mem \<Rightarrow> loop_p \<Rightarrow> bool" where
  "stopped s up \<longleftrightarrow> tx_stop (loops s up) \<noteq> 0"

lemmas task_reads = idle_def busy_def pending_def stopped_def

section \<open>The invariant\<close>

definition on_list :: "('h \<rightharpoonup> 'n list) \<Rightarrow> 'h \<Rightarrow> 'n \<Rightarrow> bool" where
  "on_list Q h t \<longleftrightarrow> (\<exists>xs. Q h = Some xs \<and> t \<in> set xs)"

text \<open>The tasks a loop has queued, without its tailer.\<close>

definition runq :: "(taskq_p \<rightharpoonup> task_p list) \<Rightarrow> loop_p \<Rightarrow> task_p list \<Rightarrow> bool" where
  "runq Q up xs \<longleftrightarrow> Q (LoopQ up) = Some (xs @ [Tailer up])"

fun ordinary :: "task_p \<Rightarrow> bool" where
  "ordinary (Tailer _) = False"
| "ordinary (Phony _) = False"
| "ordinary _ = True"

text \<open>Which task may be on which list, and what its flags then say.\<close>

definition queues_ok :: "task_p set \<Rightarrow> taskq_p set \<Rightarrow> loop_p set \<Rightarrow> tx_mem \<Rightarrow> (taskq_p \<rightharpoonup> task_p list) \<Rightarrow> bool" where
  "queues_ok T U M s Q \<longleftrightarrow>
     list_rep (tq s) Q \<and>
     (\<forall>up. LoopQ up \<in> dom Q \<longrightarrow> (\<exists>xs. runq Q up xs)) \<and>
     (\<forall>up t. on_list Q (LoopQ up) t \<longrightarrow>
        t = Tailer up \<or> t = Phony up \<or> t \<in> T \<and> loop_of s t = up \<and> \<not> pending s t) \<and>
     (\<forall>n t. on_list Q (UserQ n) t \<longrightarrow> t \<in> T \<and> pending s t \<and> \<not> busy s t) \<and>
     (\<forall>up. on_list Q (LoopQ up) (Phony up) \<longleftrightarrow> up \<in> M) \<and>
     dom Q = U"

definition tasks_ok :: "task_p set \<Rightarrow> tx_mem \<Rightarrow> (taskq_p \<rightharpoonup> task_p list) \<Rightarrow> bool" where
  "tasks_ok T s Q \<longleftrightarrow>
     (\<forall>t\<in>T. ordinary t \<and> (idle s t \<longleftrightarrow> unlinked Q t) \<and> (idle s t \<longrightarrow> \<not> busy s t \<and> \<not> pending s t) \<and>
        LoopQ (loop_of s t) \<in> dom Q)"

text \<open>
  The loop's bookkeeping: \<open>tx_actives\<close> is at least the number of busy tasks in the queue; if one is
  queued behind the phony task, bit 0 of \<open>tx_busy\<close> is set, and if one is queued at all, bit 0 or 1.
\<close>

definition busy_in :: "task_p set \<Rightarrow> tx_mem \<Rightarrow> task_p list \<Rightarrow> task_p list" where
  "busy_in T s xs = filter (\<lambda>t. t \<in> T \<and> busy s t) xs"

definition behind :: "loop_p \<Rightarrow> task_p list \<Rightarrow> task_p list" where
  "behind up xs = dropWhile (\<lambda>t. t \<noteq> Phony up) xs"

definition acc_ok :: "task_p set \<Rightarrow> tx_mem \<Rightarrow> (taskq_p \<rightharpoonup> task_p list) \<Rightarrow> bool" where
  "acc_ok T s Q \<longleftrightarrow>
     (\<forall>up xs. runq Q up xs \<longrightarrow>
        int (length (busy_in T s xs)) \<le> tx_actives (loops s up) \<and>
        (busy_in T s xs \<noteq> [] \<longrightarrow> has (tx_busy (loops s up)) 3) \<and>
        (busy_in T s (behind up xs) \<noteq> [] \<longrightarrow> has (tx_busy (loops s up)) 1))"

definition loop_inv :: "task_p set \<Rightarrow> taskq_p set \<Rightarrow> loop_p set \<Rightarrow> tx_mem \<Rightarrow> (taskq_p \<rightharpoonup> task_p list) \<Rightarrow> bool" where
  "loop_inv T U M s Q \<longleftrightarrow> queues_ok T U M s Q \<and> tasks_ok T s Q \<and> acc_ok T s Q"

subsection \<open>List facts\<close>

lemma on_list_q_remove [simp]: "on_list (q_remove x Q) h t \<longleftrightarrow> t \<noteq> x \<and> on_list Q h t"
  unfolding on_list_def q_remove_apply by (auto; metis Diff_iff insertE set_removeAll singletonD)

lemma on_list_q_head [simp]:
  "on_list (q_head g x Q) h t \<longleftrightarrow> on_list Q h t \<or> (h = g \<and> t = x \<and> g \<in> dom Q)"
  by (cases "Q g"; cases "Q h") (auto simp: on_list_def)

lemma on_list_q_before [simp]:
  "on_list (q_before l x Q) h t \<longleftrightarrow> on_list Q h t \<or> (t = x \<and> on_list Q h l)"
  by (fastforce simp: on_list_def set_ins_before split: if_splits)

lemma linked_on_list: "linked Q t \<longleftrightarrow> (\<exists>h. on_list Q h t)"
  by (auto simp: linked_iff on_list_def)

lemma unlinked_on_list: "unlinked Q t \<longleftrightarrow> (\<forall>h. \<not> on_list Q h t)"
  by (auto simp: unlinked_def on_list_def)

lemma on_list_unique: "list_rep H Q \<Longrightarrow> on_list Q h t \<Longrightarrow> on_list Q g t \<Longrightarrow> g = h"
  unfolding on_list_def by (metis list_rep_unique_head)

lemma runq_on_list: "runq Q up xs \<Longrightarrow> on_list Q (LoopQ up) t \<longleftrightarrow> t \<in> set xs \<or> t = Tailer up"
  by (auto simp: runq_def on_list_def)

lemma runq_unique: "runq Q up xs \<Longrightarrow> runq Q up ys \<Longrightarrow> xs = ys"
  by (simp add: runq_def)

lemma runq_q_remove: "t \<noteq> Tailer up \<Longrightarrow> runq Q up xs \<Longrightarrow> runq (q_remove t Q) up (removeAll t xs)"
  by (auto simp: runq_def)

lemma runq_q_remove_iff:
  "t \<noteq> Tailer up \<Longrightarrow> \<exists>zs. runq Q up zs \<Longrightarrow>
     runq (q_remove t Q) up ys \<longleftrightarrow> (\<exists>xs. runq Q up xs \<and> ys = removeAll t xs)"
  by (metis runq_q_remove runq_unique)

lemma runq_q_before_same:
  assumes "list_rep H Q" and "runq Q up xs"
  shows "runq (q_before (Tailer up) t Q) up (xs @ [t])"
proof -
  have "Tailer up \<notin> set xs"
    using tq.distinct_list [OF assms(1) assms(2) [unfolded runq_def]] by simp
  then show ?thesis using assms(2) by (simp add: runq_def ins_before_append)
qed

lemma runq_q_before_other:
  assumes "list_rep H Q" and "runq Q up' zs" and "up \<noteq> up'" and "runq Q up xs"
  shows "runq (q_before (Tailer up') t Q) up xs"
proof -
  have "Tailer up' \<notin> set (xs @ [Tailer up])"
    using tq.one_list [OF assms(1) assms(2) [unfolded runq_def] assms(4) [unfolded runq_def]] assms(3)
    by auto
  then show ?thesis using assms(4) by (simp add: runq_def)
qed

lemma runq_q_head [simp]: "runq (q_head (UserQ n) t Q) up xs \<longleftrightarrow> runq Q up xs"
  by (simp add: runq_def)

lemma behind_removeAll: "t \<noteq> Phony up \<Longrightarrow> behind up (removeAll t xs) = removeAll t (behind up xs)"
  by (induction xs) (auto simp: behind_def)

lemma behind_subset: "set (behind up xs) \<subseteq> set xs"
  by (auto simp: behind_def dest: set_dropWhileD)

lemma busy_in_append [simp]: "busy_in T s (xs @ ys) = busy_in T s xs @ busy_in T s ys"
  by (simp add: busy_in_def)

lemma busy_in_removeAll: "length (busy_in T s (removeAll t xs)) \<le> length (busy_in T s xs)"
  by (induction xs) (auto simp: busy_in_def)

lemma busy_in_empty: "busy_in T s xs = [] \<longleftrightarrow> (\<forall>t\<in>set xs. \<not> (t \<in> T \<and> busy s t))"
  by (simp add: busy_in_def filter_empty_conv)

lemma busy_in_mono:
  "(\<And>t. t \<in> set xs \<Longrightarrow> busy s' t \<Longrightarrow> busy s t) \<Longrightarrow> length (busy_in T s' xs) \<le> length (busy_in T s xs)"
  by (induction xs) (auto simp: busy_in_def)

section \<open>What the operations do to the fields the invariant reads\<close>

lemma tx_task_drop_idle: "idle s t \<Longrightarrow> tx_task_drop (Some t) s = s"
  by (simp add: tx_task_drop_def idle_def flags)

lemma tx_task_drop_reads:
  assumes "\<not> idle s t"
  shows "tq (tx_task_drop (Some t) s) = LIST_REMOVE t (tq s)"
    and "idle (tx_task_drop (Some t) s) u \<longleftrightarrow> idle s u \<or> u = t"
    and "busy (tx_task_drop (Some t) s) u \<longleftrightarrow> busy s u \<and> u \<noteq> t"
    and "pending (tx_task_drop (Some t) s) u \<longleftrightarrow> pending s u \<and> u \<noteq> t"
  using assms by (auto simp: tx_task_drop_def task_reads mem_defs Let_def flags)

lemma tx_task_drop_frame [simp]:
  "loop_of (tx_task_drop t s) u = loop_of s u" "loops (tx_task_drop t s) = loops s"
  "timers (tx_task_drop t s) = timers s" "rings (tx_task_drop t s) = rings s"
  "mq (tx_task_drop t s) = mq s" "tx_ticks (tx_task_drop t s) = tx_ticks s"
  "stacks (tx_task_drop t s) = stacks s" "ring_live (tx_task_drop t s) = ring_live s" "io (tx_task_drop t s) = io s"
  by (auto simp: tx_task_drop_def mem_defs Let_def split: option.split)

lemma tx_task_active_skip:
  "stopped s (loop_of s t) \<or> busy s t \<Longrightarrow> tx_task_active (Some t) r s = s"
  by (auto simp: tx_task_active_def task_reads Let_def flags)

lemma tx_task_active_None [simp]: "tx_task_active None r s = s"
  by (simp add: tx_task_active_def)

lemma tx_task_active_reads:
  assumes "\<not> stopped s (loop_of s t)" and "\<not> busy s t"
  defines "d \<equiv> tx_task_drop (Some t) s"
  shows "tq (tx_task_active (Some t) r s) = LIST_INSERT_BEFORE (Tailer (loop_of s t)) t (tq d)"
    and "idle (tx_task_active (Some t) r s) u \<longleftrightarrow> idle d u \<and> u \<noteq> t"
    and "busy (tx_task_active (Some t) r s) u \<longleftrightarrow> busy d u \<or> u = t"
    and "pending (tx_task_active (Some t) r s) u \<longleftrightarrow> pending d u"
    and "loops (tx_task_active (Some t) r s) = (loops s)(loop_of s t := (loops s (loop_of s t))
           \<lparr>tx_actives := tx_actives (loops s (loop_of s t)) + 1,
            tx_busy := tx_busy (loops s (loop_of s t)) OR 1\<rparr>)"
    and "tx_reason (tasks (tx_task_active (Some t) r s) t) = r"
  using assms by (auto simp: tx_task_active_def task_reads mem_defs Let_def flags)

lemma tx_task_active_frame [simp]:
  "loop_of (tx_task_active t r s) u = loop_of s u"
  "timers (tx_task_active t r s) = timers s" "rings (tx_task_active t r s) = rings s"
  "mq (tx_task_active t r s) = mq s" "tx_ticks (tx_task_active t r s) = tx_ticks s"
  "stacks (tx_task_active t r s) = stacks s" "ring_live (tx_task_active t r s) = ring_live s" "io (tx_task_active t r s) = io s"
  "tx_stop (loops (tx_task_active t r s) up) = tx_stop (loops s up)"
  "tx_break (loops (tx_task_active t r s) up) = tx_break (loops s up)"
  "tx_holder (loops (tx_task_active t r s) up) = tx_holder (loops s up)"
  using tx_task_drop_frame [of t s] unfolding tx_task_active_def
  by (auto simp: mem_defs Let_def split: option.split simp del: tx_task_drop_frame)

lemma active_busy:
  "busy s t \<Longrightarrow> busy (tx_task_active u r s) t"
  "stopped s (loop_of s t) \<or> busy (tx_task_active (Some t) r s) t"
proof -
  have *: "busy s t \<Longrightarrow> busy (tx_task_active (Some u) r s) t" for u
  proof (cases "stopped s (loop_of s u) \<or> busy s u")
    case False
    assume "busy s t"
    moreover have "busy (tx_task_drop (Some u) s) t \<longleftrightarrow> busy s t" if "t \<noteq> u"
      using that by (cases "idle s u") (simp_all add: tx_task_drop_idle tx_task_drop_reads)
    ultimately show ?thesis using False tx_task_active_reads(3) [of s u r t] by (cases "t = u") auto
  qed (simp add: tx_task_active_skip)
  then show "busy s t \<Longrightarrow> busy (tx_task_active u r s) t" by (cases u) auto
  show "stopped s (loop_of s t) \<or> busy (tx_task_active (Some t) r s) t"
    using * [of t] tx_task_active_reads(3) [of s t r t] by blast
qed

lemma tx_poll_active_skip:
  "stopped s (loop_of s (PollTask p)) \<or> \<not> idle s (PollTask p) \<Longrightarrow> tx_poll_active p s = s"
  by (auto simp: tx_poll_active_def task_reads Let_def)

lemma tx_poll_active_reads:
  assumes "\<not> stopped s (loop_of s (PollTask p))" and "idle s (PollTask p)"
  shows "tq (tx_poll_active p s) = LIST_INSERT_BEFORE (Tailer (loop_of s (PollTask p))) (PollTask p) (tq s)"
    and "idle (tx_poll_active p s) u \<longleftrightarrow> idle s u \<and> u \<noteq> PollTask p"
    and "busy (tx_poll_active p s) u \<longleftrightarrow> busy s u"
    and "pending (tx_poll_active p s) u \<longleftrightarrow> pending s u"
  using assms by (auto simp: tx_poll_active_def task_reads mem_defs Let_def flags)

lemma tx_poll_active_busy: "busy (tx_poll_active p s) t = busy s t"
  by (cases "stopped s (loop_of s (PollTask p)) \<or> \<not> idle s (PollTask p)")
    (simp_all add: tx_poll_active_skip tx_poll_active_reads)

lemma tx_poll_active_frame [simp]:
  "loop_of (tx_poll_active p s) u = loop_of s u" "loops (tx_poll_active p s) = loops s"
  "timers (tx_poll_active p s) = timers s" "rings (tx_poll_active p s) = rings s"
  "mq (tx_poll_active p s) = mq s" "tx_ticks (tx_poll_active p s) = tx_ticks s"
  "stacks (tx_poll_active p s) = stacks s" "ring_live (tx_poll_active p s) = ring_live s" "io (tx_poll_active p s) = io s"
  by (auto simp: tx_poll_active_def mem_defs Let_def)

lemma tx_task_record_reads:
  "tq (tx_task_record q t s) = LIST_INSERT_HEAD q t (tq (tx_task_drop (Some t) s))"
  "idle (tx_task_record q t s) u \<longleftrightarrow> idle (tx_task_drop (Some t) s) u \<and> u \<noteq> t"
  "busy (tx_task_record q t s) u \<longleftrightarrow> busy (tx_task_drop (Some t) s) u"
  "pending (tx_task_record q t s) u \<longleftrightarrow> pending (tx_task_drop (Some t) s) u \<or> u = t"
  "loop_of (tx_task_record q t s) u = loop_of s u"
  "loops (tx_task_record q t s) = loops s"
  using tx_task_drop_frame [of "Some t" s]
  by (auto simp: tx_task_record_def task_reads mem_defs Let_def flags simp del: tx_task_drop_frame)

section \<open>Taking a task off its list\<close>

lemma loop_invD:
  assumes "loop_inv T U M s Q"
  shows "list_rep (tq s) Q"
    and "\<And>up. LoopQ up \<in> dom Q \<Longrightarrow> \<exists>xs. runq Q up xs"
    and "\<And>up t. on_list Q (LoopQ up) t \<Longrightarrow>
        t = Tailer up \<or> t = Phony up \<or> t \<in> T \<and> loop_of s t = up \<and> \<not> pending s t"
    and "\<And>n t. on_list Q (UserQ n) t \<Longrightarrow> t \<in> T \<and> pending s t \<and> \<not> busy s t"
    and "\<And>up. on_list Q (LoopQ up) (Phony up) \<longleftrightarrow> up \<in> M"
    and "dom Q = U"
    and "\<And>t. t \<in> T \<Longrightarrow> ordinary t"
    and "\<And>t. t \<in> T \<Longrightarrow> idle s t \<longleftrightarrow> unlinked Q t"
    and "\<And>t. t \<in> T \<Longrightarrow> idle s t \<Longrightarrow> \<not> busy s t \<and> \<not> pending s t"
    and "\<And>t. t \<in> T \<Longrightarrow> LoopQ (loop_of s t) \<in> dom Q"
  using assms unfolding loop_inv_def queues_ok_def tasks_ok_def by blast+

lemma loop_inv_accD:
  assumes "loop_inv T U M s Q" and "runq Q up xs"
  shows "int (length (busy_in T s xs)) \<le> tx_actives (loops s up)"
    and "busy_in T s xs \<noteq> [] \<Longrightarrow> has (tx_busy (loops s up)) 3"
    and "busy_in T s (behind up xs) \<noteq> [] \<Longrightarrow> has (tx_busy (loops s up)) 1"
  using assms unfolding loop_inv_def acc_ok_def by blast+

text \<open>
  Every operation that takes the task \<open>t\<close> off its list has the same effect on the fields the
  invariant reads; \<open>loop_inv_taken\<close> is their common preservation lemma.
\<close>

lemma loop_inv_taken:
  assumes inv: "loop_inv T U M s Q" and t: "t \<in> T" "\<not> idle s t"
    and tq: "tq s' = LIST_REMOVE t (tq s)"
    and reads: "\<And>u. idle s' u \<longleftrightarrow> idle s u \<or> u = t" "\<And>u. busy s' u \<longleftrightarrow> busy s u \<and> u \<noteq> t"
      "\<And>u. pending s' u \<longleftrightarrow> pending s u \<and> u \<noteq> t" "\<And>u. loop_of s' u = loop_of s u"
    and acts: "\<And>up xs. runq Q up xs \<Longrightarrow>
      int (length (busy_in T s' (removeAll t xs))) \<le> tx_actives (loops s' up)"
    and bits: "\<And>up. tx_busy (loops s' up) = tx_busy (loops s up)"
  shows "loop_inv T U M s' (q_remove t Q)"
proof -
  note D = loop_invD [OF inv]
  have ord: "ordinary t" using D(7) t by blast
  then have nT: "t \<noteq> Tailer up" "t \<noteq> Phony up" for up by auto
  have link: "linked Q t" using D(8) t by (auto simp: linked_def)
  have rq: "\<exists>xs. runq Q up xs \<and> ys = removeAll t xs" if "runq (q_remove t Q) up ys" for up ys
  proof -
    have "LoopQ up \<in> dom Q" using that by (auto simp: runq_def)
    then show ?thesis using runq_q_remove_iff [OF nT(1) D(2)] that by blast
  qed
  have q: "queues_ok T U M s' (q_remove t Q)"
    unfolding queues_ok_def
  proof (intro conjI allI impI)
    show "list_rep (tq s') (q_remove t Q)" unfolding tq by (rule tq.unlink [OF D(1) link])
    show "\<exists>xs. runq (q_remove t Q) up xs" if "LoopQ up \<in> dom (q_remove t Q)" for up
      using that D(2) [of up] runq_q_remove [OF nT(1)] by auto
    show "u = Tailer up \<or> u = Phony up \<or> u \<in> T \<and> loop_of s' u = up \<and> \<not> pending s' u"
      if "on_list (q_remove t Q) (LoopQ up) u" for up u
      using that D(3) [of up u] by (auto simp: reads)
    show "u \<in> T" "pending s' u" "\<not> busy s' u" if "on_list (q_remove t Q) (UserQ n) u" for n u
      using that D(4) [of n u] by (auto simp: reads)
    show "on_list (q_remove t Q) (LoopQ up) (Phony up) \<longleftrightarrow> up \<in> M" for up
      using D(5) nT by simp metis
    show "dom (q_remove t Q) = U" using D(6) by simp
  qed
  have k: "tasks_ok T s' (q_remove t Q)"
    unfolding tasks_ok_def
    using D(7,8,9,10) by (auto simp: reads)
  have a: "acc_ok T s' (q_remove t Q)"
    unfolding acc_ok_def
  proof (intro allI impI)
    fix up ys assume "runq (q_remove t Q) up ys"
    then obtain xs where xs: "runq Q up xs" and ys: "ys = removeAll t xs" using rq by blast
    note A = loop_inv_accD [OF inv xs]
    have "busy_in T s' ys \<noteq> [] \<longrightarrow> busy_in T s xs \<noteq> []"
      by (auto simp: busy_in_empty ys reads)
    moreover have "busy_in T s' (behind up ys) \<noteq> [] \<longrightarrow> busy_in T s (behind up xs) \<noteq> []"
      by (auto simp: busy_in_empty ys reads behind_removeAll nT)
    ultimately show "int (length (busy_in T s' ys)) \<le> tx_actives (loops s' up) \<and>
        (busy_in T s' ys \<noteq> [] \<longrightarrow> has (tx_busy (loops s' up)) 3) \<and>
        (busy_in T s' (behind up ys) \<noteq> [] \<longrightarrow> has (tx_busy (loops s' up)) 1)"
      using A acts [OF xs] by (auto simp: ys bits)
  qed
  from q k a show ?thesis by (simp add: loop_inv_def)
qed

lemma busy_in_drop_one:
  assumes "distinct xs" and "t \<in> set xs" and "t \<in> T" and "busy s t"
    and "\<And>u. busy s' u \<longleftrightarrow> busy s u \<and> u \<noteq> t"
  shows "length (busy_in T s' (removeAll t xs)) + 1 = length (busy_in T s xs)"
proof -
  obtain us vs where xs: "xs = us @ t # vs" using assms(2) by (auto dest: split_list)
  have keep: "busy_in T s' zs = busy_in T s zs" if "t \<notin> set zs" for zs
    using that assms(5) unfolding busy_in_def by (intro filter_cong) auto
  have "t \<notin> set us" "t \<notin> set vs" using assms(1) by (auto simp: xs)
  then show ?thesis
    using assms(3,4) keep [of us] keep [of vs]
    by (simp add: xs removeAll_append removeAll_id) (simp add: busy_in_def)
qed

lemma busy_in_removeAll_le:
  assumes "\<And>u. busy s' u \<Longrightarrow> busy s u"
  shows "length (busy_in T s' (removeAll t xs)) \<le> length (busy_in T s xs)"
  using assms by (induction xs) (auto simp: busy_in_def)

lemma loop_inv_drop:
  assumes inv: "loop_inv T U M s Q" and t: "t \<in> T"
  shows "loop_inv T U M (tx_task_drop (Some t) s) (q_remove t Q)"
proof (cases "idle s t")
  case True
  then have "q_remove t Q = Q" using loop_invD(8) [OF inv t] by (simp add: q_remove_unlinked)
  then show ?thesis using inv True by (simp add: tx_task_drop_idle)
next
  case False
  show ?thesis
  proof (rule loop_inv_taken [OF inv t False])
    fix up xs assume "runq Q up xs"
    then have "int (length (busy_in T s xs)) \<le> tx_actives (loops s up)"
      by (rule loop_inv_accD [OF inv])
    moreover have "length (busy_in T (tx_task_drop (Some t) s) (removeAll t xs)) \<le> length (busy_in T s xs)"
      by (rule busy_in_removeAll_le) (simp add: tx_task_drop_reads [OF False])
    ultimately show "int (length (busy_in T (tx_task_drop (Some t) s) (removeAll t xs)))
        \<le> tx_actives (loops (tx_task_drop (Some t) s) up)" by simp
  qed (simp_all add: tx_task_drop_reads [OF False])
qed

lemma idle_after_drop: "idle (tx_task_drop (Some t) s) t"
  by (cases "idle s t") (simp_all add: tx_task_drop_idle tx_task_drop_reads)

section \<open>Queueing a task\<close>

text \<open>
  Queueing before the tailer, as \<open>tx_task_active\<close> does with \<open>b\<close> true (the task becomes busy and is
  counted) and \<open>tx_poll_active\<close> with \<open>b\<close> false.
\<close>

lemma loop_inv_queued:
  assumes inv: "loop_inv T U M d Q" and t: "t \<in> T" "idle d t"
    and tq: "tq s' = LIST_INSERT_BEFORE (Tailer (loop_of d t)) t (tq d)"
    and reads: "\<And>u. idle s' u \<longleftrightarrow> idle d u \<and> u \<noteq> t" "\<And>u. busy s' u \<longleftrightarrow> busy d u \<or> (b \<and> u = t)"
      "\<And>u. pending s' u \<longleftrightarrow> pending d u" "\<And>u. loop_of s' u = loop_of d u"
    and other: "\<And>up. up \<noteq> loop_of d t \<Longrightarrow> loops s' up = loops d up"
    and acts: "tx_actives (loops s' (loop_of d t)) =
      tx_actives (loops d (loop_of d t)) + (if b then 1 else 0)"
    and bits: "\<And>k. has (tx_busy (loops s' (loop_of d t))) k \<longleftrightarrow>
      has (tx_busy (loops d (loop_of d t))) k \<or> (b \<and> has 1 k)"
  shows "loop_inv T U M s' (q_before (Tailer (loop_of d t)) t Q)"
proof -
  note D = loop_invD [OF inv]
  let ?up = "loop_of d t" and ?Q = "q_before (Tailer (loop_of d t)) t Q"
  have ord: "ordinary t" using D(7) t by blast
  then have nT: "t \<noteq> Tailer up" "t \<noteq> Phony up" for up by auto
  have free: "unlinked Q t" using D(8) t by blast
  obtain zs where zs: "runq Q ?up zs" using D(2) D(10) t by blast
  have tail: "on_list Q h (Tailer ?up) \<longleftrightarrow> h = LoopQ ?up" for h
    using on_list_unique [OF D(1), of "LoopQ ?up" "Tailer ?up" h] runq_on_list [OF zs, of "Tailer ?up"]
    by auto
  have rq_same: "runq ?Q ?up (zs @ [t])" by (rule runq_q_before_same [OF D(1) zs])
  have rq_other: "runq ?Q up xs \<longleftrightarrow> runq Q up xs" if "up \<noteq> ?up" for up xs
  proof
    assume r: "runq ?Q up xs"
    then have "LoopQ up \<in> dom Q" by (auto simp: runq_def)
    then obtain ys where ys: "runq Q up ys" using D(2) by blast
    then have "runq ?Q up ys" by (rule runq_q_before_other [OF D(1) zs that])
    with r ys show "runq Q up xs" using runq_unique by blast
  qed (rule runq_q_before_other [OF D(1) zs that])
  have q: "queues_ok T U M s' ?Q"
    unfolding queues_ok_def
  proof (intro conjI allI impI)
    show "list_rep (tq s') ?Q" unfolding tq
      by (rule tq.ibefore [OF D(1) _ free]) (use tail in \<open>auto simp: linked_on_list\<close>)
    show "\<exists>xs. runq ?Q up xs" if "LoopQ up \<in> dom ?Q" for up
      using that D(2) [of up] rq_same rq_other [of up] by (cases "up = ?up") auto
    show "u = Tailer up \<or> u = Phony up \<or> u \<in> T \<and> loop_of s' u = up \<and> \<not> pending s' u"
      if "on_list ?Q (LoopQ up) u" for up u
      using that D(3) [of up u] D(9) t by (auto simp: reads tail)
    show "u \<in> T" "pending s' u" "\<not> busy s' u" if "on_list ?Q (UserQ n) u" for n u
      using that D(4) [of n u] free by (auto simp: reads tail unlinked_on_list)
    show "on_list ?Q (LoopQ up) (Phony up) \<longleftrightarrow> up \<in> M" for up
      using D(5) nT by simp metis
    show "dom ?Q = U" using D(6) by simp
  qed
  have lk: "unlinked ?Q u \<longleftrightarrow> unlinked Q u \<and> u \<noteq> t" for u
    using tail free by (auto simp: unlinked_on_list)
  have k: "tasks_ok T s' ?Q"
    unfolding tasks_ok_def using D(7,8,9,10) by (auto simp: reads lk)
  have keep: "busy_in T s' xs = busy_in T d xs" if "t \<notin> set xs" for xs
    using that unfolding busy_in_def by (intro filter_cong) (auto simp: reads)
  have a: "acc_ok T s' ?Q"
    unfolding acc_ok_def
  proof (intro allI impI)
    fix up ys assume r: "runq ?Q up ys"
    show "int (length (busy_in T s' ys)) \<le> tx_actives (loops s' up) \<and>
        (busy_in T s' ys \<noteq> [] \<longrightarrow> has (tx_busy (loops s' up)) 3) \<and>
        (busy_in T s' (behind up ys) \<noteq> [] \<longrightarrow> has (tx_busy (loops s' up)) 1)"
    proof (cases "up = ?up")
      case False
      then have r': "runq Q up ys" using r rq_other by blast
      have "t \<notin> set ys" using runq_on_list [OF r', of t] free by (auto simp: unlinked_on_list)
      moreover from this have "t \<notin> set (behind up ys)" using behind_subset [of up ys] by blast
      ultimately show ?thesis using loop_inv_accD [OF inv r'] other [OF False] by (simp add: keep)
    next
      case True
      then have ys: "ys = zs @ [t]" using r rq_same runq_unique by blast
      have tz: "t \<notin> set zs" using runq_on_list [OF zs, of t] free by (auto simp: unlinked_on_list)
      then have tb: "t \<notin> set (behind up zs)" using behind_subset [of up zs] by blast
      note A = loop_inv_accD [OF inv zs]
      have one: "busy_in T s' [t] = (if b then [t] else [])"
        using D(9) [OF t] t by (simp add: busy_in_def reads)
      have bh: "busy_in T s' (behind up ys) \<noteq> [] \<Longrightarrow> busy_in T d (behind up zs) \<noteq> [] \<or> b"
      proof -
        assume "busy_in T s' (behind up ys) \<noteq> []"
        moreover have "behind up ys = behind up zs @ [t] \<or> behind up ys = [] \<or> behind up ys = behind up zs"
          unfolding ys behind_def by (auto simp: dropWhile_append)
        ultimately show ?thesis using keep [OF tb] one
          by (auto split: if_splits) (simp_all add: busy_in_def)
      qed
      have has1: "has 1 (3::u32)" "has 1 (1::u32)" by (simp_all add: has_def)
      from A bh show ?thesis
        unfolding True by (auto simp: ys keep [OF tz] one acts bits has1 split: if_splits)
    qed
  qed
  from q k a show ?thesis by (simp add: loop_inv_def)
qed

lemma loop_inv_active:
  assumes inv: "loop_inv T U M s Q" and t: "t \<in> T"
  shows "loop_inv T U M (tx_task_active (Some t) r s)
    (if stopped s (loop_of s t) \<or> busy s t then Q
     else q_before (Tailer (loop_of s t)) t (q_remove t Q))"
proof (cases "stopped s (loop_of s t) \<or> busy s t")
  case True
  then show ?thesis using inv by (simp add: tx_task_active_skip)
next
  case False
  then have ok: "\<not> stopped s (loop_of s t)" "\<not> busy s t" by auto
  let ?d = "tx_task_drop (Some t) s"
  note R = tx_task_active_reads [OF ok, of r]
  have "loop_inv T U M (tx_task_active (Some t) r s) (q_before (Tailer (loop_of ?d t)) t (q_remove t Q))"
    by (rule loop_inv_queued [where b = True, OF loop_inv_drop [OF inv t] t idle_after_drop])
      (simp_all add: R flags)
  with False show ?thesis by simp
qed

lemma loop_inv_poll_active:
  assumes inv: "loop_inv T U M s Q" and t: "PollTask p \<in> T"
  shows "loop_inv T U M (tx_poll_active p s)
    (if stopped s (loop_of s (PollTask p)) \<or> \<not> idle s (PollTask p) then Q
     else q_before (Tailer (loop_of s (PollTask p))) (PollTask p) Q)"
proof (cases "stopped s (loop_of s (PollTask p)) \<or> \<not> idle s (PollTask p)")
  case True
  then show ?thesis using inv by (simp add: tx_poll_active_skip)
next
  case False
  then have ok: "\<not> stopped s (loop_of s (PollTask p))" "idle s (PollTask p)" by auto
  note R = tx_poll_active_reads [OF ok]
  show ?thesis using False
    by (simp, intro loop_inv_queued [where b = False, OF inv t ok(2)]) (simp_all add: R)
qed

section \<open>Recording and waking\<close>

lemma loop_inv_frame:
  assumes inv: "loop_inv T U M s Q" and tq: "tq s' = tq s"
    and reads: "\<And>t. t \<in> T \<Longrightarrow> idle s' t = idle s t" "\<And>t. t \<in> T \<Longrightarrow> busy s' t = busy s t"
      "\<And>t. t \<in> T \<Longrightarrow> pending s' t = pending s t" "\<And>t. t \<in> T \<Longrightarrow> loop_of s' t = loop_of s t"
    and cnt: "\<And>up. tx_actives (loops s' up) = tx_actives (loops s up)"
      "\<And>up. tx_busy (loops s' up) = tx_busy (loops s up)"
  shows "loop_inv T U M s' Q"
proof -
  have same: "busy_in T s' xs = busy_in T s xs" for xs
    unfolding busy_in_def by (intro filter_cong) (auto simp: reads)
  have "queues_ok T U M s' Q"
    using inv unfolding loop_inv_def queues_ok_def tq using reads(2-4) by metis
  moreover have "tasks_ok T s' Q" using inv reads by (simp add: loop_inv_def tasks_ok_def)
  moreover have "acc_ok T s' Q" using inv by (simp add: loop_inv_def acc_ok_def same cnt)
  ultimately show ?thesis by (simp add: loop_inv_def)
qed

lemma loop_inv_mark: "loop_inv T U M s Q \<Longrightarrow> loop_inv T U M (tx_task_mark t s) Q"
  by (erule loop_inv_frame) (auto simp: tx_task_mark_def task_reads mem_defs flags)

lemma loop_inv_stop: "loop_inv T U M s Q \<Longrightarrow> loop_inv T U M (tx_loop_stop up s) Q"
  by (erule loop_inv_frame) (auto simp: tx_loop_stop_def task_reads mem_defs)

lemma loop_inv_break: "loop_inv T U M s Q \<Longrightarrow> loop_inv T U M (tx_loop_break up s) Q"
  by (erule loop_inv_frame) (auto simp: tx_loop_break_def task_reads mem_defs)

lemma loop_inv_record:
  assumes inv: "loop_inv T U M s Q" and t: "t \<in> T" and n: "UserQ n \<in> dom Q"
  shows "loop_inv T U M (tx_task_record (UserQ n) t s) (q_head (UserQ n) t (q_remove t Q))"
proof -
  let ?d = "tx_task_drop (Some t) s" and ?Q = "q_remove t Q" and ?s = "tx_task_record (UserQ n) t s"
  have d: "loop_inv T U M ?d ?Q" by (rule loop_inv_drop [OF inv t])
  note D = loop_invD [OF d] and R = tx_task_record_reads [of "UserQ n" t s]
  have ord: "ordinary t" using D(7) t by blast
  then have nT: "t \<noteq> Tailer up" "t \<noteq> Phony up" for up by auto
  have free: "unlinked ?Q t" by simp
  have nd: "UserQ n \<in> dom ?Q" using n by simp
  have quiet: "\<not> busy ?d t" "\<not> pending ?d t" using D(9) [OF t idle_after_drop] by auto
  have q: "queues_ok T U M ?s (q_head (UserQ n) t ?Q)"
    unfolding queues_ok_def
  proof (intro conjI allI impI)
    show "list_rep (tq ?s) (q_head (UserQ n) t ?Q)"
      unfolding R by (rule tq.ihead [OF D(1) nd free])
    show "\<exists>xs. runq (q_head (UserQ n) t ?Q) up xs" if "LoopQ up \<in> dom (q_head (UserQ n) t ?Q)" for up
      using that D(2) [of up] by simp
    show "u = Tailer up \<or> u = Phony up \<or> u \<in> T \<and> loop_of ?s u = up \<and> \<not> pending ?s u"
      if "on_list (q_head (UserQ n) t ?Q) (LoopQ up) u" for up u
      using that D(3) [of up u] by (auto simp: R)
    show "u \<in> T" "pending ?s u" "\<not> busy ?s u" if "on_list (q_head (UserQ n) t ?Q) (UserQ m) u" for m u
      using that D(4) [of m u] t quiet by (auto simp: R)
    show "on_list (q_head (UserQ n) t ?Q) (LoopQ up) (Phony up) \<longleftrightarrow> up \<in> M" for up
      using D(5) [of up] by simp
    show "dom (q_head (UserQ n) t ?Q) = U" using D(6) by simp
  qed
  have lk: "unlinked (q_head (UserQ n) t ?Q) u \<longleftrightarrow> unlinked ?Q u \<and> u \<noteq> t" for u
    using linked_q_head [OF nd, of t u] by (auto simp: linked_def)
  have "tasks_ok T ?s (q_head (UserQ n) t ?Q)"
    unfolding tasks_ok_def using D(7,8,9,10) by (auto simp: R lk simp del: unlinked_q_remove)
  moreover have "acc_ok T ?s (q_head (UserQ n) t ?Q)"
    using d by (simp add: loop_inv_def acc_ok_def busy_in_def R)
  ultimately show ?thesis using q by (simp add: loop_inv_def)
qed

lemma wakeup_one_active:
  assumes "\<not> idle s t" and "\<not> busy s t" and "\<not> stopped s (loop_of s t)"
  shows "wakeup_one r t s = tx_task_active (Some t) r s"
proof -
  have twice: "(f AND NOT k) AND NOT k = f AND NOT k" for f k :: u32
    by (simp add: and.assoc)
  from assms show ?thesis
    by (simp add: wakeup_one_def tx_task_active_def tx_task_drop_def task_reads mem_defs Let_def
        flags twice)
qed

text \<open>What waking the tasks \<open>xs\<close> with reason \<open>r\<close> does to them.\<close>

definition woken :: "tx_mem \<Rightarrow> void_p \<Rightarrow> task_p list \<Rightarrow> tx_mem \<Rightarrow> bool" where
  "woken s r xs s' \<longleftrightarrow>
     (\<forall>t\<in>set xs. busy s' t \<and> tx_reason (tasks s' t) = r) \<and>
     (\<forall>t. t \<notin> set xs \<longrightarrow> tasks s' t = tasks s t) \<and>
     (\<forall>t. loop_of s' t = loop_of s t) \<and> (\<forall>up. tx_stop (loops s' up) = tx_stop (loops s up))"

lemma tx_task_active_other: "u \<noteq> t \<Longrightarrow> tasks (tx_task_active (Some t) r s) u = tasks s u"
  by (auto simp: tx_task_active_def tx_task_drop_def mem_defs Let_def)

lemma wakeup_step:
  fixes r :: void_p
  assumes inv: "loop_inv T U M s Q" and at: "Q (UserQ n) = Some (c # rest)"
    and run: "\<not> stopped s (loop_of s c)"
  defines "s' \<equiv> wakeup_one r c s" and "Q' \<equiv> q_before (Tailer (loop_of s c)) c (q_remove c Q)"
  shows "loop_inv T U M s' Q'" and "Q' (UserQ n) = Some rest"
    and "\<And>up ys. runq Q up ys \<Longrightarrow> runq Q' up (ys @ filter (\<lambda>t. loop_of s t = up) [c])"
    and "s' = tx_task_active (Some c) r s" and "busy s' c"
proof -
  note D = loop_invD [OF inv]
  have on: "on_list Q (UserQ n) u" if "u \<in> set (c # rest)" for u using at that by (auto simp: on_list_def)
  have inT: "u \<in> T" "ordinary u" if "u \<in> set (c # rest)" for u using D(4) [OF on [OF that]] D(7) by blast+
  have c: "c \<in> T" "\<not> busy s c" using D(4) [OF on, of c] by auto
  have nidle: "\<not> idle s c" using D(8) [OF c(1)] on [of c] by (auto simp: unlinked_on_list)
  show eq: "s' = tx_task_active (Some c) r s"
    unfolding s'_def by (rule wakeup_one_active [OF nidle c(2) run])
  show "busy s' c" unfolding eq by (simp add: tx_task_active_reads [OF run c(2)])
  show "loop_inv T U M s' Q'"
    using loop_inv_active [OF inv c(1), of r] run c(2) unfolding eq Q'_def by simp
  have dist: "distinct (c # rest)" by (rule tq.distinct_list [OF D(1) at])
  have "Tailer (loop_of s c) \<notin> set rest"
  proof
    assume "Tailer (loop_of s c) \<in> set rest"
    then have "ordinary (Tailer (loop_of s c))" by (intro inT) simp
    then show False by simp
  qed
  then show "Q' (UserQ n) = Some rest"
    using at dist by (simp add: Q'_def removeAll_id)
  have nT: "c \<noteq> Tailer up" for up using inT(2) [of c] by auto
  have d: "list_rep (tq (tx_task_drop (Some c) s)) (q_remove c Q)"
    by (rule loop_invD(1) [OF loop_inv_drop [OF inv c(1)]])
  show "runq Q' up (ys @ filter (\<lambda>t. loop_of s t = up) [c])" if r: "runq Q up ys" for up ys
  proof -
    have "c \<notin> set ys"
      using on_list_unique [OF D(1) on, of c "LoopQ up"] runq_on_list [OF r, of c] by auto
    with runq_q_remove [OF nT r] have r': "runq (q_remove c Q) up ys" by (simp add: removeAll_id)
    obtain zs where "runq Q (loop_of s c) zs" using D(2) D(10) [OF c(1)] by blast
    then have "runq (q_remove c Q) (loop_of s c) (removeAll c zs)" by (rule runq_q_remove [OF nT])
    then show ?thesis
      using runq_q_before_same [OF d r', of c] runq_q_before_other [OF d _ _ r', of "loop_of s c"]
      unfolding Q'_def by (cases "up = loop_of s c") auto
  qed
qed

lemma tx_task_wakeup_spec:
  assumes inv: "loop_inv T U M s Q" and at: "Q (UserQ n) = Some xs"
    and run: "\<And>t. t \<in> set xs \<Longrightarrow> \<not> stopped s (loop_of s t)"
  shows "\<exists>s' Q'. tx_task_wakeup (UserQ n) r s = Some s' \<and> loop_inv T U M s' Q' \<and>
    Q' (UserQ n) = Some [] \<and> woken s r xs s' \<and>
    (\<forall>up ys. runq Q up ys \<longrightarrow> runq Q' up (ys @ filter (\<lambda>t. loop_of s t = up) xs))"
proof -
  define I where "I rest st \<longleftrightarrow> (\<exists>done Q'. xs = done @ rest \<and> loop_inv T U M st Q' \<and>
      Q' (UserQ n) = Some rest \<and> woken s r done st \<and>
      (\<forall>up ys. runq Q up ys \<longrightarrow> runq Q' up (ys @ filter (\<lambda>t. loop_of s t = up) done)))" for rest st
  have step: "le_next (tq st) c = list_head rest \<and> I rest (wakeup_one r c st)" if "I (c # rest) st" for c rest st
  proof -
    from that obtain ds Q' where xs: "xs = ds @ c # rest" and inv': "loop_inv T U M st Q'"
      and at': "Q' (UserQ n) = Some (c # rest)" and w: "woken s r ds st"
      and rq: "\<And>up ys. runq Q up ys \<Longrightarrow> runq Q' up (ys @ filter (\<lambda>t. loop_of s t = up) ds)"
      unfolding I_def by blast
    have lp: "loop_of st t = loop_of s t" "stopped st up = stopped s up" for t up
      using w by (auto simp: woken_def stopped_def)
    have run': "\<not> stopped st (loop_of st c)" using run [of c] xs by (simp add: lp)
    note S0 = wakeup_step [OF inv' at' run']
    note S = S0(1) [of r] S0(2) S0(3) S0(4) [of r] S0(5) [of r]
    have cd: "c \<notin> set ds" using tq.distinct_list [OF loop_invD(1) [OF inv] at] by (simp add: xs)
    have fresh: "\<not> busy st c" "c \<in> T"
      using loop_invD(4) [OF inv', of n c] at' by (auto simp: on_list_def)
    have "tasks (tx_task_active (Some c) r st) t = tasks st t" if "t \<in> set ds" for t
      by (rule tx_task_active_other) (use that cd in auto)
    then have "woken s r (ds @ [c]) (wakeup_one r c st)"
      using w S(5) tx_task_active_reads(6) [OF run' fresh(1), of r] unfolding woken_def S(4)
      by (auto simp: tx_task_active_other busy_def cd)
    moreover have "runq (q_before (Tailer (loop_of st c)) c (q_remove c Q')) up
        (ys @ filter (\<lambda>t. loop_of s t = up) (ds @ [c]))" if "runq Q up ys" for up ys
      using S(3) [OF rq [OF that]] by (simp add: lp)
    ultimately have "I rest (wakeup_one r c st)"
      unfolding I_def using xs S(1,2)
      by (intro exI [of _ "ds @ [c]"] exI [of _ "q_before (Tailer (loop_of st c)) c (q_remove c Q')"])
        (simp del: q_before_apply q_remove_apply filter.simps filter_append)
    moreover have "le_next (tq st) c = list_head rest"
      using tq.succ [OF loop_invD(1) [OF inv'], of "UserQ n" "[]"] at' by simp
    ultimately show ?thesis by simp
  qed
  have "I xs s" unfolding I_def using inv at by (intro exI [of _ "[]"]) (auto simp: woken_def)
  note loop = list_foreach_safe_fold [where nx = "\<lambda>s n. le_next (tq s) n" and I = I, OF step this]
  let ?f = "fold (wakeup_one r) xs s"
  from loop obtain Q' where Q': "loop_inv T U M ?f Q'" "Q' (UserQ n) = Some []" "woken s r xs ?f"
    "\<And>up ys. runq Q up ys \<Longrightarrow> runq Q' up (ys @ filter (\<lambda>t. loop_of s t = up) xs)"
    unfolding I_def by auto
  have first: "lh_first (tq s) (UserQ n) = list_head xs" by (rule tq.first [OF loop_invD(1) [OF inv] at])
  have none: "lh_first (tq ?f) (UserQ n) = None" using tq.first [OF loop_invD(1) [OF Q'(1)] Q'(2)] by simp
  then have "LIST_INIT (UserQ n) (tq ?f) = tq ?f" by (simp add: LIST_INIT_def fun_upd_idem)
  then have "tx_task_wakeup (UserQ n) r s = Some ?f"
    using loop first by (simp add: tx_task_wakeup_def on_tq_def)
  with Q' show ?thesis by blast
qed

section \<open>Initialising\<close>

lemma loop_inv_task_init:
  assumes inv: "loop_inv T U M s Q" and t: "unlinked Q t" "ordinary t" and up: "LoopQ up \<in> dom Q"
  shows "loop_inv (insert t T) U M (tx_task_init t up call data s) Q"
proof -
  let ?s = "tx_task_init t up call data s"
  have same: "tasks ?s u = tasks s u" if "u \<noteq> t" for u
    using that by (simp add: tx_task_init_def mem_defs)
  have rest: "tq ?s = tq s" "loops ?s = loops s" by (simp_all add: tx_task_init_def mem_defs)
  have new: "idle ?s t" "\<not> busy ?s t" "\<not> pending ?s t" "loop_of ?s t = up"
    by (simp_all add: tx_task_init_def task_reads mem_defs flags)
  have off: "u \<noteq> t" if "on_list Q h u" for h u using that t by (auto simp: unlinked_on_list)
  have eq: "idle ?s u = idle s u" "busy ?s u = busy s u" "pending ?s u = pending s u"
    if "u \<noteq> t" for u using same [OF that] by (simp_all add: task_reads)
  note D = loop_invD [OF inv]
  have "queues_ok (insert t T) U M ?s Q"
    unfolding queues_ok_def rest
  proof (intro conjI allI impI)
    show "u = Tailer l \<or> u = Phony l \<or> u \<in> insert t T \<and> loop_of ?s u = l \<and> \<not> pending ?s u"
      if "on_list Q (LoopQ l) u" for l u
      using D(3) [OF that] off [OF that] by (auto simp: eq same)
    show "u \<in> insert t T" "pending ?s u" "\<not> busy ?s u" if "on_list Q (UserQ n) u" for n u
      using D(4) [OF that] off [OF that] by (auto simp: eq)
  qed (use D in auto)
  moreover have "tasks_ok (insert t T) ?s Q"
    unfolding tasks_ok_def using D(7-10) new up t by (metis eq insert_iff same)
  moreover have "busy_in (insert t T) ?s xs = busy_in T s xs" if "t \<notin> set xs" for xs
    using that eq(2) unfolding busy_in_def by (intro filter_cong) (simp, metis insert_iff)
  then have "acc_ok (insert t T) ?s Q"
    unfolding acc_ok_def rest
    using loop_inv_accD [OF inv] behind_subset runq_on_list off by (metis subsetD)
  ultimately show ?thesis by (simp add: loop_inv_def)
qed

text \<open>A new loop: its head was not initialised before, its queue is the tailer alone.\<close>

lemma loop_inv_new_queue:
  assumes inv: "loop_inv T U M s Q" and new: "LoopQ up \<notin> dom Q"
    and tq: "tq s' = LIST_INSERT_HEAD (LoopQ up) (Tailer up) (LIST_INIT (LoopQ up) (tq s))"
    and tasks: "\<And>u. ordinary u \<Longrightarrow> tasks s' u = tasks s u"
    and lp: "\<And>l. l \<noteq> up \<Longrightarrow> loops s' l = loops s l"
    and zero: "tx_actives (loops s' up) = 0"
  shows "loop_inv T (insert (LoopQ up) U) M s' (Q(LoopQ up \<mapsto> [Tailer up]))"
proof -
  let ?Q = "Q(LoopQ up \<mapsto> [Tailer up])"
  note D = loop_invD [OF inv]
  have on: "on_list ?Q h u \<longleftrightarrow> on_list Q h u \<or> (h = LoopQ up \<and> u = Tailer up)" for h u
    using new by (auto simp: on_list_def)
  have off: "\<not> on_list Q h (Tailer up)" for h
  proof
    assume a: "on_list Q h (Tailer up)"
    show False
    proof (cases h)
      case (LoopQ l)
      with D(3) a have "Tailer up = Tailer l \<or> Tailer up \<in> T" by blast
      then show False using D(7) [of "Tailer up"] a LoopQ new by (auto simp: on_list_def)
    next
      case (UserQ n)
      then show False using D(4) [of n "Tailer up"] D(7) [of "Tailer up"] a by auto
    qed
  qed
  have inT: "ordinary u" if "u \<in> T" for u using D(7) that by blast
  have eq: "idle s' u = idle s u" "busy s' u = busy s u" "pending s' u = pending s u"
    "loop_of s' u = loop_of s u" if "u \<in> T" for u
    using tasks [OF inT [OF that]] by (simp_all add: task_reads)
  have "list_rep (LIST_INIT (LoopQ up) (tq s)) (Q(LoopQ up \<mapsto> []))" by (rule tq.init [OF D(1)])
  then have "list_rep (tq s') (q_head (LoopQ up) (Tailer up) (Q(LoopQ up \<mapsto> [])))"
    unfolding tq by (rule tq.ihead) (use off in \<open>auto simp: unlinked_on_list on_list_def split: if_splits\<close>)
  then have rep: "list_rep (tq s') ?Q" by (simp add: q_head_def)
  have "queues_ok T (insert (LoopQ up) U) M s' ?Q"
    unfolding queues_ok_def
  proof (intro conjI allI impI)
    show "\<exists>xs. runq ?Q l xs" if "LoopQ l \<in> dom ?Q" for l
      using that D(2) [of l] by (cases "l = up") (auto simp: runq_def)
    show "u = Tailer l \<or> u = Phony l \<or> u \<in> T \<and> loop_of s' u = l \<and> \<not> pending s' u"
      if "on_list ?Q (LoopQ l) u" for l u
      using D(3) [of l u] that by (auto simp: on eq)
    show "u \<in> T" "pending s' u" "\<not> busy s' u" if "on_list ?Q (UserQ n) u" for n u
      using D(4) [of n u] that by (auto simp: on eq)
    show "on_list ?Q (LoopQ l) (Phony l) \<longleftrightarrow> l \<in> M" for l using D(5) [of l] by (simp add: on)
    show "dom ?Q = insert (LoopQ up) U" using D(6) by auto
  qed (rule rep)
  moreover have "tasks_ok T s' ?Q"
    unfolding tasks_ok_def using D(7-10) inT [of "Tailer up"] by (auto simp: eq unlinked_on_list on)
  moreover have "acc_ok T s' ?Q"
    unfolding acc_ok_def
  proof (intro allI impI)
    fix l xs assume r: "runq ?Q l xs"
    have same: "busy_in T s' ys = busy_in T s ys" for ys
      unfolding busy_in_def by (intro filter_cong) (auto simp: eq)
    show "int (length (busy_in T s' xs)) \<le> tx_actives (loops s' l) \<and>
        (busy_in T s' xs \<noteq> [] \<longrightarrow> has (tx_busy (loops s' l)) 3) \<and>
        (busy_in T s' (behind l xs) \<noteq> [] \<longrightarrow> has (tx_busy (loops s' l)) 1)"
    proof (cases "l = up")
      case True
      with r have "xs = []" by (simp add: runq_def)
      then show ?thesis using True zero by (simp add: busy_in_def behind_def)
    next
      case False
      with r have "runq Q l xs" by (simp add: runq_def)
      from loop_inv_accD [OF inv this] show ?thesis by (simp add: same lp [OF False])
    qed
  qed
  ultimately show ?thesis by (simp add: loop_inv_def)
qed

lemma loop_inv_loop_new:
  assumes "loop_inv T U M s Q" and "LoopQ up \<notin> dom Q"
  shows "loop_inv T (insert (LoopQ up) U) M (snd (tx_loop_new (Some up) s)) (Q(LoopQ up \<mapsto> [Tailer up]))"
  by (rule loop_inv_new_queue [OF assms]) (auto simp: tx_loop_new_def mem_defs Let_def zero_loop_def)

lemma loop_inv_loop_default:
  assumes "loop_inv T U M s Q" and "LoopQ DefaultLoop \<notin> dom Q" and "\<not> default_init s"
    and "tx_actives (loops s DefaultLoop) = 0"
  shows "loop_inv T (insert (LoopQ DefaultLoop) U) M (snd (tx_loop_default s))
    (Q(LoopQ DefaultLoop \<mapsto> [Tailer DefaultLoop]))"
  using assms(3,4) by (intro loop_inv_new_queue [OF assms(1,2)]) (auto simp: tx_loop_default_def mem_defs Let_def)

text \<open>A new wait queue.\<close>

lemma loop_inv_taskq_init:
  assumes inv: "loop_inv T U M s Q" and new: "UserQ n \<notin> dom Q"
  shows "loop_inv T (insert (UserQ n) U) M (on_tq (LIST_INIT (UserQ n)) s) (Q(UserQ n \<mapsto> []))"
proof -
  let ?s = "on_tq (LIST_INIT (UserQ n)) s" and ?Q = "Q(UserQ n \<mapsto> [])"
  note D = loop_invD [OF inv]
  have on: "on_list ?Q h u \<longleftrightarrow> on_list Q h u" for h u using new by (auto simp: on_list_def)
  have rq: "runq ?Q = runq Q" by (simp add: runq_def fun_eq_iff)
  have eq: "tasks ?s = tasks s" "loops ?s = loops s" "tq ?s = LIST_INIT (UserQ n) (tq s)"
    by (simp_all add: on_tq_def)
  have rep: "list_rep (LIST_INIT (UserQ n) (tq s)) ?Q" by (rule tq.init [OF D(1)])
  have dm: "dom ?Q = insert (UserQ n) U" using D(6) by simp
  have dl: "LoopQ l \<in> dom ?Q \<longleftrightarrow> LoopQ l \<in> dom Q" for l by simp
  have "queues_ok T (insert (UserQ n) U) M ?s ?Q"
    unfolding queues_ok_def task_reads eq on rq dl
    using inv rep dm by (simp add: loop_inv_def queues_ok_def task_reads)
  moreover have "tasks_ok T ?s ?Q" "acc_ok T ?s ?Q"
    using inv by (simp_all add: loop_inv_def tasks_ok_def acc_ok_def rq unlinked_on_list on busy_in_def
        task_reads eq del: fun_upd_apply)
  ultimately show ?thesis by (simp add: loop_inv_def)
qed

lemma loop_inv_boot: "loop_inv {} {} {} zero_mem (\<lambda>_. None)"
proof -
  have "list_rep (tq zero_mem) (\<lambda>_. None)" by (simp add: list_rep_def disjoint_lists_def)
  then show ?thesis
    by (simp add: loop_inv_def queues_ok_def tasks_ok_def acc_ok_def on_list_def runq_def)
qed

end
