(* ===== verification/TxStack.thy ===== *)
theory TxStack
  imports TxTaskInv
begin

text \<open>
  Task stacks (the second half of \<open>tx_loop.cpp\<close>): a task whose callback is the top of a stack of at
  most \<open>MAX_STACK_DEPTH\<close> functions. The operations refine a stack of frames \<open>astack\<close>; the assertions
  of the code are exactly the bounds of that stack.
\<close>

section \<open>The operations\<close>

definition MAX_STACK_DEPTH :: nat where "MAX_STACK_DEPTH = 10"
definition STACK_WAIT_VALUE :: int where "STACK_WAIT_VALUE = 0"
definition STACK_NONE_VALUE :: int where "STACK_NONE_VALUE = 1"
definition STACK_CODE_VALUE :: int where "STACK_CODE_VALUE = 2"

definition tx_task_stack_init :: "stack_p \<Rightarrow> loop_p \<Rightarrow> tx_mem \<Rightarrow> tx_mem" where
  "tx_task_stack_init k loop s =
     upd_stack k (\<lambda>z. z\<lparr>tx_top := 0\<rparr>) (tx_task_init (SchedTask k) loop StackCallback (VStack k) s)"

text \<open>
  \<open>_tx_task_stack_callback\<close>; \<open>user n data k\<close> is the function a ball with \<open>UserBall n\<close> calls.
\<close>

definition tx_task_stack_callback ::
    "(nat \<Rightarrow> void_p \<Rightarrow> stack_p \<Rightarrow> tx_mem \<Rightarrow> tx_mem res) \<Rightarrow> stack_p \<Rightarrow> tx_mem \<Rightarrow> tx_mem res" where
  "tx_task_stack_callback user k s =
     (let z = stacks s k in
      if tx_top z > 0 then
        if nat (tx_top z - 1) < length (tx_balls z) then
          let ball = tx_balls z ! nat (tx_top z - 1) in
          case ball_call ball of
            NullBall \<Rightarrow> Inl NullDeref
          | UserBall n \<Rightarrow> user n (ball_data ball) k s
        else Inl BufferOverflow
      else Inl AssertFail)"

text \<open>The comparison \<open>s->tx_top < ARRAY_SIZE(..)\<close> is unsigned: it also fails for a negative top.\<close>

definition tx_task_stack_push :: "stack_p \<Rightarrow> ball_call_p \<Rightarrow> void_p \<Rightarrow> tx_mem \<Rightarrow> tx_mem res" where
  "tx_task_stack_push k call ctx s =
     (let i = tx_top (stacks s k);
          s1 = upd_stack k (\<lambda>z. z\<lparr>tx_top := tx_top z + 1\<rparr>) s
      in if 0 \<le> tx_top (stacks s1 k) \<and> tx_top (stacks s1 k) < int MAX_STACK_DEPTH then
           if 0 \<le> i \<and> nat i < length (tx_balls (stacks s1 k)) then
             let s2 = upd_stack k (\<lambda>z. z\<lparr>stack_flag := STACK_WAIT_VALUE\<rparr>) s1;
                 s3 = upd_stack k (\<lambda>z. z\<lparr>tx_balls := (tx_balls z)[nat i :=
                        \<lparr>ball_uflag = stack_uflag z, ball_data = ctx, ball_call = call\<rparr>]\<rparr>) s2
             in Inr (upd_stack k (\<lambda>z. z\<lparr>stack_uflag := 0\<rparr>) s3)
           else Inl BufferOverflow
         else Inl AssertFail)"

definition ball_clear :: "tx_task_ball_t \<Rightarrow> tx_task_ball_t" where
  "ball_clear b = b\<lparr>ball_data := VNull, ball_call := NullBall\<rparr>"

text \<open>The loop \<open>for (top = 1; top < s->tx_top; top++)\<close>; the first argument is the number of rounds left.\<close>

fun clear_balls :: "nat \<Rightarrow> nat \<Rightarrow> tx_task_ball_t list \<Rightarrow> tx_task_ball_t list res" where
  "clear_balls 0 i bs = Inr bs"
| "clear_balls (Suc n) i bs =
     (if i < length bs then clear_balls n (Suc i) (bs[i := ball_clear (bs ! i)])
      else Inl BufferOverflow)"

definition tx_task_stack_raise :: "stack_p \<Rightarrow> void_p \<Rightarrow> tx_mem \<Rightarrow> tx_mem res" where
  "tx_task_stack_raise k reason s =
     (if tx_top (stacks s k) > 0 then
        res_bind (clear_balls (nat (tx_top (stacks s k) - 1)) 1 (tx_balls (stacks s k)))
          (\<lambda>bs. let s1 = upd_stack k (\<lambda>z. z\<lparr>tx_balls := bs\<rparr>) s;
                    s2 = tx_task_active (Some (SchedTask k)) reason s1
                in Inr (upd_stack k (\<lambda>z. z\<lparr>stack_uflag := ball_uflag (tx_balls z ! 0),
                      stack_flag := STACK_NONE_VALUE, tx_code := 0, tx_top := 1\<rparr>) s2))
      else Inl AssertFail)"

definition tx_task_stack_pop0 :: "stack_p \<Rightarrow> tx_mem \<Rightarrow> tx_mem res" where
  "tx_task_stack_pop0 k s =
     (let s1 = upd_stack k (\<lambda>z. z\<lparr>tx_top := tx_top z - 1\<rparr>) s;
          i = tx_top (stacks s1 k)
      in if i > 0 then
           if nat i < length (tx_balls (stacks s1 k)) then
             let s2 = upd_stack k (\<lambda>z. z\<lparr>tx_balls := (tx_balls z)[nat i := ball_clear (tx_balls z ! nat i)]\<rparr>) s1
             in Inr (upd_stack k (\<lambda>z. z\<lparr>stack_uflag := ball_uflag (tx_balls z ! nat i),
                   stack_flag := STACK_NONE_VALUE, tx_code := 0\<rparr>) s2)
           else Inl BufferOverflow
         else Inl AssertFail)"

definition tx_task_stack_pop1 :: "stack_p \<Rightarrow> int \<Rightarrow> tx_mem \<Rightarrow> tx_mem res" where
  "tx_task_stack_pop1 k code s =
     (let s1 = upd_stack k (\<lambda>z. z\<lparr>tx_top := tx_top z - 1\<rparr>) s;
          i = tx_top (stacks s1 k)
      in if i > 0 then
           if nat i < length (tx_balls (stacks s1 k)) then
             let s2 = upd_stack k (\<lambda>z. z\<lparr>tx_balls := (tx_balls z)[nat i := ball_clear (tx_balls z ! nat i)]\<rparr>) s1
             in Inr (upd_stack k (\<lambda>z. z\<lparr>stack_uflag := ball_uflag (tx_balls z ! nat i),
                   stack_flag := STACK_CODE_VALUE, tx_code := code\<rparr>) s2)
           else Inl BufferOverflow
         else Inl AssertFail)"

definition tx_task_stack_drop :: "stack_p \<Rightarrow> tx_mem \<Rightarrow> tx_mem" where
  "tx_task_stack_drop k s =
     upd_stack k (\<lambda>z. z\<lparr>tx_top := 0\<rparr>) (tx_task_drop (Some (SchedTask k)) s)"

section \<open>Abstract stacks\<close>

text \<open>
  A stack of frames, bottom first, each with the user flag that was current when it was pushed; the
  current user flag; and what the last operation reported.
\<close>

datatype report = Waiting | NoValue | Value int

type_synonym frame = "int \<times> void_p \<times> ball_call_p"

record astack =
  frames :: "frame list"
  uflag :: int
  report :: report

definition a_push :: "ball_call_p \<Rightarrow> void_p \<Rightarrow> astack \<Rightarrow> astack res" where
  "a_push call ctx a =
     (if length (frames a) < 9
      then Inr \<lparr>frames = frames a @ [(uflag a, ctx, call)], uflag = 0, report = Waiting\<rparr>
      else Inl AssertFail)"

definition a_pop :: "report \<Rightarrow> astack \<Rightarrow> astack res" where
  "a_pop r a =
     (if 2 \<le> length (frames a)
      then Inr \<lparr>frames = butlast (frames a), uflag = fst (last (frames a)), report = r\<rparr>
      else Inl AssertFail)"

definition a_raise :: "astack \<Rightarrow> astack res" where
  "a_raise a =
     (if frames a \<noteq> [] then Inr \<lparr>frames = [hd (frames a)], uflag = fst (hd (frames a)), report = NoValue\<rparr>
      else Inl AssertFail)"

definition frame_of :: "tx_task_ball_t \<Rightarrow> frame" where
  "frame_of b = (ball_uflag b, ball_data b, ball_call b)"

definition report_of :: "tx_task_stack_t \<Rightarrow> report" where
  "report_of z = (if stack_flag z = STACK_CODE_VALUE then Value (tx_code z)
     else if stack_flag z = STACK_WAIT_VALUE then Waiting else NoValue)"

definition stack_abs :: "stack_p \<Rightarrow> tx_mem \<Rightarrow> astack" where
  "stack_abs k s = \<lparr>frames = map frame_of (take (nat (tx_top (stacks s k))) (tx_balls (stacks s k))),
     uflag = stack_uflag (stacks s k), report = report_of (stacks s k)\<rparr>"

text \<open>The invariant of a task stack: the array is the ten balls, and at most nine are in use.\<close>

definition stack_ok :: "stack_p \<Rightarrow> tx_mem \<Rightarrow> bool" where
  "stack_ok k s \<longleftrightarrow> length (tx_balls (stacks s k)) = MAX_STACK_DEPTH \<and>
     0 \<le> tx_top (stacks s k) \<and> tx_top (stacks s k) \<le> 9"

lemma stack_reads [simp]:
  "stacks (upd_stack k f s) k = f (stacks s k)"
  "j \<noteq> k \<Longrightarrow> stacks (upd_stack k f s) j = stacks s j"
  by (simp_all add: upd_stack_def)

lemma stack_codes [simp]:
  "STACK_CODE_VALUE \<noteq> STACK_WAIT_VALUE" "STACK_NONE_VALUE \<noteq> STACK_WAIT_VALUE"
  "STACK_NONE_VALUE \<noteq> STACK_CODE_VALUE" "STACK_WAIT_VALUE \<noteq> STACK_CODE_VALUE"
  by (simp_all add: STACK_CODE_VALUE_def STACK_WAIT_VALUE_def STACK_NONE_VALUE_def)

section \<open>Refinement\<close>

text \<open>\<open>refines k r a\<close>: the code's result \<open>r\<close> and the abstract result \<open>a\<close> agree, errors included.\<close>

fun refines :: "stack_p \<Rightarrow> tx_mem res \<Rightarrow> astack res \<Rightarrow> bool" where
  "refines k (Inr s) (Inr a) = (stack_ok k s \<and> stack_abs k s = a)"
| "refines k (Inl e) (Inl e') = (e = e')"
| "refines k _ _ = False"

lemma nat_pred: "0 < (t::int) \<Longrightarrow> nat t = Suc (nat (t - 1))"
  by arith

lemma take_nat_Suc: "0 < t \<Longrightarrow> nat t \<le> length xs \<Longrightarrow> take (nat t) xs = take (nat (t - 1)) xs @ [xs ! nat (t - 1)]"
  by (simp add: nat_pred take_Suc_conv_app_nth)

lemma clear_balls_spec:
  "i + n \<le> length bs \<Longrightarrow> \<exists>bs'. clear_balls n i bs = Inr bs' \<and> length bs' = length bs \<and>
     take i bs' = take i bs \<and> (\<forall>j. ball_uflag (bs' ! j) = ball_uflag (bs ! j))"
proof (induction n arbitrary: i bs)
  case (Suc n)
  let ?bs = "bs[i := ball_clear (bs ! i)]"
  have "i < length bs" "Suc i + n \<le> length ?bs" using Suc.prems by auto
  with Suc.IH [of "Suc i" ?bs] obtain bs' where bs': "clear_balls n (Suc i) ?bs = Inr bs'"
    "length bs' = length bs" "take (Suc i) bs' = take (Suc i) ?bs"
    "\<forall>j. ball_uflag (bs' ! j) = ball_uflag (?bs ! j)" by auto
  from bs'(3) have "take i bs' = take i bs"
    by (metis le_add2 min.absorb1 plus_1_eq_Suc take_take take_update_cancel order_refl)
  moreover have "ball_uflag (?bs ! j) = ball_uflag (bs ! j)" for j
    using \<open>i < length bs\<close> by (cases "j = i") (simp_all add: ball_clear_def)
  ultimately show ?case using bs' \<open>i < length bs\<close> by auto
qed simp


lemma stack_init_refines:
  assumes "length (tx_balls (stacks s k)) = MAX_STACK_DEPTH"
  shows "stack_ok k (tx_task_stack_init k loop s)" and "frames (stack_abs k (tx_task_stack_init k loop s)) = []"
  using assms by (simp_all add: tx_task_stack_init_def stack_ok_def stack_abs_def tx_task_init_def upd_task_def)

lemma stack_push_refines:
  assumes "stack_ok k s"
  shows "refines k (tx_task_stack_push k call ctx s) (a_push call ctx (stack_abs k s))"
proof -
  let ?z = "stacks s k"
  have ok: "length (tx_balls ?z) = 10" "0 \<le> tx_top ?z" "tx_top ?z \<le> 9"
    using assms by (simp_all add: stack_ok_def MAX_STACK_DEPTH_def)
  have n: "length (frames (stack_abs k s)) = nat (tx_top ?z)" using ok by (simp add: stack_abs_def)
  show ?thesis
  proof (cases "tx_top ?z = 9")
    case True
    then show ?thesis by (simp add: tx_task_stack_push_def a_push_def n MAX_STACK_DEPTH_def)
  next
    case False
    let ?bs = "(tx_balls ?z)[nat (tx_top ?z) := \<lparr>ball_uflag = stack_uflag ?z, ball_data = ctx, ball_call = call\<rparr>]"
    have "take (nat (tx_top ?z + 1)) ?bs = take (nat (tx_top ?z)) (tx_balls ?z)
        @ [\<lparr>ball_uflag = stack_uflag ?z, ball_data = ctx, ball_call = call\<rparr>]"
      using ok False by (simp add: take_nat_Suc)
    then show ?thesis using ok False n
      by (simp add: tx_task_stack_push_def a_push_def stack_ok_def MAX_STACK_DEPTH_def Let_def)
        (simp add: stack_abs_def report_of_def frame_of_def)
  qed
qed

lemma stack_pop_refines:
  assumes "stack_ok k s"
  shows "refines k (tx_task_stack_pop0 k s) (a_pop NoValue (stack_abs k s))"
    and "refines k (tx_task_stack_pop1 k code s) (a_pop (Value code) (stack_abs k s))"
proof -
  let ?z = "stacks s k" and ?t = "tx_top (stacks s k)"
  have ok: "length (tx_balls ?z) = 10" "0 \<le> ?t" "?t \<le> 9"
    using assms by (simp_all add: stack_ok_def MAX_STACK_DEPTH_def)
  have n: "length (frames (stack_abs k s)) = nat ?t" using ok by (simp add: stack_abs_def)
  have "refines k (tx_task_stack_pop0 k s) (a_pop NoValue (stack_abs k s)) \<and>
    refines k (tx_task_stack_pop1 k code s) (a_pop (Value code) (stack_abs k s))"
  proof (cases "?t \<le> 1")
    case True
    then show ?thesis using ok
      by (simp add: tx_task_stack_pop0_def tx_task_stack_pop1_def a_pop_def n)
  next
    case False
    have fr: "frames (stack_abs k s) = map frame_of (take (nat (?t - 1)) (tx_balls ?z)) @ [frame_of (tx_balls ?z ! nat (?t - 1))]"
      using ok False by (simp add: stack_abs_def take_nat_Suc)
    have "fst (frame_of b) = ball_uflag b" for b by (simp add: frame_of_def)
    moreover have "nat (?t - 1) < 10" "2 \<le> nat ?t" using ok False by arith+
    ultimately show ?thesis using ok False n
      by (simp add: tx_task_stack_pop0_def tx_task_stack_pop1_def a_pop_def fr stack_ok_def MAX_STACK_DEPTH_def Let_def)
        (simp add: stack_abs_def report_of_def ball_clear_def)
  qed
  then show "refines k (tx_task_stack_pop0 k s) (a_pop NoValue (stack_abs k s))"
    and "refines k (tx_task_stack_pop1 k code s) (a_pop (Value code) (stack_abs k s))" by auto
qed

lemma stack_raise_refines:
  assumes "stack_ok k s"
  shows "refines k (tx_task_stack_raise k reason s) (a_raise (stack_abs k s))"
proof -
  let ?z = "stacks s k" and ?t = "tx_top (stacks s k)"
  have ok: "length (tx_balls ?z) = 10" "0 \<le> ?t" "?t \<le> 9"
    using assms by (simp_all add: stack_ok_def MAX_STACK_DEPTH_def)
  show ?thesis
  proof (cases "?t = 0")
    case True
    then show ?thesis by (simp add: tx_task_stack_raise_def a_raise_def stack_abs_def)
  next
    case False
    have "1 + nat (?t - 1) \<le> length (tx_balls ?z)" using ok by simp
    then obtain bs where bs: "clear_balls (nat (?t - 1)) 1 (tx_balls ?z) = Inr bs" "length bs = 10"
      "take 1 bs = take 1 (tx_balls ?z)"
      using clear_balls_spec [of 1 "nat (?t - 1)" "tx_balls ?z"] ok(1) by auto
    have hd: "bs ! 0 = tx_balls ?z ! 0" using bs ok by (cases bs; cases "tx_balls ?z") auto
    have one: "take 1 bs = [tx_balls ?z ! 0]" using bs ok by (cases "tx_balls ?z") auto
    have fr: "frames (stack_abs k s) = frame_of (tx_balls ?z ! 0) # map frame_of (drop 1 (take (nat ?t) (tx_balls ?z)))"
      using ok False by (cases "tx_balls ?z") (auto simp: stack_abs_def nat_pred)
    show ?thesis using ok False bs(1,2) hd one
      by (simp add: tx_task_stack_raise_def a_raise_def fr stack_ok_def MAX_STACK_DEPTH_def Let_def)
        (simp add: stack_abs_def report_of_def frame_of_def)
  qed
qed

section \<open>Properties\<close>

text \<open>The record of one stack, as a demonstration: two functions pushed on a new stack.\<close>

definition demo_stack :: tx_mem where
  "demo_stack = (case tx_task_stack_push (Stack 0) (UserBall 1) (VUser 1)
       (tx_task_stack_init (Stack 0) (NewLoop 0) zero_mem) of
     Inr s \<Rightarrow> (case tx_task_stack_push (Stack 0) (UserBall 2) (VUser 2) s of Inr s' \<Rightarrow> s' | Inl _ \<Rightarrow> s)
   | Inl _ \<Rightarrow> zero_mem)"

lemma demo_stack_ok: "stack_ok (Stack 0) demo_stack" "tx_top (stacks demo_stack (Stack 0)) = 2"
  by code_simp+

text \<open>C7. Task stacks are bounded stacks: started by \<open>tx_task_stack_init\<close>, every operation of a stack
  does what the abstract stack of frames does, and fails exactly where it does: pushing on nine frames,
  popping below one frame and raising an empty stack are assertion failures, and nothing else is; the
  array of ten balls is never overrun.\<close>
theorem task_stack_refines_frames:
  assumes "stack_ok k s"
  shows "refines k (tx_task_stack_push k call ctx s) (a_push call ctx (stack_abs k s)) \<and>
    refines k (tx_task_stack_pop0 k s) (a_pop NoValue (stack_abs k s)) \<and>
    refines k (tx_task_stack_pop1 k code s) (a_pop (Value code) (stack_abs k s)) \<and>
    refines k (tx_task_stack_raise k reason s) (a_raise (stack_abs k s)) \<and>
    stack_ok k (tx_task_stack_init k loop s) \<and> frames (stack_abs k (tx_task_stack_init k loop s)) = [] \<and>
    stack_ok k (tx_task_stack_drop k s) \<and> frames (stack_abs k (tx_task_stack_drop k s)) = []"
proof -
  have "length (tx_balls (stacks s k)) = MAX_STACK_DEPTH" using assms by (simp add: stack_ok_def)
  moreover from this have "stack_ok k (tx_task_stack_drop k s)" "frames (stack_abs k (tx_task_stack_drop k s)) = []"
    by (simp_all add: tx_task_stack_drop_def stack_ok_def stack_abs_def)
  ultimately show ?thesis
    using stack_push_refines [OF assms] stack_pop_refines [OF assms] stack_raise_refines [OF assms]
      stack_init_refines by blast
qed

lemma task_stack_refines_frames_witness:
  "refines (Stack 0) (tx_task_stack_raise (Stack 0) VNull demo_stack) (a_raise (stack_abs (Stack 0) demo_stack))"
  using task_stack_refines_frames [OF demo_stack_ok(1)] by blast

text \<open>C8. A call through a task stack returns to its caller: a function that pushes another one and is
  popped with a value finds its own frame on top, its user flag as it was, and the value reported.\<close>
theorem task_stack_push_pop:
  assumes "stack_ok k s" and "0 < tx_top (stacks s k)" and "tx_top (stacks s k) < 9"
  shows "\<exists>s1 s2. tx_task_stack_push k call ctx s = Inr s1 \<and> tx_task_stack_pop1 k code s1 = Inr s2 \<and>
    stack_abs k s2 = (stack_abs k s)\<lparr>report := Value code\<rparr>"
proof -
  have n: "length (frames (stack_abs k s)) = nat (tx_top (stacks s k))"
    using assms by (simp add: stack_abs_def stack_ok_def MAX_STACK_DEPTH_def)
  let ?a = "\<lparr>frames = frames (stack_abs k s) @ [(uflag (stack_abs k s), ctx, call)], uflag = 0, report = Waiting\<rparr>"
  have "a_push call ctx (stack_abs k s) = Inr ?a" using assms n by (simp add: a_push_def)
  with stack_push_refines [OF assms(1), of call ctx] obtain s1 where
    s1: "tx_task_stack_push k call ctx s = Inr s1" "stack_ok k s1" "stack_abs k s1 = ?a"
    by (cases "tx_task_stack_push k call ctx s") auto
  have "a_pop (Value code) (stack_abs k s1) = Inr ((stack_abs k s)\<lparr>report := Value code\<rparr>)"
    using assms(2) n by (simp add: a_pop_def s1(3))
  with stack_pop_refines(2) [OF s1(2), of code] obtain s2 where "tx_task_stack_pop1 k code s1 = Inr s2"
    "stack_abs k s2 = (stack_abs k s)\<lparr>report := Value code\<rparr>"
    by (cases "tx_task_stack_pop1 k code s1") auto
  with s1(1) show ?thesis by blast
qed

lemma task_stack_push_pop_witness:
  "\<exists>s1 s2. tx_task_stack_push (Stack 0) (UserBall 3) VNull demo_stack = Inr s1 \<and>
     tx_task_stack_pop1 (Stack 0) 5 s1 = Inr s2 \<and>
     stack_abs (Stack 0) s2 = (stack_abs (Stack 0) demo_stack)\<lparr>report := Value 5\<rparr>"
  using task_stack_push_pop [OF demo_stack_ok(1), of "UserBall 3" VNull 5] demo_stack_ok(2) by simp

end
