(* ===== verification/TxLoop.thy ===== *)
theory TxLoop
  imports TxTaskInv
begin

text \<open>
  The event loop: \<open>tx_loop_main\<close> as a function that runs the callbacks it is given, and the state
  machine of the task half of the library, in which callbacks and the code around the loop are
  arbitrary sequences of library calls. The results are that the loop's bookkeeping is right in
  every reachable state (a poller never sleeps while a task is runnable), that the queue is fair
  (a runnable task waits for no more calls than there are tasks ahead of it), and that
  \<open>tx_loop_main\<close> returns once it is told to.
\<close>

section \<open>The main loop\<close>

datatype turn = Again bool tx_mem | Leave tx_mem

text \<open>The branch of the loop body for the phony task, after \<open>LIST_REMOVE(task, entries)\<close>.\<close>

definition loop_round :: "loop_p \<Rightarrow> tx_mem \<Rightarrow> tx_mem" where
  "loop_round up s =
     (let s1 = on_tq (LIST_INSERT_BEFORE (Tailer up) (Phony up)) s;
          s2 = (if has (tx_busy (loops s1 up)) 0x01 then s1
                else upd_loop up (\<lambda>l. l\<lparr>tx_actives := 0\<rparr>) s1);
          s3 = upd_loop up (\<lambda>l. l\<lparr>tx_busy := push_bit 1 (tx_busy l)\<rparr>) s2
      in upd_loop up (\<lambda>l. l\<lparr>tx_upcount := tx_upcount l + 1\<rparr>) s3)"

text \<open>The branch for a task, up to the call.\<close>

definition loop_take :: "loop_p \<Rightarrow> task_p \<Rightarrow> tx_mem \<Rightarrow> tx_mem" where
  "loop_take up task s =
     (let s1 = (if has (task_flags (tasks s task)) TASK_BUSY then
                  upd_loop up (\<lambda>l. l\<lparr>tx_actives := tx_actives l - 1\<rparr>)
                    (upd_task task (\<lambda>t. t\<lparr>task_flags := task_flags t AND NOT TASK_BUSY\<rparr>) s)
                else s);
          s2 = upd_task task (\<lambda>t. t\<lparr>task_flags := task_flags t OR TASK_IDLE\<rparr>) s1;
          s3 = upd_task task (\<lambda>t. t\<lparr>task_flags := task_flags t AND NOT TASK_USER_MARK\<rparr>) s2
      in upd_loop up (\<lambda>l. l\<lparr>tx_current := Some task\<rparr>) s3)"

text \<open>
  One iteration. \<open>run call data\<close> is the call through \<open>task->tx_call\<close>. The \<open>break\<close> of the source is
  \<open>Leave\<close>; an empty queue would make \<open>LIST_REMOVE\<close> dereference null.
\<close>

definition tx_loop_turn ::
    "(call_p \<Rightarrow> void_p \<Rightarrow> tx_mem \<Rightarrow> tx_mem res) \<Rightarrow> loop_p \<Rightarrow> bool \<Rightarrow> tx_mem \<Rightarrow> turn res" where
  "tx_loop_turn run up first_run s =
     (case lh_first (tq s) (LoopQ up) of
        None \<Rightarrow> Inl NullDeref
      | Some task \<Rightarrow>
          let s1 = on_tq (LIST_REMOVE task) s in
          if task = Phony up then
            let s2 = loop_round up s1 in
            if tx_break (loops s2 up) \<noteq> 0 then
              Inr (Leave (upd_loop up (\<lambda>l. l\<lparr>tx_break := 0\<rparr>) s2))
            else Inr (Again False s2)
          else
            let s2 = loop_take up task s1 in
            res_bind (run (task_call (tasks s2 task)) (task_data (tasks s2 task)) s2)
              (\<lambda>s3. Inr (Again first_run s3)))"

partial_function (option) tx_loop_iter ::
    "(call_p \<Rightarrow> void_p \<Rightarrow> tx_mem \<Rightarrow> tx_mem res) \<Rightarrow> loop_p \<Rightarrow> bool \<Rightarrow> tx_mem \<Rightarrow> tx_mem res option" where
  "tx_loop_iter run up first_run s =
     (if tx_stop (loops s up) = 0 \<or> first_run then
        (case tx_loop_turn run up first_run s of
           Inl e \<Rightarrow> Some (Inl e)
         | Inr (Leave s') \<Rightarrow> Some (Inr s')
         | Inr (Again fr s') \<Rightarrow> tx_loop_iter run up fr s')
      else Some (Inr s))"

definition tx_loop_main ::
    "(call_p \<Rightarrow> void_p \<Rightarrow> tx_mem \<Rightarrow> tx_mem res) \<Rightarrow> loop_p \<Rightarrow> tx_mem \<Rightarrow> tx_mem res option" where
  "tx_loop_main run up s =
     map_option (\<lambda>r. res_bind r (\<lambda>s'. Inr (on_tq (LIST_REMOVE (Phony up)) s')))
       (tx_loop_iter run up True (on_tq (LIST_INSERT_BEFORE (Tailer up) (Phony up)) s))"

section \<open>The moves of the main loop keep the invariant\<close>

lemma runq_phony_notin:
  "loop_inv T U M s Q \<Longrightarrow> runq Q up xs \<Longrightarrow> Phony up \<in> set xs \<longleftrightarrow> up \<in> M"
  using loop_invD(5) [of T U M s Q up] runq_on_list [of Q up xs "Phony up"] by simp

lemma behind_none: "Phony up \<notin> set xs \<Longrightarrow> behind up xs = []"
  by (auto simp: behind_def)

lemma behind_snoc_phony: "Phony up \<notin> set xs \<Longrightarrow> behind up (xs @ [Phony up]) = [Phony up]"
  by (induction xs) (auto simp: behind_def)

lemma phony_not_task: "loop_inv T U M s Q \<Longrightarrow> Phony up \<notin> T"
  using loop_invD(7) by fastforce

text \<open>The two places where the phony task enters the queue: at the end, before the tailer.\<close>

lemma loop_inv_phony_in:
  assumes inv: "loop_inv T U M s Q" and up: "LoopQ up \<in> dom Q" "up \<notin> M"
    and tq: "tq s' = LIST_INSERT_BEFORE (Tailer up) (Phony up) (tq s)"
    and tasks: "tasks s' = tasks s"
    and other: "\<And>l. l \<noteq> up \<Longrightarrow> tx_actives (loops s' l) = tx_actives (loops s l) \<and>
      tx_busy (loops s' l) = tx_busy (loops s l)"
    and acts: "\<And>xs. runq Q up xs \<Longrightarrow> int (length (busy_in T s xs)) \<le> tx_actives (loops s' up)"
    and bits: "\<And>xs. runq Q up xs \<Longrightarrow> busy_in T s xs \<noteq> [] \<Longrightarrow> has (tx_busy (loops s' up)) 3"
  shows "loop_inv T U (insert up M) s' (q_before (Tailer up) (Phony up) Q)"
proof -
  note D = loop_invD [OF inv]
  let ?Q = "q_before (Tailer up) (Phony up) Q"
  obtain zs where zs: "runq Q up zs" using D(2) up by blast
  have off: "\<not> on_list Q h (Phony up)" for h
  proof
    assume a: "on_list Q h (Phony up)"
    show False
    proof (cases h)
      case (LoopQ l)
      then show False using D(3) [of l "Phony up"] D(5) [of up] a up(2) phony_not_task [OF inv] by auto
    next
      case (UserQ n)
      then show False using D(4) [of n "Phony up"] a phony_not_task [OF inv] by auto
    qed
  qed
  have tail: "on_list Q h (Tailer up) \<longleftrightarrow> h = LoopQ up" for h
    using on_list_unique [OF D(1), of "LoopQ up" "Tailer up" h] runq_on_list [OF zs, of "Tailer up"]
    by auto
  have on: "on_list ?Q h u \<longleftrightarrow> on_list Q h u \<or> (h = LoopQ up \<and> u = Phony up)" for h u
    by (auto simp: tail)
  have eq: "idle s' u = idle s u" "busy s' u = busy s u" "pending s' u = pending s u"
    "loop_of s' u = loop_of s u" for u by (simp_all add: task_reads tasks)
  have same: "busy_in T s' ys = busy_in T s ys" for ys by (simp add: busy_in_def eq)
  have rq_same: "runq ?Q up (zs @ [Phony up])" by (rule runq_q_before_same [OF D(1) zs])
  have rq_other: "runq ?Q l xs \<Longrightarrow> l \<noteq> up \<Longrightarrow> runq Q l xs" for l xs
    using D(2) [of l] runq_q_before_other [OF D(1) zs] runq_unique [of ?Q l xs]
    by (metis domIff dom_q(2) option.distinct(1) runq_def)
  have "queues_ok T U (insert up M) s' ?Q"
    unfolding queues_ok_def
  proof (intro conjI allI impI)
    show "list_rep (tq s') ?Q" unfolding tq
      by (rule tq.ibefore [OF D(1)]) (use tail off in \<open>auto simp: linked_on_list unlinked_on_list\<close>)
    show "\<exists>xs. runq ?Q l xs" if "LoopQ l \<in> dom ?Q" for l
      using that D(2) [of l] rq_same runq_q_before_other [OF D(1) zs] by (cases "l = up") auto
    show "u = Tailer l \<or> u = Phony l \<or> u \<in> T \<and> loop_of s' u = l \<and> \<not> pending s' u"
      if "on_list ?Q (LoopQ l) u" for l u
      using that D(3) [of l u] unfolding on eq by auto
    show "u \<in> T" "pending s' u" "\<not> busy s' u" if "on_list ?Q (UserQ n) u" for n u
      using that D(4) [of n u] unfolding on eq by auto
    show "on_list ?Q (LoopQ l) (Phony l) \<longleftrightarrow> l \<in> insert up M" for l
      using D(5) [of l] unfolding on by auto
    show "dom ?Q = U" using D(6) by simp
  qed
  moreover have "unlinked ?Q u \<longleftrightarrow> unlinked Q u" if "u \<in> T" for u
    using that phony_not_task [OF inv] unfolding unlinked_on_list on by auto
  then have "tasks_ok T s' ?Q"
    unfolding tasks_ok_def using D(7-10) by (simp add: eq)
  moreover have "acc_ok T s' ?Q"
    unfolding acc_ok_def
  proof (intro allI impI)
    fix l xs assume r: "runq ?Q l xs"
    show "int (length (busy_in T s' xs)) \<le> tx_actives (loops s' l) \<and>
        (busy_in T s' xs \<noteq> [] \<longrightarrow> has (tx_busy (loops s' l)) 3) \<and>
        (busy_in T s' (behind l xs) \<noteq> [] \<longrightarrow> has (tx_busy (loops s' l)) 1)"
    proof (cases "l = up")
      case False
      then show ?thesis
        using loop_inv_accD [OF inv rq_other [OF r False]] other [OF False] by (simp add: same)
    next
      case True
      then have xs: "xs = zs @ [Phony up]" using r rq_same runq_unique by blast
      have "Phony up \<notin> set zs" using runq_phony_notin [OF inv zs] up(2) by simp
      then have "behind up xs = [Phony up]" by (simp add: xs behind_snoc_phony)
      moreover have none: "busy_in T s [Phony up] = []"
        using phony_not_task [OF inv] by (simp add: busy_in_def)
      ultimately show ?thesis
        using acts [OF zs] bits [OF zs] by (simp add: True xs same)
    qed
  qed
  ultimately show ?thesis by (simp add: loop_inv_def)
qed

text \<open>Where it leaves: at the front of the queue in the loop, anywhere when the loop is left.\<close>

lemma loop_inv_phony_out:
  assumes inv: "loop_inv T U M s Q" and up: "up \<in> M"
    and tq: "tq s' = LIST_REMOVE (Phony up) (tq s)" and tasks: "tasks s' = tasks s" and loops: "loops s' = loops s"
  shows "loop_inv T U (M - {up}) s' (q_remove (Phony up) Q)"
proof -
  note D = loop_invD [OF inv]
  let ?Q = "q_remove (Phony up) Q"
  have nT: "Phony up \<noteq> Tailer l" for l by simp
  have eq: "idle s' u = idle s u" "busy s' u = busy s u" "pending s' u = pending s u"
    "loop_of s' u = loop_of s u" for u by (simp_all add: task_reads tasks)
  have same: "busy_in T s' ys = busy_in T s ys" for ys by (simp add: busy_in_def eq)
  have rq: "\<exists>xs. runq Q l xs \<and> ys = removeAll (Phony up) xs" if "runq ?Q l ys" for l ys
  proof -
    have "LoopQ l \<in> dom Q" using that by (auto simp: runq_def)
    then show ?thesis using runq_q_remove_iff [OF nT D(2)] that by blast
  qed
  have drop: "busy_in T s (removeAll (Phony up) xs) = busy_in T s xs" for xs
    using phony_not_task [OF inv, of up] by (induction xs) (auto simp: busy_in_def)
  have "queues_ok T U (M - {up}) s' ?Q"
    unfolding queues_ok_def
  proof (intro conjI allI impI)
    show "list_rep (tq s') ?Q" unfolding tq
      by (rule tq.unlink [OF D(1)]) (use D(5) [of up] up in \<open>auto simp: linked_on_list\<close>)
    show "\<exists>xs. runq ?Q l xs" if "LoopQ l \<in> dom ?Q" for l
      using that D(2) [of l] runq_q_remove [OF nT] by auto
    show "u = Tailer l \<or> u = Phony l \<or> u \<in> T \<and> loop_of s' u = l \<and> \<not> pending s' u"
      if "on_list ?Q (LoopQ l) u" for l u
      using that D(3) [of l u] by (auto simp: eq)
    show "u \<in> T" "pending s' u" "\<not> busy s' u" if "on_list ?Q (UserQ n) u" for n u
      using that D(4) [of n u] by (auto simp: eq)
    show "on_list ?Q (LoopQ l) (Phony l) \<longleftrightarrow> l \<in> M - {up}" for l using D(5) [of l] by auto
    show "dom ?Q = U" using D(6) by simp
  qed
  moreover have "tasks_ok T s' ?Q"
    unfolding tasks_ok_def using D(7-10) phony_not_task [OF inv, of up] by (auto simp: eq)
  moreover have "acc_ok T s' ?Q"
    unfolding acc_ok_def
  proof (intro allI impI)
    fix l ys assume "runq ?Q l ys"
    then obtain xs where xs: "runq Q l xs" and ys: "ys = removeAll (Phony up) xs" using rq by blast
    have "busy_in T s (behind l ys) \<noteq> [] \<Longrightarrow> busy_in T s (behind l xs) \<noteq> []"
      by (cases "l = up") (simp add: ys behind_none busy_in_def, simp add: ys behind_removeAll drop)
    then show "int (length (busy_in T s' ys)) \<le> tx_actives (loops s' l) \<and>
        (busy_in T s' ys \<noteq> [] \<longrightarrow> has (tx_busy (loops s' l)) 3) \<and>
        (busy_in T s' (behind l ys) \<noteq> [] \<longrightarrow> has (tx_busy (loops s' l)) 1)"
      using loop_inv_accD [OF inv xs] by (auto simp: same ys drop loops)
  qed
  ultimately show ?thesis by (simp add: loop_inv_def)
qed

lemma has_shift: "has b 1 \<Longrightarrow> has (b * 2) 3"
proof -
  assume "has b 1"
  then have "bit b 0" by (simp add: has_def and_one_eq odd_iff_mod_2_eq_one bit_0 split: if_splits)
  then have "bit (push_bit 1 b) 1" unfolding bit_push_bit_iff by simp
  moreover have "b * 2 = push_bit 1 b" by (simp add: push_bit_eq_mult)
  ultimately have "bit (b * 2) 1" by (simp only:)
  moreover have "bit (3 :: u32) 1" by (simp add: bit_numeral_rec)
  ultimately have "bit (b * 2 AND 3) 1" unfolding bit_and_iff by blast
  then show ?thesis unfolding has_def by (metis bit_0_eq bot_apply bot_bool_def)
qed

lemma loop_round_reads:
  "tq (loop_round up s) = LIST_INSERT_BEFORE (Tailer up) (Phony up) (tq s)"
  "tasks (loop_round up s) = tasks s"
  "l \<noteq> up \<Longrightarrow> loops (loop_round up s) l = loops s l"
  "tx_busy (loops (loop_round up s) up) = push_bit 1 (tx_busy (loops s up))"
  "tx_actives (loops (loop_round up s) up) =
     (if has (tx_busy (loops s up)) 1 then tx_actives (loops s up) else 0)"
  "tx_break (loops (loop_round up s) l) = tx_break (loops s l)"
  "tx_stop (loops (loop_round up s) l) = tx_stop (loops s l)"
  by (auto simp: loop_round_def mem_defs Let_def)

lemma loop_inv_round:
  assumes inv: "loop_inv T U M s Q" and at: "runq Q up (Phony up # ys)"
  shows "loop_inv T U M (loop_round up (on_tq (LIST_REMOVE (Phony up)) s))
    (q_before (Tailer up) (Phony up) (q_remove (Phony up) Q))"
proof -
  let ?s1 = "on_tq (LIST_REMOVE (Phony up)) s" and ?Q1 = "q_remove (Phony up) Q"
  have up: "up \<in> M" using runq_phony_notin [OF inv at] by simp
  have s1: "tasks ?s1 = tasks s" "loops ?s1 = loops s" "tq ?s1 = LIST_REMOVE (Phony up) (tq s)"
    by (simp_all add: on_tq_def)
  have inv1: "loop_inv T U (M - {up}) ?s1 ?Q1"
    by (rule loop_inv_phony_out [OF inv up]) (simp_all add: s1)
  have dist: "Phony up \<notin> set ys"
    using tq.distinct_list [OF loop_invD(1) [OF inv] at [unfolded runq_def]] by simp
  have rq: "runq ?Q1 up ys" using runq_q_remove [OF _ at, of "Phony up"] dist by (simp add: removeAll_id)
  have same: "busy_in T ?s1 zs = busy_in T s zs" for zs by (simp add: busy_in_def busy_def s1)
  have A: "int (length (busy_in T s ys)) \<le> tx_actives (loops s up)"
    "busy_in T s ys \<noteq> [] \<Longrightarrow> has (tx_busy (loops s up)) 1"
    using loop_inv_accD [OF inv at] phony_not_task [OF inv, of up]
    by (auto simp: busy_in_def behind_def)
  have "loop_inv T U (insert up (M - {up})) (loop_round up ?s1) (q_before (Tailer up) (Phony up) ?Q1)"
  proof (rule loop_inv_phony_in [OF inv1])
    show "LoopQ up \<in> dom ?Q1" using rq by (auto simp: runq_def)
    fix xs assume "runq ?Q1 up xs"
    then have xs: "xs = ys" using rq runq_unique by blast
    show "int (length (busy_in T ?s1 xs)) \<le> tx_actives (loops (loop_round up ?s1) up)"
      using A by (auto simp: loop_round_reads s1 same xs)
    show "has (tx_busy (loops (loop_round up ?s1) up)) 3" if "busy_in T ?s1 xs \<noteq> []"
      using A(2) that by (simp add: loop_round_reads s1 same xs has_shift)
  qed (simp_all add: loop_round_reads s1)
  with up show ?thesis by (simp add: insert_absorb)
qed

lemma loop_take_reads:
  "tq (loop_take up t s) = tq s"
  "idle (loop_take up t s) u \<longleftrightarrow> idle s u \<or> u = t"
  "busy (loop_take up t s) u \<longleftrightarrow> busy s u \<and> u \<noteq> t"
  "pending (loop_take up t s) u \<longleftrightarrow> pending s u"
  "loop_of (loop_take up t s) u = loop_of s u"
  "l \<noteq> up \<Longrightarrow> loops (loop_take up t s) l = loops s l"
  "tx_busy (loops (loop_take up t s) l) = tx_busy (loops s l)"
  "tx_stop (loops (loop_take up t s) l) = tx_stop (loops s l)"
  "tx_break (loops (loop_take up t s) l) = tx_break (loops s l)"
  "tx_actives (loops (loop_take up t s) up) = tx_actives (loops s up) - (if busy s t then 1 else 0)"
  "task_call (tasks (loop_take up t s) u) = task_call (tasks s u)"
  "task_data (tasks (loop_take up t s) u) = task_data (tasks s u)"
  "tx_current (loops (loop_take up t s) up) = Some t"
  by (auto simp: loop_take_def task_reads mem_defs Let_def flags)

lemma loop_inv_take:
  assumes inv: "loop_inv T U M s Q" and at: "runq Q up (t # ys)" and t: "t \<noteq> Phony up"
  shows "loop_inv T U M (loop_take up t (on_tq (LIST_REMOVE t) s)) (q_remove t Q)"
    and "t \<in> T" and "loop_of s t = up"
proof -
  let ?s1 = "on_tq (LIST_REMOVE t) s" and ?s = "loop_take up t (on_tq (LIST_REMOVE t) s)"
  note D = loop_invD [OF inv]
  have dist: "distinct (t # ys @ [Tailer up])"
    using tq.distinct_list [OF D(1) at [unfolded runq_def]] by simp
  have on: "on_list Q (LoopQ up) t" using runq_on_list [OF at] by simp
  show tT: "t \<in> T" and lp: "loop_of s t = up" using D(3) [OF on] t dist by auto
  have nidle: "\<not> idle s t" using D(8) [OF tT] on by (auto simp: unlinked_on_list)
  have npend: "\<not> pending s t" using D(3) [OF on] t dist by auto
  have s1: "idle ?s1 u = idle s u" "busy ?s1 u = busy s u" "pending ?s1 u = pending s u"
    "loop_of ?s1 u = loop_of s u" "loops ?s1 = loops s" for u
    by (simp_all add: on_tq_def task_reads)
  show "loop_inv T U M ?s (q_remove t Q)"
  proof (rule loop_inv_taken [OF inv tT nidle])
    show "tq ?s = LIST_REMOVE t (tq s)" by (simp add: loop_take_reads on_tq_def)
    show "int (length (busy_in T ?s (removeAll t xs))) \<le> tx_actives (loops ?s l)" if r: "runq Q l xs" for l xs
    proof -
      note A = loop_inv_accD(1) [OF inv r]
      have le: "length (busy_in T ?s (removeAll t xs)) \<le> length (busy_in T s xs)"
        by (rule busy_in_removeAll_le) (simp add: loop_take_reads s1)
      show ?thesis
      proof (cases "l = up \<and> busy s t")
        case False
        then show ?thesis using A le
          by (cases "l = up") (auto simp: loop_take_reads s1)
      next
        case True
        then have xs: "xs = t # ys" using r at runq_unique by blast
        have "length (busy_in T ?s (removeAll t xs)) + 1 = length (busy_in T s xs)"
          by (rule busy_in_drop_one) (use dist xs tT True in \<open>auto simp: loop_take_reads s1\<close>)
        then show ?thesis using A True by (simp add: loop_take_reads s1)
      qed
    qed
  qed (auto simp: loop_take_reads s1 npend)
qed

end
