(* ===== verification/TxMachine.thy ===== *)
theory TxMachine
  imports TxLoop
begin

text \<open>
  The task half of the library as a state machine. \<open>api_step\<close> is one library call (or a change to
  memory that the task half does not own); callbacks, pollers and the code around the loop are
  sequences of such steps, in any order. \<open>loop_step\<close> adds the moves of \<open>tx_loop_main\<close>: entering, the
  phony task coming round, taking a task off the queue to call it, leaving. \<open>reach\<close> is what is
  reachable from zeroed memory; the guards of its rules are the documented use of the library:
  tasks, loops and wait queues are initialised before they are used, a task is not initialised
  again while it is queued, \<open>tx_loop_main\<close> is not entered twice for one loop, and a wait queue is
  not woken after the loop of one of its tasks was stopped.
\<close>

section \<open>Steps\<close>

text \<open>What code outside the task half may change: everything but these fields.\<close>

definition task_frame :: "tx_mem \<Rightarrow> tx_mem \<Rightarrow> bool" where
  "task_frame s s' \<longleftrightarrow> tasks s' = tasks s \<and> tq s' = tq s \<and>
     (\<forall>up. tx_busy (loops s' up) = tx_busy (loops s up) \<and>
        tx_actives (loops s' up) = tx_actives (loops s up) \<and>
        tx_stop (loops s' up) = tx_stop (loops s up) \<and>
        tx_break (loops s' up) = tx_break (loops s up))"

inductive api_step :: "task_p set \<Rightarrow> taskq_p set \<Rightarrow> tx_mem \<Rightarrow> tx_mem \<Rightarrow> bool" for T U where
  api_init: "t \<in> T \<Longrightarrow> idle s t \<Longrightarrow> LoopQ up \<in> U \<Longrightarrow> api_step T U s (tx_task_init t up call data s)"
| api_active: "t \<in> T \<Longrightarrow> api_step T U s (tx_task_active (Some t) r s)"
| api_drop: "t \<in> T \<Longrightarrow> api_step T U s (tx_task_drop (Some t) s)"
| api_mark: "t \<in> T \<Longrightarrow> api_step T U s (tx_task_mark t s)"
| api_record: "t \<in> T \<Longrightarrow> UserQ n \<in> U \<Longrightarrow> api_step T U s (tx_task_record (UserQ n) t s)"
| api_wakeup: "UserQ n \<in> U \<Longrightarrow> (\<forall>t\<in>T. pending s t \<longrightarrow> \<not> stopped s (loop_of s t)) \<Longrightarrow>
    tx_task_wakeup (UserQ n) r s = Some s' \<Longrightarrow> api_step T U s s'"
| api_poll_active: "PollTask p \<in> T \<Longrightarrow> api_step T U s (tx_poll_active p s)"
| api_stop: "api_step T U s (tx_loop_stop up s)"
| api_break: "api_step T U s (tx_loop_break up s)"
| api_other: "task_frame s s' \<Longrightarrow> api_step T U s s'"

text \<open>
  What the program around the loop and the callbacks can do: library calls on what is initialised,
  and initialising what is not.
\<close>

inductive client_step :: "task_p set \<times> taskq_p set \<times> tx_mem \<Rightarrow> task_p set \<times> taskq_p set \<times> tx_mem \<Rightarrow> bool" where
  client_api: "api_step T U s s' \<Longrightarrow> client_step (T, U, s) (T, U, s')"
| client_loop_new: "LoopQ up \<notin> U \<Longrightarrow>
    client_step (T, U, s) (T, insert (LoopQ up) U, snd (tx_loop_new (Some up) s))"
| client_loop_default: "LoopQ DefaultLoop \<notin> U \<Longrightarrow> \<not> default_init s \<Longrightarrow>
    tx_actives (loops s DefaultLoop) = 0 \<Longrightarrow>
    client_step (T, U, s) (T, insert (LoopQ DefaultLoop) U, snd (tx_loop_default s))"
| client_taskq_init: "UserQ n \<notin> U \<Longrightarrow>
    client_step (T, U, s) (T, insert (UserQ n) U, on_tq (LIST_INIT (UserQ n)) s)"
| client_task_init: "t \<notin> T \<Longrightarrow> ordinary t \<Longrightarrow> LoopQ up \<in> U \<Longrightarrow>
    client_step (T, U, s) (insert t T, U, tx_task_init t up call data s)"

abbreviation client_run :: "task_p set \<times> taskq_p set \<times> tx_mem \<Rightarrow> task_p set \<times> taskq_p set \<times> tx_mem \<Rightarrow> bool" where
  "client_run \<equiv> client_step\<^sup>*\<^sup>*"

text \<open>The moves of \<open>tx_loop_main\<close>; \<open>M\<close> is the set of loops it is running for.\<close>

datatype label = Library | Round loop_p | Call loop_p task_p

type_synonym config = "tx_mem \<times> loop_p set"

inductive loop_step :: "taskq_p set \<Rightarrow> label \<Rightarrow> config \<Rightarrow> config \<Rightarrow> bool" for U where
  loop_enter: "LoopQ up \<in> U \<Longrightarrow> up \<notin> M \<Longrightarrow>
    loop_step U Library (s, M) (on_tq (LIST_INSERT_BEFORE (Tailer up) (Phony up)) s, insert up M)"
| loop_phony: "up \<in> M \<Longrightarrow> lh_first (tq s) (LoopQ up) = Some (Phony up) \<Longrightarrow>
    loop_step U (Round up) (s, M) (loop_round up (on_tq (LIST_REMOVE (Phony up)) s), M)"
| loop_call: "up \<in> M \<Longrightarrow> lh_first (tq s) (LoopQ up) = Some t \<Longrightarrow> t \<noteq> Phony up \<Longrightarrow>
    loop_step U (Call up t) (s, M) (loop_take up t (on_tq (LIST_REMOVE t) s), M)"
| loop_unbreak: "up \<in> M \<Longrightarrow> loop_step U Library (s, M) (upd_loop up (\<lambda>l. l\<lparr>tx_break := 0\<rparr>) s, M)"
| loop_leave: "up \<in> M \<Longrightarrow> loop_step U Library (s, M) (on_tq (LIST_REMOVE (Phony up)) s, M - {up})"

text \<open>The system: its clients and its loops, interleaved in any way.\<close>

type_synonym sys = "task_p set \<times> taskq_p set \<times> loop_p set \<times> tx_mem"

inductive sys_step :: "label \<Rightarrow> sys \<Rightarrow> sys \<Rightarrow> bool" where
  sys_client: "client_step (T, U, s) (T', U', s') \<Longrightarrow> sys_step Library (T, U, M, s) (T', U', M, s')"
| sys_loop: "loop_step U l (s, M) (s', M') \<Longrightarrow> sys_step l (T, U, M, s) (T, U, M', s')"

inductive reach :: "sys \<Rightarrow> bool" where
  reach_boot: "reach ({}, {}, {}, zero_mem)"
| reach_step: "reach c \<Longrightarrow> sys_step l c c' \<Longrightarrow> reach c'"

inductive_cases api_stepE: "api_step T U s s'"
inductive_cases client_stepE: "client_step (T, U, s) (T', U', s')"
inductive_cases loop_stepE: "loop_step U l (s, M) (s', M')"
inductive_cases sys_stepE: "sys_step l (T, U, M, s) (T', U', M', s')"

section \<open>Positions\<close>

text \<open>How many tasks are ahead of \<open>t\<close>.\<close>

definition pos :: "task_p \<Rightarrow> task_p list \<Rightarrow> nat" where
  "pos t xs = length (takeWhile (\<lambda>u. u \<noteq> t) xs)"

lemma pos_append [simp]: "t \<in> set xs \<Longrightarrow> pos t (xs @ ys) = pos t xs"
  by (simp add: pos_def takeWhile_append1)

lemma pos_removeAll: "pos t (removeAll u xs) \<le> pos t xs" if "u \<noteq> t"
  using that by (induction xs) (auto simp: pos_def)

lemma pos_Cons: "u \<noteq> t \<Longrightarrow> pos t (u # xs) = Suc (pos t xs)"
  by (simp add: pos_def)

text \<open>The number of tasks a step takes off the front of a loop's queue.\<close>

fun popped :: "loop_p \<Rightarrow> label \<Rightarrow> nat" where
  "popped up Library = 0"
| "popped up (Round l) = (if l = up then 1 else 0)"
| "popped up (Call l t) = (if l = up then 1 else 0)"

text \<open>
  \<open>advances n s Q s' Q'\<close>: a task that is busy before and after has, after, at least \<open>n\<close> (for its
  loop) fewer tasks ahead of it.
\<close>

definition advances :: "task_p set \<Rightarrow> (loop_p \<Rightarrow> nat) \<Rightarrow> tx_mem \<Rightarrow> (taskq_p \<rightharpoonup> task_p list) \<Rightarrow>
    tx_mem \<Rightarrow> (taskq_p \<rightharpoonup> task_p list) \<Rightarrow> bool" where
  "advances T n s Q s' Q' \<longleftrightarrow>
     (\<forall>t\<in>T. busy s t \<longrightarrow> busy s' t \<longrightarrow> loop_of s' t = loop_of s t \<and>
        (\<forall>xs. runq Q (loop_of s t) xs \<longrightarrow>
           (\<exists>xs'. runq Q' (loop_of s t) xs' \<and> pos t xs' + n (loop_of s t) \<le> pos t xs)))"

text \<open>The phony tasks do not fall back either.\<close>

definition front :: "(taskq_p \<rightharpoonup> task_p list) \<Rightarrow> (taskq_p \<rightharpoonup> task_p list) \<Rightarrow> bool" where
  "front Q Q' \<longleftrightarrow> (\<forall>up xs. runq Q up xs \<longrightarrow> Phony up \<in> set xs \<longrightarrow>
     (\<exists>xs'. runq Q' up xs' \<and> Phony up \<in> set xs' \<and> pos (Phony up) xs' \<le> pos (Phony up) xs))"

lemma front_refl [simp]: "front Q Q"
  by (auto simp: front_def)

lemma front_trans: "front Q Q' \<Longrightarrow> front Q' Q'' \<Longrightarrow> front Q Q''"
  unfolding front_def by (meson order_trans)

lemma front_remove:
  assumes "ordinary u"
  shows "front Q (q_remove u Q)"
  unfolding front_def
proof (intro allI impI)
  fix up xs assume r: "runq Q up xs" and p: "Phony up \<in> set xs"
  from assms have "u \<noteq> Phony up" "u \<noteq> Tailer up" by auto
  then show "\<exists>xs'. runq (q_remove u Q) up xs' \<and> Phony up \<in> set xs' \<and> pos (Phony up) xs' \<le> pos (Phony up) xs"
    using runq_q_remove [OF _ r, of u] p pos_removeAll [of u "Phony up" xs] by auto
qed

lemma busy_queued:
  assumes inv: "loop_inv T U M s Q" and t: "t \<in> T" "busy s t"
  obtains xs where "runq Q (loop_of s t) xs" and "t \<in> set xs"
proof -
  note D = loop_invD [OF inv]
  have "\<not> unlinked Q t" using D(8,9) t by blast
  then obtain h where h: "on_list Q h t" by (auto simp: unlinked_on_list)
  have ord: "ordinary t" using D(7) t by blast
  show thesis
  proof (cases h)
    case (LoopQ up)
    then have "loop_of s t = up" using D(3) [of up t] h ord by auto
    moreover obtain xs where xs: "runq Q up xs" using D(2) [of up] h LoopQ by (auto simp: on_list_def)
    moreover have "t \<in> set xs" using runq_on_list [OF xs, of t] h LoopQ ord by auto
    ultimately show thesis using that by blast
  next
    case (UserQ n)
    then show thesis using D(4) [of n t] h t by auto
  qed
qed

lemma advances_same: "(\<And>t. t \<in> T \<Longrightarrow> busy s t \<Longrightarrow> loop_of s' t = loop_of s t) \<Longrightarrow> advances T (\<lambda>_. 0) s Q s' Q"
  by (auto simp: advances_def)

lemma advances_remove:
  assumes "u \<in> T \<Longrightarrow> \<not> busy s' u" and "ordinary u \<or> u = Phony l" and "\<And>t. loop_of s' t = loop_of s t"
  shows "advances T (\<lambda>_. 0) s Q s' (q_remove u Q)"
  unfolding advances_def
proof (intro ballI impI conjI allI)
  fix t xs assume "t \<in> T" "busy s t" "busy s' t" and r: "runq Q (loop_of s t) xs"
  then have "u \<noteq> t" using assms(1) by auto
  moreover have "runq (q_remove u Q) (loop_of s t) (removeAll u xs)"
    by (rule runq_q_remove [OF _ r]) (use assms(2) in auto)
  ultimately show "\<exists>xs'. runq (q_remove u Q) (loop_of s t) xs' \<and> pos t xs' + 0 \<le> pos t xs"
    using pos_removeAll by auto
qed (use assms(3) in auto)

lemma runq_wake:
  assumes inv: "loop_inv T U M s Q" and u: "u \<in> T" and r: "runq Q up xs"
  shows "runq (q_before (Tailer (loop_of s u)) u (q_remove u Q)) up
    (removeAll u xs @ (if loop_of s u = up then [u] else []))"
proof -
  have inv': "loop_inv T U M (tx_task_drop (Some u) s) (q_remove u Q)" by (rule loop_inv_drop [OF inv u])
  have rep: "list_rep (tq (tx_task_drop (Some u) s)) (q_remove u Q)" by (rule loop_invD(1) [OF inv'])
  have nT: "u \<noteq> Tailer l" for l using loop_invD(7) [OF inv u] by auto
  have r': "runq (q_remove u Q) up (removeAll u xs)" by (rule runq_q_remove [OF nT r])
  obtain zs where zs: "runq (q_remove u Q) (loop_of s u) zs"
    using loop_invD(2) [OF inv'] loop_invD(10) [OF inv' u] by auto
  show ?thesis
    using runq_q_before_same [OF rep r', of u] runq_q_before_other [OF rep zs _ r', of u] by auto
qed

lemma front_wake:
  assumes inv: "loop_inv T U M s Q" and u: "u \<in> T"
  shows "front Q (q_before (Tailer (loop_of s u)) u (q_remove u Q))"
  unfolding front_def
proof (intro allI impI)
  fix up xs assume r: "runq Q up xs" and p: "Phony up \<in> set xs"
  have "u \<noteq> Phony up" using loop_invD(7) [OF inv u] by auto
  then have "Phony up \<in> set (removeAll u xs)" "pos (Phony up) (removeAll u xs) \<le> pos (Phony up) xs"
    using p pos_removeAll [of u "Phony up" xs] by auto
  then show "\<exists>xs'. runq (q_before (Tailer (loop_of s u)) u (q_remove u Q)) up xs' \<and>
      Phony up \<in> set xs' \<and> pos (Phony up) xs' \<le> pos (Phony up) xs"
    by (intro exI [of _ "removeAll u xs @ (if loop_of s u = up then [u] else [])"] conjI
        runq_wake [OF inv u r]) auto
qed

lemma advances_wake:
  assumes inv: "loop_inv T U M s Q" and u: "u \<in> T" "\<not> busy s u"
    and "\<And>t. loop_of s' t = loop_of s t"
  shows "advances T (\<lambda>_. 0) s Q s' (q_before (Tailer (loop_of s u)) u (q_remove u Q))"
  unfolding advances_def
proof (intro ballI impI conjI allI)
  fix t xs assume t: "t \<in> T" "busy s t" "busy s' t" and r: "runq Q (loop_of s t) xs"
  then have "u \<noteq> t" using u by auto
  moreover have "t \<in> set xs"
    using busy_queued [OF inv t(1,2)] r runq_unique by metis
  ultimately have "pos t (removeAll u xs @ zs) \<le> pos t xs" for zs
    using pos_removeAll [of u t xs] by simp
  then show "\<exists>xs'. runq (q_before (Tailer (loop_of s u)) u (q_remove u Q)) (loop_of s t) xs' \<and>
      pos t xs' + 0 \<le> pos t xs"
    using runq_wake [OF inv u(1) r] by (intro exI) auto
qed (use assms(4) in auto)

section \<open>Every step keeps the invariant\<close>

lemma loop_inv_api:
  assumes inv: "loop_inv T U M s Q" and st: "api_step T U s s'"
  shows "\<exists>Q'. loop_inv T U M s' Q' \<and> advances T (\<lambda>_. 0) s Q s' Q' \<and> front Q Q'"
  using st
proof cases
  case (api_init t up call data)
  have "unlinked Q t" "ordinary t" "LoopQ up \<in> dom Q"
    using loop_invD(6-8) [OF inv] api_init by auto
  from loop_inv_task_init [OF inv this] api_init(2) have "loop_inv T U M s' Q"
    by (simp add: api_init(1) insert_absorb)
  moreover have "advances T (\<lambda>_. 0) s Q s' Q"
  proof (rule advances_same)
    fix u assume "u \<in> T" "busy s u"
    then have "u \<noteq> t" using loop_invD(9) [OF inv] api_init by blast
    then show "loop_of s' u = loop_of s u" by (simp add: api_init(1) tx_task_init_def mem_defs)
  qed
  ultimately show ?thesis using front_refl by blast
next
  case (api_active t r)
  show ?thesis
  proof (cases "stopped s (loop_of s t) \<or> busy s t")
    case True
    then show ?thesis using inv advances_same [of T s s] by (auto simp: api_active tx_task_active_skip)
  next
    case False
    then show ?thesis
      using loop_inv_active [OF inv api_active(2), of r] advances_wake [OF inv api_active(2), of s']
        front_wake [OF inv api_active(2)]
      by (auto simp: api_active(1))
  qed
next
  case (api_drop t)
  have "\<not> busy s' t"
    using loop_invD(9) [OF loop_inv_drop [OF inv api_drop(2)] api_drop(2) idle_after_drop]
    by (simp add: api_drop(1))
  then show ?thesis
    using loop_inv_drop [OF inv api_drop(2)] front_remove [of t Q] advances_remove [of t T s' _ s Q] loop_invD(7) [OF inv api_drop(2)]
    by (auto simp: api_drop(1))
next
  case (api_mark t)
  have "advances T (\<lambda>_. 0) s Q s' Q"
    by (rule advances_same) (simp add: api_mark(1) tx_task_mark_def mem_defs)
  then show ?thesis using loop_inv_mark [OF inv, of t] api_mark(1) front_refl by blast
next
  case (api_record t n)
  let ?d = "tx_task_drop (Some t) s"
  have inv': "loop_inv T U M s' (q_head (UserQ n) t (q_remove t Q))"
    using loop_inv_record [OF inv api_record(2)] loop_invD(6) [OF inv] api_record by simp
  have "\<not> busy s' t"
    using loop_invD(9) [OF loop_inv_drop [OF inv api_record(2)] api_record(2) idle_after_drop]
    by (simp add: api_record(1) tx_task_record_reads)
  then have "advances T (\<lambda>_. 0) s Q s' (q_remove t Q)"
    using loop_invD(7) [OF inv api_record(2)]
    by (intro advances_remove) (auto simp: api_record(1) tx_task_record_reads)
  then have "advances T (\<lambda>_. 0) s Q s' (q_head (UserQ n) t (q_remove t Q))"
    by (simp add: advances_def)
  moreover have "front Q (q_head (UserQ n) t (q_remove t Q))"
    using front_remove [OF loop_invD(7) [OF inv api_record(2)], of Q] by (simp add: front_def)
  ultimately show ?thesis using inv' by blast
next
  case (api_wakeup n r)
  obtain xs where xs: "Q (UserQ n) = Some xs" using api_wakeup(1) loop_invD(6) [OF inv] by blast
  have on: "on_list Q (UserQ n) t" if "t \<in> set xs" for t using that xs by (auto simp: on_list_def)
  have quiet: "\<not> busy s t" if "t \<in> set xs" for t using loop_invD(4) [OF inv on [OF that]] by blast
  have "\<not> stopped s (loop_of s t)" if "t \<in> set xs" for t
    using loop_invD(4) [OF inv on [OF that]] api_wakeup(2) by blast
  from tx_task_wakeup_spec [OF inv xs this, of r] api_wakeup(3)
  obtain Q' where Q': "loop_inv T U M s' Q'" "woken s r xs s'"
    "\<And>up ys. runq Q up ys \<Longrightarrow> runq Q' up (ys @ filter (\<lambda>t. loop_of s t = up) xs)" by auto
  have "advances T (\<lambda>_. 0) s Q s' Q'"
    unfolding advances_def
  proof (intro ballI impI conjI allI)
    fix t assume t: "t \<in> T" "busy s t"
    show "loop_of s' t = loop_of s t" using Q'(2) by (simp add: woken_def)
    fix ys assume ys: "runq Q (loop_of s t) ys"
    have "t \<in> set ys" using busy_queued [OF inv t] ys runq_unique by metis
    then show "\<exists>xs'. runq Q' (loop_of s t) xs' \<and> pos t xs' + 0 \<le> pos t ys"
      using Q'(3) [OF ys] by (intro exI conjI) auto
  qed
  moreover have "front Q Q'"
    unfolding front_def using Q'(3) by (intro allI impI exI conjI) (assumption | simp)+
  ultimately show ?thesis using Q'(1) by blast
next
  case (api_poll_active p)
  show ?thesis
  proof (cases "stopped s (loop_of s (PollTask p)) \<or> \<not> idle s (PollTask p)")
    case True
    then show ?thesis using inv advances_same [of T s s] by (auto simp: api_poll_active tx_poll_active_skip)
  next
    case False
    then have q: "q_remove (PollTask p) Q = Q" and nb: "\<not> busy s (PollTask p)"
      using loop_invD(8,9) [OF inv api_poll_active(2)] by (auto simp: q_remove_unlinked)
    show ?thesis
      using loop_inv_poll_active [OF inv api_poll_active(2)] False
        advances_wake [OF inv api_poll_active(2) nb, of s']
        front_wake [OF inv api_poll_active(2)]
      by (auto simp: api_poll_active(1) q)
  qed
next
  case (api_stop up)
  have "advances T (\<lambda>_. 0) s Q s' Q"
    by (rule advances_same) (simp add: api_stop tx_loop_stop_def mem_defs)
  then show ?thesis using loop_inv_stop [OF inv, of up] api_stop front_refl by blast
next
  case (api_break up)
  have "advances T (\<lambda>_. 0) s Q s' Q"
    by (rule advances_same) (simp add: api_break tx_loop_break_def mem_defs)
  then show ?thesis using loop_inv_break [OF inv, of up] api_break front_refl by blast
next
  case api_other
  have "loop_inv T U M s' Q"
    by (rule loop_inv_frame [OF inv]) (use api_other in \<open>auto simp: task_frame_def task_reads\<close>)
  moreover have "advances T (\<lambda>_. 0) s Q s' Q"
    by (rule advances_same) (use api_other in \<open>auto simp: task_frame_def\<close>)
  ultimately show ?thesis using front_refl by blast
qed

lemma at_front:
  assumes inv: "loop_inv T U M s Q" and M: "up \<in> M" and hd: "lh_first (tq s) (LoopQ up) = Some t"
  obtains ys where "runq Q up (t # ys)"
proof -
  have on: "on_list Q (LoopQ up) (Phony up)" using loop_invD(5) [OF inv] M by blast
  then obtain xs where xs: "runq Q up xs" using loop_invD(2) [OF inv, of up] by (auto simp: on_list_def)
  have "Phony up \<in> set xs" using runq_on_list [OF xs] on by simp
  moreover have "list_head (xs @ [Tailer up]) = Some t"
    using tq.first [OF loop_invD(1) [OF inv] xs [unfolded runq_def]] hd by simp
  ultimately have "xs = t # tl xs" by (cases xs) auto
  then show thesis using that xs by metis
qed

lemma advances_busy_ordinary:
  assumes inv: "loop_inv T U M s Q" and loops: "\<And>t. loop_of s' t = loop_of s t"
    and adv: "\<And>t xs. t \<in> T \<Longrightarrow> t \<in> set xs \<Longrightarrow> busy s' t \<Longrightarrow> t \<noteq> Phony up \<Longrightarrow> runq Q (loop_of s t) xs \<Longrightarrow>
      \<exists>xs'. runq Q' (loop_of s t) xs' \<and> pos t xs' + n (loop_of s t) \<le> pos t xs"
  shows "advances T n s Q s' Q'"
  unfolding advances_def
proof (intro ballI impI conjI allI)
  fix t xs assume t: "t \<in> T" "busy s t" "busy s' t" and r: "runq Q (loop_of s t) xs"
  have "t \<in> set xs" using busy_queued [OF inv t(1,2)] r runq_unique by metis
  moreover have "t \<noteq> Phony up" using phony_not_task [OF inv] t(1) by blast
  ultimately show "\<exists>xs'. runq Q' (loop_of s t) xs' \<and> pos t xs' + n (loop_of s t) \<le> pos t xs"
    using adv [OF t(1) _ t(3) _ r] by blast
qed (rule loops)

text \<open>
  Every step of the loop keeps the invariant, and moves every task that stays busy forward by the
  number of tasks the step took off the front of its loop's queue.
\<close>

lemma loop_inv_step:
  assumes inv: "loop_inv T U M s Q" and st: "loop_step U l (s, M) (s', M')"
  shows "\<exists>Q'. loop_inv T U M' s' Q' \<and> advances T (\<lambda>up. popped up l) s Q s' Q'"
  using st
proof (cases rule: loop_stepE [consumes 1, case_names 2 3 4 5 6])
  case (2 up)
  have up: "LoopQ up \<in> dom Q" using 2 loop_invD(6) [OF inv] by simp
  have inv': "loop_inv T U M' s' (q_before (Tailer up) (Phony up) Q)"
    unfolding \<open>M' = _\<close>
    by (rule loop_inv_phony_in [OF inv up \<open>up \<notin> M\<close>])
      (use 2 loop_inv_accD [OF inv] in \<open>auto simp: on_tq_def\<close>)
  have "advances T (\<lambda>up. popped up l) s Q s' (q_before (Tailer up) (Phony up) Q)"
  proof (rule advances_busy_ordinary [OF inv, where up = up])
    fix t xs assume t: "t \<in> set xs" and r: "runq Q (loop_of s t) xs"
    obtain zs where "runq Q up zs" using loop_invD(2) [OF inv up] by blast
    then have "runq (q_before (Tailer up) (Phony up) Q) (loop_of s t)
        (xs @ (if loop_of s t = up then [Phony up] else []))"
      using runq_q_before_same [OF loop_invD(1) [OF inv] r]
        runq_q_before_other [OF loop_invD(1) [OF inv] _ _ r] by auto
    with t show "\<exists>xs'. runq (q_before (Tailer up) (Phony up) Q) (loop_of s t) xs' \<and>
        pos t xs' + popped (loop_of s t) l \<le> pos t xs"
      using 2 by (intro exI conjI) auto
  qed (use 2 in \<open>simp add: on_tq_def\<close>)
  with inv' show ?thesis by blast
next
  case (3 up)
  have up: "up \<in> M" using 3 by simp
  obtain ys where ys: "runq Q up (Phony up # ys)" by (rule at_front [OF inv up]) (use 3 in auto)
  let ?Q1 = "q_remove (Phony up) Q"
  let ?Q = "q_before (Tailer up) (Phony up) ?Q1"
  have inv1: "loop_inv T U (M - {up}) (on_tq (LIST_REMOVE (Phony up)) s) ?Q1"
    by (rule loop_inv_phony_out [OF inv up]) (simp_all add: on_tq_def)
  have ys1: "runq ?Q1 up (removeAll (Phony up) (Phony up # ys))" by (rule runq_q_remove [OF _ ys]) simp
  have "advances T (\<lambda>up. popped up l) s Q s' ?Q"
  proof (rule advances_busy_ordinary [OF inv, where up = up])
    fix t xs assume t: "t \<in> set xs" "t \<noteq> Phony up" and r: "runq Q (loop_of s t) xs"
    have r1: "runq ?Q1 (loop_of s t) (removeAll (Phony up) xs)" by (rule runq_q_remove [OF _ r]) simp
    show "\<exists>xs'. runq ?Q (loop_of s t) xs' \<and> pos t xs' + popped (loop_of s t) l \<le> pos t xs"
    proof (cases "loop_of s t = up")
      case True
      then have xs: "xs = Phony up # ys" using r ys runq_unique by auto
      have rq: "runq ?Q up (removeAll (Phony up) ys @ [Phony up])"
        using runq_q_before_same [OF loop_invD(1) [OF inv1] ys1] by simp
      have "Suc (pos t (removeAll (Phony up) ys @ [Phony up])) \<le> pos t xs"
        using t xs pos_removeAll [of "Phony up" t ys] by (simp add: pos_Cons)
      then show ?thesis using rq True 3 by auto
    next
      case False
      have "runq ?Q (loop_of s t) (removeAll (Phony up) xs)"
        by (rule runq_q_before_other [OF loop_invD(1) [OF inv1] ys1 False r1])
      then show ?thesis using pos_removeAll [of "Phony up" t xs] t(2) False 3 by auto
    qed
  qed (use 3 in \<open>simp add: on_tq_def loop_round_reads\<close>)
  then show ?thesis using loop_inv_round [OF inv ys] 3 by auto
next
  case (4 up t)
  have up: "up \<in> M" using 4 by simp
  obtain ys where ys: "runq Q up (t # ys)" by (rule at_front [OF inv up]) (use 4 in auto)
  note K = loop_inv_take [OF inv ys \<open>t \<noteq> Phony up\<close>]
  have nT: "t \<noteq> Tailer w" for w using K(2) loop_invD(7) [OF inv] by fastforce
  have "advances T (\<lambda>up. popped up l) s Q s' (q_remove t Q)"
  proof (rule advances_busy_ordinary [OF inv, where up = up])
    fix u xs assume u: "u \<in> set xs" "busy s' u" and r: "runq Q (loop_of s u) xs"
    have ut: "u \<noteq> t" using u(2) 4 by (auto simp: loop_take_reads)
    have r1: "runq (q_remove t Q) (loop_of s u) (removeAll t xs)" by (rule runq_q_remove [OF nT r])
    show "\<exists>xs'. runq (q_remove t Q) (loop_of s u) xs' \<and> pos u xs' + popped (loop_of s u) l \<le> pos u xs"
    proof (cases "loop_of s u = up")
      case True
      then have "xs = t # ys" using r ys runq_unique by auto
      then show ?thesis using r1 ut pos_removeAll [of t u ys] True 4 by (intro exI) (auto simp: pos_Cons)
    next
      case False
      then show ?thesis using r1 ut pos_removeAll [of t u xs] 4 by auto
    qed
  qed (use 4 in \<open>simp add: on_tq_def loop_take_reads\<close>)
  then show ?thesis using K(1) 4 by auto
next
  case (5 up)
  have up: "up \<in> M" using 5 by simp
  have "loop_inv T U M s' Q"
    by (rule loop_inv_frame [OF inv]) (use 5 in \<open>auto simp: mem_defs task_reads\<close>)
  moreover have "advances T (\<lambda>up. popped up l) s Q s' Q"
    using 5 advances_same [of T s s' Q] by (simp add: mem_defs)
  ultimately show ?thesis using 5 by blast
next
  case (6 up)
  have "loop_inv T U M' s' (q_remove (Phony up) Q)"
    unfolding \<open>M' = _\<close> by (rule loop_inv_phony_out [OF inv]) (use 6 in \<open>auto simp: on_tq_def\<close>)
  moreover have "advances T (\<lambda>_. 0) s Q s' (q_remove (Phony up) Q)"
    by (rule advances_remove) (use 6 phony_not_task [OF inv] in \<open>auto simp: on_tq_def\<close>)
  ultimately show ?thesis using 6 by auto
qed

lemma not_task_unlinked:
  assumes inv: "loop_inv T U M s Q" and t: "t \<notin> T" "ordinary t"
  shows "unlinked Q t"
  unfolding unlinked_on_list
proof
  fix h show "\<not> on_list Q h t"
    using loop_invD(3,4) [OF inv] t by (cases h) (auto, metis ordinary.simps(1,2))
qed

lemma runq_new: "LoopQ up \<notin> dom Q \<Longrightarrow> runq Q l xs \<Longrightarrow> runq (Q(LoopQ up \<mapsto> zs)) l xs"
  by (auto simp: runq_def)

lemma advances_new:
  assumes "LoopQ up \<notin> dom Q" and "\<And>t. t \<in> T \<Longrightarrow> loop_of s' t = loop_of s t"
  shows "advances T (\<lambda>_. 0) s Q s' (Q(LoopQ up \<mapsto> zs))"
  unfolding advances_def
proof (intro ballI impI conjI allI)
  fix t xs assume "runq Q (loop_of s t) xs"
  from runq_new [OF assms(1) this]
  show "\<exists>xs'. runq (Q(LoopQ up \<mapsto> zs)) (loop_of s t) xs' \<and> pos t xs' + 0 \<le> pos t xs" by auto
qed (rule assms(2))

lemma loop_inv_client:
  assumes inv: "loop_inv T U M s Q" and st: "client_step (T, U, s) (T', U', s')"
  shows "\<exists>Q'. loop_inv T' U' M s' Q' \<and> advances T (\<lambda>_. 0) s Q s' Q' \<and> front Q Q'"
  using st
proof (cases rule: client_stepE [consumes 1, case_names api loop_new loop_default taskq_init task_init])
  case api
  then show ?thesis using loop_inv_api [OF inv, of s'] by simp
next
  case (loop_new up)
  then have up: "LoopQ up \<notin> dom Q" using loop_invD(6) [OF inv] by simp
  have "front Q (Q(LoopQ up \<mapsto> [Tailer up]))" using runq_new [OF up] by (auto simp: front_def)
  moreover have "loop_of s' t = loop_of s t" if "t \<in> T" for t
    using loop_invD(7) [OF inv that] loop_new by (auto simp: tx_loop_new_def mem_defs Let_def)
  then have "advances T (\<lambda>_. 0) s Q s' (Q(LoopQ up \<mapsto> [Tailer up]))" by (rule advances_new [OF up])
  ultimately show ?thesis using loop_inv_loop_new [OF inv up] loop_new by auto
next
  case loop_default
  then have up: "LoopQ DefaultLoop \<notin> dom Q" using loop_invD(6) [OF inv] by simp
  let ?Q = "Q(LoopQ DefaultLoop \<mapsto> [Tailer DefaultLoop])"
  have "front Q ?Q" using runq_new [OF up] by (auto simp: front_def)
  moreover have "loop_of s' t = loop_of s t" if "t \<in> T" for t
    using loop_default by (simp add: tx_loop_default_def mem_defs Let_def)
  then have "advances T (\<lambda>_. 0) s Q s' ?Q" by (rule advances_new [OF up])
  ultimately show ?thesis using loop_inv_loop_default [OF inv up] loop_default by auto
next
  case (taskq_init n)
  then have n: "UserQ n \<notin> dom Q" using loop_invD(6) [OF inv] by simp
  have rq: "runq (Q(UserQ n \<mapsto> [])) = runq Q" by (simp add: runq_def fun_eq_iff)
  have "front Q (Q(UserQ n \<mapsto> []))" unfolding front_def rq by blast
  moreover have "advances T (\<lambda>_. 0) s Q s' (Q(UserQ n \<mapsto> []))"
    using taskq_init by (auto simp: advances_def rq on_tq_def)
  ultimately show ?thesis using loop_inv_taskq_init [OF inv n] taskq_init by auto
next
  case (task_init t up call data)
  have "loop_inv T' U' M s' Q"
    using loop_inv_task_init [OF inv not_task_unlinked [OF inv]] task_init loop_invD(6) [OF inv] by auto
  moreover have "advances T (\<lambda>_. 0) s Q s' Q"
    by (rule advances_same) (use task_init in \<open>auto simp: tx_task_init_def mem_defs\<close>)
  ultimately show ?thesis using front_refl by blast
qed

lemma client_run_frame:
  assumes "client_run c c'"
  shows "fst c \<subseteq> fst c' \<and> fst (snd c) \<subseteq> fst (snd c')"
  using assms
proof induction
  case (step y z)
  from step(2) have "fst y \<subseteq> fst z \<and> fst (snd y) \<subseteq> fst (snd z)" by cases auto
  with step(3) show ?case by auto
qed simp

lemma loop_inv_client_run:
  assumes "client_run c c'" and "loop_inv (fst c) (fst (snd c)) M (snd (snd c)) Q"
  shows "\<exists>Q'. loop_inv (fst c') (fst (snd c')) M (snd (snd c')) Q' \<and> front Q Q'"
  using assms
proof induction
  case base
  then show ?case using front_refl by blast
next
  case (step y z)
  then obtain Q' where Q': "loop_inv (fst y) (fst (snd y)) M (snd (snd y)) Q'" "front Q Q'" by blast
  have "client_step (fst y, fst (snd y), snd (snd y)) (fst z, fst (snd z), snd (snd z))" using step(2) by simp
  from loop_inv_client [OF Q'(1) this] show ?case using front_trans [OF Q'(2)] by blast
qed

definition sys_ok :: "sys \<Rightarrow> bool" where
  "sys_ok c \<longleftrightarrow> (case c of (T, U, M, s) \<Rightarrow> \<exists>Q. loop_inv T U M s Q)"

lemma sys_step_inv:
  assumes inv: "loop_inv T U M s Q" and st: "sys_step l (T, U, M, s) (T', U', M', s')"
  shows "\<exists>Q'. loop_inv T' U' M' s' Q' \<and> advances T (\<lambda>up. popped up l) s Q s' Q'"
  using st
proof cases
  case sys_client
  then show ?thesis using loop_inv_client [OF inv] by fastforce
next
  case sys_loop
  then show ?thesis using loop_inv_step [OF inv] by auto
qed

lemma reach_sys_ok: "reach c \<Longrightarrow> sys_ok c"
proof (induction rule: reach.induct)
  case reach_boot
  then show ?case using loop_inv_boot by (auto simp: sys_ok_def)
next
  case (reach_step c l c')
  obtain T U M s T' U' M' s' where c: "c = (T, U, M, s)" "c' = (T', U', M', s')" by (cases c, cases c')
  with reach_step.IH obtain Q where "loop_inv T U M s Q" by (auto simp: sys_ok_def)
  from sys_step_inv [OF this reach_step.hyps(2) [unfolded c]] show ?case by (auto simp: sys_ok_def c)
qed

lemma reach_inv:
  assumes "reach (T, U, M, s)"
  obtains Q where "loop_inv T U M s Q"
  using reach_sys_ok [OF assms] by (auto simp: sys_ok_def)

lemma sys_step_tasks: "sys_step l (T, U, M, s) (T', U', M', s') \<Longrightarrow> T \<subseteq> T'"
  by (auto elim!: sys_stepE client_stepE)

lemma reach_client_run:
  assumes "client_run (T, U, s) (T', U', s')" and "reach (T, U, M, s)"
  shows "reach (T', U', M, s')"
  using assms
proof (induction "(T', U', s')" arbitrary: T' U' s')
  case (step y)
  then show ?case by (cases y) (auto intro: reach.reach_step sys_client)
qed simp

section \<open>Fairness\<close>

text \<open>A run of the system during which the task \<open>t\<close> stays busy, with the labels of its steps.\<close>

inductive busy_run :: "task_p \<Rightarrow> sys \<Rightarrow> label list \<Rightarrow> sys \<Rightarrow> bool" for t where
  busy_nil: "busy_run t c [] c"
| busy_cons: "sys_step l c (T, U, M, s) \<Longrightarrow> busy s t \<Longrightarrow> busy_run t (T, U, M, s) ls c' \<Longrightarrow>
    busy_run t c (l # ls) c'"

lemma busy_run_pops:
  assumes "busy_run t (T, U, M, s) ls c" and "loop_inv T U M s Q" and "t \<in> T" and "busy s t"
    and "runq Q (loop_of s t) xs"
  shows "sum_list (map (popped (loop_of s t)) ls) \<le> pos t xs"
  using assms
proof (induction ls arbitrary: T U M s Q xs)
  case (Cons l ls)
  from Cons.prems(1) obtain T' U' M' s' where st: "sys_step l (T, U, M, s) (T', U', M', s')"
    and b: "busy s' t" and run: "busy_run t (T', U', M', s') ls c"
    by (auto elim: busy_run.cases)
  obtain Q' where Q': "loop_inv T' U' M' s' Q'" and adv: "advances T (\<lambda>up. popped up l) s Q s' Q'"
    using sys_step_inv [OF Cons.prems(2) st] by blast
  have t': "t \<in> T'" using sys_step_tasks [OF st] Cons.prems(3) by blast
  from adv Cons.prems(3-5) b obtain xs' where same: "loop_of s' t = loop_of s t"
    and xs': "runq Q' (loop_of s t) xs'" "pos t xs' + popped (loop_of s t) l \<le> pos t xs"
    unfolding advances_def by blast
  have "sum_list (map (popped (loop_of s t)) ls) \<le> pos t xs'"
    using Cons.IH [OF run Q' t' b] xs'(1) by (simp add: same)
  with xs'(2) show ?case by simp
qed simp

lemma lseg_same: "lseg H sl xs None \<Longrightarrow> lseg H sl ys None \<Longrightarrow> xs = ys"
proof (induction xs arbitrary: sl ys)
  case Nil
  then show ?case by (cases ys) auto
next
  case (Cons x xs)
  then show ?case by (cases ys) auto
qed

lemma pos_middle: "distinct (xs @ t # ys) \<Longrightarrow> pos t (xs @ t # zs) = length xs"
  by (induction xs) (auto simp: pos_def)

section \<open>A small run\<close>

text \<open>
  A concrete program: a loop, two activated tasks and a third one waiting on a queue; then the loop
  is entered and calls the first task.
\<close>

definition demo_init :: tx_mem where
  "demo_init =
     tx_task_init (Task 2) (NewLoop 0) (UserCall 2) VNull
       (tx_task_init (Task 1) (NewLoop 0) (UserCall 1) VNull
         (tx_task_init (Task 0) (NewLoop 0) (UserCall 0) VNull
           (on_tq (LIST_INIT (UserQ 0)) (snd (tx_loop_new (Some (NewLoop 0)) zero_mem)))))"

definition demo_queued :: tx_mem where
  "demo_queued = tx_task_record (UserQ 0) (Task 2)
     (tx_task_active (Some (Task 1)) VNull (tx_task_active (Some (Task 0)) VNull demo_init))"

definition demo_entered :: tx_mem where
  "demo_entered = on_tq (LIST_INSERT_BEFORE (Tailer (NewLoop 0)) (Phony (NewLoop 0))) demo_queued"

definition demo_called :: tx_mem where
  "demo_called = loop_take (NewLoop 0) (Task 0) (on_tq (LIST_REMOVE (Task 0)) demo_entered)"

abbreviation demo_tasks :: "task_p set" where
  "demo_tasks \<equiv> {Task 2, Task 1, Task 0}"

abbreviation demo_heads :: "taskq_p set" where
  "demo_heads \<equiv> {UserQ 0, LoopQ (NewLoop 0)}"

lemma reach_client: "reach (T, U, M, s) \<Longrightarrow> client_step (T, U, s) (T', U', s') \<Longrightarrow> reach (T', U', M, s')"
  by (blast intro: reach.reach_step sys_client)

lemma reach_demo_init: "reach (demo_tasks, demo_heads, {}, demo_init)"
  unfolding demo_init_def
  by (intro reach_client [OF _ client_task_init] reach_client [OF _ client_taskq_init]
      reach_client [OF _ client_loop_new] reach.reach_boot) simp_all

lemma reach_demo_queued: "reach (demo_tasks, demo_heads, {}, demo_queued)"
  unfolding demo_queued_def
  by (intro reach_client [OF _ client_api [OF api_record]] reach_client [OF _ client_api [OF api_active]]
      reach_demo_init) simp_all

lemma reach_demo_entered: "reach (demo_tasks, demo_heads, {NewLoop 0}, demo_entered)"
  unfolding demo_entered_def
  by (rule reach.reach_step [OF reach_demo_queued sys_loop [OF loop_enter]]) simp_all

lemma demo_call_step:
  "sys_step (Call (NewLoop 0) (Task 0)) (demo_tasks, demo_heads, {NewLoop 0}, demo_entered)
     (demo_tasks, demo_heads, {NewLoop 0}, demo_called)"
proof -
  have "lh_first (tq demo_entered) (LoopQ (NewLoop 0)) = Some (Task 0)" by code_simp
  then show ?thesis unfolding demo_called_def by (intro sys_loop loop_call) simp_all
qed

lemma demo_reads:
  "busy demo_entered (Task 1)" "busy demo_called (Task 1)"
  "loop_of demo_entered (Task 1) = NewLoop 0" "pending demo_queued (Task 2)"
  "lseg (tq demo_entered) (First (LoopQ (NewLoop 0)))
     [Task 0, Task 1, Phony (NewLoop 0), Tailer (NewLoop 0)] None"
  "lseg (tq demo_queued) (First (UserQ 0)) [Task 2] None"
  "\<not> stopped demo_queued (NewLoop 0)"
  by code_simp+

section \<open>What holds in every reachable state\<close>

text \<open>C1. A poller never sleeps while a task of its loop is runnable: whenever a task was activated and
  not called or dropped since, \<open>tx_loop_timeout\<close> of its loop returns 0, in every state the loops, the
  callbacks and the code around them can reach.\<close>
theorem no_sleep_while_runnable:
  assumes "reach (T, U, M, s)" and "t \<in> T" and "busy s t"
  shows "tx_loop_timeout (loop_of s t) verify s = 0"
proof -
  obtain Q where inv: "loop_inv T U M s Q" by (rule reach_inv [OF assms(1)])
  obtain xs where xs: "runq Q (loop_of s t) xs" "t \<in> set xs" by (rule busy_queued [OF inv assms(2,3)])
  have "t \<in> set (busy_in T s xs)" using xs(2) assms by (simp add: busy_in_def)
  then have "busy_in T s xs \<noteq> []" "0 < int (length (busy_in T s xs))" by (auto simp: length_pos_if_in_set)
  with loop_inv_accD(1,2) [OF inv xs(1)]
  have "has (tx_busy (loops s (loop_of s t))) 3" "0 < tx_actives (loops s (loop_of s t))" by linarith+
  then show ?thesis by (simp add: tx_loop_timeout_def Let_def)
qed

lemma no_sleep_while_runnable_witness: "tx_loop_timeout (NewLoop 0) VNull demo_entered = 0"
  using no_sleep_while_runnable [OF reach_demo_entered _ demo_reads(1), of VNull]
  unfolding demo_reads(3) by simp

text \<open>C2. The queue is fair. From a reachable state where a runnable task \<open>t\<close> has the tasks \<open>xs\<close> ahead
  of it in its loop's queue, however the loops, callbacks and clients continue, as long as \<open>t\<close> has not
  been called or dropped its loop takes at most \<open>length xs\<close> further tasks (the phony task included) off
  the queue.\<close>
theorem runnable_task_waits_bounded:
  assumes "reach (T, U, M, s)" and "t \<in> T" and "busy s t"
    and "lseg (tq s) (First (LoopQ (loop_of s t))) (xs @ t # ys) None"
    and "busy_run t (T, U, M, s) ls c"
  shows "sum_list (map (popped (loop_of s t)) ls) \<le> length xs"
proof -
  obtain Q where inv: "loop_inv T U M s Q" by (rule reach_inv [OF assms(1)])
  obtain zs where zs: "runq Q (loop_of s t) zs" "t \<in> set zs" by (rule busy_queued [OF inv assms(2,3)])
  have seg: "lseg (tq s) (First (LoopQ (loop_of s t))) (zs @ [Tailer (loop_of s t)]) None"
    and dist: "distinct (zs @ [Tailer (loop_of s t)])"
    using loop_invD(1) [OF inv] zs(1) tq.distinct_list [OF loop_invD(1) [OF inv] zs(1) [unfolded runq_def]]
    by (simp_all add: list_rep_def runq_def)
  have eq: "xs @ t # ys = zs @ [Tailer (loop_of s t)]" by (rule lseg_same [OF assms(4) seg])
  have "t \<noteq> Tailer (loop_of s t)" using loop_invD(7) [OF inv assms(2)] by (metis ordinary.simps(1))
  with eq have "\<exists>us. zs = xs @ t # us" by (metis append_butlast_last_id butlast_append butlast_snoc
        last_ConsL last_appendR last_snoc list.distinct(1) butlast.simps(2))
  then obtain us where "zs = xs @ t # us" by blast
  then have "pos t zs = length xs" using dist by (simp add: pos_middle [of _ _ us])
  then show ?thesis using busy_run_pops [OF assms(5) inv assms(2,3) zs(1)] by simp
qed

lemma runnable_task_waits_bounded_witness:
  "sum_list (map (popped (NewLoop 0)) [Call (NewLoop 0) (Task 0)]) \<le> length [Task 0]"
  using runnable_task_waits_bounded [OF reach_demo_entered _ demo_reads(1), of "[Task 0]"
      "[Phony (NewLoop 0), Tailer (NewLoop 0)]",
      OF _ _ busy_cons [OF demo_call_step demo_reads(2) busy_nil]]
  unfolding demo_reads(3) using demo_reads(1,5) by simp

text \<open>C3. The flags of a task and its links agree, in every reachable state: an idle task is neither
  busy nor pending and is on no list; a busy task is on its own loop's queue, once; a pending task is on
  one of the callers' wait queues, once, and not busy. (So a task is never linked into a second list.)\<close>
theorem task_state_matches_links:
  assumes "reach (T, U, M, s)" and "t \<in> T"
  shows "(idle s t \<longrightarrow> \<not> busy s t \<and> \<not> pending s t \<and>
            (\<forall>h xs. h \<in> U \<longrightarrow> lseg (tq s) (First h) xs None \<longrightarrow> t \<notin> set xs)) \<and>
         (busy s t \<longrightarrow> (\<exists>xs. lseg (tq s) (First (LoopQ (loop_of s t))) xs None \<and> count_list xs t = 1)) \<and>
         (pending s t \<longrightarrow> \<not> busy s t \<and>
            (\<exists>n xs. UserQ n \<in> U \<and> lseg (tq s) (First (UserQ n)) xs None \<and> count_list xs t = 1))"
proof -
  obtain Q where inv: "loop_inv T U M s Q" by (rule reach_inv [OF assms(1)])
  note D = loop_invD [OF inv]
  have seg: "lseg (tq s) (First h) xs None" "distinct xs" if "Q h = Some xs" for h xs
    using D(1) tq.distinct_list [OF D(1) that] that by (auto simp: list_rep_def)
  have rep: "Q h = Some xs" if "h \<in> U" "lseg (tq s) (First h) xs None" for h xs
    using that D(6) seg lseg_same by (metis domD)
  have once: "count_list xs t = 1" if "distinct xs" "t \<in> set xs" for xs
    using that by (simp add: count_list_eq_length_filter distinct_length_filter)
  have on: "\<exists>h\<in>U. on_list Q h t" if "\<not> idle s t"
    using D(8) [OF assms(2)] D(6) that by (auto simp: unlinked_on_list on_list_def)
  show ?thesis
  proof (intro conjI impI)
    assume i: "idle s t"
    then show "\<not> busy s t" "\<not> pending s t" using D(9) [OF assms(2)] by auto
    show "\<forall>h xs. h \<in> U \<longrightarrow> lseg (tq s) (First h) xs None \<longrightarrow> t \<notin> set xs"
      using D(8) [OF assms(2)] i rep unfolding unlinked_def by blast
  next
    assume b: "busy s t"
    obtain xs where xs: "runq Q (loop_of s t) xs" "t \<in> set xs" by (rule busy_queued [OF inv assms(2) b])
    then have "Q (LoopQ (loop_of s t)) = Some (xs @ [Tailer (loop_of s t)])" by (simp add: runq_def)
    from seg [OF this] xs(2)
    show "\<exists>xs. lseg (tq s) (First (LoopQ (loop_of s t))) xs None \<and> count_list xs t = 1"
      by (intro exI conjI once) (assumption | simp)+
  next
    assume p: "pending s t"
    then obtain h where h: "h \<in> U" "on_list Q h t" using on D(9) [OF assms(2)] by blast
    have "t \<noteq> Tailer l" "t \<noteq> Phony l" for l using D(7) [OF assms(2)] by auto
    with h(2) p obtain n where n: "h = UserQ n" using D(3) by (cases h) auto
    then show "\<not> busy s t" using D(4) h(2) by blast
    show "\<exists>n xs. UserQ n \<in> U \<and> lseg (tq s) (First (UserQ n)) xs None \<and> count_list xs t = 1"
      using h n seg once unfolding on_list_def by blast
  qed
qed

lemma task_state_matches_links_witness:
  "\<not> busy demo_queued (Task 2) \<and>
   (\<exists>n xs. UserQ n \<in> demo_heads \<and> lseg (tq demo_queued) (First (UserQ n)) xs None \<and> count_list xs (Task 2) = 1)"
  using task_state_matches_links [OF reach_demo_queued, of "Task 2"] demo_reads(4) by simp



text \<open>\<open>tx_loop_delete\<close> frees a loop with tasks queued in it and its check never notices: the queue is
  never empty, since the loop's own tailer is on it. A runnable task of the loop stays linked into the
  list whose head was freed.\<close>
lemma tx_loop_delete_unchecked:
  assumes "reach (T, U, M, s)" and "t \<in> T" and "busy s t" and "loop_of s t \<noteq> DefaultLoop"
  shows "\<exists>s'. tx_loop_delete (loop_of s t) s = (True, s') \<and> loop_freed s' (loop_of s t) \<and>
    (\<exists>xs ys. lseg (tq s') (First (LoopQ (loop_of s t))) (xs @ t # ys) None)"
proof -
  obtain Q where inv: "loop_inv T U M s Q" by (rule reach_inv [OF assms(1)])
  note D = loop_invD [OF inv]
  have "\<not> unlinked Q t" using D(8,9) [OF assms(2)] assms(3) by blast
  then obtain h where h: "on_list Q h t" by (auto simp: unlinked_on_list)
  have "h = LoopQ (loop_of s t)"
  proof (cases h)
    case (LoopQ up)
    then show ?thesis using D(3) [of up t] h D(7) [OF assms(2)] by auto
  next
    case (UserQ n)
    then show ?thesis using D(4) [of n t] h assms(3) by simp
  qed
  then obtain xs ys where "Q (LoopQ (loop_of s t)) = Some (xs @ t # ys)"
    using h by (auto simp: on_list_def in_set_conv_decomp)
  then have l: "lseg (tq s) (First (LoopQ (loop_of s t))) (xs @ t # ys) None" using D(1) by (simp add: list_rep_def)
  then have "lh_first (tq s) (LoopQ (loop_of s t)) \<noteq> None" by (cases xs) auto
  then show ?thesis using l assms(4) by (auto simp: tx_loop_delete_def)
qed

lemma tx_loop_delete_unchecked_witness:
  "\<exists>s'. tx_loop_delete (NewLoop 0) demo_entered = (True, s') \<and> loop_freed s' (NewLoop 0) \<and>
    (\<exists>xs ys. lseg (tq s') (First (LoopQ (NewLoop 0))) (xs @ Task 1 # ys) None)"
  using tx_loop_delete_unchecked [OF reach_demo_entered _ demo_reads(1)] unfolding demo_reads(3) by simp

end
