(* ===== verification/TxFilp.thy ===== *)
theory TxFilp
  imports TxMachine
begin

text \<open>
  The I/O control block \<open>tx_aiocb\<close>: its flags, the operations of \<open>tx_aiocb.cpp\<close> that do not go
  through a poller, and the table \<open>tx_poll_op\<close> through which the others do. The result of a system
  call is an argument \<open>k\<close>: the value returned, and \<open>errno\<close> (on Windows, \<open>WSAGetLastError()\<close>).
\<close>

type_synonym kres = "int \<times> int"

definition TX_LISTEN :: u32 where [flag_defs]: "TX_LISTEN = 0x01"
definition TX_POLLIN :: u32 where [flag_defs]: "TX_POLLIN = 0x02"
definition TX_POLLOUT :: u32 where [flag_defs]: "TX_POLLOUT = 0x04"
definition TX_READABLE :: u32 where [flag_defs]: "TX_READABLE = 0x08"
definition TX_WRITABLE :: u32 where [flag_defs]: "TX_WRITABLE = 0x10"
definition TX_ATTACHED :: u32 where [flag_defs]: "TX_ATTACHED = 0x20"
definition TX_DETACHED :: u32 where [flag_defs]: "TX_DETACHED = 0x40"
definition TX_MEMLOCK :: u32 where [flag_defs]: "TX_MEMLOCK = 0x80"

definition EAGAIN :: int where "EAGAIN = 11"
definition EPERM :: int where "EPERM = 1"
definition EINTR :: int where "EINTR = 4"
definition EINPROGRESS :: int where "EINPROGRESS = 115"

section \<open>Flag tests\<close>

lemma flag_powers:
  "TX_LISTEN = 2 ^ 0" "TX_POLLIN = 2 ^ 1" "TX_POLLOUT = 2 ^ 2" "TX_READABLE = 2 ^ 3"
  "TX_WRITABLE = 2 ^ 4" "TX_ATTACHED = 2 ^ 5" "TX_DETACHED = 2 ^ 6" "TX_MEMLOCK = 2 ^ 7"
  by (simp_all add: flag_defs)

lemma has_pow: "i < 32 \<Longrightarrow> has f (2 ^ i) \<longleftrightarrow> bit f i"
  by (simp add: has_def single_bit)

text \<open>A flag is one bit.\<close>

lemma has_flag_bit:
  "has f TX_LISTEN = bit f 0" "has f TX_POLLIN = bit f 1" "has f TX_POLLOUT = bit f 2"
  "has f TX_READABLE = bit f 3" "has f TX_WRITABLE = bit f 4" "has f TX_ATTACHED = bit f 5"
  "has f TX_DETACHED = bit f 6" "has f TX_MEMLOCK = bit f 7"
  unfolding flag_powers by (rule has_pow; simp)+

lemma bit_2n_iff: "bit (2 ^ i :: u32) n \<longleftrightarrow> n = i \<and> i < 32"
  by (auto simp: bit_exp_iff)

lemma flag_bit [simp]:
  "bit TX_LISTEN n \<longleftrightarrow> n = 0" "bit TX_POLLIN n \<longleftrightarrow> n = 1" "bit TX_POLLOUT n \<longleftrightarrow> n = 2"
  "bit TX_READABLE n \<longleftrightarrow> n = 3" "bit TX_WRITABLE n \<longleftrightarrow> n = 4" "bit TX_ATTACHED n \<longleftrightarrow> n = 5"
  "bit TX_DETACHED n \<longleftrightarrow> n = 6" "bit TX_MEMLOCK n \<longleftrightarrow> n = 7"
  unfolding flag_powers by (simp_all only: bit_2n_iff) auto

text \<open>Every flag against every other, set and cleared.\<close>

lemma filp_flag_tests [flags]:
  "has (f AND g) TX_LISTEN \<longleftrightarrow> has f TX_LISTEN \<and> has g TX_LISTEN" "has (NOT f) TX_LISTEN \<longleftrightarrow> \<not> has f TX_LISTEN"
  "has (f AND g) TX_POLLIN \<longleftrightarrow> has f TX_POLLIN \<and> has g TX_POLLIN" "has (NOT f) TX_POLLIN \<longleftrightarrow> \<not> has f TX_POLLIN"
  "has (f AND g) TX_POLLOUT \<longleftrightarrow> has f TX_POLLOUT \<and> has g TX_POLLOUT" "has (NOT f) TX_POLLOUT \<longleftrightarrow> \<not> has f TX_POLLOUT"
  "has (f AND g) TX_READABLE \<longleftrightarrow> has f TX_READABLE \<and> has g TX_READABLE" "has (NOT f) TX_READABLE \<longleftrightarrow> \<not> has f TX_READABLE"
  "has (f AND g) TX_WRITABLE \<longleftrightarrow> has f TX_WRITABLE \<and> has g TX_WRITABLE" "has (NOT f) TX_WRITABLE \<longleftrightarrow> \<not> has f TX_WRITABLE"
  "has (f AND g) TX_ATTACHED \<longleftrightarrow> has f TX_ATTACHED \<and> has g TX_ATTACHED" "has (NOT f) TX_ATTACHED \<longleftrightarrow> \<not> has f TX_ATTACHED"
  "has (f AND g) TX_DETACHED \<longleftrightarrow> has f TX_DETACHED \<and> has g TX_DETACHED" "has (NOT f) TX_DETACHED \<longleftrightarrow> \<not> has f TX_DETACHED"
  unfolding has_flag_bit by (auto simp: bit_simps)

lemma filp_flag_consts [flags]:
  "has TX_LISTEN m = bit m 0" "has TX_POLLIN m = bit m 1" "has TX_POLLOUT m = bit m 2"
  "has TX_READABLE m = bit m 3" "has TX_WRITABLE m = bit m 4" "has TX_ATTACHED m = bit m 5"
  "has TX_DETACHED m = bit m 6"
  unfolding has_flag_bit(1-7) [symmetric] by (simp_all add: has_def and.commute)

lemma has_and_split: "has (f AND (m OR k)) j \<longleftrightarrow> has (f AND m) j \<or> has (f AND k) j"
proof -
  have "f AND (m OR k) = (f AND m) OR (f AND k)" by (rule bit.conj_disj_distrib)
  then show ?thesis by (simp add: has_or)
qed

text \<open>\<open>(flags & (TX_ATTACHED|TX_DETACHED)) == TX_ATTACHED\<close>.\<close>

lemma attached_mask [flags]:
  "f AND (TX_ATTACHED OR TX_DETACHED) = TX_ATTACHED \<longleftrightarrow> has f TX_ATTACHED \<and> \<not> has f TX_DETACHED"
  "f AND (TX_ATTACHED OR TX_DETACHED) = 0 \<longleftrightarrow> \<not> has f TX_ATTACHED \<and> \<not> has f TX_DETACHED"
  "f AND (TX_ATTACHED OR TX_DETACHED) = TX_ATTACHED OR TX_DETACHED \<longleftrightarrow>
     has f TX_ATTACHED \<and> has f TX_DETACHED"
proof -
  have w: "f AND (TX_ATTACHED OR TX_DETACHED) = g \<longleftrightarrow>
    (bit g 5 \<longleftrightarrow> bit f 5) \<and> (bit g 6 \<longleftrightarrow> bit f 6)"
    if "\<And>n. bit g n \<Longrightarrow> n = 5 \<or> n = 6" for g
  proof
    show "f AND (TX_ATTACHED OR TX_DETACHED) = g \<Longrightarrow> (bit g 5 \<longleftrightarrow> bit f 5) \<and> (bit g 6 \<longleftrightarrow> bit f 6)"
      by (auto simp: bit_and_iff bit_or_iff)
    show "(bit g 5 \<longleftrightarrow> bit f 5) \<and> (bit g 6 \<longleftrightarrow> bit f 6) \<Longrightarrow> f AND (TX_ATTACHED OR TX_DETACHED) = g"
      using that by (intro bit_word_eqI) (auto simp: bit_and_iff bit_or_iff)
  qed
  show "f AND (TX_ATTACHED OR TX_DETACHED) = TX_ATTACHED \<longleftrightarrow> has f TX_ATTACHED \<and> \<not> has f TX_DETACHED"
    by (subst w) (auto simp: has_flag_bit)
  show "f AND (TX_ATTACHED OR TX_DETACHED) = 0 \<longleftrightarrow> \<not> has f TX_ATTACHED \<and> \<not> has f TX_DETACHED"
    by (subst w) (auto simp: has_flag_bit)
  show "f AND (TX_ATTACHED OR TX_DETACHED) = TX_ATTACHED OR TX_DETACHED \<longleftrightarrow>
     has f TX_ATTACHED \<and> has f TX_DETACHED"
    by (subst w) (auto simp: has_flag_bit bit_or_iff)
qed

lemma or_flag_idem: "has f (2 ^ i) \<Longrightarrow> i < 32 \<Longrightarrow> f OR (2 ^ i) = f"
  by (intro bit_word_eqI) (auto simp: bit_or_iff bit_2n_iff has_pow)

lemma or_and_same: "f OR (f AND m) = (f :: u32)"
  by (rule bit_word_eqI) (auto simp: bit_simps)

section \<open>The poller's table\<close>

text \<open>
  \<open>struct tx_poll_op\<close>, the functions a poller provides. A null pointer is \<open>None\<close>. The buffers are
  byte lists; of a socket address only its length is used.
\<close>

type_synonym bytes = "8 word list"

record tx_poll_op =
  tx_sendout :: "(aiocb_p \<Rightarrow> bytes \<Rightarrow> (nat \<Rightarrow> kres) \<Rightarrow> tx_mem \<Rightarrow> (int \<times> tx_mem) res) option"
  tx_connect :: "(aiocb_p \<Rightarrow> (nat \<Rightarrow> kres) \<Rightarrow> tx_mem \<Rightarrow> (int \<times> tx_mem) res) option"
  tx_accept :: "(aiocb_p \<Rightarrow> tx_mem \<Rightarrow> (int \<times> tx_mem) res) option"
  tx_pollout :: "aiocb_p \<Rightarrow> (nat \<Rightarrow> kres) \<Rightarrow> tx_mem \<Rightarrow> tx_mem res"
  tx_attach :: "aiocb_p \<Rightarrow> (nat \<Rightarrow> kres) \<Rightarrow> tx_mem \<Rightarrow> tx_mem res"
  tx_pollin :: "aiocb_p \<Rightarrow> (nat \<Rightarrow> kres) \<Rightarrow> tx_mem \<Rightarrow> tx_mem res"
  tx_detach :: "aiocb_p \<Rightarrow> (nat \<Rightarrow> kres) \<Rightarrow> tx_mem \<Rightarrow> tx_mem res"

abbreviation filp :: "tx_mem \<Rightarrow> aiocb_p \<Rightarrow> tx_aiocb" where
  "filp s a \<equiv> aiocbs (io s) a"

abbreviation fl :: "tx_mem \<Rightarrow> aiocb_p \<Rightarrow> u32" where
  "fl s a \<equiv> filp_flags (filp s a)"

abbreviation ops_of :: "tx_mem \<Rightarrow> aiocb_p \<Rightarrow> ops_p" where
  "ops_of s a \<equiv> poll_ops (io s) (filp_poll (filp s a))"

definition set_flags :: "aiocb_p \<Rightarrow> u32 \<Rightarrow> tx_mem \<Rightarrow> tx_mem" where
  "set_flags a m = upd_filp a (\<lambda>f. f\<lparr>filp_flags := filp_flags f OR m\<rparr>)"

definition clear_flags :: "aiocb_p \<Rightarrow> u32 \<Rightarrow> tx_mem \<Rightarrow> tx_mem" where
  "clear_flags a m = upd_filp a (\<lambda>f. f\<lparr>filp_flags := filp_flags f AND NOT m\<rparr>)"

definition clear_in :: "aiocb_p \<Rightarrow> tx_mem \<Rightarrow> tx_mem" where
  "clear_in a = upd_filp a (\<lambda>f. f\<lparr>tx_filterin := None\<rparr>)"

definition clear_out :: "aiocb_p \<Rightarrow> tx_mem \<Rightarrow> tx_mem" where
  "clear_out a = upd_filp a (\<lambda>f. f\<lparr>tx_filterout := None\<rparr>)"

lemmas filp_defs = set_flags_def clear_flags_def clear_in_def clear_out_def

section \<open>Operations on the block alone\<close>

definition tx_readable :: "tx_mem \<Rightarrow> aiocb_p \<Rightarrow> bool" where
  "tx_readable s a \<longleftrightarrow> has (fl s a) TX_READABLE"

definition tx_writable :: "tx_mem \<Rightarrow> aiocb_p \<Rightarrow> bool" where
  "tx_writable s a \<longleftrightarrow> has (fl s a) TX_WRITABLE"

text \<open>\<open>len\<close> is the result of the system call, \<open>errno\<close> its error.\<close>

definition tx_aincb_update :: "aiocb_p \<Rightarrow> kres \<Rightarrow> tx_mem \<Rightarrow> tx_mem" where
  "tx_aincb_update a k s =
     (if fst k \<ge> 0 then s
      else if snd k = EAGAIN then clear_flags a TX_READABLE s
      else s)"

definition tx_outcb_update :: "aiocb_p \<Rightarrow> kres \<Rightarrow> tx_mem \<Rightarrow> tx_mem" where
  "tx_outcb_update a k s =
     (if fst k \<ge> 0 then s
      else if snd k = EAGAIN then clear_flags a TX_WRITABLE s
      else s)"

fun task_void :: "task_p option \<Rightarrow> void_p" where
  "task_void None = VNull"
| "task_void (Some t) = VTask t"

definition generic_cancel_in :: "aiocb_p \<Rightarrow> void_p \<Rightarrow> tx_mem \<Rightarrow> tx_mem" where
  "generic_cancel_in a verify s =
     (if verify = task_void (tx_filterin (filp s a)) then clear_in a s else s)"

definition generic_cancel_out :: "aiocb_p \<Rightarrow> void_p \<Rightarrow> tx_mem \<Rightarrow> tx_mem" where
  "generic_cancel_out a verify s =
     (if verify = task_void (tx_filterout (filp s a)) then clear_out a s else s)"

section \<open>Runs of library calls\<close>

abbreviation api_run :: "task_p set \<Rightarrow> taskq_p set \<Rightarrow> tx_mem \<Rightarrow> tx_mem \<Rightarrow> bool" where
  "api_run T U \<equiv> (api_step T U)\<^sup>*\<^sup>*"

lemma task_frame_io [simp]: "task_frame s (upd_io f s)"
  by (simp add: task_frame_def upd_io_def)

lemma upd_io_reads [simp]:
  "tasks (upd_io f s) = tasks s" "tq (upd_io f s) = tq s" "loops (upd_io f s) = loops s"
  "io (upd_io f s) = f (io s)" "timers (upd_io f s) = timers s" "rings (upd_io f s) = rings s"
  "mq (upd_io f s) = mq s" "tx_ticks (upd_io f s) = tx_ticks s" "ring_live (upd_io f s) = ring_live s"
  "stacks (upd_io f s) = stacks s"
  by (simp_all add: upd_io_def)

lemma api_run_io: "api_run T U s s' \<Longrightarrow> api_run T U s (upd_io f s')"
  by (erule rtranclp.rtrancl_into_rtrancl) (simp add: api_other)

text \<open>Every update of the I/O half is such a run.\<close>

lemma api_run_filp:
  assumes "api_run T U s s'"
  shows "api_run T U s (set_flags a m s')" "api_run T U s (clear_flags a m s')"
    "api_run T U s (clear_in a s')" "api_run T U s (clear_out a s')" "api_run T U s (upd_filp a f s')"
    "api_run T U s (upd_epoll e g s')" "api_run T U s (upd_kqueue q h s')" "api_run T U s (upd_ovl v j s')"
    "api_run T U s (on_pq l s')" "api_run T U s (log_kcall c s')"
  unfolding filp_defs upd_filp_def upd_epoll_def upd_kqueue_def upd_ovl_def on_pq_def log_kcall_def
  by (rule api_run_io [OF assms])+

lemma api_run_active: "api_run T U s s' \<Longrightarrow> (\<forall>t. w = Some t \<longrightarrow> t \<in> T) \<Longrightarrow> api_run T U s (tx_task_active w r s')"
  by (cases w) (auto intro: rtranclp.rtrancl_into_rtrancl api_active)

lemma api_run_poll_active: "api_run T U s s' \<Longrightarrow> PollTask p \<in> T \<Longrightarrow> api_run T U s (tx_poll_active p s')"
  by (auto intro: rtranclp.rtrancl_into_rtrancl api_poll_active)

lemma api_run_holder: "api_run T U s s' \<Longrightarrow> api_run T U s (upd_loop up (\<lambda>l. l\<lparr>tx_holder := h\<rparr>) s')"
  by (erule rtranclp.rtrancl_into_rtrancl, rule api_other) (simp add: task_frame_def upd_loop_def)

lemma api_run_client: "api_run T U s s' \<Longrightarrow> client_run (T, U, s) (T, U, s')"
proof (induction rule: rtranclp_induct)
  case (step y z)
  then show ?case by (auto intro: rtranclp.rtrancl_into_rtrancl client_api)
qed simp

text \<open>What a poller does to the tasks when descriptors become ready: it only wakes the waiters \<open>W\<close>.\<close>

definition wakes :: "task_p set \<Rightarrow> tx_mem \<Rightarrow> tx_mem \<Rightarrow> bool" where
  "wakes W s s' \<longleftrightarrow> (\<forall>t. loop_of s' t = loop_of s t) \<and>
     (\<forall>up. tx_holder (loops s' up) = tx_holder (loops s up) \<and> tx_stop (loops s' up) = tx_stop (loops s up) \<and>
        tx_break (loops s' up) = tx_break (loops s up)) \<and>
     (\<forall>t. busy s t \<longrightarrow> busy s' t) \<and> (\<forall>t\<in>W. stopped s (loop_of s t) \<or> busy s' t) \<and>
     timers s' = timers s \<and> rings s' = rings s \<and> mq s' = mq s \<and> tx_ticks s' = tx_ticks s \<and>
     ring_live s' = ring_live s \<and> stacks s' = stacks s"

lemma wakes_refl [simp]: "wakes {} s s"
  by (simp add: wakes_def)

lemma wakes_trans: "wakes V s s' \<Longrightarrow> wakes W s' s'' \<Longrightarrow> wakes (V \<union> W) s s''"
  by (auto simp: wakes_def stopped_def)

lemma wakes_upd_io: "wakes W s s' \<Longrightarrow> wakes W s (upd_io f s')"
  by (simp add: wakes_def busy_def)

lemma wakes_from_io: "wakes W (upd_io f s) s' \<Longrightarrow> wakes W s s'"
  by (simp add: wakes_def busy_def stopped_def)

lemma wakes_active: "wakes W s s' \<Longrightarrow> wakes (set_option w \<union> W) s (tx_task_active w r s')"
  using active_busy(1) [of s' _ w r] active_busy(2) [of s' _ r]
  by (cases w) (auto simp: wakes_def stopped_def)

lemma wakes_mono: "wakes W s s' \<Longrightarrow> V \<subseteq> W \<Longrightarrow> wakes V s s'"
  by (auto simp: wakes_def)

lemmas filp_upds = filp_defs upd_filp_def upd_epoll_def log_kcall_def

text \<open>\<open>container_of(np, tx_poll_t, tx_task)\<close>, which is only computed of the tasks of pollers.\<close>

fun poll_container_of :: "task_p \<Rightarrow> poll_p option" where
  "poll_container_of (PollTask p) = Some p"
| "poll_container_of _ = None"

section \<open>Waiting for a descriptor\<close>

text \<open>
  \<open>tab\<close> is where a poller's \<open>tx_ops\<close> pointer points; a null pointer has no table. Setting the waiter
  comes before the test of the armed flag, as in the code.
\<close>

definition generic_active_in ::
    "(ops_p \<Rightarrow> tx_poll_op option) \<Rightarrow> aiocb_p \<Rightarrow> task_p \<Rightarrow> (nat \<Rightarrow> kres) \<Rightarrow> tx_mem \<Rightarrow> tx_mem res" where
  "generic_active_in tab a task k s =
     (if tx_readable s a then Inr (tx_task_active (Some task) (VAiocb a) s)
      else
        let s1 = (if tx_filterin (filp s a) \<noteq> Some task
                  then upd_filp a (\<lambda>f. f\<lparr>tx_filterin := Some task\<rparr>) s else s) in
        if has (fl s1 a) TX_POLLIN then Inr s1
        else (case tab (ops_of s1 a) of None \<Rightarrow> Inl NullDeref | Some ops \<Rightarrow> tx_pollin ops a k s1))"

definition generic_active_out ::
    "(ops_p \<Rightarrow> tx_poll_op option) \<Rightarrow> aiocb_p \<Rightarrow> task_p \<Rightarrow> (nat \<Rightarrow> kres) \<Rightarrow> tx_mem \<Rightarrow> tx_mem res" where
  "generic_active_out tab a task k s =
     (if tx_writable s a then Inr (tx_task_active (Some task) (VAiocb a) s)
      else
        let s1 = (if tx_filterout (filp s a) \<noteq> Some task
                  then upd_filp a (\<lambda>f. f\<lparr>tx_filterout := Some task\<rparr>) s else s) in
        if has (fl s1 a) TX_POLLOUT then Inr s1
        else (case tab (ops_of s1 a) of None \<Rightarrow> Inl NullDeref | Some ops \<Rightarrow> tx_pollout ops a k s1))"

definition attached :: "tx_mem \<Rightarrow> aiocb_p \<Rightarrow> bool" where
  "attached s a \<longleftrightarrow> has (fl s a) TX_ATTACHED \<and> \<not> has (fl s a) TX_DETACHED"

definition armed :: "tx_mem \<Rightarrow> aiocb_p \<Rightarrow> bool" where
  "armed s a \<longleftrightarrow> attached s a \<and> has (fl s a) (TX_POLLIN OR TX_POLLOUT)"

abbreviation holder :: "tx_mem \<Rightarrow> poll_p \<Rightarrow> void_p" where
  "holder s p \<equiv> tx_holder (loops s (loop_of s (PollTask p)))"

definition other_fds :: "aiocb_p set \<Rightarrow> aiocb_p \<Rightarrow> tx_mem \<Rightarrow> bool" where
  "other_fds A a s \<longleftrightarrow> (\<forall>b\<in>A. b \<noteq> a \<longrightarrow> attached s b \<longrightarrow> tx_fd (filp s b) \<noteq> tx_fd (filp s a))"

text \<open>Who waits: a task of the system, and only for a descriptor whose readiness is polled for.\<close>

definition waiters :: "task_p set \<Rightarrow> aiocb_p set \<Rightarrow> tx_mem \<Rightarrow> bool" where
  "waiters T A s \<longleftrightarrow> (\<forall>a\<in>A. \<forall>t. tx_filterin (filp s a) = Some t \<or> tx_filterout (filp s a) = Some t \<longrightarrow> t \<in> T)"

definition polled_for :: "aiocb_p set \<Rightarrow> tx_mem \<Rightarrow> bool" where
  "polled_for A s \<longleftrightarrow> (\<forall>a\<in>A. (tx_filterin (filp s a) \<noteq> None \<longrightarrow> has (fl s a) TX_POLLIN) \<and>
     (tx_filterout (filp s a) \<noteq> None \<longrightarrow> has (fl s a) TX_POLLOUT))"

text \<open>What a poller's bookkeeping does not read: the waiters, and the tasks' flags and links.\<close>

definition filp_core :: "tx_aiocb \<Rightarrow> tx_aiocb" where
  "filp_core f = f\<lparr>tx_filterin := None, tx_filterout := None\<rparr>"

definition same_poll :: "tx_mem \<Rightarrow> tx_mem \<Rightarrow> bool" where
  "same_poll s s' \<longleftrightarrow>
     (\<exists>g. io s' = (io s)\<lparr>aiocbs := g\<rparr> \<and> (\<forall>a. filp_core (g a) = filp_core (filp s a))) \<and>
     (\<forall>up. tx_holder (loops s' up) = tx_holder (loops s up)) \<and> (\<forall>t. loop_of s' t = loop_of s t)"

lemma same_poll_active: "same_poll s (tx_task_active w r s)"
proof -
  have "io s = (io s)\<lparr>aiocbs := aiocbs (io s)\<rparr>" by simp
  then show ?thesis unfolding same_poll_def tx_task_active_frame by blast
qed

lemma same_poll_waiter:
  "same_poll s (upd_filp a (\<lambda>f. f\<lparr>tx_filterin := w\<rparr>) s)" "same_poll s (upd_filp a (\<lambda>f. f\<lparr>tx_filterout := w\<rparr>) s)"
  by (auto simp: same_poll_def upd_filp_def filp_core_def)

lemma same_poll_flags: "same_poll s s' \<Longrightarrow> fl s' a = fl s a" "same_poll s s' \<Longrightarrow> ops_of s' a = ops_of s a"
proof -
  assume "same_poll s s'"
  then obtain g where g: "io s' = (io s)\<lparr>aiocbs := g\<rparr>" "filp_core (g a) = filp_core (filp s a)"
    unfolding same_poll_def by blast
  from g(2) have "filp_flags (filp_core (g a)) = fl s a" "filp_poll (filp_core (g a)) = filp_poll (filp s a)"
    by (simp_all add: filp_core_def)
  with g(1) show "fl s' a = fl s a" "ops_of s' a = ops_of s a" by (simp_all add: filp_core_def)
qed

text \<open>
  What only \<open>tx_aiocb_init\<close> and \<open>tx_aiocb_fini\<close> change of a block, and that a block is armed only while
  it is attached.
\<close>

definition same_users :: "tx_mem \<Rightarrow> tx_mem \<Rightarrow> bool" where
  "same_users s s' \<longleftrightarrow> (\<forall>b. tx_fops (filp s' b) = tx_fops (filp s b) \<and> tx_fd (filp s' b) = tx_fd (filp s b) \<and>
     attached s' b = attached s b \<and>
     (has (fl s' b) (TX_POLLIN OR TX_POLLOUT) \<longrightarrow> has (fl s b) (TX_POLLIN OR TX_POLLOUT) \<or> attached s b))"

lemma same_users_refl [simp]: "same_users s s"
  by (simp add: same_users_def)

lemma same_users_trans: "same_users s s' \<Longrightarrow> same_users s' s'' \<Longrightarrow> same_users s s''"
  unfolding same_users_def by metis

lemma card_toggle:
  assumes "finite A" and "a \<in> A" and "\<And>b. b \<in> A \<Longrightarrow> b \<noteq> a \<Longrightarrow> Q b = P b"
  shows "int (card {x\<in>A. Q x}) = int (card {x\<in>A. P x}) + of_bool (Q a) - of_bool (P a)"
proof -
  let ?R = "{x\<in>A. P x \<and> x \<noteq> a}"
  have R: "finite ?R" "a \<notin> ?R" using assms(1) by auto
  have "{x\<in>A. P x} = (if P a then insert a ?R else ?R)" using assms(2) by auto
  moreover have "{x\<in>A. Q x} = (if Q a then insert a ?R else ?R)" using assms(2,3) by auto
  ultimately show ?thesis using R by simp
qed

text \<open>
  The interface of a poller. \<open>ok T A s\<close> is its invariant when the blocks \<open>A\<close> use it and the tasks of
  the system are \<open>T\<close>; \<open>granted\<close> says that a system call succeeded. Asking for readiness is a run of
  library calls, keeps the invariant whether or not the kernel grants it, and, when it does, sets the
  one flag and changes no other block; \<open>alive\<close> rules out the answers on which the process exits.
\<close>

locale poller_in =
  fixes ops :: tx_poll_op and ptr :: ops_p
    and ok :: "task_p set \<Rightarrow> aiocb_p set \<Rightarrow> tx_mem \<Rightarrow> bool"
    and alive :: "(nat \<Rightarrow> kres) \<Rightarrow> bool" and granted :: "(nat \<Rightarrow> kres) \<Rightarrow> bool"
  assumes ok_frame: "ok T A s \<Longrightarrow> same_poll s s' \<Longrightarrow> waiters T A s' \<Longrightarrow> ok T A s'"
    and ok_ops: "ok T A s \<Longrightarrow> a \<in> A \<Longrightarrow> ops_of s a = ptr"
    and ok_waiters: "ok T A s \<Longrightarrow> waiters T A s"
    and pollin: "ok T A s \<Longrightarrow> a \<in> A \<Longrightarrow> attached s a \<Longrightarrow> alive k \<Longrightarrow>
      \<exists>s'. tx_pollin ops a k s = Inr s' \<and> ok T A s' \<and> api_run T U s s' \<and>
        (granted k \<longrightarrow> aiocbs (io s') = (aiocbs (io s))(a := (filp s a)\<lparr>filp_flags := fl s a OR TX_POLLIN\<rparr>))"
begin

lemma active_in:
  assumes tab: "tab ptr = Some ops" and ok: "ok T A s" and a: "a \<in> A" "tx_readable s a \<or> attached s a"
    and t: "t \<in> T" and al: "alive k"
  shows "\<exists>s'. generic_active_in tab a t k s = Inr s' \<and> ok T A s' \<and> api_run T U s s' \<and>
    (tx_readable s a \<longrightarrow> s' = tx_task_active (Some t) (VAiocb a) s) \<and>
    (\<not> tx_readable s a \<longrightarrow> granted k \<longrightarrow>
       aiocbs (io s') = (aiocbs (io s))(a := (filp s a)\<lparr>filp_flags := fl s a OR TX_POLLIN, tx_filterin := Some t\<rparr>))"
proof (cases "tx_readable s a")
  case True
  have "ok T A (tx_task_active (Some t) (VAiocb a) s)"
    by (rule ok_frame [OF ok same_poll_active]) (use ok_waiters [OF ok] in \<open>simp add: waiters_def\<close>)
  moreover have "api_run T U s (tx_task_active (Some t) (VAiocb a) s)"
    by (rule api_run_active) (use t in auto)
  ultimately show ?thesis using True by (auto simp: generic_active_in_def)
next
  case False
  let ?w = "upd_filp a (\<lambda>f. f\<lparr>tx_filterin := Some t\<rparr>) s"
  define s1 where "s1 = (if tx_filterin (filp s a) \<noteq> Some t then ?w else s)"
  have ws: "waiters T A ?w" using ok_waiters [OF ok] t by (auto simp: waiters_def upd_filp_def)
  have ok1: "ok T A s1" using ok ok_frame [OF ok same_poll_waiter(1) ws] by (simp add: s1_def)
  have run1: "api_run T U s s1" by (auto simp: s1_def upd_filp_def intro: api_run_io)
  have s1: "aiocbs (io s1) = (aiocbs (io s))(a := (filp s a)\<lparr>tx_filterin := Some t\<rparr>)"
    by (auto simp: s1_def upd_filp_def fun_eq_iff)
  have at: "attached s1 a" using a False by (simp add: attached_def s1)
  note eq = generic_active_in_def [of tab a t k s] s1_def [symmetric]
  show ?thesis
  proof (cases "has (fl s1 a) TX_POLLIN")
    case True
    then have same: "fl s a OR TX_POLLIN = fl s a"
      unfolding has_flag_bit by (intro bit_word_eqI) (auto simp: bit_or_iff s1)
    have "generic_active_in tab a t k s = Inr s1" using True False by (simp add: eq)
    with ok1 run1 False show ?thesis by (simp add: s1 same)
  next
    case np: False
    obtain s2 where s2: "tx_pollin ops a k s1 = Inr s2" "ok T A s2" "api_run T U s1 s2"
      "granted k \<longrightarrow> aiocbs (io s2) = (aiocbs (io s1))(a := (filp s1 a)\<lparr>filp_flags := fl s1 a OR TX_POLLIN\<rparr>)"
      using pollin [OF ok1 a(1) at al] by blast
    have "generic_active_in tab a t k s = Inr s2"
      using np False s2(1) ok_ops [OF ok1 a(1)] by (simp add: eq tab)
    with s2 run1 False show ?thesis by (auto simp: s1 intro: rtranclp_trans)
  qed
qed

lemma active_in_waits:
  assumes "tab ptr = Some ops" and "ok T A s" and "a \<in> A" "tx_readable s a \<or> attached s a" and "t \<in> T"
    and "alive k" and "granted k" and "polled_for A s"
  shows "\<exists>s'. generic_active_in tab a t k s = Inr s' \<and> ok T A s' \<and> api_run T U s s' \<and> polled_for A s' \<and>
    same_users s s' \<and> (if tx_readable s a then busy s' t \<or> stopped s' (loop_of s' t)
      else aiocbs (io s') = (aiocbs (io s))(a := (filp s a)\<lparr>filp_flags := fl s a OR TX_POLLIN, tx_filterin := Some t\<rparr>))"
proof -
  obtain s' where s': "generic_active_in tab a t k s = Inr s'" "ok T A s'" "api_run T U s s'"
    "tx_readable s a \<longrightarrow> s' = tx_task_active (Some t) (VAiocb a) s"
    "\<not> tx_readable s a \<longrightarrow> granted k \<longrightarrow>
       aiocbs (io s') = (aiocbs (io s))(a := (filp s a)\<lparr>filp_flags := fl s a OR TX_POLLIN, tx_filterin := Some t\<rparr>)"
    using active_in [where tab = tab and a = a and k = k and U = U, OF assms(1-6)] by blast
  show ?thesis
  proof (cases "tx_readable s a")
    case True
    then have "busy s' t \<or> stopped s' (loop_of s' t)"
      using s'(4) active_busy(2) [of s t "VAiocb a"] by (auto simp: stopped_def)
    with True s' assms(8) show ?thesis by (auto simp: polled_for_def same_users_def attached_def)
  next
    case False
    then have "polled_for A s'" "same_users s s'"
      using s'(5) assms(4,7,8) by (auto simp: polled_for_def same_users_def attached_def flags)
    with False s' assms(7) show ?thesis by auto
  qed
qed

end

text \<open>A poller that can also tell when a descriptor is writable.\<close>

locale poller = poller_in +
  assumes pollout: "ok T A s \<Longrightarrow> a \<in> A \<Longrightarrow> attached s a \<Longrightarrow> alive k \<Longrightarrow>
      \<exists>s'. tx_pollout ops a k s = Inr s' \<and> ok T A s' \<and> api_run T U s s' \<and>
        (granted k \<longrightarrow> aiocbs (io s') = (aiocbs (io s))(a := (filp s a)\<lparr>filp_flags := fl s a OR TX_POLLOUT\<rparr>))"
begin

lemma active_out:
  assumes tab: "tab ptr = Some ops" and ok: "ok T A s" and a: "a \<in> A" "tx_writable s a \<or> attached s a"
    and t: "t \<in> T" and al: "alive k" and g: "granted k" and p: "polled_for A s"
  shows "\<exists>s'. generic_active_out tab a t k s = Inr s' \<and> ok T A s' \<and> api_run T U s s' \<and> polled_for A s' \<and>
    same_users s s' \<and> (if tx_writable s a then busy s' t \<or> stopped s' (loop_of s' t)
      else aiocbs (io s') = (aiocbs (io s))(a := (filp s a)\<lparr>filp_flags := fl s a OR TX_POLLOUT, tx_filterout := Some t\<rparr>))"
proof (cases "tx_writable s a")
  case True
  let ?s = "tx_task_active (Some t) (VAiocb a) s"
  have "ok T A ?s"
    by (rule ok_frame [OF ok same_poll_active]) (use ok_waiters [OF ok] in \<open>simp add: waiters_def\<close>)
  moreover have "api_run T U s ?s" by (rule api_run_active) (use t in auto)
  moreover have "busy ?s t \<or> stopped ?s (loop_of ?s t)"
    using active_busy(2) [of s t "VAiocb a"] by (auto simp: stopped_def)
  moreover have "polled_for A ?s" "same_users s ?s" using p by (simp_all add: polled_for_def same_users_def attached_def)
  ultimately show ?thesis using True by (auto simp: generic_active_out_def)
next
  case False
  let ?w = "upd_filp a (\<lambda>f. f\<lparr>tx_filterout := Some t\<rparr>) s"
  define s1 where "s1 = (if tx_filterout (filp s a) \<noteq> Some t then ?w else s)"
  have ws: "waiters T A ?w" using ok_waiters [OF ok] t by (auto simp: waiters_def upd_filp_def)
  have ok1: "ok T A s1" using ok ok_frame [OF ok same_poll_waiter(2) ws] by (simp add: s1_def)
  have run1: "api_run T U s s1" by (auto simp: s1_def upd_filp_def intro: api_run_io)
  have s1: "aiocbs (io s1) = (aiocbs (io s))(a := (filp s a)\<lparr>tx_filterout := Some t\<rparr>)"
    by (auto simp: s1_def upd_filp_def fun_eq_iff)
  have at: "attached s1 a" using a False by (simp add: attached_def s1)
  note eq = generic_active_out_def [of tab a t k s] s1_def [symmetric]
  show ?thesis
  proof (cases "has (fl s1 a) TX_POLLOUT")
    case True
    then have same: "fl s a OR TX_POLLOUT = fl s a"
      unfolding has_flag_bit by (intro bit_word_eqI) (auto simp: bit_or_iff s1)
    have "generic_active_out tab a t k s = Inr s1" using True False by (simp add: eq)
    moreover have "polled_for A s1" "same_users s s1" using p True by (auto simp: polled_for_def s1 same_users_def attached_def)
    ultimately show ?thesis using ok1 run1 False by (simp add: s1 same)
  next
    case np: False
    obtain s2 where s2: "tx_pollout ops a k s1 = Inr s2" "ok T A s2" "api_run T U s1 s2"
      "granted k \<longrightarrow> aiocbs (io s2) = (aiocbs (io s1))(a := (filp s1 a)\<lparr>filp_flags := fl s1 a OR TX_POLLOUT\<rparr>)"
      using pollout [OF ok1 a(1) at al] by blast
    have "generic_active_out tab a t k s = Inr s2"
      using np False s2(1) ok_ops [OF ok1 a(1)] by (simp add: eq tab)
    moreover have "polled_for A s2" "same_users s s2"
      using p s2(4) g a(2) False by (auto simp: polled_for_def same_users_def attached_def s1 flags)
    ultimately show ?thesis using s2 g run1 False by (auto simp: s1 intro: rtranclp_trans)
  qed
qed

end

end
