(* ===== verification/TxEpoll.thy ===== *)
theory TxEpoll
  imports TxFilp
begin

text \<open>
  The Linux poller, \<open>tx_epoll.cpp\<close>. The kernel's half is an argument of every operation: the result of
  \<open>epoll_ctl\<close>, and what \<open>epoll_wait\<close> returns. A successful \<open>epoll_ctl\<close> is recorded in the memory, and
  \<open>epoll_interest\<close> reads off the record what the kernel was asked to report for a descriptor.
\<close>

section \<open>The kernel's constants and requests\<close>

definition EPOLLIN :: u32 where [flag_defs]: "EPOLLIN = 0x001"
definition EPOLLOUT :: u32 where [flag_defs]: "EPOLLOUT = 0x004"
definition EPOLLERR :: u32 where [flag_defs]: "EPOLLERR = 0x008"
definition EPOLLHUP :: u32 where [flag_defs]: "EPOLLHUP = 0x010"
definition EPOLLONESHOT :: u32 where [flag_defs]: "EPOLLONESHOT = 0x40000000"

text \<open>\<open>epoll_ctl\<close>: the value it returns, and the memory, in which it is recorded when it succeeded.\<close>

definition epoll_ctl :: "kcall \<Rightarrow> kres \<Rightarrow> tx_mem \<Rightarrow> int \<times> tx_mem" where
  "epoll_ctl c k s = (fst k, if fst k = 0 then log_kcall c s else s)"

section \<open>Operations\<close>

text \<open>The last block of \<open>tx_epoll_pollin\<close> and \<open>tx_epoll_pollout\<close>.\<close>

definition epoll_hold :: "epoll_p \<Rightarrow> tx_mem \<Rightarrow> tx_mem" where
  "epoll_hold e s =
     (if epoll_refcnt (epolls (io s) e) > 0 then
        let loop = tx_loop_get (PollTask (EpollTask e)) s in
        if tx_holder (loops s loop) = VNull
        then upd_loop loop (\<lambda>l. l\<lparr>tx_holder := VEpoll e\<rparr>) s else s
      else s)"

text \<open>
  \<open>container_of(filp->tx_poll, tx_epoll_t, epoll_task)\<close> is the match on \<open>EpollTask\<close>: the assertion before
  it rules out the polls of other pollers, whose \<open>tx_ops\<close> differ.
\<close>

definition tx_epoll_pollout :: "aiocb_p \<Rightarrow> (nat \<Rightarrow> kres) \<Rightarrow> tx_mem \<Rightarrow> tx_mem res" where
  "tx_epoll_pollout a k s =
     (case filp_poll (filp s a) of
        EpollTask e \<Rightarrow>
          if ops_of s a \<noteq> EpollOps then Inl AssertFail
          else if \<not> has (fl s a) TX_POLLOUT then
            if fl s a AND (TX_ATTACHED OR TX_DETACHED) \<noteq> TX_ATTACHED then Inl AssertFail
            else
              let tflag = has (fl s a) TX_POLLIN;
                  events = (if tflag then EPOLLIN else 0) OR EPOLLOUT OR EPOLLONESHOT;
                  (error, s1) = epoll_ctl (EpollMod e (tx_fd (filp s a)) events a) (k 0) s;
                  s2 = upd_epoll e (\<lambda>p. p\<lparr>epoll_refcnt := epoll_refcnt p + of_bool (error = 0 \<and> \<not> tflag)\<rparr>) s1;
                  s3 = set_flags a (if error = 0 then TX_POLLOUT else 0) s2
              in Inr (epoll_hold e s3)
          else Inr (epoll_hold e s)
      | _ \<Rightarrow> Inl AssertFail)"

definition tx_epoll_attach :: "aiocb_p \<Rightarrow> (nat \<Rightarrow> kres) \<Rightarrow> tx_mem \<Rightarrow> tx_mem res" where
  "tx_epoll_attach a k s =
     (case filp_poll (filp s a) of
        EpollTask e \<Rightarrow>
          if ops_of s a \<noteq> EpollOps then Inl AssertFail
          else
            let flags = TX_ATTACHED OR TX_DETACHED; tflag = fl s a AND flags in
            if tflag = 0 \<or> tflag = flags then
              let (error, s1) = epoll_ctl (EpollAdd e (tx_fd (filp s a)) 0 a) (k 0) s;
                  s2 = clear_flags a (if error = 0 then TX_DETACHED else 0) s1;
                  s3 = set_flags a (if error = 0 then TX_ATTACHED else 0) s2
              in if error = -1 \<and> snd (k 0) = EPERM
                 then Inr (set_flags a TX_READABLE (set_flags a TX_WRITABLE s3))
                 else Inr s3
            else Inr s
      | _ \<Rightarrow> Inl AssertFail)"

definition tx_epoll_pollin :: "aiocb_p \<Rightarrow> (nat \<Rightarrow> kres) \<Rightarrow> tx_mem \<Rightarrow> tx_mem res" where
  "tx_epoll_pollin a k s =
     (case filp_poll (filp s a) of
        EpollTask e \<Rightarrow>
          if ops_of s a \<noteq> EpollOps then Inl AssertFail
          else if \<not> has (fl s a) TX_POLLIN then
            if fl s a AND (TX_ATTACHED OR TX_DETACHED) \<noteq> TX_ATTACHED then Inl AssertFail
            else
              let tflag = has (fl s a) TX_POLLOUT;
                  events = (if tflag then EPOLLOUT else 0) OR EPOLLIN OR EPOLLONESHOT;
                  (error, s1) = epoll_ctl (EpollMod e (tx_fd (filp s a)) events a) (k 0) s;
                  s2 = upd_epoll e (\<lambda>p. p\<lparr>epoll_refcnt := epoll_refcnt p + of_bool (error = 0 \<and> \<not> tflag)\<rparr>) s1;
                  s3 = set_flags a (if error = 0 then TX_POLLIN else 0) s2
              in Inr (epoll_hold e s3)
          else Inr (epoll_hold e s)
      | _ \<Rightarrow> Inl AssertFail)"

definition tx_epoll_detach :: "aiocb_p \<Rightarrow> (nat \<Rightarrow> kres) \<Rightarrow> tx_mem \<Rightarrow> tx_mem res" where
  "tx_epoll_detach a k s =
     (case filp_poll (filp s a) of
        EpollTask e \<Rightarrow>
          if ops_of s a \<noteq> EpollOps then Inl AssertFail
          else
            let s1 = (if fl s a AND (TX_ATTACHED OR TX_DETACHED) = TX_ATTACHED then
                        let (error, s1) = epoll_ctl (EpollDel e (tx_fd (filp s a)) a) (k 0) s
                        in set_flags a (if error = 0 then TX_DETACHED else 0) s1
                      else s)
            in if has (fl s1 a) (TX_POLLIN OR TX_POLLOUT) then
                 let loop = tx_loop_get (PollTask (EpollTask e)) s1;
                     s2 = upd_epoll e (\<lambda>p. p\<lparr>epoll_refcnt := epoll_refcnt p - 1\<rparr>) s1
                 in if tx_holder (loops s2 loop) = VEpoll e \<and> epoll_refcnt (epolls (io s2) e) = 0
                    then Inr (upd_loop loop (\<lambda>l. l\<lparr>tx_holder := VNull\<rparr>) s2) else Inr s2
               else Inr s1
      | _ \<Rightarrow> Inl AssertFail)"

definition tx_epoll_pollit :: "epoll_p \<Rightarrow> aiocb_p \<Rightarrow> kres \<Rightarrow> tx_mem \<Rightarrow> tx_mem" where
  "tx_epoll_pollit e a k s =
     (let flags = fl s a;
          flin = flags AND TX_POLLIN;
          flout = flags AND TX_POLLOUT;
          events = (if flin \<noteq> 0 then EPOLLIN else 0) OR (if flout \<noteq> 0 then EPOLLOUT else 0) OR EPOLLONESHOT;
          (error, s1) = epoll_ctl (EpollMod e (tx_fd (filp s a)) events a) k s;
          s2 = upd_epoll e (\<lambda>p. p\<lparr>epoll_refcnt := epoll_refcnt p + (if error = 0 then 1 else 0)\<rparr>) s1;
          s3 = set_flags a (if error = 0 then flout else 0) s2
      in set_flags a (if error = 0 then flin else 0) s3)"

text \<open>
  One iteration of the loop over the events: the event's flags, its \<open>data.ptr\<close>, and the result of the
  \<open>epoll_ctl\<close> that \<open>tx_epoll_pollit\<close> may make.
\<close>

definition epoll_hup :: "aiocb_p \<Rightarrow> tx_mem \<Rightarrow> tx_mem" where
  "epoll_hup a s =
     (let s1 = clear_flags a (TX_POLLIN OR TX_POLLOUT) s;
          s2 = set_flags a (TX_READABLE OR TX_WRITABLE) s1;
          s3 = tx_task_active (tx_filterout (filp s2 a)) (VAiocb a) s2;
          s4 = clear_out a s3;
          s5 = tx_task_active (tx_filterin (filp s4 a)) (VAiocb a) s4
      in clear_in a s5)"

definition epoll_out :: "aiocb_p \<Rightarrow> tx_mem \<Rightarrow> tx_mem" where
  "epoll_out a s =
     (let s1 = clear_flags a TX_POLLOUT s;
          s2 = tx_task_active (tx_filterout (filp s1 a)) (VAiocb a) s1;
          s3 = set_flags a TX_WRITABLE s2
      in clear_out a s3)"

definition epoll_in :: "aiocb_p \<Rightarrow> tx_mem \<Rightarrow> tx_mem" where
  "epoll_in a s =
     (let s1 = clear_flags a TX_POLLIN s;
          s2 = tx_task_active (tx_filterin (filp s1 a)) (VAiocb a) s1;
          s3 = set_flags a TX_READABLE s2
      in clear_in a s3)"

definition epoll_event :: "epoll_p \<Rightarrow> u32 \<times> aiocb_p \<times> kres \<Rightarrow> tx_mem \<Rightarrow> tx_mem" where
  "epoll_event e ev s =
     (let (flags, a, k) = ev;
          s1 = upd_epoll e (\<lambda>p. p\<lparr>epoll_refcnt := epoll_refcnt p - 1\<rparr>) s
      in if has flags (EPOLLHUP OR EPOLLERR) then epoll_hup a s1
         else
           let s2 = (if has flags EPOLLOUT then epoll_out a s1 else s1);
               s3 = (if has flags EPOLLIN then epoll_in a s2 else s2)
           in if has (fl s3 a) (TX_POLLIN OR TX_POLLOUT) then tx_epoll_pollit e a k s3 else s3)"

text \<open>\<open>wait t\<close> is what \<open>epoll_wait\<close> returns with the timeout \<open>t\<close>: \<open>nfds\<close> and \<open>errno\<close>, and the events.\<close>

type_synonym epoll_wait = "int \<Rightarrow> kres \<times> (u32 \<times> aiocb_p \<times> kres) list"

definition tx_epoll_polling :: "epoll_p \<Rightarrow> epoll_wait \<Rightarrow> tx_mem \<Rightarrow> tx_mem res" where
  "tx_epoll_polling e wait s =
     (let loop = tx_loop_get (PollTask (EpollTask e)) s;
          timeout = tx_loop_timeout loop (VEpoll e) s;
          ((nfds, errno), events) = wait (if timeout \<noteq> 0 then 10 else 0)
      in if nfds = -1 \<and> errno \<noteq> EAGAIN \<and> errno \<noteq> EINTR then Inl PanicExit
         else
           let s1 = fold (epoll_event e) (take (nat nfds) events) s;
               s2 = (if tx_holder (loops s1 loop) = VEpoll e \<and> epoll_refcnt (epolls (io s1) e) = 0
                     then upd_loop loop (\<lambda>l. l\<lparr>tx_holder := VNull\<rparr>) s1 else s1)
           in Inr (tx_poll_active (EpollTask e) s2))"

text \<open>
  \<open>tx_epoll_init\<close>: \<open>malloc\<close> is the block \<open>malloc\<close> returned, \<open>fd\<close> what \<open>epoll_create\<close> did. The search of the
  queue is the library's \<open>LIST_FOREACH\<close>; \<open>container_of\<close> is only computed of a task with this callback.
\<close>

definition tx_epoll_new :: "epoll_p option \<Rightarrow> int \<Rightarrow> loop_p \<Rightarrow> tx_mem \<Rightarrow> poll_p option \<times> tx_mem" where
  "tx_epoll_new malloc fd loop s =
     (case malloc of
        Some e \<Rightarrow>
          if fd \<noteq> -1 then
            let s1 = tx_poll_init (EpollTask e) loop EpollPolling (VEpoll e) s;
                s2 = tx_poll_active (EpollTask e) s1;
                s3 = upd_io (\<lambda>i. i\<lparr>poll_ops := (poll_ops i)(EpollTask e := EpollOps)\<rparr>) s2;
                s4 = upd_loop loop (\<lambda>l. l\<lparr>tx_poller := Some (EpollTask e)\<rparr>) s3;
                s5 = upd_epoll e (\<lambda>p. p\<lparr>epoll_refcnt := 0\<rparr>) s4
            in (Some (EpollTask e), upd_epoll e (\<lambda>p. p\<lparr>epoll_fd := fd\<rparr>) s5)
          else (None, s)
      | None \<Rightarrow> (None, s))"

definition epoll_search ::
    "epoll_p option \<Rightarrow> int \<Rightarrow> loop_p \<Rightarrow> tx_mem \<Rightarrow> (poll_p option \<times> tx_mem) option" where
  "epoll_search malloc fd loop s =
     map_option (\<lambda>found. case found of
         Some np \<Rightarrow> (poll_container_of np, s)
       | None \<Rightarrow> tx_epoll_new malloc fd loop s)
       (list_search (le_next (tq s)) (\<lambda>np. task_call (tasks s np) = EpollPolling)
         (lh_first (tq s) (LoopQ loop)))"

definition tx_epoll_init ::
    "epoll_p option \<Rightarrow> int \<Rightarrow> loop_p \<Rightarrow> tx_mem \<Rightarrow> (poll_p option \<times> tx_mem) option" where
  "tx_epoll_init malloc fd loop s =
     (case tx_poller (loops s loop) of
        Some p \<Rightarrow> if poll_ops (io s) p = EpollOps then Some (Some p, s) else epoll_search malloc fd loop s
      | None \<Rightarrow> epoll_search malloc fd loop s)"

section \<open>The invariant\<close>

text \<open>What the kernel has been asked to report for descriptor \<open>fd\<close>, and for which block.\<close>

fun epoll_apply :: "epoll_p \<Rightarrow> int \<Rightarrow> kcall \<Rightarrow> (u32 \<times> aiocb_p) option \<Rightarrow> (u32 \<times> aiocb_p) option" where
  "epoll_apply e fd (EpollAdd e' fd' m a) r = (if e' = e \<and> fd' = fd then Some (m, a) else r)"
| "epoll_apply e fd (EpollMod e' fd' m a) r = (if e' = e \<and> fd' = fd then Some (m, a) else r)"
| "epoll_apply e fd (EpollDel e' fd' a) r = (if e' = e \<and> fd' = fd then None else r)"
| "epoll_apply e fd _ r = r"

definition epoll_interest :: "kcall list \<Rightarrow> epoll_p \<Rightarrow> int \<Rightarrow> (u32 \<times> aiocb_p) option" where
  "epoll_interest cs e fd = fold (epoll_apply e fd) cs None"

lemma epoll_interest_snoc [simp]:
  "epoll_interest (cs @ [c]) e fd = epoll_apply e fd c (epoll_interest cs e fd)"
  by (simp add: epoll_interest_def)

text \<open>The events the flags of a block stand for.\<close>

definition wanted :: "tx_mem \<Rightarrow> aiocb_p \<Rightarrow> u32" where
  "wanted s a = (if has (fl s a) TX_POLLIN then EPOLLIN else 0) OR
     (if has (fl s a) TX_POLLOUT then EPOLLOUT else 0) OR EPOLLONESHOT"

abbreviation refcnt :: "tx_mem \<Rightarrow> epoll_p \<Rightarrow> int" where
  "refcnt s e \<equiv> epoll_refcnt (epolls (io s) e)"

text \<open>
  \<open>A\<close> are the blocks that use the poller \<open>e\<close>. Its count is the number of those that are armed, and the
  kernel has been asked for exactly what their flags say.
\<close>

definition epoll_core :: "epoll_p \<Rightarrow> aiocb_p set \<Rightarrow> tx_mem \<Rightarrow> bool" where
  "epoll_core e A s \<longleftrightarrow>
     finite A \<and> poll_ops (io s) (EpollTask e) = EpollOps \<and> (\<forall>a\<in>A. filp_poll (filp s a) = EpollTask e) \<and>
     refcnt s e = int (card {a\<in>A. armed s a}) \<and>
     (\<forall>a\<in>A. armed s a \<longrightarrow> epoll_interest (kcalls (io s)) e (tx_fd (filp s a)) = Some (wanted s a, a)) \<and>
     (\<forall>a\<in>A. attached s a \<longrightarrow> other_fds A a s)"

text \<open>The loop's holder names the poller only while it has armed descriptors, and some poller then.\<close>

definition epoll_held :: "epoll_p \<Rightarrow> tx_mem \<Rightarrow> bool" where
  "epoll_held e s \<longleftrightarrow> (holder s (EpollTask e) = VEpoll e \<longrightarrow> refcnt s e > 0) \<and>
     (refcnt s e > 0 \<longrightarrow> holder s (EpollTask e) \<noteq> VNull)"

definition epoll_inv :: "epoll_p \<Rightarrow> task_p set \<Rightarrow> aiocb_p set \<Rightarrow> tx_mem \<Rightarrow> bool" where
  "epoll_inv e T A s \<longleftrightarrow> epoll_core e A s \<and> epoll_held e s \<and> waiters T A s"

lemma epoll_coreD:
  assumes "epoll_core e A s"
  shows "finite A" "poll_ops (io s) (EpollTask e) = EpollOps" "\<And>a. a \<in> A \<Longrightarrow> filp_poll (filp s a) = EpollTask e"
    "refcnt s e = int (card {a\<in>A. armed s a})"
    "\<And>a. a \<in> A \<Longrightarrow> armed s a \<Longrightarrow> epoll_interest (kcalls (io s)) e (tx_fd (filp s a)) = Some (wanted s a, a)"
    "\<And>a. a \<in> A \<Longrightarrow> attached s a \<Longrightarrow> other_fds A a s"
  using assms unfolding epoll_core_def by blast+

text \<open>A change to one block, the count and the kernel's record of its descriptor.\<close>

lemma epoll_core_change:
  assumes core: "epoll_core e A s" and a: "a \<in> A"
    and filps: "\<And>b. b \<noteq> a \<Longrightarrow> filp s' b = filp s b" "tx_fd (filp s' a) = tx_fd (filp s a)"
      "filp_poll (filp s' a) = filp_poll (filp s a)" and ops: "poll_ops (io s') = poll_ops (io s)"
    and cnt: "refcnt s' e = refcnt s e + of_bool (armed s' a) - of_bool (armed s a)"
    and own: "armed s' a \<Longrightarrow> epoll_interest (kcalls (io s')) e (tx_fd (filp s a)) = Some (wanted s' a, a)"
    and others: "\<And>fd. fd \<noteq> tx_fd (filp s a) \<Longrightarrow>
      epoll_interest (kcalls (io s')) e fd = epoll_interest (kcalls (io s)) e fd"
    and fds: "other_fds A a s \<or> kcalls (io s') = kcalls (io s) \<and> \<not> attached s' a"
  shows "epoll_core e A s'"
proof -
  note D = epoll_coreD [OF core]
  have same: "attached s' b = attached s b" "armed s' b = armed s b" "wanted s' b = wanted s b" if "b \<noteq> a" for b
    using filps(1) [OF that] by (simp_all add: attached_def armed_def wanted_def)
  have "int (card {b\<in>A. armed s' b}) = int (card {b\<in>A. armed s b}) + of_bool (armed s' a) - of_bool (armed s a)"
    by (rule card_toggle [OF D(1) a]) (simp add: same)
  then have c: "refcnt s' e = int (card {b\<in>A. armed s' b})" using cnt D(4) by simp
  have p: "filp_poll (filp s' b) = EpollTask e" if "b \<in> A" for b
    using D(3) [OF that] filps by (cases "b = a") auto
  have i: "epoll_interest (kcalls (io s')) e (tx_fd (filp s' b)) = Some (wanted s' b, b)"
    if "b \<in> A" "armed s' b" for b
  proof (cases "b = a")
    case True
    then show ?thesis using own that filps(2) by simp
  next
    case False
    then have b: "armed s b" "attached s b" using that same by (auto simp: armed_def)
    from fds have "epoll_interest (kcalls (io s')) e (tx_fd (filp s b)) = epoll_interest (kcalls (io s)) e (tx_fd (filp s b))"
      using others [of "tx_fd (filp s b)"] False b(2) that(1) by (auto simp: other_fds_def)
    then show ?thesis using D(5) [OF that(1) b(1)] False by (simp add: filps(1) same)
  qed
  have f: "other_fds A b s'" if "b \<in> A" "attached s' b" for b
  proof (cases "b = a")
    case True
    then show ?thesis using fds that filps same by (auto simp: other_fds_def)
  next
    case False
    then have "other_fds A b s" using D(6) that same by simp
    with fds that False show ?thesis
      unfolding other_fds_def using filps same by (metis (full_types))
  qed
  from D(1,2) c p i f show ?thesis by (simp add: epoll_core_def ops)
qed

section \<open>Asking for readiness\<close>

lemma epoll_core_loops:
  "epoll_core e A s \<Longrightarrow> io s' = io s \<Longrightarrow> epoll_core e A s'"
  by (simp add: epoll_core_def armed_def attached_def wanted_def other_fds_def)

lemma epoll_hold_io [simp]: "io (epoll_hold e s) = io s" "loop_of (epoll_hold e s) t = loop_of s t"
  by (simp_all add: epoll_hold_def Let_def upd_loop_def)

lemma epoll_hold_held:
  assumes "holder s (EpollTask e) = VEpoll e \<Longrightarrow> refcnt s e > 0"
  shows "epoll_held e (epoll_hold e s)"
  using assms by (auto simp: epoll_held_def epoll_hold_def tx_loop_get_def Let_def upd_loop_def)

lemma epoll_hold_run: "api_run T U s s' \<Longrightarrow> api_run T U s (epoll_hold e s')"
  unfolding epoll_hold_def Let_def by (auto intro: api_run_holder)

text \<open>The block that asks the kernel, for \<open>TX_POLLIN\<close> and \<open>TX_POLLOUT\<close> alike.\<close>

definition epoll_arm :: "epoll_p \<Rightarrow> aiocb_p \<Rightarrow> u32 \<Rightarrow> u32 \<Rightarrow> bool \<Rightarrow> (nat \<Rightarrow> kres) \<Rightarrow> tx_mem \<Rightarrow> tx_mem" where
  "epoll_arm e a m events tflag k s =
     set_flags a (if fst (k 0) = 0 then m else 0)
       (upd_epoll e (\<lambda>p. p\<lparr>epoll_refcnt := epoll_refcnt p + of_bool (fst (k 0) = 0 \<and> \<not> tflag)\<rparr>)
         (snd (epoll_ctl (EpollMod e (tx_fd (filp s a)) events a) (k 0) s)))"

lemma epoll_arm_reads:
  "aiocbs (io (epoll_arm e a m ev g k s)) = (aiocbs (io s))(a := (filp s a)
     \<lparr>filp_flags := fl s a OR (if fst (k 0) = 0 then m else 0)\<rparr>)"
  "poll_ops (io (epoll_arm e a m ev g k s)) = poll_ops (io s)"
  "refcnt (epoll_arm e a m ev g k s) e = refcnt s e + of_bool (fst (k 0) = 0 \<and> \<not> g)"
  "kcalls (io (epoll_arm e a m ev g k s)) = kcalls (io s) @
     (if fst (k 0) = 0 then [EpollMod e (tx_fd (filp s a)) ev a] else [])"
  "loops (epoll_arm e a m ev g k s) = loops s" "tasks (epoll_arm e a m ev g k s) = tasks s"
  by (auto simp: epoll_arm_def epoll_ctl_def filp_defs io_defs fun_eq_iff)

lemma epoll_arm_run: "api_run T U s (epoll_arm e a m ev g k s)"
  by (auto simp: epoll_arm_def epoll_ctl_def intro: api_run_filp)

lemma epoll_arm_core:
  assumes core: "epoll_core e A s" and a: "a \<in> A" "attached s a"
    and m: "m = TX_POLLIN \<and> g = has (fl s a) TX_POLLOUT \<or> m = TX_POLLOUT \<and> g = has (fl s a) TX_POLLIN"
    and new: "\<not> has (fl s a) m"
    and ev: "m = TX_POLLIN \<Longrightarrow> ev = (if g then EPOLLOUT else 0) OR EPOLLIN OR EPOLLONESHOT"
      "m = TX_POLLOUT \<Longrightarrow> ev = (if g then EPOLLIN else 0) OR EPOLLOUT OR EPOLLONESHOT"
  shows "epoll_core e A (epoll_arm e a m ev g k s)"
proof (cases "fst (k 0) = 0")
  case False
  let ?s = "epoll_arm e a m ev g k s"
  note R = epoll_arm_reads [of e a m ev g k s]
  have "fl ?s b = fl s b" "tx_fd (filp ?s b) = tx_fd (filp s b)" "filp_poll (filp ?s b) = filp_poll (filp s b)" for b
    using False by (simp_all add: R)
  then show ?thesis
    using core False by (simp add: epoll_core_def R(2-4) armed_def attached_def wanted_def other_fds_def)
next
  case True
  let ?s = "epoll_arm e a m ev g k s"
  note R = epoll_arm_reads [of e a m ev g k s]
  have fl': "fl ?s a = fl s a OR m" using True by (simp add: R)
  have at: "attached ?s a" using a(2) m by (auto simp: attached_def fl' flags)
  have ar: "armed ?s a" using at m by (auto simp: armed_def fl' flags)
  have g: "armed s a \<longleftrightarrow> g" using a(2) m new by (auto simp: armed_def flags)
  have w: "wanted ?s a = ev"
    using m new ev by (auto simp: wanted_def fl' flags or.left_commute)
  show ?thesis
    by (rule epoll_core_change [OF core a(1)])
      (use True g ar w epoll_coreD(6) [OF core a] in \<open>auto simp: R\<close>)
qed

lemma epoll_arm_inv:
  assumes inv: "epoll_inv e T A s" and a: "a \<in> A" "attached s a"
    and core: "epoll_core e A (epoll_arm e a m ev g k s)"
  shows "epoll_inv e T A (epoll_hold e (epoll_arm e a m ev g k s))"
proof -
  let ?s = "epoll_arm e a m ev g k s"
  note R = epoll_arm_reads [of e a m ev g k s]
  have "waiters T A (epoll_hold e ?s)"
    using inv by (auto simp: epoll_inv_def waiters_def R)
  moreover have "epoll_held e (epoll_hold e ?s)"
    by (rule epoll_hold_held) (use inv in \<open>auto simp: epoll_inv_def epoll_held_def R\<close>)
  ultimately show ?thesis using epoll_core_loops [OF core] by (simp add: epoll_inv_def)
qed

lemma epoll_inv_hold:
  assumes "epoll_inv e T A s"
  shows "epoll_inv e T A (epoll_hold e s)"
  using assms epoll_hold_held [of s e] epoll_core_loops [of e A s "epoll_hold e s"]
  by (auto simp: epoll_inv_def epoll_held_def waiters_def)

lemma tx_epoll_pollin_spec:
  assumes inv: "epoll_inv e T A s" and a: "a \<in> A" "attached s a"
  shows "\<exists>s'. tx_epoll_pollin a k s = Inr s' \<and> epoll_inv e T A s' \<and> api_run T U s s' \<and>
    (fst (k 0) = 0 \<longrightarrow> aiocbs (io s') = (aiocbs (io s))(a := (filp s a)\<lparr>filp_flags := fl s a OR TX_POLLIN\<rparr>))"
proof -
  have core: "epoll_core e A s" using inv by (simp add: epoll_inv_def)
  note D = epoll_coreD [OF core]
  have p: "filp_poll (filp s a) = EpollTask e" "poll_ops (io s) (EpollTask e) = EpollOps" using D(2,3) a(1) by simp_all
  show ?thesis
  proof (cases "has (fl s a) TX_POLLIN")
    case True
    then have "tx_epoll_pollin a k s = Inr (epoll_hold e s)" by (simp add: tx_epoll_pollin_def p)
    moreover have "fl s a OR TX_POLLIN = fl s a" using True or_flag_idem [of "fl s a" 1] by (simp add: flag_powers)
    ultimately show ?thesis using epoll_inv_hold [OF inv] epoll_hold_run [of T U s s e] by simp
  next
    case False
    let ?g = "has (fl s a) TX_POLLOUT"
    let ?s = "epoll_arm e a TX_POLLIN ((if ?g then EPOLLOUT else 0) OR EPOLLIN OR EPOLLONESHOT) ?g k s"
    have eq: "tx_epoll_pollin a k s = Inr (epoll_hold e ?s)"
      using False a(2) p
      by (simp add: tx_epoll_pollin_def epoll_arm_def Let_def split_def attached_def epoll_ctl_def flags)
    have "epoll_core e A ?s" by (rule epoll_arm_core [OF core a]) (use False in \<open>auto simp: flag_defs\<close>)
    from epoll_arm_inv [OF inv a this] show ?thesis
      using eq epoll_hold_run [OF epoll_arm_run] by (auto simp: epoll_arm_reads)
  qed
qed

lemma tx_epoll_pollout_spec:
  assumes inv: "epoll_inv e T A s" and a: "a \<in> A" "attached s a"
  shows "\<exists>s'. tx_epoll_pollout a k s = Inr s' \<and> epoll_inv e T A s' \<and> api_run T U s s' \<and>
    (fst (k 0) = 0 \<longrightarrow> aiocbs (io s') = (aiocbs (io s))(a := (filp s a)\<lparr>filp_flags := fl s a OR TX_POLLOUT\<rparr>))"
proof -
  have core: "epoll_core e A s" using inv by (simp add: epoll_inv_def)
  note D = epoll_coreD [OF core]
  have p: "filp_poll (filp s a) = EpollTask e" "poll_ops (io s) (EpollTask e) = EpollOps" using D(2,3) a(1) by simp_all
  show ?thesis
  proof (cases "has (fl s a) TX_POLLOUT")
    case True
    then have "tx_epoll_pollout a k s = Inr (epoll_hold e s)" by (simp add: tx_epoll_pollout_def p)
    moreover have "fl s a OR TX_POLLOUT = fl s a" using True or_flag_idem [of "fl s a" 2] by (simp add: flag_powers)
    ultimately show ?thesis using epoll_inv_hold [OF inv] epoll_hold_run [of T U s s e] by simp
  next
    case False
    let ?g = "has (fl s a) TX_POLLIN"
    let ?s = "epoll_arm e a TX_POLLOUT ((if ?g then EPOLLIN else 0) OR EPOLLOUT OR EPOLLONESHOT) ?g k s"
    have eq: "tx_epoll_pollout a k s = Inr (epoll_hold e ?s)"
      using False a(2) p
      by (simp add: tx_epoll_pollout_def epoll_arm_def Let_def split_def attached_def epoll_ctl_def flags)
    have "epoll_core e A ?s" by (rule epoll_arm_core [OF core a]) (use False in \<open>auto simp: flag_defs\<close>)
    from epoll_arm_inv [OF inv a this] show ?thesis
      using eq epoll_hold_run [OF epoll_arm_run] by (auto simp: epoll_arm_reads)
  qed
qed

section \<open>Attaching and detaching\<close>

lemma tx_epoll_attach_spec:
  assumes inv: "epoll_inv e T A s" and a: "a \<in> A" and new: "has (fl s a) TX_ATTACHED \<longleftrightarrow> has (fl s a) TX_DETACHED"
    and quiet: "\<not> has (fl s a) TX_POLLIN" "\<not> has (fl s a) TX_POLLOUT"
    and fd: "fst (k 0) = 0 \<Longrightarrow> other_fds A a s"
  shows "\<exists>s'. tx_epoll_attach a k s = Inr s' \<and> epoll_inv e T A s' \<and> api_run T U s s' \<and>
    (attached s' a \<longleftrightarrow> fst (k 0) = 0) \<and> (k 0 = (-1, EPERM) \<longrightarrow> tx_readable s' a \<and> tx_writable s' a) \<and>
    (\<forall>b. b \<noteq> a \<longrightarrow> filp s' b = filp s b)"
proof -
  have core: "epoll_core e A s" using inv by (simp add: epoll_inv_def)
  note D = epoll_coreD [OF core]
  have p: "filp_poll (filp s a) = EpollTask e" "poll_ops (io s) (EpollTask e) = EpollOps" using D(2,3) a(1) by simp_all
  have at: "\<not> attached s a" "\<not> armed s a" using new by (auto simp: armed_def attached_def)
  define s1 where "s1 = set_flags a (if fst (k 0) = 0 then TX_ATTACHED else 0)
    (clear_flags a (if fst (k 0) = 0 then TX_DETACHED else 0)
      (snd (epoll_ctl (EpollAdd e (tx_fd (filp s a)) 0 a) (k 0) s)))"
  define s' where "s' = (if fst (k 0) = -1 \<and> snd (k 0) = EPERM
    then set_flags a TX_READABLE (set_flags a TX_WRITABLE s1) else s1)"
  have eq: "tx_epoll_attach a k s = Inr s'"
    using new p by (auto simp: tx_epoll_attach_def s'_def s1_def Let_def split_def epoll_ctl_def flags)
  have run: "api_run T U s s'"
    unfolding s'_def s1_def epoll_ctl_def by (auto intro: api_run_filp)
  define f where "f = (if fst (k 0) = 0 then (fl s a AND NOT TX_DETACHED) OR TX_ATTACHED
      else if fst (k 0) = -1 \<and> snd (k 0) = EPERM then fl s a OR TX_WRITABLE OR TX_READABLE else fl s a)"
  have R: "aiocbs (io s') = (aiocbs (io s))(a := (filp s a)\<lparr>filp_flags := f\<rparr>)"
    "refcnt s' e = refcnt s e" "loops s' = loops s" "tasks s' = tasks s" "poll_ops (io s') = poll_ops (io s)"
    "kcalls (io s') = kcalls (io s) @ (if fst (k 0) = 0 then [EpollAdd e (tx_fd (filp s a)) 0 a] else [])"
    by (simp_all add: s'_def s1_def f_def epoll_ctl_def filp_defs io_defs or.assoc)
  have other: "filp s' b = filp s b" if "b \<noteq> a" for b using R(1) that by simp
  have at': "attached s' a \<longleftrightarrow> fst (k 0) = 0" "\<not> armed s' a" using new quiet by (auto simp: attached_def armed_def R(1) f_def flags)
  have "epoll_core e A s'"
    by (rule epoll_core_change [OF core a]) (use at at' fd in \<open>auto simp: R\<close>)
  moreover have "waiters T A s'"
    using inv by (auto simp: epoll_inv_def waiters_def R)
  moreover have "epoll_held e s'" using inv by (simp add: epoll_inv_def epoll_held_def R)
  moreover have "k 0 = (-1, EPERM) \<longrightarrow> tx_readable s' a \<and> tx_writable s' a"
    by (auto simp: tx_readable_def tx_writable_def R(1) f_def flags)
  ultimately show ?thesis using eq run at' other by (auto simp: epoll_inv_def)
qed

lemma tx_epoll_detach_spec:
  assumes inv: "epoll_inv e T A s" and a: "a \<in> A" "attached s a" and k: "fst (k 0) = 0"
  shows "\<exists>s'. tx_epoll_detach a k s = Inr s' \<and> epoll_inv e T A s' \<and> api_run T U s s' \<and> \<not> attached s' a \<and>
    epoll_interest (kcalls (io s')) e (tx_fd (filp s a)) = None \<and> (\<forall>b. b \<noteq> a \<longrightarrow> filp s' b = filp s b)"
proof -
  have core: "epoll_core e A s" using inv by (simp add: epoll_inv_def)
  note D = epoll_coreD [OF core]
  have p: "filp_poll (filp s a) = EpollTask e" "poll_ops (io s) (EpollTask e) = EpollOps" using D(2,3) a(1) by simp_all
  let ?up = "loop_of s (PollTask (EpollTask e))"
  define g where "g = has (fl s a) (TX_POLLIN OR TX_POLLOUT)"
  define s1 where "s1 = set_flags a TX_DETACHED (log_kcall (EpollDel e (tx_fd (filp s a)) a) s)"
  define s2 where "s2 = (if g then upd_epoll e (\<lambda>p. p\<lparr>epoll_refcnt := epoll_refcnt p - 1\<rparr>) s1 else s1)"
  define s' where "s' = (if g \<and> tx_holder (loops s ?up) = VEpoll e \<and> refcnt s2 e = 0
    then upd_loop ?up (\<lambda>l. l\<lparr>tx_holder := VNull\<rparr>) s2 else s2)"
  have R1: "aiocbs (io s1) = (aiocbs (io s))(a := (filp s a)\<lparr>filp_flags := fl s a OR TX_DETACHED\<rparr>)"
    "refcnt s1 e = refcnt s e" "loops s1 = loops s" "tasks s1 = tasks s" "poll_ops (io s1) = poll_ops (io s)"
    "kcalls (io s1) = kcalls (io s) @ [EpollDel e (tx_fd (filp s a)) a]"
    by (simp_all add: s1_def filp_defs io_defs fun_eq_iff)
  have R2: "aiocbs (io s2) = aiocbs (io s1)" "refcnt s2 e = refcnt s e - of_bool g" "loops s2 = loops s"
    "tasks s2 = tasks s" "poll_ops (io s2) = poll_ops (io s)" "kcalls (io s2) = kcalls (io s1)"
    by (simp_all add: s2_def io_defs R1)
  have io': "io s' = io s2" "loop_of s' t = loop_of s t" for t by (simp_all add: s'_def upd_loop_def R2)
  have "has (fl s1 a) (TX_POLLIN OR TX_POLLOUT) = g" by (auto simp: R1 g_def flags)
  then have eq: "tx_epoll_detach a k s = Inr s'"
    using a(2) p k
    by (simp add: tx_epoll_detach_def attached_def flags epoll_ctl_def s1_def [symmetric] s'_def s2_def Let_def
        tx_loop_get_def R1 R2 upd_epoll_def)
  have run: "api_run T U s s'" unfolding s'_def s2_def s1_def by (auto intro!: api_run_filp api_run_holder)
  have at: "\<not> attached s2 a" by (simp add: attached_def R2 R1 flags)
  have "epoll_core e A s2"
    by (rule epoll_core_change [OF core a(1)])
      (use at a D(6) [OF a] in \<open>auto simp: R2 R1 armed_def g_def\<close>)
  then have "epoll_core e A s'" by (rule epoll_core_loops) (simp add: io')
  moreover have "waiters T A s'" using inv by (auto simp: epoll_inv_def waiters_def io' R2 R1)
  moreover have "epoll_held e s'"
    using inv by (auto simp: epoll_inv_def epoll_held_def io' R2 s'_def upd_loop_def)
  ultimately show ?thesis
    using eq run at by (simp add: epoll_inv_def attached_def io' R2 R1)
qed

section \<open>Polling\<close>

lemma epoll_event_parts:
  "io (epoll_hup a s) = (io s)\<lparr>aiocbs := (aiocbs (io s))(a := (filp s a)
     \<lparr>filp_flags := (fl s a AND NOT (TX_POLLIN OR TX_POLLOUT)) OR (TX_READABLE OR TX_WRITABLE),
      tx_filterout := None, tx_filterin := None\<rparr>)\<rparr>"
  "io (epoll_out a s) = (io s)\<lparr>aiocbs := (aiocbs (io s))(a := (filp s a)
     \<lparr>filp_flags := (fl s a AND NOT TX_POLLOUT) OR TX_WRITABLE, tx_filterout := None\<rparr>)\<rparr>"
  "io (epoll_in a s) = (io s)\<lparr>aiocbs := (aiocbs (io s))(a := (filp s a)
     \<lparr>filp_flags := (fl s a AND NOT TX_POLLIN) OR TX_READABLE, tx_filterin := None\<rparr>)\<rparr>"
  by (simp_all add: epoll_hup_def epoll_out_def epoll_in_def filp_defs upd_filp_def Let_def)

lemma epoll_parts_wake:
  "wakes (set_option (tx_filterout (filp s a)) \<union> set_option (tx_filterin (filp s a))) s (epoll_hup a s)"
  "wakes (set_option (tx_filterout (filp s a))) s (epoll_out a s)"
  "wakes (set_option (tx_filterin (filp s a))) s (epoll_in a s)"
  unfolding epoll_hup_def epoll_out_def epoll_in_def Let_def filp_upds
  by (rule wakes_mono, (rule wakes_upd_io wakes_active wakes_refl)+, force)+

lemma epoll_parts_run:
  assumes "waiters T A s" and "a \<in> A" and "api_run T U s0 s"
  shows "api_run T U s0 (epoll_hup a s)" "api_run T U s0 (epoll_out a s)" "api_run T U s0 (epoll_in a s)"
  unfolding epoll_hup_def epoll_out_def epoll_in_def Let_def filp_upds
  by (intro api_run_io api_run_active assms(3); use assms in \<open>simp add: waiters_def\<close>)+

text \<open>
  One event. What the kernel promises of it: it is for a block that is armed, since the descriptor was
  registered with \<open>EPOLLONESHOT\<close> for the events the flags say.
\<close>

definition event_for :: "aiocb_p set \<Rightarrow> tx_mem \<Rightarrow> u32 \<times> aiocb_p \<times> kres \<Rightarrow> bool" where
  "event_for A s ev \<longleftrightarrow> (case ev of (flags, a, k) \<Rightarrow> a \<in> A \<and> armed s a \<and> fst k = 0)"

text \<open>Which waiters the event is for.\<close>

definition woken_by :: "tx_mem \<Rightarrow> u32 \<Rightarrow> aiocb_p \<Rightarrow> task_p set" where
  "woken_by s flags a =
     (if has flags (EPOLLIN OR EPOLLHUP OR EPOLLERR) then set_option (tx_filterin (filp s a)) else {}) \<union>
     (if has flags (EPOLLOUT OR EPOLLHUP OR EPOLLERR) then set_option (tx_filterout (filp s a)) else {})"

text \<open>The block afterwards.\<close>

definition filp_after :: "u32 \<Rightarrow> tx_aiocb \<Rightarrow> tx_aiocb" where
  "filp_after flags f =
     (if has flags (EPOLLHUP OR EPOLLERR) then
        f\<lparr>filp_flags := (filp_flags f AND NOT (TX_POLLIN OR TX_POLLOUT)) OR (TX_READABLE OR TX_WRITABLE),
          tx_filterout := None, tx_filterin := None\<rparr>
      else
        let f1 = (if has flags EPOLLOUT then
                    f\<lparr>filp_flags := (filp_flags f AND NOT TX_POLLOUT) OR TX_WRITABLE, tx_filterout := None\<rparr> else f)
        in if has flags EPOLLIN then
             f1\<lparr>filp_flags := (filp_flags f1 AND NOT TX_POLLIN) OR TX_READABLE, tx_filterin := None\<rparr> else f1)"

lemma filp_after_reads:
  "has (filp_flags (filp_after v f)) TX_ATTACHED = has (filp_flags f) TX_ATTACHED"
  "has (filp_flags (filp_after v f)) TX_DETACHED = has (filp_flags f) TX_DETACHED"
  "has (filp_flags (filp_after v f)) TX_POLLIN \<longleftrightarrow>
     has (filp_flags f) TX_POLLIN \<and> \<not> has v (EPOLLIN OR EPOLLHUP OR EPOLLERR)"
  "has (filp_flags (filp_after v f)) TX_POLLOUT \<longleftrightarrow>
     has (filp_flags f) TX_POLLOUT \<and> \<not> has v (EPOLLOUT OR EPOLLHUP OR EPOLLERR)"
  "has (filp_flags (filp_after v f)) TX_READABLE \<longleftrightarrow>
     has (filp_flags f) TX_READABLE \<or> has v (EPOLLIN OR EPOLLHUP OR EPOLLERR)"
  "has (filp_flags (filp_after v f)) TX_WRITABLE \<longleftrightarrow>
     has (filp_flags f) TX_WRITABLE \<or> has v (EPOLLOUT OR EPOLLHUP OR EPOLLERR)"
  "tx_filterin (filp_after v f) = (if has v (EPOLLIN OR EPOLLHUP OR EPOLLERR) then None else tx_filterin f)"
  "tx_filterout (filp_after v f) = (if has v (EPOLLOUT OR EPOLLHUP OR EPOLLERR) then None else tx_filterout f)"
  "tx_fd (filp_after v f) = tx_fd f" "filp_poll (filp_after v f) = filp_poll f"
  by (auto simp: filp_after_def Let_def flags)

lemma epoll_event_io:
  assumes "armed s a" and "fst k = 0"
  shows "aiocbs (io (epoll_event e (v, a, k) s)) = (aiocbs (io s))(a := filp_after v (filp s a))"
    and "refcnt (epoll_event e (v, a, k) s) e =
      refcnt s e - 1 + of_bool (has (filp_flags (filp_after v (filp s a))) (TX_POLLIN OR TX_POLLOUT))"
    and "kcalls (io (epoll_event e (v, a, k) s)) = kcalls (io s) @
      (if has (filp_flags (filp_after v (filp s a))) (TX_POLLIN OR TX_POLLOUT)
       then [EpollMod e (tx_fd (filp s a)) (wanted (epoll_event e (v, a, k) s) a) a] else [])"
    and "poll_ops (io (epoll_event e (v, a, k) s)) = poll_ops (io s)"
proof -
  define s1 where "s1 = upd_epoll e (\<lambda>p. p\<lparr>epoll_refcnt := epoll_refcnt p - 1\<rparr>) s"
  define s3 where "s3 = (if has v (EPOLLHUP OR EPOLLERR) then epoll_hup a s1
    else (let s2 = (if has v EPOLLOUT then epoll_out a s1 else s1) in if has v EPOLLIN then epoll_in a s2 else s2))"
  have R1: "aiocbs (io s1) = aiocbs (io s)" "refcnt s1 e = refcnt s e - 1" "kcalls (io s1) = kcalls (io s)"
    "poll_ops (io s1) = poll_ops (io s)" by (simp_all add: s1_def io_defs)
  have R3: "io s3 = (io s1)\<lparr>aiocbs := (aiocbs (io s))(a := filp_after v (filp s a))\<rparr>"
    by (simp add: s3_def epoll_event_parts filp_after_def R1 Let_def)
  have nohup: "\<not> has (filp_flags (filp_after v (filp s a))) (TX_POLLIN OR TX_POLLOUT)" if "has v (EPOLLHUP OR EPOLLERR)"
    using that by (auto simp: flags filp_after_reads)
  define g where "g = has (fl s3 a) (TX_POLLIN OR TX_POLLOUT)"
  have eq: "epoll_event e (v, a, k) s = (if g then tx_epoll_pollit e a k s3 else s3)"
  proof (cases "has v (EPOLLHUP OR EPOLLERR)")
    case True
    then have "\<not> g" using nohup by (simp add: g_def R3)
    with True show ?thesis by (simp add: epoll_event_def s1_def s3_def Let_def)
  next
    case False
    then show ?thesis unfolding g_def by (simp add: epoll_event_def s1_def s3_def Let_def)
  qed
  have b: "has (fl s3 a AND m) x = (fl s3 a AND m AND x \<noteq> 0)" for m x by (simp add: has_def and.assoc)
  have P: "aiocbs (io (tx_epoll_pollit e a k s3)) = aiocbs (io s3)"
    "refcnt (tx_epoll_pollit e a k s3) e = refcnt s3 e + 1"
    "kcalls (io (tx_epoll_pollit e a k s3)) = kcalls (io s3) @ [EpollMod e (tx_fd (filp s3 a)) (wanted s3 a) a]"
    "poll_ops (io (tx_epoll_pollit e a k s3)) = poll_ops (io s3)"
    using assms(2)
    by (simp_all add: tx_epoll_pollit_def epoll_ctl_def filp_defs io_defs Let_def or_and_same wanted_def has_def fun_eq_iff)
  have g: "g = has (filp_flags (filp_after v (filp s a))) (TX_POLLIN OR TX_POLLOUT)" by (simp add: g_def R3)
  show "aiocbs (io (epoll_event e (v, a, k) s)) = (aiocbs (io s))(a := filp_after v (filp s a))"
    by (simp add: eq P R3)
  then have "wanted (epoll_event e (v, a, k) s) a = wanted s3 a" by (simp add: wanted_def R3)
  then show "kcalls (io (epoll_event e (v, a, k) s)) = kcalls (io s) @
      (if has (filp_flags (filp_after v (filp s a))) (TX_POLLIN OR TX_POLLOUT)
       then [EpollMod e (tx_fd (filp s a)) (wanted (epoll_event e (v, a, k) s) a) a] else [])"
    by (simp add: g [symmetric]) (simp add: eq P R3 R1 filp_after_reads)
  show "refcnt (epoll_event e (v, a, k) s) e =
      refcnt s e - 1 + of_bool (has (filp_flags (filp_after v (filp s a))) (TX_POLLIN OR TX_POLLOUT))"
    by (simp add: eq P R3 R1 g)
  show "poll_ops (io (epoll_event e (v, a, k) s)) = poll_ops (io s)" by (simp add: eq P R3 R1)
qed

lemma epoll_event_tasks:
  assumes "waiters T A s" and "a \<in> A"
  shows "wakes (woken_by s v a) s (epoll_event e (v, a, k) s)" and "api_run T U s (epoll_event e (v, a, k) s)"
proof -
  define s1 where "s1 = upd_epoll e (\<lambda>p. p\<lparr>epoll_refcnt := epoll_refcnt p - 1\<rparr>) s"
  define s2 where "s2 = (if has v EPOLLOUT then epoll_out a s1 else s1)"
  define s3 where "s3 = (if has v EPOLLIN then epoll_in a s2 else s2)"
  have w1: "wakes {} s s1" and r1: "api_run T U s s1" and W1: "waiters T A s1" and F1: "filp s1 = filp s"
    using assms by (auto simp: s1_def upd_epoll_def waiters_def intro: wakes_upd_io api_run_io)
  have W2: "waiters T A s2" using W1 by (auto simp: s2_def waiters_def epoll_event_parts)
  have in2: "tx_filterin (filp s2 a) = tx_filterin (filp s a)" by (simp add: s2_def epoll_event_parts F1)
  have w2: "wakes (if has v EPOLLOUT then set_option (tx_filterout (filp s a)) else {}) s s2"
    using wakes_trans [OF w1 epoll_parts_wake(2) [of s1 a]] w1 by (simp add: s2_def F1)
  have w3: "wakes ((if has v EPOLLOUT then set_option (tx_filterout (filp s a)) else {}) \<union>
      (if has v EPOLLIN then set_option (tx_filterin (filp s a)) else {})) s s3"
    using wakes_trans [OF w2 epoll_parts_wake(3) [of s2 a]] w2 by (simp add: s3_def in2)
  have r3: "api_run T U s s3"
    using epoll_parts_run [OF W1 assms(2) r1] epoll_parts_run(3) [OF W2 assms(2)] r1 by (simp add: s3_def s2_def)
  have eq: "epoll_event e (v, a, k) s = (if has v (EPOLLHUP OR EPOLLERR) then epoll_hup a s1
    else if has (fl s3 a) (TX_POLLIN OR TX_POLLOUT) then tx_epoll_pollit e a k s3 else s3)"
    by (simp add: epoll_event_def s1_def s2_def s3_def Let_def)
  have pw: "wakes W s s3 \<Longrightarrow> wakes W s (tx_epoll_pollit e a k s3)" for W
    by (auto simp: tx_epoll_pollit_def epoll_ctl_def filp_upds Let_def intro!: wakes_upd_io)
  have pr: "api_run T U s (tx_epoll_pollit e a k s3)"
    using r3 by (auto simp: tx_epoll_pollit_def epoll_ctl_def Let_def intro!: api_run_filp)
  show "api_run T U s (epoll_event e (v, a, k) s)"
    using epoll_parts_run(1) [OF W1 assms(2) r1] r3 pr by (simp add: eq)
  show "wakes (woken_by s v a) s (epoll_event e (v, a, k) s)"
  proof (cases "has v (EPOLLHUP OR EPOLLERR)")
    case True
    then show ?thesis
      using wakes_trans [OF w1 epoll_parts_wake(1) [of s1 a]] by (auto simp: eq woken_by_def flags F1 intro: wakes_mono)
  next
    case False
    then have "woken_by s v a = (if has v EPOLLOUT then set_option (tx_filterout (filp s a)) else {}) \<union>
      (if has v EPOLLIN then set_option (tx_filterin (filp s a)) else {})" by (auto simp: woken_by_def flags)
    then show ?thesis using w3 pw [OF w3] False by (simp add: eq)
  qed
qed

lemma filp_after_kept:
  assumes "waiters T A s" and "polled_for A s"
    and io: "aiocbs (io s') = (aiocbs (io s))(a := filp_after v (filp s a))"
  shows "waiters T A s'" and "polled_for A s'"
  using assms by (auto simp: waiters_def polled_for_def io filp_after_reads)

lemma epoll_event_core:
  assumes core: "epoll_core e A s" and ev: "event_for A s (v, a, k)"
  shows "epoll_core e A (epoll_event e (v, a, k) s)"
proof -
  let ?s = "epoll_event e (v, a, k) s"
  have a: "a \<in> A" "armed s a" "attached s a" and k: "fst k = 0" using ev by (auto simp: event_for_def armed_def)
  note R = epoll_event_io [of s a k e v, OF a(2) k]
  have ar: "armed ?s a \<longleftrightarrow> has (filp_flags (filp_after v (filp s a))) (TX_POLLIN OR TX_POLLOUT)"
    using a(3) by (simp add: armed_def attached_def R(1) filp_after_reads)
  show ?thesis
  proof (rule epoll_core_change [OF core a(1)])
    show "refcnt ?s e = refcnt s e + of_bool (armed ?s a) - of_bool (armed s a)"
      using a(2) unfolding R(2) ar by simp
    show "epoll_interest (kcalls (io ?s)) e (tx_fd (filp s a)) = Some (wanted ?s a, a)" if "armed ?s a"
      using that unfolding R(3) ar by simp
    show "epoll_interest (kcalls (io ?s)) e fd = epoll_interest (kcalls (io s)) e fd" if "fd \<noteq> tx_fd (filp s a)" for fd
      using that unfolding R(3) by simp
    show "other_fds A a s \<or> kcalls (io ?s) = kcalls (io s) \<and> \<not> attached ?s a"
      using epoll_coreD(6) [OF core a(1,3)] by blast
  qed (simp_all add: R filp_after_reads)
qed

lemma epoll_events_spec:
  assumes "epoll_core e A s" and "waiters T A s" and "polled_for A s"
    and "\<forall>ev\<in>set evs. event_for A s ev" and "distinct (map (fst \<circ> snd) evs)"
  shows "epoll_core e A (fold (epoll_event e) evs s) \<and> waiters T A (fold (epoll_event e) evs s) \<and>
    polled_for A (fold (epoll_event e) evs s) \<and> api_run T U s (fold (epoll_event e) evs s) \<and>
    wakes (\<Union>(v, a, k)\<in>set evs. woken_by s v a) s (fold (epoll_event e) evs s) \<and>
    refcnt (fold (epoll_event e) evs s) e \<le> refcnt s e \<and>
    (\<forall>b. b \<notin> (fst \<circ> snd) ` set evs \<longrightarrow> filp (fold (epoll_event e) evs s) b = filp s b) \<and>
    (\<forall>(v, a, k)\<in>set evs. filp (fold (epoll_event e) evs s) a = filp_after v (filp s a))"
  using assms
proof (induction evs arbitrary: s)
  case Nil
  then show ?case by simp
next
  case (Cons ev evs)
  obtain v a k where ev: "ev = (v, a, k)" by (cases ev)
  let ?s = "epoll_event e ev s"
  have e: "event_for A s (v, a, k)" using Cons.prems(4) ev by simp
  then have a: "a \<in> A" "armed s a" and k: "fst k = 0" by (simp_all add: event_for_def)
  note R = epoll_event_io [of s a k e v, OF a(2) k]
  have keep: "filp ?s b = filp s b" if "b \<noteq> a" for b using that by (simp add: ev R(1))
  have rest: "fst (snd x) \<noteq> a" if "x \<in> set evs" for x using Cons.prems(5) that by (force simp: ev)
  have evs: "\<forall>x\<in>set evs. event_for A ?s x"
    using Cons.prems(4) rest keep by (fastforce simp: event_for_def armed_def attached_def split: prod.splits)
  note W = filp_after_kept [OF Cons.prems(2,3) R(1)]
  note T = epoll_event_tasks [where v = v and e = e and k = k, OF Cons.prems(2) a(1)]
  have IH: "epoll_core e A (fold (epoll_event e) evs ?s) \<and> waiters T A (fold (epoll_event e) evs ?s) \<and>
    polled_for A (fold (epoll_event e) evs ?s) \<and> api_run T U ?s (fold (epoll_event e) evs ?s) \<and>
    wakes (\<Union>(v, a, k)\<in>set evs. woken_by ?s v a) ?s (fold (epoll_event e) evs ?s) \<and>
    refcnt (fold (epoll_event e) evs ?s) e \<le> refcnt ?s e \<and>
    (\<forall>b. b \<notin> (fst \<circ> snd) ` set evs \<longrightarrow> filp (fold (epoll_event e) evs ?s) b = filp ?s b) \<and>
    (\<forall>(v, a, k)\<in>set evs. filp (fold (epoll_event e) evs ?s) a = filp_after v (filp ?s a))"
    using Cons.IH [of ?s] epoll_event_core [OF Cons.prems(1) e] W evs Cons.prems(5) by (simp add: ev)
  have wb: "woken_by ?s u b = woken_by s u b" if "b \<noteq> a" for u b
    by (simp add: woken_by_def keep [OF that])
  have ws: "(\<Union>(v, a, k)\<in>set evs. woken_by ?s v a) = (\<Union>(v, a, k)\<in>set evs. woken_by s v a)"
    by (rule SUP_cong) (use rest wb in \<open>force split: prod.splits\<close>)+
  have "wakes (\<Union>(v, a, k)\<in>set (ev # evs). woken_by s v a) s (fold (epoll_event e) (ev # evs) s)"
    using wakes_trans [OF T(1) [folded ev]] IH ws by (simp add: ev)
  moreover have "api_run T U s (fold (epoll_event e) (ev # evs) s)"
    using T(2) IH by (auto simp: ev intro: rtranclp_trans)
  moreover have "refcnt ?s e \<le> refcnt s e" by (simp add: ev R(2))
  moreover have "filp ?s a = filp_after v (filp s a)" by (simp add: ev R(1))
  moreover have "a \<notin> (fst \<circ> snd) ` set evs" using rest by auto
  moreover have "filp ?s (fst (snd x)) = filp s (fst (snd x))" if "x \<in> set evs" for x
    using keep rest that by blast
  ultimately show ?case using IH keep by (fastforce simp: ev)
qed

text \<open>
  What the kernel returns of \<open>epoll_wait\<close>: either it was interrupted, or events of armed descriptors,
  one for each at most; \<open>epoll_ctl\<close> on them then succeeds.
\<close>

definition epoll_answer :: "aiocb_p set \<Rightarrow> tx_mem \<Rightarrow> kres \<times> (u32 \<times> aiocb_p \<times> kres) list \<Rightarrow> bool" where
  "epoll_answer A s r \<longleftrightarrow> (case r of ((nfds, errno), evs) \<Rightarrow>
     nfds = -1 \<and> (errno = EAGAIN \<or> errno = EINTR) \<or>
     nfds = int (length evs) \<and> (\<forall>ev\<in>set evs. event_for A s ev) \<and> distinct (map (fst \<circ> snd) evs))"

definition epoll_delivered :: "kres \<times> (u32 \<times> aiocb_p \<times> kres) list \<Rightarrow> (u32 \<times> aiocb_p) set" where
  "epoll_delivered r = (if fst (fst r) = -1 then {} else (\<lambda>(v, a, k). (v, a)) ` set (snd r))"

lemma tx_epoll_polling_spec:
  assumes inv: "epoll_inv e T A s" and pf: "polled_for A s" and t: "PollTask (EpollTask e) \<in> T"
    and wait: "\<And>timeout. epoll_answer A s (wait timeout)"
  shows "\<exists>s' timeout. timeout \<in> {0, 10} \<and> tx_epoll_polling e wait s = Inr s' \<and>
    epoll_inv e T A s' \<and> polled_for A s' \<and> api_run T U s s' \<and>
    (\<forall>(v, a)\<in>epoll_delivered (wait timeout). filp s' a = filp_after v (filp s a) \<and>
       (\<forall>t\<in>woken_by s v a. busy s' t \<or> stopped s' (loop_of s' t))) \<and>
    (\<forall>b. b \<notin> snd ` epoll_delivered (wait timeout) \<longrightarrow> filp s' b = filp s b) \<and>
    (\<forall>up. tx_stop (loops s' up) = tx_stop (loops s up) \<and> tx_break (loops s' up) = tx_break (loops s up))"
proof -
  let ?p = "PollTask (EpollTask e)"
  define up where "up = loop_of s ?p"
  define timeout where "timeout = (if tx_loop_timeout up (VEpoll e) s \<noteq> 0 then 10 else 0 :: int)"
  obtain nfds errno evs0 where w: "wait timeout = ((nfds, errno), evs0)" by (metis prod.exhaust)
  define evs where "evs = take (nat nfds) evs0"
  define s1 where "s1 = fold (epoll_event e) evs s"
  define s2 where "s2 = (if tx_holder (loops s1 up) = VEpoll e \<and> refcnt s1 e = 0
    then upd_loop up (\<lambda>l. l\<lparr>tx_holder := VNull\<rparr>) s1 else s1)"
  have ans: "nfds = -1 \<and> (errno = EAGAIN \<or> errno = EINTR) \<or>
     nfds = int (length evs0) \<and> (\<forall>ev\<in>set evs0. event_for A s ev) \<and> distinct (map (fst \<circ> snd) evs0)"
    using wait [of timeout] by (simp add: w epoll_answer_def)
  have evs: "\<forall>ev\<in>set evs. event_for A s ev" "distinct (map (fst \<circ> snd) evs)"
    "epoll_delivered (wait timeout) = (\<lambda>(v, a, k). (v, a)) ` set evs"
    using ans by (auto simp: evs_def w epoll_delivered_def; force)+
  have eq: "tx_epoll_polling e wait s = Inr (tx_poll_active (EpollTask e) s2)"
    using ans
    by (auto simp: tx_epoll_polling_def tx_loop_get_def up_def [symmetric] timeout_def [symmetric] w Let_def
        evs_def [symmetric] s1_def [symmetric] s2_def)
  have core: "epoll_core e A s" and W: "waiters T A s" and H: "epoll_held e s" using inv by (simp_all add: epoll_inv_def)
  note F = epoll_events_spec [OF core W pf evs(1,2), where U = U, folded s1_def]
  have run1: "api_run T U s s1" and core1: "epoll_core e A s1" and pf1: "polled_for A s1" and W1: "waiters T A s1"
    and wk: "wakes (\<Union>(v, a, k)\<in>set evs. woken_by s v a) s s1" and le: "refcnt s1 e \<le> refcnt s e"
    and off: "\<And>b. b \<notin> (fst \<circ> snd) ` set evs \<Longrightarrow> filp s1 b = filp s b"
    and on: "\<And>v a k. (v, a, k) \<in> set evs \<Longrightarrow> filp s1 a = filp_after v (filp s a)"
    using F by auto
  have io: "io s2 = io s1" "tasks s2 = tasks s1" by (simp_all add: s2_def upd_loop_def)
  have lp: "loop_of s1 t = loop_of s t" for t using wk by (simp add: wakes_def)
  have b2: "busy s2 t = busy s1 t" for t by (simp add: busy_def io)
  have tell: "tx_stop (loops s2 l) = tx_stop (loops s l)" "tx_break (loops s2 l) = tx_break (loops s l)" for l
    using wk by (auto simp: s2_def upd_loop_def wakes_def)
  have held: "epoll_held e s2"
    using H wk le epoll_coreD(4) [OF core1] by (auto simp: epoll_held_def s2_def upd_loop_def up_def wakes_def)
  have "api_run T U s (tx_poll_active (EpollTask e) s2)"
    using run1 t by (auto simp: s2_def intro!: api_run_poll_active api_run_holder)
  moreover have "epoll_inv e T A (tx_poll_active (EpollTask e) s2)"
    using epoll_core_loops [OF core1, of "tx_poll_active (EpollTask e) s2"] W1 held
    by (simp add: epoll_inv_def io waiters_def epoll_held_def)
  moreover have "polled_for A (tx_poll_active (EpollTask e) s2)" using pf1 by (simp add: polled_for_def io)
  moreover have "\<forall>(v, a)\<in>epoll_delivered (wait timeout).
      filp (tx_poll_active (EpollTask e) s2) a = filp_after v (filp s a) \<and>
      (\<forall>t\<in>woken_by s v a. busy (tx_poll_active (EpollTask e) s2) t \<or>
         stopped (tx_poll_active (EpollTask e) s2) (loop_of (tx_poll_active (EpollTask e) s2) t))"
  proof (clarify, intro conjI ballI)
    fix v a assume "(v, a) \<in> epoll_delivered (wait timeout)"
    then obtain k where k: "(v, a, k) \<in> set evs" unfolding evs(3) by auto
    then show "filp (tx_poll_active (EpollTask e) s2) a = filp_after v (filp s a)" using on by (simp add: io)
    fix t assume "t \<in> woken_by s v a"
    then have "stopped s (loop_of s t) \<or> busy s1 t" using wk k by (auto simp: wakes_def)
    then show "busy (tx_poll_active (EpollTask e) s2) t \<or>
         stopped (tx_poll_active (EpollTask e) s2) (loop_of (tx_poll_active (EpollTask e) s2) t)"
      using lp by (auto simp: tx_poll_active_busy stopped_def tell b2 io)
  qed
  moreover have "\<forall>b. b \<notin> snd ` epoll_delivered (wait timeout) \<longrightarrow> filp (tx_poll_active (EpollTask e) s2) b = filp s b"
    using off unfolding evs(3) by (force simp: io)
  moreover have "\<forall>up. tx_stop (loops (tx_poll_active (EpollTask e) s2) up) = tx_stop (loops s up) \<and>
      tx_break (loops (tx_poll_active (EpollTask e) s2) up) = tx_break (loops s up)" by (simp add: tell)
  moreover have "timeout \<in> {0, 10}" by (simp add: timeout_def)
  ultimately show ?thesis using eq by (intro exI [of _ "tx_poll_active (EpollTask e) s2"] exI [of _ timeout] conjI)
qed

section \<open>The poller's interface\<close>

definition epoll_fns :: tx_poll_op where
  "epoll_fns = \<lparr>tx_sendout = None, tx_connect = None, tx_accept = None, tx_pollout = tx_epoll_pollout,
     tx_attach = tx_epoll_attach, tx_pollin = tx_epoll_pollin, tx_detach = tx_epoll_detach\<rparr>"

lemma epoll_inv_same_poll:
  assumes "epoll_inv e T A s" and "same_poll s s'" and "waiters T A s'"
  shows "epoll_inv e T A s'"
proof -
  from assms(2) obtain g where g: "io s' = (io s)\<lparr>aiocbs := g\<rparr>" "\<And>a. filp_core (g a) = filp_core (filp s a)"
    and lp: "\<And>up. tx_holder (loops s' up) = tx_holder (loops s up)" "\<And>t. loop_of s' t = loop_of s t"
    unfolding same_poll_def by blast
  have "filp_flags (filp_core (g a)) = fl s a" "tx_fd (filp_core (g a)) = tx_fd (filp s a)"
    "filp_poll (filp_core (g a)) = filp_poll (filp s a)" for a by (simp_all add: g(2), simp_all add: filp_core_def)
  then have "fl s' a = fl s a" "tx_fd (filp s' a) = tx_fd (filp s a)" "filp_poll (filp s' a) = filp_poll (filp s a)" for a
    by (simp_all add: g(1) filp_core_def)
  note eq = this
  have eq': "attached s' a = attached s a" "armed s' a = armed s a" "wanted s' a = wanted s a" for a
    by (simp_all add: attached_def armed_def wanted_def eq)
  have "epoll_core e A s'"
    using assms(1) unfolding epoll_inv_def epoll_core_def other_fds_def eq eq' by (simp add: g(1))
  moreover have "epoll_held e s'" using assms(1) by (simp add: epoll_inv_def epoll_held_def lp g(1))
  ultimately show ?thesis using assms(3) by (simp add: epoll_inv_def)
qed

interpretation epoll: poller epoll_fns EpollOps "epoll_inv e" "\<lambda>_. True" "\<lambda>k. fst (k 0) = 0" for e
proof
  fix T A s s' a k U
  show "epoll_inv e T A s \<Longrightarrow> same_poll s s' \<Longrightarrow> waiters T A s' \<Longrightarrow> epoll_inv e T A s'"
    by (rule epoll_inv_same_poll)
  show "epoll_inv e T A s \<Longrightarrow> a \<in> A \<Longrightarrow> ops_of s a = EpollOps"
    using epoll_coreD(2,3) [of e A s] by (simp add: epoll_inv_def)
  show "epoll_inv e T A s \<Longrightarrow> waiters T A s" by (simp add: epoll_inv_def)
  show "epoll_inv e T A s \<Longrightarrow> a \<in> A \<Longrightarrow> attached s a \<Longrightarrow>
      \<exists>s'. tx_pollin epoll_fns a k s = Inr s' \<and> epoll_inv e T A s' \<and> api_run T U s s' \<and>
        (fst (k 0) = 0 \<longrightarrow> aiocbs (io s') = (aiocbs (io s))(a := (filp s a)\<lparr>filp_flags := fl s a OR TX_POLLIN\<rparr>))"
    using tx_epoll_pollin_spec by (simp only: epoll_fns_def tx_poll_op.simps)
  show "epoll_inv e T A s \<Longrightarrow> a \<in> A \<Longrightarrow> attached s a \<Longrightarrow>
      \<exists>s'. tx_pollout epoll_fns a k s = Inr s' \<and> epoll_inv e T A s' \<and> api_run T U s s' \<and>
        (fst (k 0) = 0 \<longrightarrow> aiocbs (io s') = (aiocbs (io s))(a := (filp s a)\<lparr>filp_flags := fl s a OR TX_POLLOUT\<rparr>))"
    using tx_epoll_pollout_spec by (simp only: epoll_fns_def tx_poll_op.simps)
qed

end
