(* ===== verification/TxKqueue.thy ===== *)
theory TxKqueue
  imports TxFilp
begin

text \<open>
  The BSD poller, \<open>tx_kqueue.cpp\<close>. Readiness is asked for by filter, so its count (called \<open>epoll_refcnt\<close>
  there too) is the number of armed filters, not of armed blocks. As in the other pollers the kernel's
  answers are arguments and its successful requests are recorded.
\<close>

definition EVFILT_READ :: int where "EVFILT_READ = -1"
definition EVFILT_WRITE :: int where "EVFILT_WRITE = -2"

section \<open>Operations\<close>

definition kqueue_hold :: "kqueue_p \<Rightarrow> tx_mem \<Rightarrow> tx_mem" where
  "kqueue_hold q s =
     (if kqueue_refcnt (kqueues (io s) q) > 0 then
        let loop = tx_loop_get (PollTask (KqueuePoll q)) s in
        if tx_holder (loops s loop) = VNull
        then upd_loop loop (\<lambda>l. l\<lparr>tx_holder := VKqueue q\<rparr>) s else s
      else s)"

text \<open>The call that adds a filter, and what follows it.\<close>

definition kqueue_arm :: "kqueue_p \<Rightarrow> aiocb_p \<Rightarrow> bool \<Rightarrow> kres \<Rightarrow> tx_mem \<Rightarrow> tx_mem" where
  "kqueue_arm q a reading k s =
     (let error = fst k;
          s1 = (if error \<noteq> -1 then log_kcall (KeventAdd q (tx_fd (filp s a)) reading a) s else s);
          s2 = upd_kqueue q (\<lambda>p. p\<lparr>kqueue_refcnt := kqueue_refcnt p + of_bool (error \<noteq> -1)\<rparr>) s1
      in set_flags a (if error \<noteq> -1 then if reading then TX_POLLIN else TX_POLLOUT else 0) s2)"

definition tx_kqueue_pollout :: "aiocb_p \<Rightarrow> (nat \<Rightarrow> kres) \<Rightarrow> tx_mem \<Rightarrow> tx_mem res" where
  "tx_kqueue_pollout a k s =
     (case filp_poll (filp s a) of
        KqueuePoll q \<Rightarrow>
          if ops_of s a \<noteq> KqueueOps then Inl AssertFail
          else if \<not> has (fl s a) TX_POLLOUT then
            if fl s a AND (TX_ATTACHED OR TX_DETACHED) \<noteq> TX_ATTACHED then Inl AssertFail
            else Inr (kqueue_hold q (kqueue_arm q a False (k 0) s))
          else Inr (kqueue_hold q s)
      | _ \<Rightarrow> Inl AssertFail)"

definition tx_kqueue_attach :: "aiocb_p \<Rightarrow> (nat \<Rightarrow> kres) \<Rightarrow> tx_mem \<Rightarrow> tx_mem res" where
  "tx_kqueue_attach a k s =
     (case filp_poll (filp s a) of
        KqueuePoll q \<Rightarrow>
          if ops_of s a \<noteq> KqueueOps then Inl AssertFail
          else
            let flags = TX_ATTACHED OR TX_DETACHED; tflag = fl s a AND flags in
            if tflag = 0 \<or> tflag = flags
            then Inr (clear_flags a TX_DETACHED (set_flags a TX_ATTACHED s))
            else Inr s
      | _ \<Rightarrow> Inl AssertFail)"

definition tx_kqueue_pollin :: "aiocb_p \<Rightarrow> (nat \<Rightarrow> kres) \<Rightarrow> tx_mem \<Rightarrow> tx_mem res" where
  "tx_kqueue_pollin a k s =
     (case filp_poll (filp s a) of
        KqueuePoll q \<Rightarrow>
          if ops_of s a \<noteq> KqueueOps then Inl AssertFail
          else if \<not> has (fl s a) TX_POLLIN then
            if fl s a AND (TX_ATTACHED OR TX_DETACHED) \<noteq> TX_ATTACHED then Inl AssertFail
            else Inr (kqueue_hold q (kqueue_arm q a True (k 0) s))
          else Inr (kqueue_hold q s)
      | _ \<Rightarrow> Inl AssertFail)"

text \<open>The deletions asked for, in the order of the array \<open>events\<close>; \<open>True\<close> is \<open>EVFILT_READ\<close>.\<close>

definition kqueue_deletes :: "u32 \<Rightarrow> bool list" where
  "kqueue_deletes f = (if has f TX_POLLIN then [True] else []) @ (if has f TX_POLLOUT then [False] else [])"

definition tx_kqueue_detach :: "aiocb_p \<Rightarrow> (nat \<Rightarrow> kres) \<Rightarrow> tx_mem \<Rightarrow> tx_mem res" where
  "tx_kqueue_detach a k s =
     (case filp_poll (filp s a) of
        KqueuePoll q \<Rightarrow>
          if ops_of s a \<noteq> KqueueOps then Inl AssertFail
          else
            let s1 = (if fl s a AND (TX_ATTACHED OR TX_DETACHED) = TX_ATTACHED then
                        let del = kqueue_deletes (fl s a);
                            error = (if del \<noteq> [] then fst (k 0) else 0);
                            s0 = (if del \<noteq> [] \<and> error \<noteq> -1
                                  then log_kcall (KeventDel q (tx_fd (filp s a)) del a) s else s)
                        in set_flags a (if error \<noteq> -1 then TX_DETACHED else 0) s0
                      else s)
            in if has (fl s1 a) (TX_POLLIN OR TX_POLLOUT) then
                 let loop = tx_loop_get (PollTask (KqueuePoll q)) s1;
                     s2 = upd_kqueue q (\<lambda>p. p\<lparr>kqueue_refcnt := kqueue_refcnt p - 1\<rparr>) s1
                 in if tx_holder (loops s2 loop) = VKqueue q \<and> kqueue_refcnt (kqueues (io s2) q) = 0
                    then Inr (upd_loop loop (\<lambda>l. l\<lparr>tx_holder := VNull\<rparr>) s2) else Inr s2
               else Inr s1
      | _ \<Rightarrow> Inl AssertFail)"

text \<open>One event: its filter and its \<open>udata\<close>.\<close>

definition kqueue_in :: "aiocb_p \<Rightarrow> tx_mem \<Rightarrow> tx_mem" where
  "kqueue_in a s =
     (let s1 = tx_task_active (tx_filterin (filp s a)) (VAiocb a) s;
          s2 = set_flags a TX_READABLE s1;
          s3 = clear_in a s2
      in clear_flags a TX_POLLIN s3)"

definition kqueue_out :: "aiocb_p \<Rightarrow> tx_mem \<Rightarrow> tx_mem" where
  "kqueue_out a s =
     (let s1 = tx_task_active (tx_filterout (filp s a)) (VAiocb a) s;
          s2 = set_flags a TX_WRITABLE s1;
          s3 = clear_out a s2
      in clear_flags a TX_POLLOUT s3)"

definition kqueue_event :: "kqueue_p \<Rightarrow> int \<times> aiocb_p \<Rightarrow> tx_mem \<Rightarrow> tx_mem" where
  "kqueue_event q ev s =
     (let (filter, a) = ev;
          s1 = upd_kqueue q (\<lambda>p. p\<lparr>kqueue_refcnt := kqueue_refcnt p - 1\<rparr>) s
      in if filter = EVFILT_READ then kqueue_in a s1
         else if filter = EVFILT_WRITE then kqueue_out a s1 else s1)"

text \<open>\<open>wait ms\<close> is what \<open>kevent\<close> returns within that time: \<open>nfds\<close> and the events.\<close>

definition tx_kqueue_polling :: "kqueue_p \<Rightarrow> (int \<Rightarrow> int \<times> (int \<times> aiocb_p) list) \<Rightarrow> tx_mem \<Rightarrow> tx_mem res" where
  "tx_kqueue_polling q wait s =
     (let loop = tx_loop_get (PollTask (KqueuePoll q)) s;
          timeout = tx_loop_timeout loop (VKqueue q) s;
          (nfds, events) = wait (if timeout \<noteq> 0 then 10 else 0)
      in if nfds = -1 then Inl PanicExit
         else
           let s1 = fold (kqueue_event q) (take (nat nfds) events) s;
               s2 = (if tx_holder (loops s1 loop) = VKqueue q \<and> kqueue_refcnt (kqueues (io s1) q) = 0
                     then upd_loop loop (\<lambda>l. l\<lparr>tx_holder := VNull\<rparr>) s1 else s1)
           in Inr (tx_poll_active (KqueuePoll q) s2))"

definition tx_kqueue_new :: "kqueue_p option \<Rightarrow> int \<Rightarrow> loop_p \<Rightarrow> tx_mem \<Rightarrow> poll_p option \<times> tx_mem" where
  "tx_kqueue_new malloc fd loop s =
     (case malloc of
        Some q \<Rightarrow>
          if fd \<noteq> -1 then
            let s1 = tx_poll_init (KqueuePoll q) loop KqueuePolling (VKqueue q) s;
                s2 = tx_poll_active (KqueuePoll q) s1;
                s3 = upd_io (\<lambda>i. i\<lparr>poll_ops := (poll_ops i)(KqueuePoll q := KqueueOps)\<rparr>) s2;
                s4 = upd_loop loop (\<lambda>l. l\<lparr>tx_poller := Some (KqueuePoll q)\<rparr>) s3;
                s5 = upd_kqueue q (\<lambda>p. p\<lparr>kqueue_refcnt := 0\<rparr>) s4
            in (Some (KqueuePoll q), upd_kqueue q (\<lambda>p. p\<lparr>kqueue_fd := fd\<rparr>) s5)
          else (None, s)
      | None \<Rightarrow> (None, s))"

definition kqueue_search ::
    "kqueue_p option \<Rightarrow> int \<Rightarrow> loop_p \<Rightarrow> tx_mem \<Rightarrow> (poll_p option \<times> tx_mem) option" where
  "kqueue_search malloc fd loop s =
     map_option (\<lambda>found. case found of
         Some np \<Rightarrow> (poll_container_of np, s)
       | None \<Rightarrow> tx_kqueue_new malloc fd loop s)
       (list_search (le_next (tq s)) (\<lambda>np. task_call (tasks s np) = KqueuePolling)
         (lh_first (tq s) (LoopQ loop)))"

definition tx_kqueue_init ::
    "kqueue_p option \<Rightarrow> int \<Rightarrow> loop_p \<Rightarrow> tx_mem \<Rightarrow> (poll_p option \<times> tx_mem) option" where
  "tx_kqueue_init malloc fd loop s =
     (case tx_poller (loops s loop) of
        Some p \<Rightarrow> if poll_ops (io s) p = KqueueOps then Some (Some p, s) else kqueue_search malloc fd loop s
      | None \<Rightarrow> kqueue_search malloc fd loop s)"

section \<open>The invariant\<close>

text \<open>The block whose filter the kernel watches on a descriptor.\<close>

fun kq_apply :: "kqueue_p \<Rightarrow> int \<Rightarrow> bool \<Rightarrow> kcall \<Rightarrow> aiocb_p option \<Rightarrow> aiocb_p option" where
  "kq_apply q fd b (KeventAdd q' fd' b' a) r = (if q' = q \<and> fd' = fd \<and> b' = b then Some a else r)"
| "kq_apply q fd b (KeventDel q' fd' bs a) r = (if q' = q \<and> fd' = fd \<and> b \<in> set bs then None else r)"
| "kq_apply q fd b _ r = r"

definition kq_watched :: "kcall list \<Rightarrow> kqueue_p \<Rightarrow> int \<Rightarrow> bool \<Rightarrow> aiocb_p option" where
  "kq_watched cs q fd b = fold (kq_apply q fd b) cs None"

lemma kq_watched_snoc [simp]: "kq_watched (cs @ [c]) q fd b = kq_apply q fd b c (kq_watched cs q fd b)"
  by (simp add: kq_watched_def)

abbreviation kq_refcnt :: "tx_mem \<Rightarrow> kqueue_p \<Rightarrow> int" where
  "kq_refcnt s q \<equiv> kqueue_refcnt (kqueues (io s) q)"

definition armed_for :: "tx_mem \<Rightarrow> bool \<Rightarrow> aiocb_p \<Rightarrow> bool" where
  "armed_for s b a \<longleftrightarrow> attached s a \<and> has (fl s a) (if b then TX_POLLIN else TX_POLLOUT)"

definition kq_core :: "kqueue_p \<Rightarrow> aiocb_p set \<Rightarrow> tx_mem \<Rightarrow> bool" where
  "kq_core q A s \<longleftrightarrow>
     finite A \<and> poll_ops (io s) (KqueuePoll q) = KqueueOps \<and> (\<forall>a\<in>A. filp_poll (filp s a) = KqueuePoll q) \<and>
     kq_refcnt s q = int (card {a\<in>A. armed_for s True a}) + int (card {a\<in>A. armed_for s False a}) \<and>
     (\<forall>a\<in>A. \<forall>b. armed_for s b a \<longrightarrow> kq_watched (kcalls (io s)) q (tx_fd (filp s a)) b = Some a) \<and>
     (\<forall>a\<in>A. attached s a \<longrightarrow> other_fds A a s)"

definition kq_held :: "kqueue_p \<Rightarrow> tx_mem \<Rightarrow> bool" where
  "kq_held q s \<longleftrightarrow> (holder s (KqueuePoll q) = VKqueue q \<longrightarrow> kq_refcnt s q > 0) \<and>
     (kq_refcnt s q > 0 \<longrightarrow> holder s (KqueuePoll q) \<noteq> VNull)"

definition kq_inv :: "kqueue_p \<Rightarrow> task_p set \<Rightarrow> aiocb_p set \<Rightarrow> tx_mem \<Rightarrow> bool" where
  "kq_inv q T A s \<longleftrightarrow> kq_core q A s \<and> kq_held q s \<and> waiters T A s"

lemma kq_coreD:
  assumes "kq_core q A s"
  shows "finite A" "poll_ops (io s) (KqueuePoll q) = KqueueOps" "\<And>a. a \<in> A \<Longrightarrow> filp_poll (filp s a) = KqueuePoll q"
    "kq_refcnt s q = int (card {a\<in>A. armed_for s True a}) + int (card {a\<in>A. armed_for s False a})"
    "\<And>a b. a \<in> A \<Longrightarrow> armed_for s b a \<Longrightarrow> kq_watched (kcalls (io s)) q (tx_fd (filp s a)) b = Some a"
    "\<And>a. a \<in> A \<Longrightarrow> attached s a \<Longrightarrow> other_fds A a s"
  using assms unfolding kq_core_def by blast+

lemma kq_core_change:
  assumes core: "kq_core q A s" and a: "a \<in> A"
    and filps: "\<And>b. b \<noteq> a \<Longrightarrow> filp s' b = filp s b" "tx_fd (filp s' a) = tx_fd (filp s a)"
      "filp_poll (filp s' a) = filp_poll (filp s a)" and ops: "poll_ops (io s') = poll_ops (io s)"
    and cnt: "kq_refcnt s' q = kq_refcnt s q + of_bool (armed_for s' True a) + of_bool (armed_for s' False a)
      - of_bool (armed_for s True a) - of_bool (armed_for s False a)"
    and own: "\<And>b. armed_for s' b a \<Longrightarrow> kq_watched (kcalls (io s')) q (tx_fd (filp s a)) b = Some a"
    and others: "\<And>fd b. fd \<noteq> tx_fd (filp s a) \<Longrightarrow>
      kq_watched (kcalls (io s')) q fd b = kq_watched (kcalls (io s)) q fd b"
    and fds: "other_fds A a s"
  shows "kq_core q A s'"
proof -
  note D = kq_coreD [OF core]
  have same: "attached s' b = attached s b" "armed_for s' x b = armed_for s x b" if "b \<noteq> a" for b x
    using filps(1) [OF that] by (simp_all add: attached_def armed_for_def)
  have "int (card {b\<in>A. armed_for s' x b}) =
      int (card {b\<in>A. armed_for s x b}) + of_bool (armed_for s' x a) - of_bool (armed_for s x a)" for x
    by (rule card_toggle [OF D(1) a]) (simp add: same)
  then have c: "kq_refcnt s' q = int (card {b\<in>A. armed_for s' True b}) + int (card {b\<in>A. armed_for s' False b})"
    using cnt D(4) by simp
  have p: "filp_poll (filp s' b) = KqueuePoll q" if "b \<in> A" for b
    using D(3) [OF that] filps by (cases "b = a") auto
  have i: "kq_watched (kcalls (io s')) q (tx_fd (filp s' b)) x = Some b" if "b \<in> A" "armed_for s' x b" for b x
  proof (cases "b = a")
    case True
    then show ?thesis using own that filps(2) by simp
  next
    case False
    then have b: "armed_for s x b" "attached s b" using that same by (auto simp: armed_for_def)
    then have "tx_fd (filp s b) \<noteq> tx_fd (filp s a)" using fds that(1) False by (auto simp: other_fds_def)
    then show ?thesis using D(5) [OF that(1) b(1)] others False by (simp add: filps(1))
  qed
  have f: "other_fds A b s'" if "b \<in> A" "attached s' b" for b
  proof (cases "b = a")
    case True
    then show ?thesis using fds that filps same by (auto simp: other_fds_def)
  next
    case False
    then have "other_fds A b s" using D(6) that same by simp
    with fds that False show ?thesis
      unfolding other_fds_def using filps same by (metis (full_types))
  qed
  from D(1,2) c p i f show ?thesis by (simp add: kq_core_def ops)
qed

section \<open>Asking for readiness\<close>

lemma kq_core_loops: "kq_core q A s \<Longrightarrow> io s' = io s \<Longrightarrow> kq_core q A s'"
  by (simp add: kq_core_def armed_for_def attached_def other_fds_def)

lemma kqueue_hold_io [simp]: "io (kqueue_hold q s) = io s" "loop_of (kqueue_hold q s) t = loop_of s t"
  by (simp_all add: kqueue_hold_def Let_def upd_loop_def)

lemma kqueue_hold_held:
  assumes "holder s (KqueuePoll q) = VKqueue q \<Longrightarrow> kq_refcnt s q > 0"
  shows "kq_held q (kqueue_hold q s)"
  using assms by (auto simp: kq_held_def kqueue_hold_def tx_loop_get_def Let_def upd_loop_def)

lemma kqueue_hold_run: "api_run T U s s' \<Longrightarrow> api_run T U s (kqueue_hold q s')"
  unfolding kqueue_hold_def Let_def by (auto intro: api_run_holder)

lemma kqueue_arm_reads:
  "aiocbs (io (kqueue_arm q a b k s)) = (aiocbs (io s))(a := (filp s a)
     \<lparr>filp_flags := fl s a OR (if fst k \<noteq> -1 then if b then TX_POLLIN else TX_POLLOUT else 0)\<rparr>)"
  "poll_ops (io (kqueue_arm q a b k s)) = poll_ops (io s)"
  "kq_refcnt (kqueue_arm q a b k s) q = kq_refcnt s q + of_bool (fst k \<noteq> -1)"
  "kcalls (io (kqueue_arm q a b k s)) = kcalls (io s) @
     (if fst k \<noteq> -1 then [KeventAdd q (tx_fd (filp s a)) b a] else [])"
  "loops (kqueue_arm q a b k s) = loops s" "tasks (kqueue_arm q a b k s) = tasks s"
  by (auto simp: kqueue_arm_def filp_defs io_defs Let_def fun_eq_iff)

lemma kqueue_arm_run: "api_run T U s (kqueue_arm q a b k s)"
  by (auto simp: kqueue_arm_def Let_def intro!: api_run_filp)

lemma kq_inv_hold:
  assumes "kq_core q A s" and "waiters T A s" and "holder s (KqueuePoll q) = VKqueue q \<Longrightarrow> kq_refcnt s q > 0"
  shows "kq_inv q T A (kqueue_hold q s)"
  using kq_core_loops [OF assms(1)] kqueue_hold_held [OF assms(3)] assms(2) by (simp add: kq_inv_def waiters_def)

lemma kq_inv_arm:
  assumes inv: "kq_inv q T A s" and a: "a \<in> A" "attached s a"
    and new: "\<not> has (fl s a) (if b then TX_POLLIN else TX_POLLOUT)"
  shows "kq_inv q T A (kqueue_hold q (kqueue_arm q a b k s))"
proof (rule kq_inv_hold)
  let ?s = "kqueue_arm q a b k s"
  have core: "kq_core q A s" using inv by (simp add: kq_inv_def)
  note R = kqueue_arm_reads [of q a b k s]
  show "kq_core q A ?s"
  proof (rule kq_core_change [OF core a(1)])
    show "kq_refcnt ?s q = kq_refcnt s q + of_bool (armed_for ?s True a) + of_bool (armed_for ?s False a)
      - of_bool (armed_for s True a) - of_bool (armed_for s False a)"
      using a(2) new by (cases b) (auto simp: kqueue_arm_reads armed_for_def attached_def flags)
    show "kq_watched (kcalls (io ?s)) q (tx_fd (filp s a)) c = Some a" if "armed_for ?s c a" for c
      using that kq_coreD(5) [OF core a(1), of c] a(2)
      by (cases b; cases c) (auto simp: kqueue_arm_reads armed_for_def attached_def flags split: if_splits)
  qed (use kq_coreD(6) [OF core a] in \<open>auto simp: R\<close>)
  show "waiters T A ?s" using inv by (auto simp: kq_inv_def waiters_def R)
  show "holder ?s (KqueuePoll q) = VKqueue q \<Longrightarrow> kq_refcnt ?s q > 0"
    using inv by (auto simp: kq_inv_def kq_held_def R)
qed

lemma tx_kqueue_poll_spec:
  assumes inv: "kq_inv q T A s" and a: "a \<in> A" "attached s a"
    and op: "op = (if b then tx_kqueue_pollin else tx_kqueue_pollout)" and m: "m = (if b then TX_POLLIN else TX_POLLOUT)"
  shows "\<exists>s'. op a k s = Inr s' \<and> kq_inv q T A s' \<and> api_run T U s s' \<and>
    (fst (k 0) \<noteq> -1 \<longrightarrow> aiocbs (io s') = (aiocbs (io s))(a := (filp s a)\<lparr>filp_flags := fl s a OR m\<rparr>))"
proof -
  have core: "kq_core q A s" and W: "waiters T A s" and H: "kq_held q s" using inv by (simp_all add: kq_inv_def)
  note D = kq_coreD [OF core]
  have p: "filp_poll (filp s a) = KqueuePoll q" "poll_ops (io s) (KqueuePoll q) = KqueueOps" using D(2,3) a(1) by simp_all
  show ?thesis
  proof (cases "has (fl s a) m")
    case True
    then have "op a k s = Inr (kqueue_hold q s)"
      by (cases b) (simp_all add: op m tx_kqueue_pollin_def tx_kqueue_pollout_def p)
    moreover have "fl s a OR m = fl s a"
      using True or_flag_idem [of "fl s a" 1] or_flag_idem [of "fl s a" 2] by (cases b) (simp_all add: m flag_powers)
    moreover have "kq_inv q T A (kqueue_hold q s)" by (rule kq_inv_hold [OF core W]) (use H in \<open>simp add: kq_held_def\<close>)
    ultimately show ?thesis using kqueue_hold_run [of T U s s q] by simp
  next
    case False
    have eq: "op a k s = Inr (kqueue_hold q (kqueue_arm q a b (k 0) s))"
      using False a(2) p
      by (cases b) (simp_all add: op m tx_kqueue_pollin_def tx_kqueue_pollout_def attached_def flags)
    show ?thesis
      using kq_inv_arm [OF inv a, of b "k 0"] False eq kqueue_hold_run [OF kqueue_arm_run]
      by (auto simp: m kqueue_arm_reads)
  qed
qed

section \<open>Attaching and detaching\<close>

lemma tx_kqueue_attach_spec:
  assumes inv: "kq_inv q T A s" and a: "a \<in> A" and new: "has (fl s a) TX_ATTACHED \<longleftrightarrow> has (fl s a) TX_DETACHED"
    and quiet: "\<not> has (fl s a) TX_POLLIN" "\<not> has (fl s a) TX_POLLOUT" and fd: "other_fds A a s"
  shows "\<exists>s'. tx_kqueue_attach a k s = Inr s' \<and> kq_inv q T A s' \<and> api_run T U s s' \<and> attached s' a \<and>
    (\<forall>b. b \<noteq> a \<longrightarrow> filp s' b = filp s b)"
proof -
  have core: "kq_core q A s" using inv by (simp add: kq_inv_def)
  note D = kq_coreD [OF core]
  have p: "filp_poll (filp s a) = KqueuePoll q" "poll_ops (io s) (KqueuePoll q) = KqueueOps" using D(2,3) a(1) by simp_all
  define s' where "s' = clear_flags a TX_DETACHED (set_flags a TX_ATTACHED s)"
  have eq: "tx_kqueue_attach a k s = Inr s'" using new p by (auto simp: tx_kqueue_attach_def s'_def Let_def flags)
  have R: "aiocbs (io s') = (aiocbs (io s))(a := (filp s a)\<lparr>filp_flags := (fl s a OR TX_ATTACHED) AND NOT TX_DETACHED\<rparr>)"
    "kq_refcnt s' q = kq_refcnt s q" "loops s' = loops s" "tasks s' = tasks s" "poll_ops (io s') = poll_ops (io s)"
    "kcalls (io s') = kcalls (io s)"
    by (simp_all add: s'_def filp_defs io_defs)
  have off: "\<not> armed_for s b a" "\<not> armed_for s' b a" for b using quiet by (cases b; simp add: armed_for_def R flags)+
  have "kq_core q A s'" by (rule kq_core_change [OF core a]) (use off fd in \<open>auto simp: R\<close>)
  moreover have "waiters T A s'" "kq_held q s'"
    using inv by (auto simp: kq_inv_def waiters_def kq_held_def R)
  moreover have "api_run T U s s'" by (simp add: s'_def api_run_filp)
  moreover have "attached s' a" by (simp add: attached_def R flags)
  ultimately show ?thesis using eq by (simp add: kq_inv_def R)
qed

text \<open>Detaching keeps the count right when not both filters are armed.\<close>

lemma tx_kqueue_detach_spec:
  assumes inv: "kq_inv q T A s" and a: "a \<in> A" "attached s a" and k: "fst (k 0) \<noteq> -1"
    and one: "\<not> (has (fl s a) TX_POLLIN \<and> has (fl s a) TX_POLLOUT)"
  shows "\<exists>s'. tx_kqueue_detach a k s = Inr s' \<and> kq_inv q T A s' \<and> api_run T U s s' \<and> \<not> attached s' a \<and>
    (\<forall>b. b \<noteq> a \<longrightarrow> filp s' b = filp s b)"
proof -
  have core: "kq_core q A s" using inv by (simp add: kq_inv_def)
  note D = kq_coreD [OF core]
  have p: "filp_poll (filp s a) = KqueuePoll q" "poll_ops (io s) (KqueuePoll q) = KqueueOps" using D(2,3) a(1) by simp_all
  let ?up = "loop_of s (PollTask (KqueuePoll q))"
  define g where "g = has (fl s a) (TX_POLLIN OR TX_POLLOUT)"
  have del: "kqueue_deletes (fl s a) \<noteq> [] \<longleftrightarrow> g" by (auto simp: kqueue_deletes_def g_def flags)
  define s1 where "s1 = set_flags a TX_DETACHED
    (if g then log_kcall (KeventDel q (tx_fd (filp s a)) (kqueue_deletes (fl s a)) a) s else s)"
  define s2 where "s2 = (if g then upd_kqueue q (\<lambda>p. p\<lparr>kqueue_refcnt := kqueue_refcnt p - 1\<rparr>) s1 else s1)"
  define s' where "s' = (if g \<and> tx_holder (loops s ?up) = VKqueue q \<and> kq_refcnt s2 q = 0
    then upd_loop ?up (\<lambda>l. l\<lparr>tx_holder := VNull\<rparr>) s2 else s2)"
  have R1: "aiocbs (io s1) = (aiocbs (io s))(a := (filp s a)\<lparr>filp_flags := fl s a OR TX_DETACHED\<rparr>)"
    "kq_refcnt s1 q = kq_refcnt s q" "loops s1 = loops s" "tasks s1 = tasks s" "poll_ops (io s1) = poll_ops (io s)"
    "kcalls (io s1) = kcalls (io s) @
       (if g then [KeventDel q (tx_fd (filp s a)) (kqueue_deletes (fl s a)) a] else [])"
    by (simp_all add: s1_def filp_defs io_defs fun_eq_iff)
  have R2: "aiocbs (io s2) = aiocbs (io s1)" "kq_refcnt s2 q = kq_refcnt s q - of_bool g" "loops s2 = loops s"
    "tasks s2 = tasks s" "poll_ops (io s2) = poll_ops (io s)" "kcalls (io s2) = kcalls (io s1)"
    by (simp_all add: s2_def io_defs R1)
  have io': "io s' = io s2" "loop_of s' t = loop_of s t" for t by (simp_all add: s'_def upd_loop_def R2)
  have "has (fl s1 a) (TX_POLLIN OR TX_POLLOUT) = g" by (auto simp: R1 g_def flags)
  moreover have "(let del = kqueue_deletes (fl s a); error = (if del \<noteq> [] then fst (k 0) else 0);
      s0 = (if del \<noteq> [] \<and> error \<noteq> -1 then log_kcall (KeventDel q (tx_fd (filp s a)) del a) s else s)
      in set_flags a (if error \<noteq> -1 then TX_DETACHED else 0) s0) = s1"
    using k del by (simp add: s1_def Let_def)
  ultimately have eq: "tx_kqueue_detach a k s = Inr s'"
    using a(2) p
    by (simp add: tx_kqueue_detach_def attached_def flags s'_def s2_def Let_def tx_loop_get_def R1 R2 upd_kqueue_def)
  have run: "api_run T U s s'" unfolding s'_def s2_def s1_def by (auto intro!: api_run_filp api_run_holder)
  have at: "\<not> attached s2 a" by (simp add: attached_def R2 R1 flags)
  have off: "\<not> armed_for s2 b a" for b using at by (simp add: armed_for_def)
  have "of_bool g = (of_bool (armed_for s True a) + of_bool (armed_for s False a) :: int)"
    using one a(2) by (auto simp: g_def armed_for_def flags)
  then have "kq_core q A s2"
    by (intro kq_core_change [OF core a(1)]) (use off D(6) [OF a] in \<open>auto simp: R2 R1\<close>)
  then have "kq_core q A s'" by (rule kq_core_loops) (simp add: io')
  moreover have "waiters T A s'" using inv by (auto simp: kq_inv_def waiters_def io' R2 R1)
  moreover have "kq_held q s'"
    using inv by (auto simp: kq_inv_def kq_held_def io' R2 s'_def upd_loop_def)
  ultimately show ?thesis
    using eq run at by (simp add: kq_inv_def attached_def io' R2 R1)
qed

section \<open>Polling\<close>

lemma kqueue_event_parts:
  "io (kqueue_in a s) = (io s)\<lparr>aiocbs := (aiocbs (io s))(a := (filp s a)
     \<lparr>tx_filterin := None, filp_flags := (fl s a OR TX_READABLE) AND NOT TX_POLLIN\<rparr>)\<rparr>"
  "io (kqueue_out a s) = (io s)\<lparr>aiocbs := (aiocbs (io s))(a := (filp s a)
     \<lparr>tx_filterout := None, filp_flags := (fl s a OR TX_WRITABLE) AND NOT TX_POLLOUT\<rparr>)\<rparr>"
  by (simp_all add: kqueue_in_def kqueue_out_def filp_upds Let_def)

lemma kqueue_parts_wake:
  "wakes (set_option (tx_filterin (filp s a))) s (kqueue_in a s)"
  "wakes (set_option (tx_filterout (filp s a))) s (kqueue_out a s)"
  unfolding kqueue_in_def kqueue_out_def Let_def filp_upds
  by (rule wakes_mono, (rule wakes_upd_io wakes_active wakes_refl)+, force)+

lemma kqueue_parts_run:
  assumes "waiters T A s" and "a \<in> A" and "api_run T U s0 s"
  shows "api_run T U s0 (kqueue_in a s)" "api_run T U s0 (kqueue_out a s)"
  unfolding kqueue_in_def kqueue_out_def Let_def filp_upds
  by (intro api_run_io api_run_active assms(3); use assms in \<open>simp add: waiters_def\<close>)+

text \<open>The kernel only reports filters it watches.\<close>

definition kq_event_for :: "aiocb_p set \<Rightarrow> tx_mem \<Rightarrow> int \<times> aiocb_p \<Rightarrow> bool" where
  "kq_event_for A s ev \<longleftrightarrow> (case ev of (f, a) \<Rightarrow> a \<in> A \<and>
     (f = EVFILT_READ \<and> armed_for s True a \<or> f = EVFILT_WRITE \<and> armed_for s False a))"

text \<open>The half of a block that is for reading, and that for writing.\<close>

definition half :: "tx_mem \<Rightarrow> int \<Rightarrow> aiocb_p \<Rightarrow> task_p option \<times> bool \<times> bool" where
  "half s f a = (if f = EVFILT_READ
     then (tx_filterin (filp s a), has (fl s a) TX_POLLIN, has (fl s a) TX_READABLE)
     else (tx_filterout (filp s a), has (fl s a) TX_POLLOUT, has (fl s a) TX_WRITABLE))"

lemma filters_differ [simp]: "EVFILT_READ \<noteq> EVFILT_WRITE" "EVFILT_WRITE \<noteq> EVFILT_READ"
  by (simp_all add: EVFILT_READ_def EVFILT_WRITE_def)

lemma kqueue_event_reads:
  assumes "f = EVFILT_READ \<or> f = EVFILT_WRITE"
  shows "\<And>b. b \<noteq> a \<Longrightarrow> filp (kqueue_event q (f, a) s) b = filp s b"
    and "tx_fd (filp (kqueue_event q (f, a) s) a) = tx_fd (filp s a)"
    and "filp_poll (filp (kqueue_event q (f, a) s) a) = filp_poll (filp s a)"
    and "poll_ops (io (kqueue_event q (f, a) s)) = poll_ops (io s)"
    and "kcalls (io (kqueue_event q (f, a) s)) = kcalls (io s)"
    and "kq_refcnt (kqueue_event q (f, a) s) q = kq_refcnt s q - 1"
    and "attached (kqueue_event q (f, a) s) b = attached s b"
    and "half (kqueue_event q (f, a) s) f a = (None, False, True)"
    and "g \<in> {EVFILT_READ, EVFILT_WRITE} \<Longrightarrow> (g, b) \<noteq> (f, a) \<Longrightarrow>
      half (kqueue_event q (f, a) s) g b = half s g b"
  using assms
  by (auto simp: kqueue_event_def kqueue_event_parts upd_kqueue_def half_def attached_def flags split: if_split_asm)

lemma kqueue_event_tasks:
  assumes "f = EVFILT_READ \<or> f = EVFILT_WRITE" and "waiters T A s" and "a \<in> A"
  shows "wakes (set_option (fst (half s f a))) s (kqueue_event q (f, a) s)"
    and "api_run T U s (kqueue_event q (f, a) s)"
proof -
  define s1 where "s1 = upd_kqueue q (\<lambda>p. p\<lparr>kqueue_refcnt := kqueue_refcnt p - 1\<rparr>) s"
  have w1: "wakes {} s s1" and r1: "api_run T U s s1" and W1: "waiters T A s1" and F1: "filp s1 = filp s"
    using assms by (auto simp: s1_def upd_kqueue_def waiters_def intro: wakes_upd_io api_run_io)
  have eq: "kqueue_event q (f, a) s = (if f = EVFILT_READ then kqueue_in a s1 else kqueue_out a s1)"
    using assms(1) by (auto simp: kqueue_event_def s1_def Let_def)
  show "wakes (set_option (fst (half s f a))) s (kqueue_event q (f, a) s)"
    using wakes_trans [OF w1 kqueue_parts_wake(1) [of s1 a]] wakes_trans [OF w1 kqueue_parts_wake(2) [of s1 a]]
    by (simp add: eq half_def F1)
  show "api_run T U s (kqueue_event q (f, a) s)"
    using kqueue_parts_run [OF W1 assms(3) r1] by (simp add: eq)
qed

lemma armed_half: "armed_for s b a \<longleftrightarrow> attached s a \<and> fst (snd (half s (if b then EVFILT_READ else EVFILT_WRITE) a))"
  by (simp add: armed_for_def half_def)

lemma waiters_half: "waiters T A s \<longleftrightarrow>
    (\<forall>a\<in>A. \<forall>f\<in>{EVFILT_READ, EVFILT_WRITE}. set_option (fst (half s f a)) \<subseteq> T)"
  by (auto simp: waiters_def half_def)

lemma polled_for_half: "polled_for A s \<longleftrightarrow>
    (\<forall>a\<in>A. \<forall>f\<in>{EVFILT_READ, EVFILT_WRITE}. fst (half s f a) \<noteq> None \<longrightarrow> fst (snd (half s f a)))"
  by (auto simp: polled_for_def half_def)

lemma kqueue_event_core:
  assumes core: "kq_core q A s" and ev: "kq_event_for A s (f, a)"
  shows "kq_core q A (kqueue_event q (f, a) s)"
proof -
  have a: "a \<in> A" "attached s a" and f: "f = EVFILT_READ \<or> f = EVFILT_WRITE"
    and ar: "armed_for s (f = EVFILT_READ) a"
    using ev by (auto simp: kq_event_for_def armed_for_def)
  let ?s = "kqueue_event q (f, a) s"
  note R = kqueue_event_reads [where q = q and a = a and s = s, OF f]
  have now: "\<not> armed_for ?s (f = EVFILT_READ) a" "armed_for ?s (f \<noteq> EVFILT_READ) a = armed_for s (f \<noteq> EVFILT_READ) a"
    using f R(8) R(9) [of _ a] by (auto simp: armed_half R(7))
  have own: "armed_for s b a" if "armed_for ?s b a" for b
    using that now ar by (cases "b = (f = EVFILT_READ)") auto
  show ?thesis
  proof (rule kq_core_change [OF core a(1)])
    show "kq_refcnt ?s q = kq_refcnt s q + of_bool (armed_for ?s True a) + of_bool (armed_for ?s False a)
      - of_bool (armed_for s True a) - of_bool (armed_for s False a)"
      using now ar f R(6) by auto
    show "kq_watched (kcalls (io ?s)) q (tx_fd (filp s a)) b = Some a" if "armed_for ?s b a" for b
      using kq_coreD(5) [OF core a(1) own [OF that]] R(5) by simp
  qed (use R kq_coreD(6) [OF core a] in auto)
qed

lemma kqueue_events_spec:
  assumes "kq_core q A s" and "waiters T A s" and "polled_for A s"
    and "\<forall>ev\<in>set evs. kq_event_for A s ev" and "distinct evs"
  shows "kq_core q A (fold (kqueue_event q) evs s) \<and> waiters T A (fold (kqueue_event q) evs s) \<and>
    polled_for A (fold (kqueue_event q) evs s) \<and> api_run T U s (fold (kqueue_event q) evs s) \<and>
    wakes (\<Union>(f, a)\<in>set evs. set_option (fst (half s f a))) s (fold (kqueue_event q) evs s) \<and>
    kq_refcnt (fold (kqueue_event q) evs s) q \<le> kq_refcnt s q \<and>
    (\<forall>f\<in>{EVFILT_READ, EVFILT_WRITE}. \<forall>a. half (fold (kqueue_event q) evs s) f a =
       (if (f, a) \<in> set evs then (None, False, True) else half s f a))"
  using assms
proof (induction evs arbitrary: s)
  case Nil
  then show ?case by simp
next
  case (Cons ev evs)
  obtain f a where ev: "ev = (f, a)" by (cases ev)
  let ?s = "kqueue_event q ev s"
  have e: "kq_event_for A s (f, a)" using Cons.prems(4) ev by simp
  then have a: "a \<in> A" and f: "f = EVFILT_READ \<or> f = EVFILT_WRITE" by (auto simp: kq_event_for_def)
  note R = kqueue_event_reads [where q = q and a = a and s = s, OF f, folded ev]
  have h: "half ?s g b = (if (g, b) = ev then (None, False, True) else half s g b)"
    if "g \<in> {EVFILT_READ, EVFILT_WRITE}" for g b
    using R(8) R(9) [OF that, of b] by (auto simp: ev)
  have evs: "\<forall>x\<in>set evs. kq_event_for A ?s x"
  proof
    fix x assume x: "x \<in> set evs"
    obtain g b where gb: "x = (g, b)" by (cases x)
    have "x \<noteq> ev" using x Cons.prems(5) by auto
    moreover have "kq_event_for A s x" using x Cons.prems(4) by simp
    ultimately show "kq_event_for A ?s x"
      using h [of g b] by (auto simp: gb kq_event_for_def armed_half R(7))
  qed
  have W: "waiters T A ?s" using Cons.prems(2) unfolding waiters_half by (simp add: h)
  have P: "polled_for A ?s" using Cons.prems(3) unfolding polled_for_half by (simp add: h)
  note K = kqueue_event_tasks [where q = q, OF f Cons.prems(2) a, folded ev]
  have IH: "kq_core q A (fold (kqueue_event q) evs ?s) \<and> waiters T A (fold (kqueue_event q) evs ?s) \<and>
    polled_for A (fold (kqueue_event q) evs ?s) \<and> api_run T U ?s (fold (kqueue_event q) evs ?s) \<and>
    wakes (\<Union>(f, a)\<in>set evs. set_option (fst (half ?s f a))) ?s (fold (kqueue_event q) evs ?s) \<and>
    kq_refcnt (fold (kqueue_event q) evs ?s) q \<le> kq_refcnt ?s q \<and>
    (\<forall>f\<in>{EVFILT_READ, EVFILT_WRITE}. \<forall>a. half (fold (kqueue_event q) evs ?s) f a =
       (if (f, a) \<in> set evs then (None, False, True) else half ?s f a))"
    by (rule Cons.IH) (use kqueue_event_core [OF Cons.prems(1) e] W P evs Cons.prems(5) in \<open>simp_all add: ev\<close>)
  have ws: "(\<Union>(f, a)\<in>set evs. set_option (fst (half ?s f a))) = (\<Union>(f, a)\<in>set evs. set_option (fst (half s f a)))"
  proof (rule SUP_cong, simp)
    fix x assume x: "x \<in> set evs"
    obtain g b where gb: "x = (g, b)" by (cases x)
    have "x \<noteq> ev" "kq_event_for A s x" using x Cons.prems(4,5) by auto
    then show "(case x of (f, a) \<Rightarrow> set_option (fst (half ?s f a))) = (case x of (f, a) \<Rightarrow> set_option (fst (half s f a)))"
      using h [of g b] by (auto simp: gb kq_event_for_def)
  qed
  have "wakes (\<Union>(f, a)\<in>set (ev # evs). set_option (fst (half s f a))) s (fold (kqueue_event q) (ev # evs) s)"
    using wakes_trans [OF K(1)] IH ws by (simp add: ev)
  moreover have "api_run T U s (fold (kqueue_event q) (ev # evs) s)"
    using K(2) IH by (auto intro: rtranclp_trans)
  moreover have "kq_refcnt ?s q \<le> kq_refcnt s q" by (simp add: R(6))
  moreover have "\<forall>f\<in>{EVFILT_READ, EVFILT_WRITE}. \<forall>a. half (fold (kqueue_event q) (ev # evs) s) f a =
       (if (f, a) \<in> set (ev # evs) then (None, False, True) else half s f a)"
    using IH h by simp
  ultimately show ?case using IH by simp
qed

text \<open>What \<open>kevent\<close> returns: events of filters it watches, each at most once.\<close>

definition kevent_answer :: "aiocb_p set \<Rightarrow> tx_mem \<Rightarrow> int \<times> (int \<times> aiocb_p) list \<Rightarrow> bool" where
  "kevent_answer A s r \<longleftrightarrow> fst r = int (length (snd r)) \<and>
     (\<forall>ev\<in>set (snd r). kq_event_for A s ev) \<and> distinct (snd r)"

lemma tx_kqueue_polling_spec:
  assumes inv: "kq_inv q T A s" and pf: "polled_for A s" and t: "PollTask (KqueuePoll q) \<in> T"
    and wait: "\<And>ms. kevent_answer A s (wait ms)"
  shows "\<exists>s' ms. ms \<in> {0, 10} \<and> tx_kqueue_polling q wait s = Inr s' \<and>
    kq_inv q T A s' \<and> polled_for A s' \<and> api_run T U s s' \<and>
    (\<forall>f\<in>{EVFILT_READ, EVFILT_WRITE}. \<forall>a.
       (if (f, a) \<in> set (snd (wait ms))
        then half s' f a = (None, False, True) \<and>
          (\<forall>t. fst (half s f a) = Some t \<longrightarrow> busy s' t \<or> stopped s' (loop_of s' t))
        else half s' f a = half s f a))"
proof -
  let ?p = "PollTask (KqueuePoll q)"
  define up where "up = loop_of s ?p"
  define ms where "ms = (if tx_loop_timeout up (VKqueue q) s \<noteq> 0 then 10 else 0 :: int)"
  obtain nfds evs where w: "wait ms = (nfds, evs)" by (cases "wait ms")
  define s1 where "s1 = fold (kqueue_event q) evs s"
  define s2 where "s2 = (if tx_holder (loops s1 up) = VKqueue q \<and> kq_refcnt s1 q = 0
    then upd_loop up (\<lambda>l. l\<lparr>tx_holder := VNull\<rparr>) s1 else s1)"
  let ?s = "tx_poll_active (KqueuePoll q) s2"
  have ans: "nfds = int (length evs)" "\<forall>ev\<in>set evs. kq_event_for A s ev" "distinct evs"
    using wait [of ms] by (simp_all add: w kevent_answer_def)
  have eq: "tx_kqueue_polling q wait s = Inr ?s"
    using ans(1) unfolding tx_kqueue_polling_def tx_loop_get_def up_def [symmetric] Let_def ms_def [symmetric] w
    by (simp add: s1_def [symmetric] s2_def)
  have core: "kq_core q A s" and W: "waiters T A s" and H: "kq_held q s" using inv by (simp_all add: kq_inv_def)
  note F = kqueue_events_spec [OF core W pf ans(2,3), where U = U, folded s1_def]
  have run1: "api_run T U s s1" and core1: "kq_core q A s1" and pf1: "polled_for A s1" and W1: "waiters T A s1"
    and wk: "wakes (\<Union>(f, a)\<in>set evs. set_option (fst (half s f a))) s s1" and le: "kq_refcnt s1 q \<le> kq_refcnt s q"
    and hf: "\<And>f a. f \<in> {EVFILT_READ, EVFILT_WRITE} \<Longrightarrow>
      half s1 f a = (if (f, a) \<in> set evs then (None, False, True) else half s f a)"
    using F by auto
  have io: "io s2 = io s1" "tasks s2 = tasks s1" by (simp_all add: s2_def upd_loop_def)
  have lp: "loop_of s1 t = loop_of s t" "busy s2 t = busy s1 t" for t using wk by (simp_all add: wakes_def busy_def io)
  have tell: "tx_stop (loops s2 l) = tx_stop (loops s l)" for l
    using wk by (auto simp: s2_def upd_loop_def wakes_def)
  have held: "kq_held q s2"
    using H wk le kq_coreD(4) [OF core1] by (auto simp: kq_held_def s2_def upd_loop_def up_def wakes_def)
  have "api_run T U s ?s"
    using run1 t by (auto simp: s2_def intro!: api_run_poll_active api_run_holder)
  moreover have "kq_inv q T A ?s"
    using kq_core_loops [OF core1, of ?s] W1 held by (simp add: kq_inv_def io waiters_def kq_held_def)
  moreover have "polled_for A ?s" using pf1 by (simp add: polled_for_def io)
  moreover have "\<forall>f\<in>{EVFILT_READ, EVFILT_WRITE}. \<forall>a.
       (if (f, a) \<in> set (snd (wait ms))
        then half ?s f a = (None, False, True) \<and>
          (\<forall>t. fst (half s f a) = Some t \<longrightarrow> busy ?s t \<or> stopped ?s (loop_of ?s t))
        else half ?s f a = half s f a)"
  proof (intro ballI allI)
    fix f a assume f: "f \<in> {EVFILT_READ, EVFILT_WRITE}"
    have h: "half ?s f a = half s1 f a" by (simp add: half_def io)
    have "busy ?s t \<or> stopped ?s (loop_of ?s t)" if "(f, a) \<in> set evs" "fst (half s f a) = Some t" for t
    proof -
      have "stopped s (loop_of s t) \<or> busy s1 t" using wk that by (force simp: wakes_def)
      then show ?thesis using lp by (auto simp: tx_poll_active_busy stopped_def tell io)
    qed
    then show "if (f, a) \<in> set (snd (wait ms))
        then half ?s f a = (None, False, True) \<and>
          (\<forall>t. fst (half s f a) = Some t \<longrightarrow> busy ?s t \<or> stopped ?s (loop_of ?s t))
        else half ?s f a = half s f a"
      using hf [OF f] by (simp add: w h)
  qed
  moreover have "ms \<in> {0, 10}" by (simp add: ms_def)
  ultimately show ?thesis using eq by (intro exI [of _ ?s] exI [of _ ms] conjI)
qed

section \<open>The poller's interface\<close>

definition kqueue_fns :: tx_poll_op where
  "kqueue_fns = \<lparr>tx_sendout = None, tx_connect = None, tx_accept = None, tx_pollout = tx_kqueue_pollout,
     tx_attach = tx_kqueue_attach, tx_pollin = tx_kqueue_pollin, tx_detach = tx_kqueue_detach\<rparr>"

lemma kq_inv_same_poll:
  assumes "kq_inv q T A s" and "same_poll s s'" and "waiters T A s'"
  shows "kq_inv q T A s'"
proof -
  from assms(2) obtain g where g: "io s' = (io s)\<lparr>aiocbs := g\<rparr>" "\<And>a. filp_core (g a) = filp_core (filp s a)"
    and lp: "\<And>up. tx_holder (loops s' up) = tx_holder (loops s up)" "\<And>t. loop_of s' t = loop_of s t"
    unfolding same_poll_def by blast
  have "filp_flags (filp_core (g a)) = fl s a" "tx_fd (filp_core (g a)) = tx_fd (filp s a)"
    "filp_poll (filp_core (g a)) = filp_poll (filp s a)" for a by (simp_all add: g(2), simp_all add: filp_core_def)
  then have eq: "fl s' a = fl s a" "tx_fd (filp s' a) = tx_fd (filp s a)" "filp_poll (filp s' a) = filp_poll (filp s a)" for a
    by (simp_all add: g(1) filp_core_def)
  have eq': "attached s' a = attached s a" "armed_for s' b a = armed_for s b a" for a b
    by (simp_all add: attached_def armed_for_def eq)
  have "kq_core q A s'"
    using assms(1) unfolding kq_inv_def kq_core_def other_fds_def eq eq' by (simp add: g(1))
  moreover have "kq_held q s'" using assms(1) by (simp add: kq_inv_def kq_held_def lp g(1))
  ultimately show ?thesis using assms(3) by (simp add: kq_inv_def)
qed

interpretation kqueue: poller kqueue_fns KqueueOps "kq_inv q" "\<lambda>_. True" "\<lambda>k. fst (k 0) \<noteq> -1" for q
proof
  fix T A s s' a k U
  show "kq_inv q T A s \<Longrightarrow> same_poll s s' \<Longrightarrow> waiters T A s' \<Longrightarrow> kq_inv q T A s'"
    by (rule kq_inv_same_poll)
  show "kq_inv q T A s \<Longrightarrow> a \<in> A \<Longrightarrow> ops_of s a = KqueueOps"
    using kq_coreD(2,3) [of q A s] by (simp add: kq_inv_def)
  show "kq_inv q T A s \<Longrightarrow> waiters T A s" by (simp add: kq_inv_def)
  show "kq_inv q T A s \<Longrightarrow> a \<in> A \<Longrightarrow> attached s a \<Longrightarrow>
      \<exists>s'. tx_pollin kqueue_fns a k s = Inr s' \<and> kq_inv q T A s' \<and> api_run T U s s' \<and>
        (fst (k 0) \<noteq> -1 \<longrightarrow> aiocbs (io s') = (aiocbs (io s))(a := (filp s a)\<lparr>filp_flags := fl s a OR TX_POLLIN\<rparr>))"
    using tx_kqueue_poll_spec [of q T A s a tx_kqueue_pollin True TX_POLLIN k U]
    by (simp only: kqueue_fns_def tx_poll_op.simps if_True simp_thms)
  show "kq_inv q T A s \<Longrightarrow> a \<in> A \<Longrightarrow> attached s a \<Longrightarrow>
      \<exists>s'. tx_pollout kqueue_fns a k s = Inr s' \<and> kq_inv q T A s' \<and> api_run T U s s' \<and>
        (fst (k 0) \<noteq> -1 \<longrightarrow> aiocbs (io s') = (aiocbs (io s))(a := (filp s a)\<lparr>filp_flags := fl s a OR TX_POLLOUT\<rparr>))"
    using tx_kqueue_poll_spec [of q T A s a tx_kqueue_pollout False TX_POLLOUT k U]
    by (simp only: kqueue_fns_def tx_poll_op.simps if_False simp_thms)
qed

end
