(* ===== verification/TxPort.thy ===== *)
theory TxPort
  imports TxFilp
begin

text \<open>
  The Windows poller, \<open>tx_completion_port.cpp\<close>. An operation in progress uses the \<open>OVERLAPPED\<close> of a
  \<open>tx_overlapped_t\<close> until the kernel reports its completion, which may be after the block was detached.
  \<open>in_flight v b\<close> says that the kernel uses \<open>tx_send\<close> (\<open>b\<close>) or \<open>tx_recv\<close> of \<open>v\<close>; an access through a
  pointer to a deleted \<open>tx_overlapped_t\<close> is the error \<open>UseAfterFree\<close>. The answers of the system calls of
  one operation are numbered by the place of the call in the source.
\<close>

definition SOCKET_ERROR :: int where "SOCKET_ERROR = -1"
definition WSA_IO_PENDING :: int where "WSA_IO_PENDING = 997"
definition WSAEINPROGRESS :: int where "WSAEINPROGRESS = 10036"

definition TX_CACHE :: nat where "TX_CACHE = 8192"   \<comment> \<open>\<open>sizeof(olaped->tx_cache)\<close>\<close>

section \<open>Operations\<close>

definition with_ovl :: "ovl_p option \<Rightarrow> tx_mem \<Rightarrow> (ovl_p \<Rightarrow> 'a res) \<Rightarrow> 'a res" where
  "with_ovl w s f =
     (case w of
        None \<Rightarrow> Inl NullDeref
      | Some v \<Rightarrow> if ovl_live (io s) v then f v else Inl UseAfterFree)"

definition set_flight :: "ovl_p \<Rightarrow> bool \<Rightarrow> bool \<Rightarrow> tx_mem \<Rightarrow> tx_mem" where
  "set_flight v b x = upd_io (\<lambda>i. i\<lparr>in_flight := (in_flight i)(v := (in_flight i v)(b := x))\<rparr>)"

definition set_live :: "ovl_p \<Rightarrow> bool \<Rightarrow> tx_mem \<Rightarrow> tx_mem" where
  "set_live v x = upd_io (\<lambda>i. i\<lparr>ovl_live := (ovl_live i)(v := x)\<rparr>)"

text \<open>\<open>error != SOCKET_ERROR || WSAGetLastError() == WSA_IO_PENDING\<close>, and the same of a \<open>BOOL\<close>.\<close>

definition wsa_started :: "kres \<Rightarrow> bool" where
  "wsa_started k \<longleftrightarrow> fst k \<noteq> SOCKET_ERROR \<or> snd k = WSA_IO_PENDING"

definition ex_started :: "kres \<Rightarrow> bool" where
  "ex_started k \<longleftrightarrow> fst k \<noteq> 0 \<or> snd k = WSA_IO_PENDING"

definition ovl_get :: "ovl_p \<Rightarrow> tx_mem \<Rightarrow> tx_mem" where
  \<comment> \<open>\<open>olaped->tx_refcnt++\<close>\<close>
  "ovl_get v = upd_ovl v (\<lambda>o'. o'\<lparr>ov_refcnt := ov_refcnt o' + 1\<rparr>)"

definition refcnt_small :: "ovl_p \<Rightarrow> tx_mem \<Rightarrow> bool" where
  "refcnt_small v s \<longleftrightarrow> ov_refcnt (overlappeds (io s) v) < 4"

text \<open>
  \<open>k 0\<close> is \<open>send\<close>, \<open>k 1\<close> is \<open>WSASend\<close>. The branch for too long a message calls \<open>TX_PANIC(1, ...)\<close>, which
  does not end the process (it does so when its argument is zero).
\<close>

definition tx_completion_port_sendout ::
    "aiocb_p \<Rightarrow> bytes \<Rightarrow> (nat \<Rightarrow> kres) \<Rightarrow> tx_mem \<Rightarrow> (int \<times> tx_mem) res" where
  "tx_completion_port_sendout a buf k s =
     (if ops_of s a \<noteq> PortOps then Inl AssertFail
      else if \<not> has (fl s a) TX_POLLOUT then
        if fl s a AND (TX_ATTACHED OR TX_DETACHED) \<noteq> TX_ATTACHED then Inl AssertFail
        else if length buf = 0 then Inl AssertFail
        else if fst (k 0) > 0 then Inr (fst (k 0), log_kcall (Sent a (take (nat (fst (k 0))) buf)) s)
        else with_ovl (tx_privp (filp s a)) s (\<lambda>v.
          if \<not> has (fl s a) TX_MEMLOCK \<and> length buf > TX_CACHE then Inr (-1, s)
          else
            let s1 = (if has (fl s a) TX_MEMLOCK then s else upd_ovl v (\<lambda>o'. o'\<lparr>ov_cache := buf\<rparr>) s) in
            if wsa_started (k 1) then
              let s2 = set_flight v True True (log_kcall (Sent a buf) s1);
                  s3 = clear_flags a TX_WRITABLE s2;
                  s4 = set_flags a TX_POLLOUT s3;
                  s5 = ovl_get v s4
              in if refcnt_small v s5 then Inr (int (length buf), s5) else Inl AssertFail
            else
              let s2 = clear_flags a TX_POLLOUT s1;
                  s3 = set_flags a TX_WRITABLE s2;
                  s4 = tx_task_active (tx_filterout (filp s3 a)) (VAiocb a) s3
              in Inr (-1, clear_out a s4))
      else Inr (-1, s))"

text \<open>\<open>k 0\<close> is \<open>WSAIoctl\<close>, \<open>k 1\<close> is \<open>ConnectEx\<close>.\<close>

definition tx_completion_port_connect :: "aiocb_p \<Rightarrow> (nat \<Rightarrow> kres) \<Rightarrow> tx_mem \<Rightarrow> (int \<times> tx_mem) res" where
  "tx_completion_port_connect a k s =
     (if \<not> lp_connect (io s) \<and> fst (k 0) = -1 then Inl PanicExit
      else
        let s0 = upd_io (\<lambda>i. i\<lparr>lp_connect := True\<rparr>) s in
        if \<not> has (fl s0 a) TX_POLLOUT then
          if fl s0 a AND (TX_ATTACHED OR TX_DETACHED) \<noteq> TX_ATTACHED then Inl AssertFail
          else with_ovl (tx_privp (filp s0 a)) s0 (\<lambda>v.
            if ex_started (k 1) then
              let s1 = set_flight v True True s0;
                  s2 = clear_flags a TX_WRITABLE s1;
                  s3 = set_flags a TX_POLLOUT s2;
                  s4 = ovl_get v s3
              in if refcnt_small v s4 then Inr (if fst (k 1) = 0 then - WSAEINPROGRESS else 0, s4)
                 else Inl AssertFail
            else Inr (-1, s0))
        else Inr (-1, s0))"

definition tx_completion_port_accept :: "aiocb_p \<Rightarrow> tx_mem \<Rightarrow> (int \<times> tx_mem) res" where
  "tx_completion_port_accept a s =
     (if has (fl s a) TX_LISTEN \<and> has (fl s a) TX_READABLE then
        with_ovl (tx_privp (filp s a)) s (\<lambda>v.
          let s1 = clear_flags a TX_READABLE s;
              newfd = ov_newfd (overlappeds (io s1) v)
          in Inr (newfd, upd_ovl v (\<lambda>o'. o'\<lparr>ov_newfd := -1\<rparr>) s1))
      else Inr (-1, s))"

definition tx_completion_port_pollout :: "aiocb_p \<Rightarrow> (nat \<Rightarrow> kres) \<Rightarrow> tx_mem \<Rightarrow> tx_mem res" where
  "tx_completion_port_pollout a k s =
     (if ops_of s a \<noteq> PortOps then Inl AssertFail
      else if \<not> has (fl s a) TX_POLLOUT \<and> fl s a AND (TX_ATTACHED OR TX_DETACHED) \<noteq> TX_ATTACHED
      then Inl AssertFail
      else Inr s)"

text \<open>
  \<open>k 0\<close> is \<open>CreateIoCompletionPort\<close> (zero for \<open>NULL\<close>), \<open>k 1\<close> is what \<open>new\<close> returned, which throws rather
  than return null.
\<close>

definition tx_completion_port_attach :: "aiocb_p \<Rightarrow> (nat \<Rightarrow> kres) \<Rightarrow> tx_mem \<Rightarrow> tx_mem res" where
  "tx_completion_port_attach a k s =
     (case filp_poll (filp s a) of
        PortPoll p \<Rightarrow>
          if ops_of s a \<noteq> PortOps then Inl AssertFail
          else if fl s a AND (TX_ATTACHED OR TX_DETACHED) = 0 then
            if fst (k 0) = 0 then Inl PanicExit
            else
              let v = Ovl (nat (fst (k 1)));
                  s1 = set_flags a TX_ATTACHED s;
                  s2 = set_live v True (upd_filp a (\<lambda>f. f\<lparr>tx_privp := Some v\<rparr>) s1);
                  s3 = upd_ovl v (\<lambda>_. \<lparr>ov_refcnt = 0, ov_newfd = 0, ov_filp = None, ov_cache = []\<rparr>) s2;
                  s4 = on_pq (LIST_INSERT_HEAD p v) s3
              in Inr (upd_ovl v (\<lambda>o'. o'\<lparr>ov_filp := Some a, ov_newfd := -1, ov_refcnt := 1\<rparr>) s4)
          else Inr s
      | _ \<Rightarrow> Inl AssertFail)"

text \<open>
  \<open>k 0\<close> is \<open>WSAIoctl\<close>, \<open>k 1\<close> the new socket, \<open>k 2\<close> is \<open>AcceptEx\<close>, \<open>k 3\<close> is \<open>WSARecv\<close>. \<open>TX_PANIC(1, ...)\<close> does
  not end the process here either.
\<close>

definition port_pollin_listen :: "aiocb_p \<Rightarrow> (nat \<Rightarrow> kres) \<Rightarrow> tx_mem \<Rightarrow> tx_mem res" where
  "port_pollin_listen a k s =
     (if \<not> lp_accept (io s) \<and> fst (k 0) = -1 then Inl PanicExit
      else
        let s0 = upd_io (\<lambda>i. i\<lparr>lp_accept := True\<rparr>) s in
        if \<not> has (fl s0 a) TX_POLLIN then
          if fl s0 a AND (TX_ATTACHED OR TX_DETACHED) \<noteq> TX_ATTACHED then Inl AssertFail
          else with_ovl (tx_privp (filp s0 a)) s0 (\<lambda>v.
            let newfd = fst (k 1);
                s2 = (if ex_started (k 2) then
                        let s1 = set_flags a TX_POLLIN (set_flight v False True s0)
                        in upd_ovl v (\<lambda>o'. o'\<lparr>ov_newfd := newfd\<rparr>) (ovl_get v s1)
                      else log_kcall (CloseFd newfd) s0)
            in if refcnt_small v s2 then Inr s2 else Inl AssertFail)
        else Inr s0)"

definition tx_completion_port_pollin :: "aiocb_p \<Rightarrow> (nat \<Rightarrow> kres) \<Rightarrow> tx_mem \<Rightarrow> tx_mem res" where
  "tx_completion_port_pollin a k s =
     (if ops_of s a \<noteq> PortOps then Inl AssertFail
      else if has (fl s a) TX_LISTEN then port_pollin_listen a k s
      else if \<not> has (fl s a) TX_POLLIN then
        if fl s a AND (TX_ATTACHED OR TX_DETACHED) \<noteq> TX_ATTACHED then Inl AssertFail
        else with_ovl (tx_privp (filp s a)) s (\<lambda>v.
          let s2 = (if wsa_started (k 3) then
                      ovl_get v (set_flags a TX_POLLIN (set_flight v False True s))
                    else
                      let s1 = set_flags a TX_READABLE (clear_flags a TX_POLLIN s)
                      in clear_in a (tx_task_active (tx_filterin (filp s1 a)) (VAiocb a) s1))
          in if refcnt_small v s2 then Inr s2 else Inl AssertFail)
      else Inr s)"

text \<open>\<open>if (--olaped->tx_refcnt == 0) { LIST_REMOVE(olaped, entries); delete olaped; }\<close>.\<close>

definition ovl_put :: "ovl_p \<Rightarrow> tx_mem \<Rightarrow> tx_mem" where
  "ovl_put v s =
     (let s1 = upd_ovl v (\<lambda>o'. o'\<lparr>ov_refcnt := ov_refcnt o' - 1\<rparr>) s
      in if ov_refcnt (overlappeds (io s1) v) = 0 then set_live v False (on_pq (LIST_REMOVE v) s1) else s1)"

definition tx_completion_port_detach :: "aiocb_p \<Rightarrow> (nat \<Rightarrow> kres) \<Rightarrow> tx_mem \<Rightarrow> tx_mem res" where
  "tx_completion_port_detach a k s =
     (if ops_of s a \<noteq> PortOps then Inl AssertFail
      else if fl s a AND (TX_ATTACHED OR TX_DETACHED) = TX_ATTACHED then
        with_ovl (tx_privp (filp s a)) s (\<lambda>v.
          let s1 = set_flags a TX_DETACHED s;
              s2 = upd_filp a (\<lambda>f. f\<lparr>tx_privp := None\<rparr>) s1;
              s3 = upd_ovl v (\<lambda>o'. o'\<lparr>ov_filp := None\<rparr>) s2
          in Inr (ovl_put v s3))
      else Inr s)"

text \<open>The completion of \<open>tx_send\<close> (\<open>sending\<close>) or \<open>tx_recv\<close> of \<open>v\<close>.\<close>

definition handle_overlapped :: "ovl_p \<Rightarrow> bool \<Rightarrow> tx_mem \<Rightarrow> tx_mem res" where
  "handle_overlapped v sending s =
     with_ovl (Some v) s (\<lambda>v.
       let s1 = ovl_put v s in
       if \<not> ovl_live (io s1) v then Inr s1
       else (case ov_filp (overlappeds (io s1) v) of
           None \<Rightarrow> Inr s1
         | Some a \<Rightarrow>
             if sending then
               let s2 = set_flags a TX_WRITABLE (clear_flags a TX_POLLOUT s1)
               in Inr (clear_out a (tx_task_active (tx_filterout (filp s2 a)) (VAiocb a) s2))
             else
               let s2 = set_flags a TX_READABLE (clear_flags a TX_POLLIN s1)
               in Inr (clear_in a (tx_task_active (tx_filterin (filp s2 a)) (VAiocb a) s2))))"

text \<open>
  What \<open>GetQueuedCompletionStatus\<close> returns: a timeout, a failure without a packet, or the packet of an
  operation. The kernel chooses among the operations in flight; \<open>n\<close> counts the calls.
\<close>

datatype port_status = PortTimeout | PortFailure | PortDone ovl_p bool

type_synonym port_kernel = "nat \<Rightarrow> int \<Rightarrow> (ovl_p \<Rightarrow> bool \<Rightarrow> bool) \<Rightarrow> port_status"

partial_function (option) port_loop :: "port_p \<Rightarrow> port_kernel \<Rightarrow> nat \<Rightarrow> tx_mem \<Rightarrow> tx_mem res option" where
  "port_loop p krn n s =
     (let loop = tx_loop_get (PollTask (PortPoll p)) s;
          timeout = (if tx_loop_timeout loop (VPort p) s \<noteq> 0 then 15 else 0)
      in case krn n timeout (in_flight (io s)) of
           PortTimeout \<Rightarrow> Some (Inr s)
         | PortFailure \<Rightarrow> Some (Inl NullDeref)
         | PortDone v b \<Rightarrow>
             (case handle_overlapped v b (set_flight v b False s) of
                Inl e \<Rightarrow> Some (Inl e)
              | Inr s' \<Rightarrow> port_loop p krn (Suc n) s'))"

definition tx_completion_port_polling :: "port_p \<Rightarrow> port_kernel \<Rightarrow> tx_mem \<Rightarrow> tx_mem res option" where
  "tx_completion_port_polling p krn s =
     map_option (\<lambda>r. res_bind r (\<lambda>s'. Inr (tx_poll_active (PortPoll p) s'))) (port_loop p krn 0 s)"

text \<open>\<open>handle\<close> is zero for \<open>INVALID_HANDLE_VALUE\<close>.\<close>

definition tx_completion_port_new :: "port_p option \<Rightarrow> int \<Rightarrow> loop_p \<Rightarrow> tx_mem \<Rightarrow> poll_p option \<times> tx_mem" where
  "tx_completion_port_new malloc handle loop s =
     (case malloc of
        Some p \<Rightarrow>
          if handle \<noteq> 0 then
            let s1 = tx_poll_init (PortPoll p) loop PortPolling (VPort p) s;
                s2 = tx_poll_active (PortPoll p) s1;
                s3 = upd_io (\<lambda>i. i\<lparr>poll_ops := (poll_ops i)(PortPoll p := PortOps)\<rparr>) s2;
                s4 = upd_loop loop (\<lambda>l. l\<lparr>tx_poller := Some (PortPoll p)\<rparr>) s3
            in (Some (PortPoll p), on_pq (LIST_INIT p) s4)
          else (None, s)
      | None \<Rightarrow> (None, s))"

definition port_search :: "port_p option \<Rightarrow> int \<Rightarrow> loop_p \<Rightarrow> tx_mem \<Rightarrow> (poll_p option \<times> tx_mem) option" where
  "port_search malloc handle loop s =
     map_option (\<lambda>found. case found of
         Some np \<Rightarrow> (poll_container_of np, s)
       | None \<Rightarrow> tx_completion_port_new malloc handle loop s)
       (list_search (le_next (tq s)) (\<lambda>np. task_call (tasks s np) = PortPolling)
         (lh_first (tq s) (LoopQ loop)))"

definition tx_completion_port_init ::
    "port_p option \<Rightarrow> int \<Rightarrow> loop_p \<Rightarrow> tx_mem \<Rightarrow> (poll_p option \<times> tx_mem) option" where
  "tx_completion_port_init malloc handle loop s =
     (case tx_poller (loops s loop) of
        Some p \<Rightarrow> if poll_ops (io s) p = PortOps then Some (Some p, s) else port_search malloc handle loop s
      | None \<Rightarrow> port_search malloc handle loop s)"

definition port_fns :: tx_poll_op where
  "port_fns = \<lparr>tx_sendout = Some tx_completion_port_sendout, tx_connect = Some tx_completion_port_connect,
     tx_accept = Some tx_completion_port_accept, tx_pollout = tx_completion_port_pollout,
     tx_attach = tx_completion_port_attach, tx_pollin = tx_completion_port_pollin,
     tx_detach = tx_completion_port_detach\<rparr>"

section \<open>The invariant\<close>

text \<open>
  \<open>A\<close> are the blocks that use completion ports, \<open>Q\<close> the ports' lists. A \<open>tx_overlapped_t\<close> is counted
  once for the block it belongs to and once for each operation in flight; a block's flags say which of
  its operations are in flight, and one that is attached is writable or has a send in flight.
\<close>

abbreviation ovl :: "tx_mem \<Rightarrow> ovl_p \<Rightarrow> tx_overlapped_t" where
  "ovl s v \<equiv> overlappeds (io s) v"

abbreviation flight :: "tx_mem \<Rightarrow> ovl_p \<Rightarrow> bool \<Rightarrow> bool" where
  "flight s v b \<equiv> in_flight (io s) v b"

abbreviation live :: "tx_mem \<Rightarrow> ovl_p \<Rightarrow> bool" where
  "live s v \<equiv> ovl_live (io s) v"

definition ovl_ok :: "aiocb_p set \<Rightarrow> tx_mem \<Rightarrow> ovl_p \<Rightarrow> bool" where
  "ovl_ok A s v \<longleftrightarrow>
     ov_refcnt (ovl s v) = of_bool (ov_filp (ovl s v) \<noteq> None) + of_bool (flight s v True) + of_bool (flight s v False) \<and>
     (ov_filp (ovl s v) \<noteq> None \<or> flight s v True \<or> flight s v False) \<and>
     (\<forall>a. ov_filp (ovl s v) = Some a \<longrightarrow> a \<in> A \<and> attached s a \<and> tx_privp (filp s a) = Some v)"

definition filp_ok :: "tx_mem \<Rightarrow> aiocb_p \<Rightarrow> bool" where
  "filp_ok s a \<longleftrightarrow> attached s a \<longrightarrow>
     (\<exists>v. tx_privp (filp s a) = Some v \<and> live s v \<and> ov_filp (ovl s v) = Some a \<and>
        flight s v True = has (fl s a) TX_POLLOUT \<and> flight s v False = has (fl s a) TX_POLLIN) \<and>
     (has (fl s a) TX_WRITABLE \<or> has (fl s a) TX_POLLOUT)"

definition port_core :: "aiocb_p set \<Rightarrow> (port_p \<rightharpoonup> ovl_p list) \<Rightarrow> tx_mem \<Rightarrow> bool" where
  "port_core A Q s \<longleftrightarrow>
     list_rep (pq (io s)) Q \<and> (\<forall>v. live s v \<longleftrightarrow> linked Q v) \<and> finite {v. live s v} \<and>
     (\<forall>v. live s v \<longrightarrow> ovl_ok A s v) \<and> (\<forall>v b. flight s v b \<longrightarrow> live s v) \<and> (\<forall>a\<in>A. filp_ok s a) \<and>
     (\<forall>a\<in>A. \<exists>p. filp_poll (filp s a) = PortPoll p \<and> poll_ops (io s) (PortPoll p) = PortOps) \<and>
     (\<forall>p. poll_ops (io s) (PortPoll p) = PortOps \<longrightarrow> p \<in> dom Q)"

definition port_inv :: "task_p set \<Rightarrow> aiocb_p set \<Rightarrow> tx_mem \<Rightarrow> bool" where
  "port_inv T A s \<longleftrightarrow> (\<exists>Q. port_core A Q s) \<and> waiters T A s"

lemma port_coreD:
  assumes "port_core A Q s"
  shows "list_rep (pq (io s)) Q" "\<And>v. live s v \<longleftrightarrow> linked Q v" "finite {v. live s v}"
    "\<And>v. live s v \<Longrightarrow> ovl_ok A s v" "\<And>v b. flight s v b \<Longrightarrow> live s v" "\<And>a. a \<in> A \<Longrightarrow> filp_ok s a"
    "\<And>a. a \<in> A \<Longrightarrow> \<exists>p. filp_poll (filp s a) = PortPoll p \<and> poll_ops (io s) (PortPoll p) = PortOps \<and> p \<in> dom Q"
    "\<And>p. poll_ops (io s) (PortPoll p) = PortOps \<Longrightarrow> p \<in> dom Q"
  using assms unfolding port_core_def by blast+

lemma port_attached:
  assumes core: "port_core A Q s" and a: "a \<in> A" "attached s a"
  obtains v where "tx_privp (filp s a) = Some v" "live s v" "ov_filp (ovl s v) = Some a"
    "flight s v True = has (fl s a) TX_POLLOUT" "flight s v False = has (fl s a) TX_POLLIN"
    "ov_refcnt (ovl s v) = 1 + of_bool (has (fl s a) TX_POLLOUT) + of_bool (has (fl s a) TX_POLLIN)"
    "has (fl s a) TX_WRITABLE \<or> has (fl s a) TX_POLLOUT" "ops_of s a = PortOps"
proof -
  note D = port_coreD [OF core]
  obtain v where v: "tx_privp (filp s a) = Some v" "live s v" "ov_filp (ovl s v) = Some a"
    "flight s v True = has (fl s a) TX_POLLOUT" "flight s v False = has (fl s a) TX_POLLIN"
    "has (fl s a) TX_WRITABLE \<or> has (fl s a) TX_POLLOUT"
    using D(6) [OF a(1)] a(2) unfolding filp_ok_def by blast
  have "ov_refcnt (ovl s v) = 1 + of_bool (has (fl s a) TX_POLLOUT) + of_bool (has (fl s a) TX_POLLIN)"
    using D(4) [OF v(2)] v by (simp add: ovl_ok_def)
  moreover have "ops_of s a = PortOps" using D(7) [OF a(1)] by auto
  ultimately show ?thesis using v by (intro that)
qed

lemma port_core_same:
  assumes "port_core A Q s" and "aiocbs (io s') = aiocbs (io s)" "overlappeds (io s') = overlappeds (io s)"
    "ovl_live (io s') = ovl_live (io s)" "pq (io s') = pq (io s)" "in_flight (io s') = in_flight (io s)"
    "poll_ops (io s') = poll_ops (io s)"
  shows "port_core A Q s'"
  using assms(1) unfolding port_core_def ovl_ok_def filp_ok_def attached_def assms(2-7) .

text \<open>An operation on an attached block and its \<open>tx_overlapped_t\<close>, neither allocating nor deleting one.\<close>

lemma port_core_op:
  assumes core: "port_core A Q s" and a: "a \<in> A" "attached s a" "tx_privp (filp s a) = Some v"
    and filps: "\<And>b. b \<noteq> a \<Longrightarrow> filp s' b = filp s b" "attached s' a" "filp_poll (filp s' a) = filp_poll (filp s a)"
      "tx_privp (filp s' a) = tx_privp (filp s a)"
    and ovls: "\<And>w. w \<noteq> v \<Longrightarrow> ovl s' w = ovl s w" "ov_filp (ovl s' v) = ov_filp (ovl s v)"
    and same: "ovl_live (io s') = ovl_live (io s)" "pq (io s') = pq (io s)" "poll_ops (io s') = poll_ops (io s)"
      "\<And>w b. w \<noteq> v \<Longrightarrow> flight s' w b = flight s w b"
    and cnt: "ov_refcnt (ovl s' v) = 1 + of_bool (flight s' v True) + of_bool (flight s' v False)"
    and fli: "flight s' v True = has (fl s' a) TX_POLLOUT" "flight s' v False = has (fl s' a) TX_POLLIN"
    and wr: "has (fl s' a) TX_WRITABLE \<or> has (fl s' a) TX_POLLOUT"
  shows "port_core A Q s'"
proof -
  note D = port_coreD [OF core]
  obtain v' where "tx_privp (filp s a) = Some v'" "live s v'" "ov_filp (ovl s v') = Some a"
    using port_attached [OF core a(1,2)] by metis
  then have v: "live s v" "ov_filp (ovl s v) = Some a" using a(3) by auto
  have at: "attached s' b = attached s b" for b using filps(1) [of b] filps(2) a(2) by (cases "b = a") (simp_all add: attached_def)
  have pr: "tx_privp (filp s' b) = tx_privp (filp s b)" for b using filps(1,4) by (cases "b = a") simp_all
  have po: "filp_poll (filp s' b) = filp_poll (filp s b)" for b using filps(1,3) by (cases "b = a") simp_all
  have "ovl_ok A s' w" if "live s w" for w
    using D(4) [OF that] cnt v(2) ovls(1) [of w] ovls(2) same(4) [of w]
    by (cases "w = v") (simp_all add: ovl_ok_def at pr)
  moreover have "filp_ok s' b" if "b \<in> A" for b
  proof (cases "b = a")
    case True
    then show ?thesis using a(3) v fli wr ovls(2) by (simp add: filp_ok_def same(1) pr)
  next
    case False
    have "w \<noteq> v" if "ov_filp (ovl s w) = Some b" for w using that v(2) False by auto
    then show ?thesis using D(6) [OF that] ovls(1) same(1,4) filps(1) [OF False] unfolding filp_ok_def at
      by metis
  qed
  moreover have "live s w" if "flight s' w b" for w b using D(5) [of w b] that same(4) [of w b] v(1) by (cases "w = v") auto
  ultimately show ?thesis using D(1-3) core by (simp add: port_core_def same(1-3) po)
qed

section \<open>The operations\<close>

lemmas ovl_upds = set_flight_def set_live_def ovl_get_def filp_upds upd_ovl_def on_pq_def

lemma port_run:
  assumes "api_run T U s s'"
  shows "api_run T U s (set_flight v b x s')" "api_run T U s (set_live v x s')" "api_run T U s (ovl_get v s')"
    "api_run T U s (upd_io f s')"
  unfolding set_flight_def set_live_def ovl_get_def upd_ovl_def by (rule api_run_io [OF assms])+

text \<open>Waking the waiter of a block.\<close>

lemma wake_run:
  assumes "waiters T A s" and "a \<in> A"
  shows "tx_filterout (filp s1 a) = tx_filterout (filp s a) \<Longrightarrow> api_run T U s0 s1 \<Longrightarrow>
      api_run T U s0 (clear_out a (tx_task_active (tx_filterout (filp s1 a)) r s1))"
    and "tx_filterin (filp s1 a) = tx_filterin (filp s a) \<Longrightarrow> api_run T U s0 s1 \<Longrightarrow>
      api_run T U s0 (clear_in a (tx_task_active (tx_filterin (filp s1 a)) r s1))"
  using assms by (auto intro!: api_run_filp api_run_active simp: waiters_def)

lemma with_ovl_live: "live s v \<Longrightarrow> with_ovl (Some v) s f = f v"
  by (simp add: with_ovl_def)

lemma port_inv_op:
  assumes inv: "port_inv T A s" and "\<And>Q. port_core A Q s \<Longrightarrow> port_core A Q s'"
    and "\<And>b. b \<in> A \<Longrightarrow> tx_filterin (filp s' b) \<in> {tx_filterin (filp s b), None} \<and>
      tx_filterout (filp s' b) \<in> {tx_filterout (filp s b), None}"
  shows "port_inv T A s'"
  using assms unfolding port_inv_def waiters_def by fastforce

lemma tx_completion_port_sendout_spec:
  assumes inv: "port_inv T A s" and a: "a \<in> A" "attached s a" and buf: "buf \<noteq> []"
    and sent: "fst (k 0) \<le> int (length buf)"
  shows "\<exists>n s'. tx_completion_port_sendout a buf k s = Inr (n, s') \<and> port_inv T A s' \<and> api_run T U s s' \<and> n \<noteq> 0 \<and>
    kcalls (io s') = kcalls (io s) @ (if n > 0 then [Sent a (take (nat n) buf)] else [])"
proof -
  from inv obtain Q where core: "port_core A Q s" and W: "waiters T A s" by (auto simp: port_inv_def)
  obtain v where v: "tx_privp (filp s a) = Some v" "live s v" "ov_filp (ovl s v) = Some a"
    "flight s v True = has (fl s a) TX_POLLOUT" "flight s v False = has (fl s a) TX_POLLIN"
    "ov_refcnt (ovl s v) = 1 + of_bool (has (fl s a) TX_POLLOUT) + of_bool (has (fl s a) TX_POLLIN)"
    "has (fl s a) TX_WRITABLE \<or> has (fl s a) TX_POLLOUT" "ops_of s a = PortOps"
    by (rule port_attached [OF core a])
  have m: "fl s a AND (TX_ATTACHED OR TX_DETACHED) = TX_ATTACHED" using a(2) by (simp add: attached_def flags)
  consider "has (fl s a) TX_POLLOUT" | "\<not> has (fl s a) TX_POLLOUT" "fst (k 0) > 0"
    | "\<not> has (fl s a) TX_POLLOUT" "fst (k 0) \<le> 0" "\<not> has (fl s a) TX_MEMLOCK \<and> length buf > TX_CACHE"
    | "\<not> has (fl s a) TX_POLLOUT" "fst (k 0) \<le> 0" "\<not> (\<not> has (fl s a) TX_MEMLOCK \<and> length buf > TX_CACHE)"
    by linarith
  then show ?thesis
  proof cases
    case 1
    then have "tx_completion_port_sendout a buf k s = Inr (-1, s)"
      using v by (simp add: tx_completion_port_sendout_def)
    then show ?thesis using inv by auto
  next
    case 2
    let ?s = "log_kcall (Sent a (take (nat (fst (k 0))) buf)) s"
    have eq: "tx_completion_port_sendout a buf k s = Inr (fst (k 0), ?s)"
      using 2 v m buf by (simp add: tx_completion_port_sendout_def)
    have "port_inv T A ?s"
      by (rule port_inv_op [OF inv port_core_same]) (simp_all add: log_kcall_def)
    moreover have "api_run T U s ?s" by (simp add: api_run_filp)
    ultimately show ?thesis using eq 2 by (auto simp: log_kcall_def)
  next
    case 3
    then have "tx_completion_port_sendout a buf k s = Inr (-1, s)"
      using v m buf by (simp add: tx_completion_port_sendout_def with_ovl_live)
    then show ?thesis using inv by auto
  next
    case 4
    define s1 where "s1 = (if has (fl s a) TX_MEMLOCK then s else upd_ovl v (\<lambda>o'. o'\<lparr>ov_cache := buf\<rparr>) s)"
    show ?thesis
    proof (cases "wsa_started (k 1)")
      case True
      let ?s = "ovl_get v (set_flags a TX_POLLOUT (clear_flags a TX_WRITABLE
        (set_flight v True True (log_kcall (Sent a buf) s1))))"
      have small: "refcnt_small v ?s" using 4(1) v(6) by (auto simp: refcnt_small_def ovl_upds s1_def)
      have eq: "tx_completion_port_sendout a buf k s = Inr (int (length buf), ?s)"
        using 4 v m buf True small by (auto simp: tx_completion_port_sendout_def with_ovl_live s1_def [symmetric] Let_def)
      have "port_core A Q' ?s" if "port_core A Q' s" for Q'
        by (rule port_core_op [OF that a v(1)])
          (use 4(1) v(4-6) a(2) in \<open>auto simp: ovl_upds s1_def attached_def flags\<close>)
      then have "port_inv T A ?s"
        by (rule port_inv_op [OF inv]) (auto simp: ovl_upds s1_def)
      moreover have "api_run T U s ?s" unfolding s1_def by (auto intro!: port_run api_run_filp)
      moreover have "kcalls (io ?s) = kcalls (io s) @ [Sent a (take (length buf) buf)]" by (simp add: ovl_upds s1_def)
      moreover have "int (length buf) > 0" using buf by simp
      ultimately show ?thesis using eq
        by (intro exI [of _ "int (length buf)"] exI [of _ ?s] conjI) simp_all
    next
      case False
      let ?s3 = "set_flags a TX_WRITABLE (clear_flags a TX_POLLOUT s1)"
      let ?s = "clear_out a (tx_task_active (tx_filterout (filp ?s3 a)) (VAiocb a) ?s3)"
      have eq: "tx_completion_port_sendout a buf k s = Inr (-1, ?s)"
        using 4 v m buf False by (auto simp: tx_completion_port_sendout_def with_ovl_live s1_def [symmetric] Let_def)
      have "port_core A Q' ?s" if "port_core A Q' s" for Q'
        by (rule port_core_op [OF that a v(1)])
          (use 4(1) v(4-6) a(2) in \<open>auto simp: ovl_upds s1_def attached_def flags\<close>)
      then have "port_inv T A ?s" by (rule port_inv_op [OF inv]) (auto simp: ovl_upds s1_def)
      moreover have "api_run T U s ?s"
        by (rule wake_run [OF W a(1)]) (auto simp: s1_def ovl_upds intro!: port_run)
      moreover have "kcalls (io ?s) = kcalls (io s)" by (simp add: ovl_upds s1_def)
      ultimately show ?thesis using eq by auto
    qed
  qed
qed

lemma tx_completion_port_connect_spec:
  assumes inv: "port_inv T A s" and a: "a \<in> A" "attached s a" and k: "fst (k 0) \<noteq> -1"
  shows "\<exists>n s'. tx_completion_port_connect a k s = Inr (n, s') \<and> port_inv T A s' \<and> api_run T U s s' \<and>
    (\<not> has (fl s a) TX_POLLOUT \<longrightarrow> ex_started (k 1) \<longrightarrow> has (fl s' a) TX_POLLOUT \<and> \<not> tx_writable s' a)"
proof -
  from inv obtain Q where core: "port_core A Q s" by (auto simp: port_inv_def)
  obtain v where v: "tx_privp (filp s a) = Some v" "live s v" "ov_filp (ovl s v) = Some a"
    "flight s v True = has (fl s a) TX_POLLOUT" "flight s v False = has (fl s a) TX_POLLIN"
    "ov_refcnt (ovl s v) = 1 + of_bool (has (fl s a) TX_POLLOUT) + of_bool (has (fl s a) TX_POLLIN)"
    "has (fl s a) TX_WRITABLE \<or> has (fl s a) TX_POLLOUT" "ops_of s a = PortOps"
    by (rule port_attached [OF core a])
  have m: "fl s a AND (TX_ATTACHED OR TX_DETACHED) = TX_ATTACHED" using a(2) by (simp add: attached_def flags)
  let ?s0 = "upd_io (\<lambda>i. i\<lparr>lp_connect := True\<rparr>) s"
  have inv0: "port_inv T A ?s0" by (rule port_inv_op [OF inv port_core_same]) simp_all
  show ?thesis
  proof (cases "\<not> has (fl s a) TX_POLLOUT \<and> ex_started (k 1)")
    case False
    then have "tx_completion_port_connect a k s = Inr (-1, ?s0)"
      using k v m by (auto simp: tx_completion_port_connect_def with_ovl_live Let_def)
    then show ?thesis using inv0 False by (auto intro!: port_run)
  next
    case True
    let ?s = "ovl_get v (set_flags a TX_POLLOUT (clear_flags a TX_WRITABLE (set_flight v True True ?s0)))"
    have small: "refcnt_small v ?s" using True v(6) by (auto simp: refcnt_small_def ovl_upds)
    have eq: "tx_completion_port_connect a k s = Inr (if fst (k 1) = 0 then - WSAEINPROGRESS else 0, ?s)"
      using True k v m small by (auto simp: tx_completion_port_connect_def with_ovl_live Let_def)
    have "port_core A Q' ?s" if "port_core A Q' s" for Q'
      by (rule port_core_op [OF that a v(1)])
        (use True v(4-6) a(2) in \<open>auto simp: ovl_upds attached_def flags\<close>)
    then have "port_inv T A ?s" by (rule port_inv_op [OF inv]) (auto simp: ovl_upds)
    moreover have "api_run T U s ?s" by (auto intro!: port_run api_run_filp)
    moreover have "has (fl ?s a) TX_POLLOUT \<and> \<not> tx_writable ?s a" by (simp add: ovl_upds tx_writable_def flags)
    ultimately show ?thesis using eq by auto
  qed
qed

lemma tx_completion_port_accept_spec:
  assumes inv: "port_inv T A s" and a: "a \<in> A" "attached s a"
  shows "\<exists>n s'. tx_completion_port_accept a s = Inr (n, s') \<and> port_inv T A s' \<and> api_run T U s s' \<and>
    (has (fl s a) TX_LISTEN \<and> tx_readable s a \<longrightarrow> \<not> tx_readable s' a \<and>
       (\<exists>v. tx_privp (filp s a) = Some v \<and> n = ov_newfd (ovl s v) \<and> ov_newfd (ovl s' v) = -1))"
proof (cases "has (fl s a) TX_LISTEN \<and> tx_readable s a")
  case False
  then have "tx_completion_port_accept a s = Inr (-1, s)" by (auto simp: tx_completion_port_accept_def tx_readable_def)
  with inv False show ?thesis by auto
next
  case True
  from inv obtain Q where core: "port_core A Q s" by (auto simp: port_inv_def)
  obtain v where v: "tx_privp (filp s a) = Some v" "live s v"
    "flight s v True = has (fl s a) TX_POLLOUT" "flight s v False = has (fl s a) TX_POLLIN"
    "ov_refcnt (ovl s v) = 1 + of_bool (has (fl s a) TX_POLLOUT) + of_bool (has (fl s a) TX_POLLIN)"
    "has (fl s a) TX_WRITABLE \<or> has (fl s a) TX_POLLOUT"
    using port_attached [OF core a] by metis
  let ?s = "upd_ovl v (\<lambda>o'. o'\<lparr>ov_newfd := -1\<rparr>) (clear_flags a TX_READABLE s)"
  have eq: "tx_completion_port_accept a s = Inr (ov_newfd (ovl s v), ?s)"
    using True v by (simp add: tx_completion_port_accept_def tx_readable_def with_ovl_live Let_def filp_upds)
  have "port_core A Q' ?s" if "port_core A Q' s" for Q'
    by (rule port_core_op [OF that a v(1)]) (use v(3-6) a(2) in \<open>auto simp: ovl_upds attached_def flags\<close>)
  then have "port_inv T A ?s" by (rule port_inv_op [OF inv]) (auto simp: ovl_upds)
  moreover have "api_run T U s ?s" by (auto intro!: api_run_filp)
  moreover have "\<not> tx_readable ?s a" "ov_newfd (ovl ?s v) = -1" by (simp_all add: ovl_upds tx_readable_def flags)
  ultimately show ?thesis using eq v(1) by auto
qed

text \<open>A new block.\<close>

lemma tx_completion_port_attach_spec:
  assumes inv: "port_inv T A s" and a: "a \<in> A" and new: "\<not> has (fl s a) TX_ATTACHED" "\<not> has (fl s a) TX_DETACHED"
    and quiet: "\<not> has (fl s a) TX_POLLIN" "\<not> has (fl s a) TX_POLLOUT" "tx_writable s a"
    and k: "fst (k 0) \<noteq> 0" and fresh: "\<not> live s (Ovl (nat (fst (k 1))))"
  shows "\<exists>s'. tx_completion_port_attach a k s = Inr s' \<and> port_inv T A s' \<and> api_run T U s s' \<and> attached s' a \<and>
    (\<forall>b. b \<noteq> a \<longrightarrow> filp s' b = filp s b)"
proof -
  from inv obtain Q where core: "port_core A Q s" and W: "waiters T A s" by (auto simp: port_inv_def)
  note D = port_coreD [OF core]
  obtain p where p: "filp_poll (filp s a) = PortPoll p" "poll_ops (io s) (PortPoll p) = PortOps" "p \<in> dom Q"
    using D(7) [OF a] by blast
  define v where "v = Ovl (nat (fst (k 1)))"
  define s' where "s' = upd_ovl v (\<lambda>o'. o'\<lparr>ov_filp := Some a, ov_newfd := -1, ov_refcnt := 1\<rparr>)
    (on_pq (LIST_INSERT_HEAD p v) (upd_ovl v (\<lambda>_. \<lparr>ov_refcnt = 0, ov_newfd = 0, ov_filp = None, ov_cache = []\<rparr>)
      (set_live v True (upd_filp a (\<lambda>f. f\<lparr>tx_privp := Some v\<rparr>) (set_flags a TX_ATTACHED s)))))"
  have eq: "tx_completion_port_attach a k s = Inr s'"
    using new p k by (simp add: tx_completion_port_attach_def s'_def v_def Let_def flags)
  have at: "\<not> attached s a" using new by (simp add: attached_def)
  have R: "aiocbs (io s') = (aiocbs (io s))(a := (filp s a)\<lparr>filp_flags := fl s a OR TX_ATTACHED, tx_privp := Some v\<rparr>)"
    "overlappeds (io s') = (overlappeds (io s))(v := \<lparr>ov_refcnt = 1, ov_newfd = -1, ov_filp = Some a, ov_cache = []\<rparr>)"
    "ovl_live (io s') = (ovl_live (io s))(v := True)" "in_flight (io s') = in_flight (io s)"
    "pq (io s') = LIST_INSERT_HEAD p v (pq (io s))" "poll_ops (io s') = poll_ops (io s)"
    by (simp_all add: s'_def ovl_upds)
  have v: "\<not> live s v" "\<not> flight s v b" for b using fresh D(5) by (auto simp: v_def)
  have un: "unlinked Q v" using v(1) D(2) by (simp add: linked_def)
  have at': "attached s' a" "b \<noteq> a \<Longrightarrow> attached s' b = attached s b" for b using new by (simp_all add: attached_def R flags)
  have "list_rep (pq (io s')) (q_head p v Q)" unfolding R by (rule tq.ihead [OF D(1) p(3) un])
  moreover have "live s' w \<longleftrightarrow> linked (q_head p v Q) w" for w using D(2) [of w] p(3) by (auto simp: R)
  moreover have "{w. live s' w} = insert v {w. live s w}" by (auto simp: R)
  then have "finite {w. live s' w}" using D(3) by simp
  moreover have "ovl_ok A s' w" if "live s' w" for w
  proof (cases "w = v")
    case True
    then show ?thesis using v(2) at' a by (simp add: ovl_ok_def R)
  next
    case False
    then have ok: "ovl_ok A s w" using that D(4) by (simp add: R)
    have na: "ov_filp (ovl s w) \<noteq> Some a" using ok at by (auto simp: ovl_ok_def)
    show ?thesis using ok na False at' by (auto simp: ovl_ok_def R)
  qed
  moreover have "flight s' w b \<Longrightarrow> live s' w" for w b using D(5) [of w b] by (simp add: R)
  moreover have "filp_ok s' b" if b: "b \<in> A" for b
  proof (cases "b = a")
    case True
    then show ?thesis using v(2) quiet by (simp add: filp_ok_def R flags tx_writable_def)
  next
    case False
    then show ?thesis using D(6) [OF b] v(1) at'(2) [OF False] by (auto simp: filp_ok_def R)
  qed
  moreover have "\<exists>p'. filp_poll (filp s' b) = PortPoll p' \<and> poll_ops (io s') (PortPoll p') = PortOps"
    if "b \<in> A" for b using D(7) [OF that] by (cases "b = a") (auto simp: R)
  moreover have "p' \<in> dom (q_head p v Q)" if "poll_ops (io s') (PortPoll p') = PortOps" for p'
    using D(8) that by (auto simp: R)
  ultimately have "port_core A (q_head p v Q) s'" unfolding port_core_def by blast
  moreover have "waiters T A s'" using W by (auto simp: waiters_def R)
  ultimately have "port_inv T A s'" unfolding port_inv_def by blast
  moreover have "api_run T U s s'" unfolding s'_def by (auto intro!: port_run api_run_filp)
  ultimately show ?thesis using eq at' by (auto simp: R)
qed

lemma port_pollin_started:
  assumes inv: "port_inv T A s" and a: "a \<in> A" "attached s a" and new: "\<not> has (fl s a) TX_POLLIN"
    and v: "tx_privp (filp s a) = Some v" "live s v" "flight s v True = has (fl s a) TX_POLLOUT"
      "flight s v False = has (fl s a) TX_POLLIN"
      "ov_refcnt (ovl s v) = 1 + of_bool (has (fl s a) TX_POLLOUT) + of_bool (has (fl s a) TX_POLLIN)"
      "has (fl s a) TX_WRITABLE \<or> has (fl s a) TX_POLLOUT"
    and R: "aiocbs (io s') = (aiocbs (io s))(a := (filp s a)\<lparr>filp_flags := fl s a OR TX_POLLIN\<rparr>)"
      "\<And>w. w \<noteq> v \<Longrightarrow> ovl s' w = ovl s w" "ov_filp (ovl s' v) = ov_filp (ovl s v)"
      "ov_refcnt (ovl s' v) = ov_refcnt (ovl s v) + 1" "ovl_live (io s') = ovl_live (io s)"
      "pq (io s') = pq (io s)" "poll_ops (io s') = poll_ops (io s)"
      "in_flight (io s') = (in_flight (io s))(v := (in_flight (io s) v)(False := True))"
  shows "port_inv T A s'" and "refcnt_small v s'"
proof -
  have "port_core A Q' s'" if "port_core A Q' s" for Q'
    by (rule port_core_op [OF that a v(1)]) (use R v new a(2) in \<open>auto simp: attached_def flags\<close>)
  then show "port_inv T A s'" by (rule port_inv_op [OF inv]) (auto simp: R)
  show "refcnt_small v s'" using v new R(4) by (auto simp: refcnt_small_def)
qed

definition port_granted :: "(nat \<Rightarrow> kres) \<Rightarrow> bool" where
  "port_granted k \<longleftrightarrow> ex_started (k 2) \<and> wsa_started (k 3)"

lemma tx_completion_port_pollin_spec:
  assumes inv: "port_inv T A s" and a: "a \<in> A" "attached s a" and k: "fst (k 0) \<noteq> -1"
  shows "\<exists>s'. tx_completion_port_pollin a k s = Inr s' \<and> port_inv T A s' \<and> api_run T U s s' \<and>
    (port_granted k \<longrightarrow> aiocbs (io s') = (aiocbs (io s))(a := (filp s a)\<lparr>filp_flags := fl s a OR TX_POLLIN\<rparr>))"
proof -
  from inv obtain Q where core: "port_core A Q s" and W: "waiters T A s" by (auto simp: port_inv_def)
  obtain v where v: "tx_privp (filp s a) = Some v" "live s v" "flight s v True = has (fl s a) TX_POLLOUT"
    "flight s v False = has (fl s a) TX_POLLIN"
    "ov_refcnt (ovl s v) = 1 + of_bool (has (fl s a) TX_POLLOUT) + of_bool (has (fl s a) TX_POLLIN)"
    "has (fl s a) TX_WRITABLE \<or> has (fl s a) TX_POLLOUT" and ops: "ops_of s a = PortOps"
    using port_attached [OF core a] by metis
  have m: "fl s a AND (TX_ATTACHED OR TX_DETACHED) = TX_ATTACHED" using a(2) by (simp add: attached_def flags)
  have idem: "has (fl s a) TX_POLLIN \<Longrightarrow> fl s a OR TX_POLLIN = fl s a"
    using or_flag_idem [of "fl s a" 1] by (simp add: flag_powers)
  have small: "refcnt_small v s" using v(5) by (simp add: refcnt_small_def)
  let ?s0 = "upd_io (\<lambda>i. i\<lparr>lp_accept := True\<rparr>) s"
  have inv0: "port_inv T A ?s0" by (rule port_inv_op [OF inv port_core_same]) simp_all
  consider "has (fl s a) TX_LISTEN" "has (fl s a) TX_POLLIN" | "has (fl s a) TX_LISTEN" "\<not> has (fl s a) TX_POLLIN"
    | "\<not> has (fl s a) TX_LISTEN" "has (fl s a) TX_POLLIN" | "\<not> has (fl s a) TX_LISTEN" "\<not> has (fl s a) TX_POLLIN" by blast
  then show ?thesis
  proof cases
    case 1
    then have "tx_completion_port_pollin a k s = Inr ?s0"
      using ops k by (simp add: tx_completion_port_pollin_def port_pollin_listen_def Let_def)
    then show ?thesis using inv0 idem 1 by (auto intro!: port_run)
  next
    case 3
    then have "tx_completion_port_pollin a k s = Inr s" using ops by (simp add: tx_completion_port_pollin_def)
    then show ?thesis using inv idem 3 by auto
  next
    case 2
    define s' where "s' = (if ex_started (k 2) then upd_ovl v (\<lambda>o'. o'\<lparr>ov_newfd := fst (k 1)\<rparr>)
        (ovl_get v (set_flags a TX_POLLIN (set_flight v False True ?s0)))
      else log_kcall (CloseFd (fst (k 1))) ?s0)"
    have run: "api_run T U s s'" unfolding s'_def by (auto intro!: port_run api_run_filp)
    have *: "port_inv T A s' \<and> refcnt_small v s'"
    proof (cases "ex_started (k 2)")
      case True
      then show ?thesis
        by (intro conjI; intro port_pollin_started [OF inv a 2(2) v]) (simp_all add: s'_def ovl_upds)
    next
      case False
      then show ?thesis using small
        by (intro conjI port_inv_op [OF inv port_core_same]) (simp_all add: s'_def log_kcall_def refcnt_small_def)
    qed
    have "tx_completion_port_pollin a k s = (if refcnt_small v s' then Inr s' else Inl AssertFail)"
      using 2 ops k m v(1,2) unfolding s'_def
      by (simp add: tx_completion_port_pollin_def port_pollin_listen_def with_ovl_live Let_def)
    with * run show ?thesis by (auto simp: s'_def port_granted_def ovl_upds)
  next
    case 4
    let ?s1 = "set_flags a TX_READABLE (clear_flags a TX_POLLIN s)"
    define s' where "s' = (if wsa_started (k 3) then ovl_get v (set_flags a TX_POLLIN (set_flight v False True s))
      else clear_in a (tx_task_active (tx_filterin (filp ?s1 a)) (VAiocb a) ?s1))"
    have run: "api_run T U s s'"
    proof (cases "wsa_started (k 3)")
      case True
      then show ?thesis by (auto simp: s'_def intro!: port_run api_run_filp)
    next
      case False
      then show ?thesis unfolding s'_def if_not_P [OF False]
        by (intro wake_run(2) [OF W a(1)]) (auto simp: ovl_upds intro!: port_run)
    qed
    have *: "port_inv T A s' \<and> refcnt_small v s'"
    proof (cases "wsa_started (k 3)")
      case True
      then show ?thesis
        by (intro conjI; intro port_pollin_started [OF inv a 4(2) v]) (simp_all add: s'_def ovl_upds)
    next
      case False
      have "port_core A Q' s'" if "port_core A Q' s" for Q'
        by (rule port_core_op [OF that a v(1)])
          (use False 4(2) v a(2) in \<open>auto simp: s'_def ovl_upds attached_def flags\<close>)
      then have "port_inv T A s'" by (rule port_inv_op [OF inv]) (use False in \<open>auto simp: s'_def ovl_upds\<close>)
      then show ?thesis using False small by (simp add: s'_def ovl_upds refcnt_small_def)
    qed
    have "tx_completion_port_pollin a k s = (if refcnt_small v s' then Inr s' else Inl AssertFail)"
      using 4 ops m v(1,2) unfolding s'_def
      by (simp add: tx_completion_port_pollin_def with_ovl_live Let_def)
    with * run show ?thesis by (auto simp: s'_def port_granted_def ovl_upds)
  qed
qed

section \<open>Dropping a reference\<close>

lemma ovl_put_reads:
  "aiocbs (io (ovl_put v s)) = aiocbs (io s)" "in_flight (io (ovl_put v s)) = in_flight (io s)"
  "poll_ops (io (ovl_put v s)) = poll_ops (io s)"
  "overlappeds (io (ovl_put v s)) = (overlappeds (io s))(v := (ovl s v)\<lparr>ov_refcnt := ov_refcnt (ovl s v) - 1\<rparr>)"
  "ovl_live (io (ovl_put v s)) = (if ov_refcnt (ovl s v) = 1 then (ovl_live (io s))(v := False) else ovl_live (io s))"
  "pq (io (ovl_put v s)) = (if ov_refcnt (ovl s v) = 1 then LIST_REMOVE v (pq (io s)) else pq (io s))"
  by (simp_all add: ovl_put_def Let_def ovl_upds)

lemma ovl_put_run: "api_run T U s s' \<Longrightarrow> api_run T U s (ovl_put v s')"
  by (auto simp: ovl_put_def Let_def intro!: port_run api_run_filp)

text \<open>A \<open>tx_overlapped_t\<close> that belongs to no block and has one reference too many.\<close>

lemma port_core_put:
  assumes rep: "list_rep (pq (io s)) Q" and lk: "\<And>w. live s w \<longleftrightarrow> linked Q w" and fin: "finite {w. live s w}"
    and others: "\<And>w. live s w \<Longrightarrow> w \<noteq> v \<Longrightarrow> ovl_ok A s w" and v: "live s v" "ov_filp (ovl s v) = None"
      "ov_refcnt (ovl s v) = 1 + of_bool (flight s v True) + of_bool (flight s v False)"
    and fli: "\<And>w b. flight s w b \<Longrightarrow> live s w" and filps: "\<And>a. a \<in> A \<Longrightarrow> filp_ok s a"
    and polls: "\<And>a. a \<in> A \<Longrightarrow> \<exists>p. filp_poll (filp s a) = PortPoll p \<and> poll_ops (io s) (PortPoll p) = PortOps"
    and ports: "\<And>p. poll_ops (io s) (PortPoll p) = PortOps \<Longrightarrow> p \<in> dom Q"
  shows "\<exists>Q. port_core A Q (ovl_put v s)"
proof -
  note R = ovl_put_reads [of v s]
  define z where "z = (ov_refcnt (ovl s v) = 1)"
  define Q' where "Q' = (if z then q_remove v Q else Q)"
  have z: "z \<longleftrightarrow> \<not> flight s v True \<and> \<not> flight s v False" using v(3) by (auto simp: z_def)
  have zf: "z \<Longrightarrow> \<not> flight s v b" for b using z by (cases b) auto
  have at: "attached (ovl_put v s) b = attached s b" for b by (simp add: attached_def R)
  have lv: "live (ovl_put v s) w \<longleftrightarrow> live s w \<and> \<not> (z \<and> w = v)" for w by (simp add: R z_def)
  have "list_rep (pq (io (ovl_put v s))) Q'"
    using rep tq.unlink [OF rep, of v] lk [of v] v(1) by (simp add: R z_def [symmetric] Q'_def)
  moreover have "live (ovl_put v s) w \<longleftrightarrow> linked Q' w" for w using lk [of w] by (auto simp: lv Q'_def)
  moreover have "finite {w. live (ovl_put v s) w}" by (rule finite_subset [OF _ fin]) (auto simp: lv)
  moreover have "ovl_ok A (ovl_put v s) w" if "live (ovl_put v s) w" for w
  proof (cases "w = v")
    case True
    then have "\<not> z" using that by (simp add: lv)
    then show ?thesis using v z True by (auto simp: ovl_ok_def R)
  next
    case False
    then show ?thesis using others [of w] that unfolding lv by (simp add: ovl_ok_def R(1,2,4) at)
  qed
  moreover have "flight (ovl_put v s) w b \<Longrightarrow> live (ovl_put v s) w" for w b
    using fli [of w b] zf [of b] by (auto simp: R(2) lv)
  moreover have "filp_ok (ovl_put v s) b" if "b \<in> A" for b
  proof -
    have "w \<noteq> v" if "ov_filp (ovl s w) = Some b" for w using that v(2) by auto
    then show ?thesis using filps [OF that] lv by (fastforce simp: filp_ok_def at R(1,2,4))
  qed
  moreover have "\<exists>p. filp_poll (filp (ovl_put v s) b) = PortPoll p \<and>
      poll_ops (io (ovl_put v s)) (PortPoll p) = PortOps" if "b \<in> A" for b
    using polls [OF that] by (simp add: R)
  moreover have "p \<in> dom Q'" if "poll_ops (io (ovl_put v s)) (PortPoll p) = PortOps" for p
    using ports that by (simp add: R Q'_def)
  ultimately have "port_core A Q' (ovl_put v s)" unfolding port_core_def by blast
  then show ?thesis by blast
qed

lemma tx_completion_port_detach_spec:
  assumes inv: "port_inv T A s" and a: "a \<in> A" "attached s a"
  shows "\<exists>s'. tx_completion_port_detach a k s = Inr s' \<and> port_inv T A s' \<and> api_run T U s s' \<and> \<not> attached s' a \<and>
    (\<forall>b. b \<noteq> a \<longrightarrow> filp s' b = filp s b)"
proof -
  from inv obtain Q where core: "port_core A Q s" and W: "waiters T A s" by (auto simp: port_inv_def)
  note D = port_coreD [OF core]
  obtain v where v: "tx_privp (filp s a) = Some v" "live s v" "ov_filp (ovl s v) = Some a"
    "flight s v True = has (fl s a) TX_POLLOUT" "flight s v False = has (fl s a) TX_POLLIN"
    "ov_refcnt (ovl s v) = 1 + of_bool (has (fl s a) TX_POLLOUT) + of_bool (has (fl s a) TX_POLLIN)"
    "ops_of s a = PortOps"
    by (rule port_attached [OF core a])
  have m: "fl s a AND (TX_ATTACHED OR TX_DETACHED) = TX_ATTACHED" using a(2) by (simp add: attached_def flags)
  define s3 where "s3 = upd_ovl v (\<lambda>o'. o'\<lparr>ov_filp := None\<rparr>)
    (upd_filp a (\<lambda>f. f\<lparr>tx_privp := None\<rparr>) (set_flags a TX_DETACHED s))"
  have eq: "tx_completion_port_detach a k s = Inr (ovl_put v s3)"
    using v(1,2,7) m by (simp add: tx_completion_port_detach_def with_ovl_live s3_def Let_def)
  have R: "aiocbs (io s3) = (aiocbs (io s))(a := (filp s a)\<lparr>filp_flags := fl s a OR TX_DETACHED, tx_privp := None\<rparr>)"
    "overlappeds (io s3) = (overlappeds (io s))(v := (ovl s v)\<lparr>ov_filp := None\<rparr>)"
    "ovl_live (io s3) = ovl_live (io s)" "in_flight (io s3) = in_flight (io s)" "pq (io s3) = pq (io s)"
    "poll_ops (io s3) = poll_ops (io s)"
    by (simp_all add: s3_def ovl_upds)
  have at: "\<not> attached s3 a" "b \<noteq> a \<Longrightarrow> attached s3 b = attached s b" for b by (simp_all add: attached_def R flags)
  have "\<exists>Q. port_core A Q (ovl_put v s3)"
  proof (rule port_core_put [of s3 Q v A])
    show "ovl_ok A s3 w" if "live s3 w" "w \<noteq> v" for w
    proof -
      have ok: "ovl_ok A s w" using D(4) that by (simp add: R)
      moreover have "ov_filp (ovl s w) \<noteq> Some a" using ok v(1) that(2) by (auto simp: ovl_ok_def)
      ultimately show ?thesis using that(2) at by (auto simp: ovl_ok_def R)
    qed
    show "filp_ok s3 b" if "b \<in> A" for b
    proof (cases "b = a")
      case True
      then show ?thesis using at(1) by (simp add: filp_ok_def)
    next
      case False
      have "w \<noteq> v" if "ov_filp (ovl s w) = Some b" for w using that v(3) False by auto
      then show ?thesis using D(6) [OF that] False at(2) [OF False] by (fastforce simp: filp_ok_def R)
    qed
    show "\<exists>p. filp_poll (filp s3 b) = PortPoll p \<and> poll_ops (io s3) (PortPoll p) = PortOps"
      if "b \<in> A" for b using D(7) [OF that] by (cases "b = a") (auto simp: R)
  qed (use D(1-3) D(5) D(8) v in \<open>simp_all add: R\<close>)
  moreover have "waiters T A (ovl_put v s3)" using W by (auto simp: waiters_def ovl_put_reads R)
  moreover have "api_run T U s (ovl_put v s3)" unfolding s3_def by (intro ovl_put_run) (auto intro!: api_run_filp)
  ultimately show ?thesis using eq at(1) by (auto simp: port_inv_def attached_def ovl_put_reads R)
qed

section \<open>Completions\<close>

text \<open>Who waits for the operation that completes.\<close>

definition port_waiter :: "tx_mem \<Rightarrow> ovl_p \<Rightarrow> bool \<Rightarrow> task_p set" where
  "port_waiter s v b = (case ov_filp (ovl s v) of None \<Rightarrow> {}
     | Some a \<Rightarrow> set_option (if b then tx_filterout (filp s a) else tx_filterin (filp s a)))"

definition port_ready :: "tx_mem \<Rightarrow> ovl_p \<Rightarrow> bool \<Rightarrow> tx_mem \<Rightarrow> bool" where
  "port_ready s v b s' \<longleftrightarrow> (\<forall>a. ov_filp (ovl s v) = Some a \<longrightarrow>
     (if b then tx_writable s' a \<and> tx_filterout (filp s' a) = None
      else tx_readable s' a \<and> tx_filterin (filp s' a) = None))"

lemma handle_overlapped_spec:
  assumes inv: "port_inv T A s" and f: "flight s v b"
  shows "\<exists>s'. handle_overlapped v b (set_flight v b False s) = Inr s' \<and> port_inv T A s' \<and> api_run T U s s' \<and>
    wakes (port_waiter s v b) s s' \<and> port_ready s v b s' \<and>
    in_flight (io s') = (in_flight (io s))(v := (in_flight (io s) v)(b := False)) \<and>
    (\<forall>w c. flight s w c \<longrightarrow> (w, c) \<noteq> (v, b) \<longrightarrow> port_waiter s' w c = port_waiter s w c)"
proof -
  from inv obtain Q where core: "port_core A Q s" and W: "waiters T A s" by (auto simp: port_inv_def)
  note D = port_coreD [OF core]
  have v: "live s v" by (rule D(5) [OF f])
  note ok = D(4) [OF v, unfolded ovl_ok_def]
  let ?s0 = "set_flight v b False s"
  define s1 where "s1 = ovl_put v ?s0"
  have R0: "aiocbs (io ?s0) = aiocbs (io s)" "overlappeds (io ?s0) = overlappeds (io s)"
    "ovl_live (io ?s0) = ovl_live (io s)" "pq (io ?s0) = pq (io s)" "poll_ops (io ?s0) = poll_ops (io s)"
    "in_flight (io ?s0) = (in_flight (io s))(v := (in_flight (io s) v)(b := False))"
    by (simp_all add: set_flight_def)
  have run1: "api_run T U s s1" unfolding s1_def by (intro ovl_put_run port_run) simp
  have wk1: "wakes {} s s1" unfolding s1_def ovl_put_def Let_def by (auto simp: ovl_upds intro!: wakes_upd_io)
  have fr: "of_bool (flight ?s0 v True) + of_bool (flight ?s0 v False) =
      of_bool (flight s v True) + of_bool (flight s v False) - (1 :: int)"
    using f by (cases b) (simp_all add: set_flight_def)
  show ?thesis
  proof (cases "ov_filp (ovl s v)")
    case None
    have "\<exists>Q. port_core A Q (ovl_put v ?s0)"
    proof (rule port_core_put [of ?s0 Q v A])
      show "ovl_ok A ?s0 w" if "live ?s0 w" "w \<noteq> v" for w
        using D(4) [of w] that by (simp add: ovl_ok_def R0 attached_def)
      show "filp_ok ?s0 a" if "a \<in> A" for a
      proof -
        have "w \<noteq> v" if "ov_filp (ovl s w) = Some a" for w using that None by auto
        then show ?thesis using D(6) [OF that] by (fastforce simp: filp_ok_def R0 attached_def)
      qed
      show "\<exists>p. filp_poll (filp ?s0 a) = PortPoll p \<and> poll_ops (io ?s0) (PortPoll p) = PortOps"
        if "a \<in> A" for a using D(7) [OF that] by (auto simp: R0)
      show "flight ?s0 w c \<Longrightarrow> live ?s0 w" for w c using D(5) [of w c] v by (auto simp: R0 split: if_splits)
      show "ov_refcnt (ovl ?s0 v) = 1 + of_bool (flight ?s0 v True) + of_bool (flight ?s0 v False)"
        using ok None fr by (simp add: R0)
    qed (use D(1-3) D(8) v None in \<open>simp_all add: R0\<close>)
    moreover have "waiters T A s1" using W by (auto simp: waiters_def s1_def ovl_put_reads R0)
    moreover have "handle_overlapped v b ?s0 = Inr s1"
      using v None by (simp add: handle_overlapped_def with_ovl_live R0 s1_def [symmetric])
        (simp add: s1_def ovl_put_reads R0)
    moreover have "port_waiter s1 w c = port_waiter s w c" for w c
      by (auto simp: port_waiter_def s1_def ovl_put_reads R0 split: option.split)
    ultimately show ?thesis
      using run1 wk1 None by (auto simp: port_inv_def s1_def port_waiter_def port_ready_def ovl_put_reads R0)
  next
    case (Some a)
    have a: "a \<in> A" "attached s a" "tx_privp (filp s a) = Some v" using ok Some by auto
    have fo: "filp_ok s a" by (rule D(6) [OF a(1)])
    have fl': "flight s v True = has (fl s a) TX_POLLOUT" "flight s v False = has (fl s a) TX_POLLIN"
      and wr: "has (fl s a) TX_WRITABLE \<or> has (fl s a) TX_POLLOUT"
      using fo a by (auto simp: filp_ok_def)
    have n1: "ov_refcnt (ovl s v) = 1 + of_bool (flight s v True) + of_bool (flight s v False)"
      using ok Some by simp
    then have big: "ov_refcnt (ovl s v) \<noteq> 1" using f by (cases b) auto
    have R1: "aiocbs (io s1) = aiocbs (io s)"
      "overlappeds (io s1) = (overlappeds (io s))(v := (ovl s v)\<lparr>ov_refcnt := ov_refcnt (ovl s v) - 1\<rparr>)"
      "ovl_live (io s1) = ovl_live (io s)" "pq (io s1) = pq (io s)" "poll_ops (io s1) = poll_ops (io s)"
      "in_flight (io s1) = (in_flight (io s))(v := (in_flight (io s) v)(b := False))"
      using big by (simp_all add: s1_def ovl_put_reads R0)
    define s2 where "s2 = (if b then set_flags a TX_WRITABLE (clear_flags a TX_POLLOUT s1)
      else set_flags a TX_READABLE (clear_flags a TX_POLLIN s1))"
    define s' where "s' = (if b then clear_out a (tx_task_active (tx_filterout (filp s2 a)) (VAiocb a) s2)
      else clear_in a (tx_task_active (tx_filterin (filp s2 a)) (VAiocb a) s2))"
    have eq: "handle_overlapped v b ?s0 = Inr s'"
      using v Some by (simp add: handle_overlapped_def with_ovl_live R0 R1 s1_def [symmetric])
        (cases b; simp add: s'_def s2_def Let_def)
    have R2: "tx_filterin (filp s2 a) = tx_filterin (filp s a)" "tx_filterout (filp s2 a) = tx_filterout (filp s a)"
      by (simp_all add: s2_def filp_upds R1)
    have run2: "api_run T U s s2" using run1 by (auto simp: s2_def intro: api_run_filp)
    have wk2: "wakes {} s s2" using wk1 by (auto simp: s2_def filp_upds intro: wakes_upd_io)
    have R: "aiocbs (io s') = (aiocbs (io s))(a := if b
        then (filp s a)\<lparr>filp_flags := (fl s a AND NOT TX_POLLOUT) OR TX_WRITABLE, tx_filterout := None\<rparr>
        else (filp s a)\<lparr>filp_flags := (fl s a AND NOT TX_POLLIN) OR TX_READABLE, tx_filterin := None\<rparr>)"
      "overlappeds (io s') = overlappeds (io s1)" "ovl_live (io s') = ovl_live (io s)" "pq (io s') = pq (io s)"
      "poll_ops (io s') = poll_ops (io s)" "in_flight (io s') = in_flight (io s1)"
      by (simp_all add: s'_def s2_def filp_upds R1)
    have "port_core A Q' s'" if "port_core A Q' s" for Q'
      by (rule port_core_op [OF that a])
        (use a(2) fl' wr n1 f in \<open>cases b; auto simp: R R1 attached_def flags\<close>)+
    then have "port_inv T A s'" by (rule port_inv_op [OF inv]) (auto simp: R)
    moreover have "api_run T U s s'" unfolding s'_def
      using wake_run(1) [OF W a(1) R2(2) run2] wake_run(2) [OF W a(1) R2(1) run2] by simp
    moreover have "wakes (port_waiter s v b) s s'"
      using wakes_active [OF wk2, of "tx_filterout (filp s a)" "VAiocb a"] wakes_active [OF wk2, of "tx_filterin (filp s a)" "VAiocb a"]
      by (auto simp: s'_def port_waiter_def Some R2 filp_upds intro: wakes_upd_io)
    moreover have "port_ready s v b s'" by (simp add: port_ready_def Some R tx_writable_def tx_readable_def flags)
    moreover have "port_waiter s' w c = port_waiter s w c" if "flight s w c" "(w, c) \<noteq> (v, b)" for w c
    proof (cases "w = v")
      case True
      then show ?thesis using that(2) by (cases b) (simp_all add: port_waiter_def Some R R1)
    next
      case False
      then have "ov_filp (ovl s w) \<noteq> Some a"
        using D(4) [OF D(5) [OF that(1)]] a(3) by (auto simp: ovl_ok_def)
      then show ?thesis using False by (auto simp: port_waiter_def R R1 split: option.split)
    qed
    ultimately show ?thesis using eq by (auto simp: R R1)
  qed
qed

text \<open>What the kernel may report: a timeout, or an operation in flight; with none left, a timeout.\<close>

definition port_answers :: "port_kernel \<Rightarrow> bool" where
  "port_answers krn \<longleftrightarrow> (\<forall>n t F. (case krn n t F of PortTimeout \<Rightarrow> True | PortFailure \<Rightarrow> False | PortDone v b \<Rightarrow> F v b))"

lemma flights_finite: "port_core A Q s \<Longrightarrow> finite {(v, b). flight s v b}"
proof -
  assume c: "port_core A Q s"
  have "{(v, b). flight s v b} \<subseteq> {v. live s v} \<times> UNIV" using port_coreD(5) [OF c] by auto
  then show ?thesis using port_coreD(3) [OF c] finite_subset by fastforce
qed

text \<open>
  The drain loop ends: every turn takes one operation out of flight. Whoever waits for an operation
  it delivers is woken.
\<close>

definition port_delivered :: "tx_mem \<Rightarrow> tx_mem \<Rightarrow> bool" where
  "port_delivered s s' \<longleftrightarrow> wakes {} s s' \<and> (\<forall>v b. flight s' v b \<longrightarrow> flight s v b) \<and>
     (\<forall>v b. flight s v b \<longrightarrow> (if flight s' v b then port_waiter s' v b = port_waiter s v b
        else wakes (port_waiter s v b) s s'))"

lemma port_delivered_step:
  assumes "flight s v b" "wakes (port_waiter s v b) s s1"
    "in_flight (io s1) = (in_flight (io s))(v := (in_flight (io s) v)(b := False))"
    "\<forall>w c. flight s w c \<longrightarrow> (w, c) \<noteq> (v, b) \<longrightarrow> port_waiter s1 w c = port_waiter s w c"
    and d: "port_delivered s1 s'"
  shows "port_delivered s s'"
proof -
  have fl1: "flight s1 w c \<longleftrightarrow> flight s w c \<and> (w, c) \<noteq> (v, b)" for w c
    using assms(1) by (auto simp: assms(3))
  have w: "wakes {} s1 s'" "\<And>w c. flight s' w c \<Longrightarrow> flight s1 w c" using d by (auto simp: port_delivered_def)
  have 0: "wakes {} s s1" using assms(2) by (rule wakes_mono) simp
  have "wakes {} s s'" using wakes_trans [OF 0 w(1)] by (rule wakes_mono) simp
  moreover have "flight s w c" if "flight s' w c" for w c using w(2) [OF that] fl1 by simp
  moreover have "if flight s' w c then port_waiter s' w c = port_waiter s w c else wakes (port_waiter s w c) s s'"
    if f: "flight s w c" for w c
  proof (cases "(w, c) = (v, b)")
    case True
    have "\<not> flight s' v b" using w(2) fl1 by blast
    moreover have "wakes (port_waiter s v b) s s'" using wakes_trans [OF assms(2) w(1)] by (rule wakes_mono) simp
    ultimately show ?thesis using True by simp
  next
    case False
    then have f1: "flight s1 w c" "port_waiter s1 w c = port_waiter s w c" using f fl1 assms(4) by auto
    have "if flight s' w c then port_waiter s' w c = port_waiter s1 w c else wakes (port_waiter s1 w c) s1 s'"
      using d f1(1) unfolding port_delivered_def by blast
    moreover have "wakes X s s'" if "wakes X s1 s'" for X using wakes_trans [OF 0 that] by simp
    ultimately show ?thesis using f1(2) by (auto split: if_splits)
  qed
  ultimately show ?thesis unfolding port_delivered_def by blast
qed

lemma port_loop_spec:
  assumes "port_inv T A s" and "port_answers krn"
  shows "\<exists>s'. port_loop p krn n s = Some (Inr s') \<and> port_inv T A s' \<and> api_run T U s s' \<and> port_delivered s s'"
  using assms(1)
proof (induction "card {(v, b). flight s v b}" arbitrary: s n rule: less_induct)
  case less
  let ?t = "if tx_loop_timeout (tx_loop_get (PollTask (PortPoll p)) s) (VPort p) s \<noteq> 0 then 15 else 0 :: int"
  have ans: "case krn n ?t (in_flight (io s)) of PortTimeout \<Rightarrow> True | PortFailure \<Rightarrow> False | PortDone v b \<Rightarrow> flight s v b"
    using assms(2) unfolding port_answers_def by blast
  show ?case
  proof (cases "krn n ?t (in_flight (io s))")
    case PortTimeout
    then have "port_loop p krn n s = Some (Inr s)" by (subst port_loop.simps) (simp add: Let_def)
    then show ?thesis using less.prems by (auto simp: port_delivered_def)
  next
    case PortFailure
    with ans show ?thesis by simp
  next
    case (PortDone v b)
    with ans have f: "flight s v b" by simp
    obtain s1 where s1: "handle_overlapped v b (set_flight v b False s) = Inr s1" "port_inv T A s1"
      "api_run T U s s1" "wakes (port_waiter s v b) s s1"
      "in_flight (io s1) = (in_flight (io s))(v := (in_flight (io s) v)(b := False))"
      "\<forall>w c. flight s w c \<longrightarrow> (w, c) \<noteq> (v, b) \<longrightarrow> port_waiter s1 w c = port_waiter s w c"
      using handle_overlapped_spec [OF less.prems f] by blast
    from less.prems obtain Q where c: "port_core A Q s" by (auto simp: port_inv_def)
    have eq: "{(w, c). flight s1 w c} = {(w, c). flight s w c} - {(v, b)}"
      unfolding s1(5) by (auto split: if_split_asm)
    have "card {(w, c). flight s1 w c} < card {(w, c). flight s w c}"
      unfolding eq by (rule card_Diff1_less [OF flights_finite [OF c]]) (simp add: f)
    from less.hyps [OF this s1(2), of "Suc n"] obtain s' where s': "port_loop p krn (Suc n) s1 = Some (Inr s')"
      "port_inv T A s'" "api_run T U s1 s'" "port_delivered s1 s'" by blast
    have "port_loop p krn n s = Some (Inr s')"
      using s1(1) s'(1) PortDone by (subst port_loop.simps) (simp add: Let_def)
    moreover have "port_delivered s s'" by (rule port_delivered_step [OF f s1(4-6) s'(4)])
    ultimately show ?thesis using s'(2,3) s1(3) by (auto intro: rtranclp_trans)
  qed
qed

lemma tx_completion_port_polling_spec:
  assumes inv: "port_inv T A s" and krn: "port_answers krn" and t: "PollTask (PortPoll p) \<in> T"
  shows "\<exists>s1. tx_completion_port_polling p krn s = Some (Inr (tx_poll_active (PortPoll p) s1)) \<and>
    port_inv T A (tx_poll_active (PortPoll p) s1) \<and> api_run T U s (tx_poll_active (PortPoll p) s1) \<and>
    port_delivered s s1"
proof -
  obtain s1 where s1: "port_loop p krn 0 s = Some (Inr s1)" "port_inv T A s1" "api_run T U s s1" "port_delivered s s1"
    using port_loop_spec [OF assms(1,2)] by blast
  have "port_inv T A (tx_poll_active (PortPoll p) s1)"
    by (rule port_inv_op [OF s1(2) port_core_same]) simp_all
  then show ?thesis using s1 t api_run_poll_active by (auto simp: tx_completion_port_polling_def)
qed

section \<open>The poller's interface\<close>

lemma port_inv_same_poll:
  assumes "port_inv T A s" and "same_poll s s'" and "waiters T A s'"
  shows "port_inv T A s'"
proof -
  from assms(2) obtain g where g: "io s' = (io s)\<lparr>aiocbs := g\<rparr>" "\<And>a. filp_core (g a) = filp_core (filp s a)"
    unfolding same_poll_def by blast
  have "filp_flags (filp_core (g a)) = fl s a" "tx_privp (filp_core (g a)) = tx_privp (filp s a)"
    "filp_poll (filp_core (g a)) = filp_poll (filp s a)" for a by (simp_all add: g(2), simp_all add: filp_core_def)
  then have eq: "fl s' a = fl s a" "tx_privp (filp s' a) = tx_privp (filp s a)" "filp_poll (filp s' a) = filp_poll (filp s a)"
    for a by (simp_all add: g(1) filp_core_def)
  have eq': "overlappeds (io s') = overlappeds (io s)" "ovl_live (io s') = ovl_live (io s)" "pq (io s') = pq (io s)"
    "in_flight (io s') = in_flight (io s)" "poll_ops (io s') = poll_ops (io s)" by (simp_all add: g(1))
  have "port_core A Q s'" if "port_core A Q s" for Q
    using that unfolding port_core_def ovl_ok_def filp_ok_def attached_def eq eq' .
  then show ?thesis using assms(1,3) by (auto simp: port_inv_def)
qed

interpretation port: poller_in port_fns PortOps port_inv "\<lambda>k. fst (k 0) \<noteq> -1" port_granted
proof
  fix T A s s' a k U
  show "port_inv T A s \<Longrightarrow> same_poll s s' \<Longrightarrow> waiters T A s' \<Longrightarrow> port_inv T A s'"
    by (rule port_inv_same_poll)
  show "port_inv T A s \<Longrightarrow> a \<in> A \<Longrightarrow> ops_of s a = PortOps"
    using port_coreD(7) by (fastforce simp: port_inv_def)
  show "port_inv T A s \<Longrightarrow> waiters T A s" by (simp add: port_inv_def)
  show "port_inv T A s \<Longrightarrow> a \<in> A \<Longrightarrow> attached s a \<Longrightarrow> fst (k 0) \<noteq> -1 \<Longrightarrow>
      \<exists>s'. tx_pollin port_fns a k s = Inr s' \<and> port_inv T A s' \<and> api_run T U s s' \<and>
        (port_granted k \<longrightarrow> aiocbs (io s') = (aiocbs (io s))(a := (filp s a)\<lparr>filp_flags := fl s a OR TX_POLLIN\<rparr>))"
    using tx_completion_port_pollin_spec by (simp only: port_fns_def tx_poll_op.simps)
qed

end
