(* ===== verification/TxAiocb.thy ===== *)
theory TxAiocb
  imports TxEpoll TxKqueue TxPort
begin

text \<open>
  \<open>tx_aiocb.cpp\<close>, the I/O control block as its users see it: set up on a loop's poller, waited for,
  read, written, connected and taken down. \<open>poll_table\<close> is where a poller's \<open>tx_ops\<close> points, so the
  calls through the table reach the functions of the three pollers. Where the code differs between
  Windows and the other systems both branches are modelled.

  The second half follows a loop with one poller through any sequence of these operations.
\<close>

section \<open>Operations\<close>

fun poll_table :: "ops_p \<Rightarrow> tx_poll_op option" where
  "poll_table NoOps = None"
| "poll_table EpollOps = Some epoll_fns"
| "poll_table KqueueOps = Some kqueue_fns"
| "poll_table PortOps = Some port_fns"

definition with_ops :: "aiocb_p \<Rightarrow> tx_mem \<Rightarrow> (tx_poll_op \<Rightarrow> 'a res) \<Rightarrow> 'a res" where
  "with_ops a s f = (case poll_table (ops_of s a) of None \<Rightarrow> Inl NullDeref | Some ops \<Rightarrow> f ops)"

text \<open>The calls through \<open>filp->tx_fops\<close>; the only table is \<open>_generic_fops\<close>.\<close>

definition tx_outcb_prepare :: "aiocb_p \<Rightarrow> task_p \<Rightarrow> (nat \<Rightarrow> kres) \<Rightarrow> tx_mem \<Rightarrow> tx_mem res" where
  "tx_outcb_prepare a task k s =
     (case tx_fops (filp s a) of NoFops \<Rightarrow> Inl NullDeref
      | GenericFops \<Rightarrow> generic_active_out poll_table a task k s)"

definition tx_outcb_cancel :: "aiocb_p \<Rightarrow> void_p \<Rightarrow> tx_mem \<Rightarrow> tx_mem res" where
  "tx_outcb_cancel a verify s =
     (case tx_fops (filp s a) of NoFops \<Rightarrow> Inl NullDeref | GenericFops \<Rightarrow> Inr (generic_cancel_out a verify s))"

definition tx_aincb_active :: "aiocb_p \<Rightarrow> task_p \<Rightarrow> (nat \<Rightarrow> kres) \<Rightarrow> tx_mem \<Rightarrow> tx_mem res" where
  "tx_aincb_active a task k s =
     (case tx_fops (filp s a) of NoFops \<Rightarrow> Inl NullDeref
      | GenericFops \<Rightarrow> generic_active_in poll_table a task k s)"

definition tx_aincb_stop :: "aiocb_p \<Rightarrow> void_p \<Rightarrow> tx_mem \<Rightarrow> tx_mem res" where
  "tx_aincb_stop a verify s =
     (case tx_fops (filp s a) of NoFops \<Rightarrow> Inl NullDeref | GenericFops \<Rightarrow> Inr (generic_cancel_in a verify s))"

text \<open>\<open>write\<close> and \<open>writev\<close> of \<open>buf\<close> with the answer \<open>k\<close>: the kernel took its first \<open>fst k\<close> bytes.\<close>

definition write_fd :: "aiocb_p \<Rightarrow> bytes \<Rightarrow> kres \<Rightarrow> tx_mem \<Rightarrow> tx_mem" where
  "write_fd a buf k s = (if fst k > 0 then log_kcall (Sent a (take (nat (fst k)) buf)) s else s)"

definition tx_outcb_write :: "aiocb_p \<Rightarrow> bytes \<Rightarrow> (nat \<Rightarrow> kres) \<Rightarrow> tx_mem \<Rightarrow> (int \<times> tx_mem) res" where
  "tx_outcb_write a buf k s =
     with_ops a s (\<lambda>ops. case tx_sendout ops of
         None \<Rightarrow> Inr (fst (k 0), tx_outcb_update a (k 0) (write_fd a buf (k 0) s))
       | Some sendout \<Rightarrow> sendout a (take (if length buf < 8192 then length buf else 8192) buf) k s)"

definition IOV_MAX :: nat where "IOV_MAX = 1024"

definition tx_outcb_xsend :: "aiocb_p \<Rightarrow> bytes list \<Rightarrow> kres \<Rightarrow> tx_mem \<Rightarrow> (int \<times> tx_mem) res" where
  "tx_outcb_xsend a buf k s =
     (if length buf < IOV_MAX then Inr (fst k, tx_outcb_update a k (write_fd a (concat buf) k s))
      else Inl AssertFail)"

definition tx_aiocb_init_poll :: "aiocb_p \<Rightarrow> poll_p \<Rightarrow> int \<Rightarrow> (nat \<Rightarrow> kres) \<Rightarrow> tx_mem \<Rightarrow> tx_mem res" where
  "tx_aiocb_init_poll a poll fd k s =
     (let s1 = upd_filp a (\<lambda>f. f\<lparr>tx_fd := fd, filp_flags := TX_WRITABLE, filp_poll := poll, tx_privp := None,
                 tx_filterin := None, tx_filterout := None, tx_fops := GenericFops\<rparr>) s in
      if fd = -1 then Inr s1 else with_ops a s1 (\<lambda>ops. tx_attach ops a k s1))"

definition tx_aiocb_init :: "aiocb_p \<Rightarrow> loop_p \<Rightarrow> int \<Rightarrow> (nat \<Rightarrow> kres) \<Rightarrow> tx_mem \<Rightarrow> tx_mem res" where
  "tx_aiocb_init a loop fd k s =
     (case tx_poll_get loop s of None \<Rightarrow> Inl AssertFail | Some poll \<Rightarrow> tx_aiocb_init_poll a poll fd k s)"

definition tx_listen_init :: "aiocb_p \<Rightarrow> loop_p \<Rightarrow> int \<Rightarrow> (nat \<Rightarrow> kres) \<Rightarrow> tx_mem \<Rightarrow> tx_mem res" where
  "tx_listen_init a loop fd k s =
     (case tx_poll_get loop s of None \<Rightarrow> Inl AssertFail
      | Some poll \<Rightarrow> res_bind (tx_aiocb_init_poll a poll fd k s) (\<lambda>s1. Inr (set_flags a TX_LISTEN s1)))"

text \<open>\<open>k 0\<close> is \<open>accept\<close>.\<close>

definition tx_listen_accept :: "aiocb_p \<Rightarrow> (nat \<Rightarrow> kres) \<Rightarrow> tx_mem \<Rightarrow> int \<times> tx_mem" where
  "tx_listen_accept a k s = (fst (k 0), tx_aincb_update a (k 0) s)"

definition tx_listen_accept_win :: "aiocb_p \<Rightarrow> tx_mem \<Rightarrow> (int \<times> tx_mem) res" where
  "tx_listen_accept_win a s =
     with_ops a s (\<lambda>ops. case tx_accept ops of None \<Rightarrow> Inl NullDeref | Some accept \<Rightarrow> accept a s)"

text \<open>\<open>k 0\<close> is \<open>connect\<close>, the poller's calls come after it.\<close>

definition tx_aiocb_connect :: "aiocb_p \<Rightarrow> task_p \<Rightarrow> (nat \<Rightarrow> kres) \<Rightarrow> tx_mem \<Rightarrow> (int \<times> tx_mem) res" where
  "tx_aiocb_connect a t k s =
     (if fst (k 0) = -1 \<and> snd (k 0) = EINPROGRESS then
        let s1 = clear_flags a (TX_WRITABLE OR TX_READABLE) s
        in res_bind (generic_active_out poll_table a t (\<lambda>i. k (Suc i)) s1) (\<lambda>s2. Inr (- EINPROGRESS, s2))
      else
        let s1 = set_flags a TX_WRITABLE s;
            s2 = (if fst (k 0) = -1 then set_flags a TX_READABLE s1 else s1)
        in Inr (fst (k 0), tx_task_active (Some t) (VAiocb a) s2))"

definition tx_aiocb_connect_win :: "aiocb_p \<Rightarrow> task_p \<Rightarrow> (nat \<Rightarrow> kres) \<Rightarrow> tx_mem \<Rightarrow> (int \<times> tx_mem) res" where
  "tx_aiocb_connect_win a t k s =
     with_ops a s (\<lambda>ops. case tx_connect ops of
         None \<Rightarrow> Inl NullDeref
       | Some connect \<Rightarrow> res_bind (connect a k s) (\<lambda>(error, s1).
           res_bind (generic_active_out poll_table a t (\<lambda>i. k (2 + i)) s1) (\<lambda>s2. Inr (error, s2))))"

definition tx_aiocb_fini :: "aiocb_p \<Rightarrow> (nat \<Rightarrow> kres) \<Rightarrow> tx_mem \<Rightarrow> tx_mem res" where
  "tx_aiocb_fini a k s =
     (if tx_fd (filp s a) = -1 then Inr s else with_ops a s (\<lambda>ops. tx_detach ops a k s))"

section \<open>What the users of a block may do\<close>

text \<open>
  One call on a block of \<open>A\<close> by the user, with a task of \<open>T\<close>. Waiting asks for a block that is attached,
  or ready, as the assertions of the pollers demand; \<open>G\<close> says that the kernel grants the request.
\<close>

inductive aio_op :: "((nat \<Rightarrow> kres) \<Rightarrow> bool) \<Rightarrow> task_p set \<Rightarrow> aiocb_p set \<Rightarrow> tx_mem \<Rightarrow> tx_mem \<Rightarrow> bool"
  for G T A where
    op_active: "a \<in> A \<Longrightarrow> tx_readable s a \<or> attached s a \<Longrightarrow> t \<in> T \<Longrightarrow> G k \<Longrightarrow>
      tx_aincb_active a t k s = Inr s' \<Longrightarrow> aio_op G T A s s'"
  | op_prepare: "a \<in> A \<Longrightarrow> tx_writable s a \<or> attached s a \<Longrightarrow> t \<in> T \<Longrightarrow> G k \<Longrightarrow>
      tx_outcb_prepare a t k s = Inr s' \<Longrightarrow> aio_op G T A s s'"
  | op_stop: "a \<in> A \<Longrightarrow> tx_aincb_stop a v s = Inr s' \<Longrightarrow> aio_op G T A s s'"
  | op_cancel: "a \<in> A \<Longrightarrow> tx_outcb_cancel a v s = Inr s' \<Longrightarrow> aio_op G T A s s'"
  | op_read: "a \<in> A \<Longrightarrow> aio_op G T A s (tx_aincb_update a r s)"
  | op_write: "a \<in> A \<Longrightarrow> tx_outcb_write a buf k s = Inr (n, s') \<Longrightarrow> aio_op G T A s s'"
  | op_xsend: "a \<in> A \<Longrightarrow> tx_outcb_xsend a bufs r s = Inr (n, s') \<Longrightarrow> aio_op G T A s s'"
  | op_accept: "a \<in> A \<Longrightarrow> tx_listen_accept a k s = (n, s') \<Longrightarrow> aio_op G T A s s'"
  | op_connect: "a \<in> A \<Longrightarrow> attached s a \<Longrightarrow> t \<in> T \<Longrightarrow> G (\<lambda>i. k (Suc i)) \<Longrightarrow>
      tx_aiocb_connect a t k s = Inr (n, s') \<Longrightarrow> aio_op G T A s s'"

text \<open>
  A poller whose invariant does not read the ready flags or the bytes sent, and that leaves writing to
  the user.
\<close>

definition ready_mask :: "u32 \<Rightarrow> bool" where
  "ready_mask m \<longleftrightarrow> m \<in> {TX_READABLE, TX_WRITABLE, TX_WRITABLE OR TX_READABLE, TX_LISTEN}"

lemma ready_mask_bits:
  "ready_mask m \<Longrightarrow> \<not> has m TX_ATTACHED \<and> \<not> has m TX_DETACHED \<and> \<not> has m TX_POLLIN \<and> \<not> has m TX_POLLOUT"
  by (auto simp: ready_mask_def flags)

lemma same_users_step:
  "ready_mask m \<Longrightarrow> same_users s (set_flags a m s)" "ready_mask m \<Longrightarrow> same_users s (clear_flags a m s)"
  "same_users s (tx_task_active w r s)" "same_users s (log_kcall c s)"
  "same_users s (clear_in a s)" "same_users s (clear_out a s)"
  by (simp_all add: same_users_def attached_def filp_upds ready_mask_bits flags)

lemmas same_users_flags = same_users_trans [OF _ same_users_step(1)] same_users_trans [OF _ same_users_step(2)]
  same_users_trans [OF _ same_users_step(3)] same_users_trans [OF _ same_users_step(4)]
  same_users_trans [OF _ same_users_step(5)] same_users_trans [OF _ same_users_step(6)]

lemma log_kcall_reads [simp]:
  "aiocbs (io (log_kcall c s)) = aiocbs (io s)" "kcalls (io (log_kcall c s)) = kcalls (io s) @ [c]"
  by (simp_all add: log_kcall_def)

text \<open>The calls that do not go through the poller.\<close>

lemma plain_op_users:
  assumes "same_users s0 s"
  shows "same_users s0 (tx_aincb_update a k s)" "same_users s0 (tx_outcb_update a k s)"
    "same_users s0 (write_fd a buf k s)" "same_users s0 (generic_cancel_in a v s)" "same_users s0 (generic_cancel_out a v s)"
  using assms by (simp_all add: tx_aincb_update_def tx_outcb_update_def write_fd_def generic_cancel_in_def
      generic_cancel_out_def same_users_flags ready_mask_def)

lemma plain_op_run:
  assumes "api_run T U s0 s"
  shows "api_run T U s0 (tx_aincb_update a k s)" "api_run T U s0 (tx_outcb_update a k s)"
    "api_run T U s0 (write_fd a buf k s)" "api_run T U s0 (generic_cancel_in a v s)" "api_run T U s0 (generic_cancel_out a v s)"
  using assms by (simp_all add: tx_aincb_update_def tx_outcb_update_def write_fd_def generic_cancel_in_def
      generic_cancel_out_def api_run_filp)

locale poller_user = poller +
  assumes table: "poll_table ptr = Some ops"
    and no_sendout: "tx_sendout ops = None"
    and ready: "ok T A s \<Longrightarrow> a \<in> A \<Longrightarrow> ready_mask m \<Longrightarrow> ok T A (set_flags a m s) \<and> ok T A (clear_flags a m s)"
    and lives: "alive k"
    and sent: "ok T A s \<Longrightarrow> ok T A (log_kcall (Sent a buf) s)"
begin

lemma ready_polled:
  "ready_mask m \<Longrightarrow> polled_for A s \<Longrightarrow> polled_for A (set_flags a m s)"
  "ready_mask m \<Longrightarrow> polled_for A s \<Longrightarrow> polled_for A (clear_flags a m s)"
  by (auto simp: polled_for_def filp_upds ready_mask_def flags)

lemma user_update:
  assumes "ok T A s" "polled_for A s" "a \<in> A"
  shows "ok T A (tx_aincb_update a k s)" "polled_for A (tx_aincb_update a k s)"
    "ok T A (tx_outcb_update a k s)" "polled_for A (tx_outcb_update a k s)"
  using assms ready ready_polled by (simp_all add: tx_aincb_update_def tx_outcb_update_def ready_mask_def)

lemma user_write_fd:
  assumes "ok T A s" "polled_for A s"
  shows "ok T A (write_fd a buf k s)" "polled_for A (write_fd a buf k s)"
  using assms sent by (simp_all add: write_fd_def polled_for_def log_kcall_reads)

lemma user_cancel:
  assumes ok: "ok T A s" and p: "polled_for A s"
  shows "ok T A (generic_cancel_in a v s)" "polled_for A (generic_cancel_in a v s)"
    "ok T A (generic_cancel_out a v s)" "polled_for A (generic_cancel_out a v s)"
proof -
  have W: "waiters T A (clear_in a s)" "waiters T A (clear_out a s)"
    using ok_waiters [OF ok] by (auto simp: waiters_def filp_upds)
  have "ok T A (clear_in a s)" "ok T A (clear_out a s)"
    using ok_frame [OF ok same_poll_waiter(1) W(1) [unfolded clear_in_def]]
      ok_frame [OF ok same_poll_waiter(2) W(2) [unfolded clear_out_def]] by (simp_all add: clear_in_def clear_out_def)
  moreover have "polled_for A (clear_in a s)" "polled_for A (clear_out a s)"
    using p by (auto simp: polled_for_def filp_upds)
  ultimately show "ok T A (generic_cancel_in a v s)" "polled_for A (generic_cancel_in a v s)"
    "ok T A (generic_cancel_out a v s)" "polled_for A (generic_cancel_out a v s)"
    using ok p by (simp_all add: generic_cancel_in_def generic_cancel_out_def)
qed

lemma user_active:
  assumes "ok T A s" and "polled_for A s" and "a \<in> A" "tx_readable s a \<or> attached s a" and "t \<in> T"
    and "alive k" and "granted k" and "tx_fops (filp s a) = GenericFops"
  shows "\<exists>s'. tx_aincb_active a t k s = Inr s' \<and> ok T A s' \<and> api_run T U s s' \<and> polled_for A s' \<and>
    same_users s s' \<and> (if tx_readable s a then busy s' t \<or> stopped s' (loop_of s' t)
      else aiocbs (io s') = (aiocbs (io s))(a := (filp s a)\<lparr>filp_flags := fl s a OR TX_POLLIN, tx_filterin := Some t\<rparr>))"
  using active_in_waits [where U = U and tab = poll_table and k = k, OF table assms(1,3-7,2)] assms(8)
  by (simp add: tx_aincb_active_def)

lemma user_prepare:
  assumes "ok T A s" and "polled_for A s" and "a \<in> A" "tx_writable s a \<or> attached s a" and "t \<in> T"
    and "alive k" and "granted k" and "tx_fops (filp s a) = GenericFops"
  shows "\<exists>s'. tx_outcb_prepare a t k s = Inr s' \<and> ok T A s' \<and> api_run T U s s' \<and> polled_for A s' \<and>
    same_users s s' \<and> (if tx_writable s a then busy s' t \<or> stopped s' (loop_of s' t)
      else aiocbs (io s') = (aiocbs (io s))(a := (filp s a)\<lparr>filp_flags := fl s a OR TX_POLLOUT, tx_filterout := Some t\<rparr>))"
  using active_out [where U = U and tab = poll_table and k = k, OF table assms(1,3-7,2)] assms(8)
  by (simp add: tx_outcb_prepare_def)

lemma user_connect:
  assumes ok: "ok T A s" and p: "polled_for A s" and a: "a \<in> A" "attached s a" and t: "t \<in> T"
    and g: "granted (\<lambda>i. k (Suc i))"
  shows "\<exists>n s'. tx_aiocb_connect a t k s = Inr (n, s') \<and> ok T A s' \<and> api_run T U s s' \<and> polled_for A s' \<and>
    same_users s s' \<and> (busy s' t \<or> stopped s' (loop_of s' t) \<or> tx_filterout (filp s' a) = Some t)"
proof (cases "fst (k 0) = -1 \<and> snd (k 0) = EINPROGRESS")
  case True
  let ?s1 = "clear_flags a (TX_WRITABLE OR TX_READABLE) s"
  have m: "ready_mask (TX_WRITABLE OR TX_READABLE)" by (simp add: ready_mask_def)
  have s1: "ok T A ?s1" "polled_for A ?s1" "attached ?s1 a" "\<not> tx_writable ?s1 a" "api_run T U s ?s1" "same_users s ?s1"
    using ready [OF ok a(1) m] ready_polled [OF m p] a(2) same_users_step(2) [OF m]
    by (auto simp: attached_def tx_writable_def filp_upds flags intro: api_run_io)
  obtain s2 where "generic_active_out poll_table a t (\<lambda>i. k (Suc i)) ?s1 = Inr s2" "ok T A s2" "api_run T U ?s1 s2"
    "polled_for A s2" "same_users ?s1 s2" "tx_filterout (filp s2 a) = Some t"
    using active_out [where U = U and tab = poll_table and k = "\<lambda>i. k (Suc i)", OF table s1(1) a(1) disjI2 [OF s1(3)] t
        lives g s1(2)] s1(4) by auto
  then show ?thesis using True s1 by (auto simp: tx_aiocb_connect_def intro: same_users_trans rtranclp_trans)
next
  case False
  define s2 where "s2 = (if fst (k 0) = -1 then set_flags a TX_READABLE (set_flags a TX_WRITABLE s) else set_flags a TX_WRITABLE s)"
  let ?s = "tx_task_active (Some t) (VAiocb a) s2"
  have m: "ready_mask TX_WRITABLE" "ready_mask TX_READABLE" by (simp_all add: ready_mask_def)
  have s2: "ok T A s2" "polled_for A s2" "api_run T U s s2" "same_users s s2"
    using ready [OF ok a(1) m(1)] ready [OF conjunct1 [OF ready [OF ok a(1) m(1)]] a(1) m(2)] p
    by (auto simp: s2_def ready_polled m same_users_flags api_run_filp)
  have "ok T A ?s"
    by (rule ok_frame [OF s2(1) same_poll_active]) (use ok_waiters [OF s2(1)] in \<open>simp add: waiters_def\<close>)
  moreover have "api_run T U s ?s" by (rule api_run_active [OF s2(3)]) (use t in auto)
  moreover have "polled_for A ?s" using s2(2) by (simp add: polled_for_def)
  moreover have "busy ?s t \<or> stopped ?s (loop_of ?s t)"
    using active_busy(2) [of s2 t "VAiocb a"] by (auto simp: stopped_def)
  ultimately show ?thesis using False same_users_flags(3) [OF s2(4)]
    by (auto simp: tx_aiocb_connect_def s2_def Let_def)
qed

text \<open>Every call keeps the poller's invariant, and every waiter is polled for.\<close>

lemma user_op:
  assumes "aio_op granted T A s s'" and ok: "ok T A s" and p: "polled_for A s"
  shows "ok T A s' \<and> polled_for A s' \<and> api_run T U s s' \<and> same_users s s'"
  using assms(1)
proof cases
  case (op_active a t k)
  then have "tx_fops (filp s a) = GenericFops" by (cases "tx_fops (filp s a)") (auto simp: tx_aincb_active_def)
  then show ?thesis using user_active [where U = U, OF ok p op_active(1-3) lives op_active(4)] op_active(5) by auto
next
  case (op_prepare a t k)
  then have "tx_fops (filp s a) = GenericFops" by (cases "tx_fops (filp s a)") (auto simp: tx_outcb_prepare_def)
  then show ?thesis using user_prepare [where U = U, OF ok p op_prepare(1-3) lives op_prepare(4)] op_prepare(5) by auto
next
  case (op_stop a v)
  then have "s' = generic_cancel_in a v s" by (simp add: tx_aincb_stop_def split: fops_p.splits)
  then show ?thesis using user_cancel(1,2) [OF ok p] by (simp add: plain_op_users plain_op_run)
next
  case (op_cancel a v)
  then have "s' = generic_cancel_out a v s" by (simp add: tx_outcb_cancel_def split: fops_p.splits)
  then show ?thesis using user_cancel(3,4) [OF ok p] by (simp add: plain_op_users plain_op_run)
next
  case (op_read a r)
  then show ?thesis using user_update(1,2) [OF ok p] by (simp add: plain_op_users plain_op_run)
next
  case (op_write a buf k n)
  then have s': "s' = tx_outcb_update a (k 0) (write_fd a buf (k 0) s)"
    using ok_ops [OF ok] by (simp add: tx_outcb_write_def with_ops_def table no_sendout)
  show ?thesis using user_update(3,4) [OF user_write_fd [OF ok p] op_write(1)]
    by (simp add: s' plain_op_users plain_op_run)
next
  case (op_xsend a bufs r n)
  then have s': "s' = tx_outcb_update a r (write_fd a (concat bufs) r s)"
    by (simp add: tx_outcb_xsend_def split: if_splits)
  show ?thesis using user_update(3,4) [OF user_write_fd [OF ok p] op_xsend(1)]
    by (simp add: s' plain_op_users plain_op_run)
next
  case (op_accept a k n)
  then have "s' = tx_aincb_update a (k 0) s" by (simp add: tx_listen_accept_def)
  then show ?thesis using user_update(1,2) [OF ok p op_accept(1)] by (simp add: plain_op_users plain_op_run)
next
  case (op_connect a t k n)
  then show ?thesis using user_connect [where U = U, OF ok p op_connect(1-4)] by auto
qed

end

section \<open>epoll and kqueue provide this interface\<close>

lemma ready_mask_reads:
  assumes "ready_mask m"
  shows "attached (set_flags a m s) b = attached s b" "attached (clear_flags a m s) b = attached s b"
    "has (fl (set_flags a m s) b) TX_POLLIN = has (fl s b) TX_POLLIN"
    "has (fl (clear_flags a m s) b) TX_POLLIN = has (fl s b) TX_POLLIN"
    "has (fl (set_flags a m s) b) TX_POLLOUT = has (fl s b) TX_POLLOUT"
    "has (fl (clear_flags a m s) b) TX_POLLOUT = has (fl s b) TX_POLLOUT"
    "tx_fd (filp (set_flags a m s) b) = tx_fd (filp s b)" "tx_fd (filp (clear_flags a m s) b) = tx_fd (filp s b)"
    "filp_poll (filp (set_flags a m s) b) = filp_poll (filp s b)"
    "filp_poll (filp (clear_flags a m s) b) = filp_poll (filp s b)"
    "tx_filterin (filp (set_flags a m s) b) = tx_filterin (filp s b)"
    "tx_filterin (filp (clear_flags a m s) b) = tx_filterin (filp s b)"
    "tx_filterout (filp (set_flags a m s) b) = tx_filterout (filp s b)"
    "tx_filterout (filp (clear_flags a m s) b) = tx_filterout (filp s b)"
  using ready_mask_bits [OF assms] by (simp_all add: attached_def filp_upds flags)

lemma flags_io_reads:
  "poll_ops (io (set_flags a m s)) = poll_ops (io s)" "poll_ops (io (clear_flags a m s)) = poll_ops (io s)"
  "epolls (io (set_flags a m s)) = epolls (io s)" "epolls (io (clear_flags a m s)) = epolls (io s)"
  "kqueues (io (set_flags a m s)) = kqueues (io s)" "kqueues (io (clear_flags a m s)) = kqueues (io s)"
  "kcalls (io (set_flags a m s)) = kcalls (io s)" "kcalls (io (clear_flags a m s)) = kcalls (io s)"
  "poll_ops (io (log_kcall c s)) = poll_ops (io s)" "epolls (io (log_kcall c s)) = epolls (io s)"
  "kqueues (io (log_kcall c s)) = kqueues (io s)"
  "loops (set_flags a m s) = loops s" "loops (clear_flags a m s) = loops s" "loops (log_kcall c s) = loops s"
  "tasks (set_flags a m s) = tasks s" "tasks (clear_flags a m s) = tasks s" "tasks (log_kcall c s) = tasks s"
  by (simp_all add: filp_upds)

lemma epoll_inv_ready:
  assumes "epoll_inv e T A s" and m: "ready_mask m"
  shows "epoll_inv e T A (set_flags a m s)" "epoll_inv e T A (clear_flags a m s)"
  using assms(1) unfolding epoll_inv_def epoll_core_def epoll_held_def other_fds_def armed_def has_or_mask wanted_def
    waiters_def ready_mask_reads [OF m] flags_io_reads by assumption+

lemma sent_not_asked:
  "epoll_interest (kcalls (io (log_kcall (Sent a buf) s))) e fd = epoll_interest (kcalls (io s)) e fd"
  "kq_watched (kcalls (io (log_kcall (Sent a buf) s))) q fd b = kq_watched (kcalls (io s)) q fd b"
  by simp_all

lemma epoll_inv_sent: "epoll_inv e T A s \<Longrightarrow> epoll_inv e T A (log_kcall (Sent a buf) s)"
  unfolding epoll_inv_def epoll_core_def epoll_held_def other_fds_def armed_def attached_def wanted_def
      waiters_def flags_io_reads sent_not_asked log_kcall_reads(1) .

lemma kq_inv_ready:
  assumes "kq_inv q T A s" and m: "ready_mask m"
  shows "kq_inv q T A (set_flags a m s)" "kq_inv q T A (clear_flags a m s)"
proof -
  have "armed_for (set_flags a m s) b c = armed_for s b c" "armed_for (clear_flags a m s) b c = armed_for s b c" for b c
    by (simp_all add: armed_for_def ready_mask_reads [OF m])
  note eq = this
  show "kq_inv q T A (set_flags a m s)" "kq_inv q T A (clear_flags a m s)"
    using assms(1) unfolding kq_inv_def kq_core_def kq_held_def other_fds_def waiters_def
      ready_mask_reads [OF m] flags_io_reads eq by assumption+
qed

lemma kq_inv_sent: "kq_inv q T A s \<Longrightarrow> kq_inv q T A (log_kcall (Sent a buf) s)"
  unfolding kq_inv_def kq_core_def kq_held_def other_fds_def armed_for_def attached_def waiters_def
    flags_io_reads sent_not_asked log_kcall_reads(1) .

interpretation epoll_user: poller_user epoll_fns EpollOps "epoll_inv e" "\<lambda>_. True" "\<lambda>k. fst (k 0) = 0" for e
  by unfold_locales (simp_all add: epoll_fns_def epoll_inv_ready epoll_inv_sent)

interpretation kqueue_user: poller_user kqueue_fns KqueueOps "kq_inv q" "\<lambda>_. True" "\<lambda>k. fst (k 0) \<noteq> -1" for q
  by unfold_locales (simp_all add: kqueue_fns_def kq_inv_ready kq_inv_sent)

end
