(* ===== verification/TxSystem.thy ===== *)
theory TxSystem
  imports TxAiocb
begin

text \<open>
  A loop with one poller, through any sequence of calls on I/O control blocks and rounds of polling. The
  state is the memory and the blocks that are set up. The invariants of the pollers hold in every state
  reached from the one \<open>tx_epoll_init\<close> or \<open>tx_kqueue_init\<close> leaves, so whoever waits for a descriptor is
  known to the kernel, and the loop is held exactly while there is something to wait for.
\<close>

section \<open>Setting up and taking down blocks\<close>

definition blocks_ok :: "aiocb_p set \<Rightarrow> tx_mem \<Rightarrow> bool" where
  "blocks_ok A s \<longleftrightarrow> (\<forall>a\<in>A. tx_fops (filp s a) = GenericFops \<and> (attached s a \<longrightarrow> tx_fd (filp s a) \<noteq> -1) \<and>
     (has (fl s a) (TX_POLLIN OR TX_POLLOUT) \<longrightarrow> attached s a))"

lemma blocks_ok_users: "blocks_ok A s \<Longrightarrow> same_users s s' \<Longrightarrow> blocks_ok A s'"
  by (fastforce simp: blocks_ok_def same_users_def)

lemma same_users_io: "same_users s s' \<Longrightarrow> io s'' = io s' \<Longrightarrow> same_users s s''"
  by (simp add: same_users_def attached_def)

lemma blocks_ok_io: "blocks_ok A s \<Longrightarrow> io s' = io s \<Longrightarrow> blocks_ok A s'"
  by (simp add: blocks_ok_def attached_def)

text \<open>A block as \<open>tx_aiocb_init\<close> fills it in.\<close>

abbreviation fresh_filp :: "poll_p \<Rightarrow> int \<Rightarrow> tx_aiocb \<Rightarrow> tx_aiocb" where
  "fresh_filp p fd f \<equiv> f\<lparr>tx_fd := fd, filp_flags := TX_WRITABLE, filp_poll := p, tx_privp := None,
     tx_filterin := None, tx_filterout := None, tx_fops := GenericFops\<rparr>"

lemma fresh_flags:
  "\<not> has TX_WRITABLE TX_POLLIN" "\<not> has TX_WRITABLE TX_POLLOUT" "\<not> has TX_WRITABLE TX_ATTACHED"
  "\<not> has TX_WRITABLE TX_DETACHED"
  by (simp_all add: flags)

lemma epoll_inv_insert:
  assumes inv: "epoll_inv e T A s" and a: "a \<notin> A"
  shows "epoll_inv e T (insert a A) (upd_filp a (fresh_filp (EpollTask e) fd) s)"
proof -
  let ?s = "upd_filp a (fresh_filp (EpollTask e) fd) s"
  have r: "filp ?s b = (if b = a then fresh_filp (EpollTask e) fd (filp s a) else filp s b)" for b
    by (simp add: upd_filp_def)
  have at: "attached ?s b = (b \<noteq> a \<and> attached s b)" "armed ?s b = (b \<noteq> a \<and> armed s b)" for b
    by (auto simp: attached_def armed_def r fresh_flags)
  have io: "poll_ops (io ?s) = poll_ops (io s)" "epolls (io ?s) = epolls (io s)" "kcalls (io ?s) = kcalls (io s)"
    "loops ?s = loops s" "tasks ?s = tasks s" by (simp_all add: upd_filp_def)
  note D = epoll_coreD [OF inv [unfolded epoll_inv_def, THEN conjunct1]]
  have "{b \<in> insert a A. armed ?s b} = {b \<in> A. armed s b}" using a by (auto simp: at)
  moreover have "wanted ?s b = wanted s b" if "b \<noteq> a" for b using that by (simp add: wanted_def r)
  moreover have "other_fds (insert a A) b ?s" if "b \<in> A" "attached s b" "b \<noteq> a" for b
    using D(6) [OF that(1,2)] that(3) by (auto simp: other_fds_def at r)
  ultimately have "epoll_core e (insert a A) ?s"
    using D a by (auto simp: epoll_core_def io r at)
  then show ?thesis using inv by (auto simp: epoll_inv_def epoll_held_def waiters_def io r)
qed

lemma epoll_inv_delete:
  assumes inv: "epoll_inv e T A s" and a: "\<not> attached s a"
  shows "epoll_inv e T (A - {a}) s"
proof -
  have "{b \<in> A - {a}. armed s b} = {b \<in> A. armed s b}" using a by (auto simp: armed_def)
  then show ?thesis using inv
    by (auto simp: epoll_inv_def epoll_core_def waiters_def other_fds_def)
qed

lemma kq_inv_insert:
  assumes inv: "kq_inv q T A s" and a: "a \<notin> A"
  shows "kq_inv q T (insert a A) (upd_filp a (fresh_filp (KqueuePoll q) fd) s)"
proof -
  let ?s = "upd_filp a (fresh_filp (KqueuePoll q) fd) s"
  have r: "filp ?s b = (if b = a then fresh_filp (KqueuePoll q) fd (filp s a) else filp s b)" for b
    by (simp add: upd_filp_def)
  have at: "attached ?s b = (b \<noteq> a \<and> attached s b)" "armed_for ?s c b = (b \<noteq> a \<and> armed_for s c b)" for b c
    by (auto simp: attached_def armed_for_def r fresh_flags)
  have io: "poll_ops (io ?s) = poll_ops (io s)" "kqueues (io ?s) = kqueues (io s)" "kcalls (io ?s) = kcalls (io s)"
    "loops ?s = loops s" "tasks ?s = tasks s" by (simp_all add: upd_filp_def)
  note D = kq_coreD [OF inv [unfolded kq_inv_def, THEN conjunct1]]
  have "{b \<in> insert a A. armed_for ?s c b} = {b \<in> A. armed_for s c b}" for c using a by (auto simp: at)
  moreover have "other_fds (insert a A) b ?s" if "b \<in> A" "attached s b" "b \<noteq> a" for b
    using D(6) [OF that(1,2)] that(3) by (auto simp: other_fds_def at r)
  ultimately have "kq_core q (insert a A) ?s"
    using D a by (auto simp: kq_core_def io r at)
  then show ?thesis using inv by (auto simp: kq_inv_def kq_held_def waiters_def io r)
qed

lemma kq_inv_delete:
  assumes inv: "kq_inv q T A s" and a: "\<not> attached s a"
  shows "kq_inv q T (A - {a}) s"
proof -
  have "{b \<in> A - {a}. armed_for s c b} = {b \<in> A. armed_for s c b}" for c using a by (auto simp: armed_for_def)
  then show ?thesis using inv
    by (auto simp: kq_inv_def kq_core_def waiters_def other_fds_def)
qed

lemma epoll_attach_keeps:
  assumes "tx_epoll_attach a k s = Inr s'"
  shows "tx_filterin (filp s' b) = tx_filterin (filp s b)" "tx_filterout (filp s' b) = tx_filterout (filp s b)"
    "tx_fops (filp s' b) = tx_fops (filp s b)" "tx_fd (filp s' b) = tx_fd (filp s b)"
    "has (fl s' b) TX_POLLIN = has (fl s b) TX_POLLIN" "has (fl s' b) TX_POLLOUT = has (fl s b) TX_POLLOUT"
  using assms by (auto simp: tx_epoll_attach_def epoll_ctl_def Let_def filp_upds flags split: poll_p.splits if_splits)

lemma epoll_init_block:
  assumes inv: "epoll_inv e T A s" and p: "polled_for A s" and bl: "blocks_ok A s" and a: "a \<notin> A"
    and poll: "tx_poll_get loop s = Some (EpollTask e)" and fds: "\<forall>b\<in>A. attached s b \<longrightarrow> tx_fd (filp s b) \<noteq> fd"
  shows "\<exists>s'. tx_aiocb_init a loop fd k s = Inr s' \<and> epoll_inv e T (insert a A) s' \<and>
    polled_for (insert a A) s' \<and> blocks_ok (insert a A) s' \<and> (attached s' a \<longleftrightarrow> fd \<noteq> -1 \<and> fst (k 0) = 0)"
proof -
  define s1 where "s1 = upd_filp a (fresh_filp (EpollTask e) fd) s"
  have init: "tx_aiocb_init a loop fd k s =
      (if fd = -1 then Inr s1 else with_ops a s1 (\<lambda>ops. tx_attach ops a k s1))"
    by (simp add: tx_aiocb_init_def tx_aiocb_init_poll_def poll s1_def Let_def)
  have r: "filp s1 b = (if b = a then fresh_filp (EpollTask e) fd (filp s a) else filp s b)" for b
    by (simp add: s1_def upd_filp_def)
  have inv1: "epoll_inv e T (insert a A) s1" unfolding s1_def by (rule epoll_inv_insert [OF inv a])
  have at: "\<not> attached s1 a" "b \<noteq> a \<Longrightarrow> attached s1 b = attached s b" for b
    by (simp_all add: attached_def r fresh_flags)
  have p1: "polled_for (insert a A) s1" using p a by (auto simp: polled_for_def r)
  have b1: "blocks_ok (insert a A) s1" using bl a by (auto simp: blocks_ok_def r at fresh_flags has_or_mask)
  show ?thesis
  proof (cases "fd = -1")
    case True
    then show ?thesis using init inv1 p1 b1 at by auto
  next
    case False
    have ops: "with_ops a s1 (\<lambda>ops. tx_attach ops a k s1) = tx_epoll_attach a k s1"
      using epoll.ok_ops [OF inv1, of a] by (simp add: with_ops_def epoll_fns_def)
    have fd: "other_fds (insert a A) a s1" using fds at a by (auto simp: other_fds_def r)
    obtain s' where s': "tx_epoll_attach a k s1 = Inr s'" "epoll_inv e T (insert a A) s'"
      "attached s' a \<longleftrightarrow> fst (k 0) = 0" "\<forall>b. b \<noteq> a \<longrightarrow> filp s' b = filp s1 b"
      using tx_epoll_attach_spec [OF inv1, of a k] fd by (auto simp: r fresh_flags)
    note K = epoll_attach_keeps [OF s'(1)]
    have at': "attached s' b = attached s1 b" if "b \<noteq> a" for b using s'(4) that by (simp add: attached_def)
    have "polled_for (insert a A) s'" using p1 by (simp add: polled_for_def K)
    moreover have "blocks_ok (insert a A) s'"
      using b1 at' False by (auto simp: blocks_ok_def K has_or_mask r fresh_flags)
    ultimately show ?thesis using init ops s' False by auto
  qed
qed

lemma epoll_listen_block:
  assumes "epoll_inv e T A s" and "polled_for A s" and "blocks_ok A s" and "a \<notin> A"
    and poll: "tx_poll_get loop s = Some (EpollTask e)" and "\<forall>b\<in>A. attached s b \<longrightarrow> tx_fd (filp s b) \<noteq> fd"
  shows "\<exists>s'. tx_listen_init a loop fd k s = Inr s' \<and> epoll_inv e T (insert a A) s' \<and>
    polled_for (insert a A) s' \<and> blocks_ok (insert a A) s' \<and> (attached s' a \<longleftrightarrow> fd \<noteq> -1 \<and> fst (k 0) = 0)"
proof -
  obtain s1 where s1: "tx_aiocb_init a loop fd k s = Inr s1" "epoll_inv e T (insert a A) s1"
    "polled_for (insert a A) s1" "blocks_ok (insert a A) s1" "attached s1 a \<longleftrightarrow> fd \<noteq> -1 \<and> fst (k 0) = 0"
    using epoll_init_block [OF assms] by blast
  have m: "ready_mask TX_LISTEN" by (simp add: ready_mask_def)
  have "tx_listen_init a loop fd k s = Inr (set_flags a TX_LISTEN s1)"
    using s1(1) by (simp add: tx_listen_init_def tx_aiocb_init_def poll)
  then show ?thesis
    using s1(2-5) epoll_inv_ready(1) [OF s1(2) m] epoll_user.ready_polled(1) [OF m s1(3)]
      blocks_ok_users [OF s1(4) same_users_step(1) [OF m]] ready_mask_reads(1) [OF m] by auto
qed

lemma epoll_fini_block:
  assumes inv: "epoll_inv e T A s" and p: "polled_for A s" and bl: "blocks_ok A s" and a: "a \<in> A"
    and k: "attached s a \<Longrightarrow> fst (k 0) = 0"
  shows "\<exists>s'. tx_aiocb_fini a k s = Inr s' \<and> epoll_inv e T (A - {a}) s' \<and> polled_for (A - {a}) s' \<and>
    blocks_ok (A - {a}) s' \<and> \<not> attached s' a"
proof -
  have ops: "with_ops a s (\<lambda>ops. tx_detach ops a k s) = tx_epoll_detach a k s"
    using epoll.ok_ops [OF inv a] by (simp add: with_ops_def epoll_fns_def)
  have bl': "blocks_ok (A - {a}) s" "polled_for (A - {a}) s" using bl p by (auto simp: blocks_ok_def polled_for_def)
  show ?thesis
  proof (cases "attached s a")
    case True
    have fd: "tx_fd (filp s a) \<noteq> -1" using bl a True by (simp add: blocks_ok_def)
    obtain s' where s': "tx_epoll_detach a k s = Inr s'" "epoll_inv e T A s'" "\<not> attached s' a"
      "\<forall>b. b \<noteq> a \<longrightarrow> filp s' b = filp s b"
      using tx_epoll_detach_spec [where k = k, OF inv a True k [OF True]] by blast
    have "polled_for (A - {a}) s'" "blocks_ok (A - {a}) s'"
      using bl' s'(4) by (auto simp: polled_for_def blocks_ok_def attached_def)
    then show ?thesis using s' fd ops epoll_inv_delete [OF s'(2,3)] by (auto simp: tx_aiocb_fini_def)
  next
    case False
    have "tx_epoll_detach a k s = Inr s"
      using epoll_coreD(3) [OF inv [unfolded epoll_inv_def, THEN conjunct1] a] epoll.ok_ops [OF inv a] False bl a
      by (auto simp: tx_epoll_detach_def blocks_ok_def attached_mask attached_def Let_def)
    then show ?thesis using bl' False ops epoll_inv_delete [OF inv False] by (auto simp: tx_aiocb_fini_def)
  qed
qed

section \<open>The system with epoll\<close>

text \<open>
  \<open>rest_step\<close> is what everything else does: the tasks' flags and links change, and nothing the pollers
  look at. A descriptor is set up by one block at a time, and \<open>epoll_ctl\<close> succeeds on a descriptor that
  is attached.
\<close>

definition rest_step :: "tx_mem \<Rightarrow> tx_mem \<Rightarrow> bool" where
  "rest_step s s' \<longleftrightarrow> io s' = io s \<and> (\<forall>up. tx_holder (loops s' up) = tx_holder (loops s up)) \<and>
     (\<forall>t. loop_of s' t = loop_of s t)"

inductive epoll_step ::
    "epoll_p \<Rightarrow> task_p set \<Rightarrow> aiocb_p set \<times> tx_mem \<Rightarrow> aiocb_p set \<times> tx_mem \<Rightarrow> bool" for e T where
    es_op: "aio_op (\<lambda>k. fst (k 0) = 0) T A s s' \<Longrightarrow> epoll_step e T (A, s) (A, s')"
  | es_init: "a \<notin> A \<Longrightarrow> tx_poll_get loop s = Some (EpollTask e) \<Longrightarrow>
      \<forall>b\<in>A. attached s b \<longrightarrow> tx_fd (filp s b) \<noteq> fd \<Longrightarrow>
      tx_aiocb_init a loop fd k s = Inr s' \<or> tx_listen_init a loop fd k s = Inr s' \<Longrightarrow>
      epoll_step e T (A, s) (insert a A, s')"
  | es_fini: "a \<in> A \<Longrightarrow> (attached s a \<longrightarrow> fst (k 0) = 0) \<Longrightarrow> tx_aiocb_fini a k s = Inr s' \<Longrightarrow>
      epoll_step e T (A, s) (A - {a}, s')"
  | es_poll: "\<forall>ms. epoll_answer A s (wait ms) \<Longrightarrow> tx_epoll_polling e wait s = Inr s' \<Longrightarrow>
      epoll_step e T (A, s) (A, s')"
  | es_rest: "rest_step s s' \<Longrightarrow> epoll_step e T (A, s) (A, s')"

lemma rest_same_poll: "rest_step s s' \<Longrightarrow> same_poll s s'"
  unfolding rest_step_def same_poll_def by (auto intro: exI [of _ "aiocbs (io s)"])

lemma epoll_polling_users:
  assumes "\<forall>(v, a)\<in>D. filp s' a = filp_after v (filp s a)" and "\<forall>b. b \<notin> snd ` D \<longrightarrow> filp s' b = filp s b"
  shows "same_users s s'"
proof -
  have "filp s' b = filp s b \<or> (\<exists>v. filp s' b = filp_after v (filp s b))" for b
    using assms by (cases "b \<in> snd ` D") fastforce+
  moreover have "tx_fops (filp_after v f) = tx_fops f" for v f by (simp add: filp_after_def Let_def)
  ultimately show ?thesis unfolding same_users_def attached_def has_or_mask
    by (metis filp_after_reads(1-4,9))
qed

definition epoll_good :: "epoll_p \<Rightarrow> task_p set \<Rightarrow> aiocb_p set \<times> tx_mem \<Rightarrow> bool" where
  "epoll_good e T x \<longleftrightarrow> epoll_inv e T (fst x) (snd x) \<and> polled_for (fst x) (snd x) \<and> blocks_ok (fst x) (snd x)"

lemma epoll_step_good:
  assumes "epoll_step e T x y" and "epoll_good e T x" and t: "PollTask (EpollTask e) \<in> T"
  shows "epoll_good e T y"
  using assms(1)
proof cases
  case (es_op A s s')
  then show ?thesis using epoll_user.user_op [of T A s s' e] assms(2) blocks_ok_users by (auto simp: epoll_good_def)
next
  case (es_init a A loop s fd k s')
  then show ?thesis using epoll_init_block [of e T A s a loop fd k] epoll_listen_block [of e T A s a loop fd k] assms(2)
    by (auto simp: epoll_good_def)
next
  case (es_fini a A s k s')
  then show ?thesis using epoll_fini_block [of e T A s a k] assms(2) by (auto simp: epoll_good_def)
next
  case (es_poll A s wait s')
  have "\<exists>s'' timeout. timeout \<in> {0, 10} \<and> tx_epoll_polling e wait s = Inr s'' \<and>
    epoll_inv e T A s'' \<and> polled_for A s'' \<and> api_run T UNIV s s'' \<and>
    (\<forall>(v, a)\<in>epoll_delivered (wait timeout). filp s'' a = filp_after v (filp s a) \<and>
       (\<forall>t\<in>woken_by s v a. busy s'' t \<or> stopped s'' (loop_of s'' t))) \<and>
    (\<forall>b. b \<notin> snd ` epoll_delivered (wait timeout) \<longrightarrow> filp s'' b = filp s b) \<and>
    (\<forall>up. tx_stop (loops s'' up) = tx_stop (loops s up) \<and> tx_break (loops s'' up) = tx_break (loops s up))"
    by (rule tx_epoll_polling_spec) (use es_poll assms(2) t in \<open>auto simp: epoll_good_def\<close>)
  then obtain ms where n: "epoll_inv e T A s'" "polled_for A s'"
    "\<forall>(v, a)\<in>epoll_delivered (wait ms). filp s' a = filp_after v (filp s a)"
    "\<forall>b. b \<notin> snd ` epoll_delivered (wait ms) \<longrightarrow> filp s' b = filp s b" using es_poll by fastforce
  then show ?thesis using es_poll blocks_ok_users [OF _ epoll_polling_users [OF n(3,4)]] assms(2)
    by (auto simp: epoll_good_def)
next
  case (es_rest s s' A)
  then have "waiters T A s'" using assms(2) by (auto simp: epoll_good_def epoll_inv_def waiters_def rest_step_def)
  then show ?thesis
    using epoll_inv_same_poll [OF _ rest_same_poll [OF es_rest(3)]] es_rest blocks_ok_io assms(2)
    by (auto simp: epoll_good_def polled_for_def rest_step_def)
qed

lemma epoll_reach_good:
  assumes "(epoll_step e T)\<^sup>*\<^sup>* x y" and "epoll_good e T x" and "PollTask (EpollTask e) \<in> T"
  shows "epoll_good e T y"
  using assms(1,2) by (induction rule: rtranclp_induct) (auto intro: epoll_step_good assms(3))

text \<open>The poller \<open>tx_epoll_init\<close> makes starts in a good state.\<close>

lemma tx_epoll_new_good:
  assumes "tx_epoll_new (Some e) fd loop s = (p, s')" and "fd \<noteq> -1" and "tx_holder (loops s loop) \<noteq> VEpoll e"
  shows "p = Some (EpollTask e) \<and> tx_poll_get loop s' = Some (EpollTask e) \<and> epoll_good e T ({}, s')"
  using assms by (auto simp: tx_epoll_new_def Let_def epoll_good_def epoll_inv_def epoll_core_def epoll_held_def
      waiters_def polled_for_def blocks_ok_def tx_poll_get_def upd_epoll_def upd_loop_def tx_poll_init_def tx_task_init_def upd_task_def on_tq_def)

lemma epoll_waits_registered:
  assumes "epoll_good e T (A, s)" and "a \<in> A"
  shows "tx_filterin (filp s a) \<noteq> None \<Longrightarrow>
      \<exists>m. epoll_interest (kcalls (io s)) e (tx_fd (filp s a)) = Some (m, a) \<and> has m EPOLLIN"
    and "tx_filterout (filp s a) \<noteq> None \<Longrightarrow>
      \<exists>m. epoll_interest (kcalls (io s)) e (tx_fd (filp s a)) = Some (m, a) \<and> has m EPOLLOUT"
proof -
  have g: "epoll_core e A s" "polled_for A s" "blocks_ok A s" using assms(1) by (simp_all add: epoll_good_def epoll_inv_def)
  have e: "has EPOLLIN EPOLLIN" "has EPOLLOUT EPOLLOUT" by (simp_all add: has_def flag_defs)
  have "armed s a" if "has (fl s a) (TX_POLLIN OR TX_POLLOUT)"
    using that g(3) assms(2) by (simp add: blocks_ok_def armed_def)
  then have w: "epoll_interest (kcalls (io s)) e (tx_fd (filp s a)) = Some (wanted s a, a)"
    if "has (fl s a) (TX_POLLIN OR TX_POLLOUT)" using that epoll_coreD(5) [OF g(1) assms(2)] by simp
  show "\<exists>m. epoll_interest (kcalls (io s)) e (tx_fd (filp s a)) = Some (m, a) \<and> has m EPOLLIN"
    if "tx_filterin (filp s a) \<noteq> None"
    using that g(2) assms(2) w by (auto simp: polled_for_def wanted_def has_or has_or_mask e)
  show "\<exists>m. epoll_interest (kcalls (io s)) e (tx_fd (filp s a)) = Some (m, a) \<and> has m EPOLLOUT"
    if "tx_filterout (filp s a) \<noteq> None"
    using that g(2) assms(2) w by (auto simp: polled_for_def wanted_def has_or has_or_mask e)
qed

text \<open>A run: a loop with a poller, a block on descriptor 5, and a task that waits to read from it.\<close>

definition epoll_demo_loop :: tx_mem where
  "epoll_demo_loop = snd (tx_loop_new (Some (NewLoop 0)) zero_mem)"

definition epoll_demo0 :: tx_mem where
  "epoll_demo0 = snd (tx_epoll_new (Some (Epoll 0)) 3 (NewLoop 0) epoll_demo_loop)"

definition epoll_demo1 :: tx_mem where
  "epoll_demo1 = projr (tx_aiocb_init (Aiocb 0) (NewLoop 0) 5 (\<lambda>_. (0, 0)) epoll_demo0)"

abbreviation epoll_demo_tasks :: "task_p set" where
  "epoll_demo_tasks \<equiv> {Task 0, PollTask (EpollTask (Epoll 0))}"

lemma epoll_demo_new:
  "tx_epoll_new (Some (Epoll 0)) 3 (NewLoop 0) epoll_demo_loop = (Some (EpollTask (Epoll 0)), epoll_demo0)"
  "tx_holder (loops epoll_demo_loop (NewLoop 0)) \<noteq> VEpoll (Epoll 0)"
  by (simp add: epoll_demo0_def tx_epoll_new_def Let_def) code_simp

lemma epoll_demo_reads:
  "tx_poll_get (NewLoop 0) epoll_demo0 = Some (EpollTask (Epoll 0))"
  "\<not> isl (tx_aiocb_init (Aiocb 0) (NewLoop 0) 5 (\<lambda>_. (0, 0)) epoll_demo0)"
  "attached epoll_demo1 (Aiocb 0)" "\<not> tx_readable epoll_demo1 (Aiocb 0)"
  by code_simp+

lemma epoll_demo_run1: "(epoll_step (Epoll 0) epoll_demo_tasks)\<^sup>*\<^sup>* ({}, epoll_demo0) ({Aiocb 0}, epoll_demo1)"
  by (rule r_into_rtranclp, rule es_init [where loop = "NewLoop 0" and fd = 5 and k = "\<lambda>_. (0, 0)"])
    (use epoll_demo_reads(1,2) in \<open>simp_all add: epoll_demo1_def\<close>)

lemma epoll_demo_good: "epoll_good (Epoll 0) epoll_demo_tasks ({Aiocb 0}, epoll_demo1)"
  using epoll_reach_good [OF epoll_demo_run1] tx_epoll_new_good [OF epoll_demo_new(1) _ epoll_demo_new(2)] by simp

lemma epoll_demo_run2:
  "\<exists>s. (epoll_step (Epoll 0) epoll_demo_tasks)\<^sup>*\<^sup>* ({}, epoll_demo0) ({Aiocb 0}, s) \<and>
     tx_filterin (filp s (Aiocb 0)) = Some (Task 0) \<and> armed s (Aiocb 0)"
proof -
  have g: "epoll_inv (Epoll 0) epoll_demo_tasks {Aiocb 0} epoll_demo1" "polled_for {Aiocb 0} epoll_demo1"
    "tx_fops (filp epoll_demo1 (Aiocb 0)) = GenericFops"
    using epoll_demo_good by (simp_all add: epoll_good_def blocks_ok_def)
  obtain s where s: "tx_aincb_active (Aiocb 0) (Task 0) (\<lambda>_. (0, 0)) epoll_demo1 = Inr s"
    "polled_for {Aiocb 0} s" "same_users epoll_demo1 s" "tx_filterin (filp s (Aiocb 0)) = Some (Task 0)"
    using epoll_user.user_active [where k = "\<lambda>_. (0, 0)" and U = UNIV, OF g(1,2), of "Aiocb 0" "Task 0"] g(3)
      epoll_demo_reads by auto
  have "(epoll_step (Epoll 0) epoll_demo_tasks)\<^sup>*\<^sup>* ({}, epoll_demo0) ({Aiocb 0}, s)"
    by (rule rtranclp.rtrancl_into_rtrancl [OF epoll_demo_run1], rule es_op,
      rule op_active [where a = "Aiocb 0" and t = "Task 0" and k = "\<lambda>_. (0, 0)"])
      (use epoll_demo_reads s(1) in simp_all)
  moreover have "armed s (Aiocb 0)"
    using s epoll_demo_reads(3) by (auto simp: armed_def same_users_def polled_for_def has_or_mask)
  ultimately show ?thesis using s(4) by blast
qed







end
