(* ===== verification/TxKqSystem.thy ===== *)
theory TxKqSystem
  imports TxSystem
begin

text \<open>
  The system of theory \<open>TxSystem\<close> with the kqueue poller. Taking down a block that is armed both ways is
  left out of the steps: \<open>tx_kqueue_detach\<close> then gives back one of the two references it holds, which the
  last theorem shows.
\<close>

section \<open>Setting up and taking down blocks\<close>

lemma kq_attach_keeps:
  assumes "tx_kqueue_attach a k s = Inr s'"
  shows "tx_filterin (filp s' b) = tx_filterin (filp s b)" "tx_filterout (filp s' b) = tx_filterout (filp s b)"
    "tx_fops (filp s' b) = tx_fops (filp s b)" "tx_fd (filp s' b) = tx_fd (filp s b)"
    "has (fl s' b) TX_POLLIN = has (fl s b) TX_POLLIN" "has (fl s' b) TX_POLLOUT = has (fl s b) TX_POLLOUT"
  using assms by (auto simp: tx_kqueue_attach_def Let_def filp_upds flags split: poll_p.splits if_splits)

lemma kq_init_block:
  assumes inv: "kq_inv q T A s" and p: "polled_for A s" and bl: "blocks_ok A s" and a: "a \<notin> A"
    and poll: "tx_poll_get loop s = Some (KqueuePoll q)" and fds: "\<forall>b\<in>A. attached s b \<longrightarrow> tx_fd (filp s b) \<noteq> fd"
  shows "\<exists>s'. tx_aiocb_init a loop fd k s = Inr s' \<and> kq_inv q T (insert a A) s' \<and>
    polled_for (insert a A) s' \<and> blocks_ok (insert a A) s' \<and> (attached s' a \<longleftrightarrow> fd \<noteq> -1)"
proof -
  define s1 where "s1 = upd_filp a (fresh_filp (KqueuePoll q) fd) s"
  have init: "tx_aiocb_init a loop fd k s =
      (if fd = -1 then Inr s1 else with_ops a s1 (\<lambda>ops. tx_attach ops a k s1))"
    by (simp add: tx_aiocb_init_def tx_aiocb_init_poll_def poll s1_def Let_def)
  have r: "filp s1 b = (if b = a then fresh_filp (KqueuePoll q) fd (filp s a) else filp s b)" for b
    by (simp add: s1_def upd_filp_def)
  have inv1: "kq_inv q T (insert a A) s1" unfolding s1_def by (rule kq_inv_insert [OF inv a])
  have at: "\<not> attached s1 a" "b \<noteq> a \<Longrightarrow> attached s1 b = attached s b" for b
    by (simp_all add: attached_def r fresh_flags)
  have p1: "polled_for (insert a A) s1" using p a by (auto simp: polled_for_def r)
  have b1: "blocks_ok (insert a A) s1" using bl a by (auto simp: blocks_ok_def r at fresh_flags has_or_mask)
  show ?thesis
  proof (cases "fd = -1")
    case True
    then show ?thesis using init inv1 p1 b1 at by auto
  next
    case False
    have ops: "with_ops a s1 (\<lambda>ops. tx_attach ops a k s1) = tx_kqueue_attach a k s1"
      using kqueue.ok_ops [OF inv1, of a] by (simp add: with_ops_def kqueue_fns_def)
    have fd: "other_fds (insert a A) a s1" using fds at a by (auto simp: other_fds_def r)
    obtain s' where s': "tx_kqueue_attach a k s1 = Inr s'" "kq_inv q T (insert a A) s'"
      "attached s' a" "\<forall>b. b \<noteq> a \<longrightarrow> filp s' b = filp s1 b"
      using tx_kqueue_attach_spec [OF inv1, of a k] fd by (auto simp: r fresh_flags)
    note K = kq_attach_keeps [OF s'(1)]
    have at': "attached s' b = attached s1 b" if "b \<noteq> a" for b using s'(4) that by (simp add: attached_def)
    have "polled_for (insert a A) s'" using p1 by (simp add: polled_for_def K)
    moreover have "blocks_ok (insert a A) s'"
      using b1 at' False by (auto simp: blocks_ok_def K has_or_mask r fresh_flags)
    ultimately show ?thesis using init ops s' False by auto
  qed
qed

lemma kq_listen_block:
  assumes "kq_inv q T A s" and "polled_for A s" and "blocks_ok A s" and "a \<notin> A"
    and poll: "tx_poll_get loop s = Some (KqueuePoll q)" and "\<forall>b\<in>A. attached s b \<longrightarrow> tx_fd (filp s b) \<noteq> fd"
  shows "\<exists>s'. tx_listen_init a loop fd k s = Inr s' \<and> kq_inv q T (insert a A) s' \<and>
    polled_for (insert a A) s' \<and> blocks_ok (insert a A) s' \<and> (attached s' a \<longleftrightarrow> fd \<noteq> -1)"
proof -
  obtain s1 where s1: "tx_aiocb_init a loop fd k s = Inr s1" "kq_inv q T (insert a A) s1"
    "polled_for (insert a A) s1" "blocks_ok (insert a A) s1" "attached s1 a \<longleftrightarrow> fd \<noteq> -1"
    using kq_init_block [OF assms] by blast
  have m: "ready_mask TX_LISTEN" by (simp add: ready_mask_def)
  have "tx_listen_init a loop fd k s = Inr (set_flags a TX_LISTEN s1)"
    using s1(1) by (simp add: tx_listen_init_def tx_aiocb_init_def poll)
  then show ?thesis
    using s1(2-5) kq_inv_ready(1) [OF s1(2) m] kqueue_user.ready_polled(1) [OF m s1(3)]
      blocks_ok_users [OF s1(4) same_users_step(1) [OF m]] ready_mask_reads(1) [OF m] by auto
qed

definition armed_both :: "tx_mem \<Rightarrow> aiocb_p \<Rightarrow> bool" where
  "armed_both s a \<longleftrightarrow> has (fl s a) TX_POLLIN \<and> has (fl s a) TX_POLLOUT"

lemma kq_fini_block:
  assumes inv: "kq_inv q T A s" and p: "polled_for A s" and bl: "blocks_ok A s" and a: "a \<in> A"
    and k: "attached s a \<Longrightarrow> fst (k 0) \<noteq> -1" and one: "\<not> armed_both s a"
  shows "\<exists>s'. tx_aiocb_fini a k s = Inr s' \<and> kq_inv q T (A - {a}) s' \<and> polled_for (A - {a}) s' \<and>
    blocks_ok (A - {a}) s' \<and> \<not> attached s' a"
proof -
  have ops: "with_ops a s (\<lambda>ops. tx_detach ops a k s) = tx_kqueue_detach a k s"
    using kqueue.ok_ops [OF inv a] by (simp add: with_ops_def kqueue_fns_def)
  have bl': "blocks_ok (A - {a}) s" "polled_for (A - {a}) s" using bl p by (auto simp: blocks_ok_def polled_for_def)
  show ?thesis
  proof (cases "attached s a")
    case True
    have fd: "tx_fd (filp s a) \<noteq> -1" using bl a True by (simp add: blocks_ok_def)
    obtain s' where s': "tx_kqueue_detach a k s = Inr s'" "kq_inv q T A s'" "\<not> attached s' a"
      "\<forall>b. b \<noteq> a \<longrightarrow> filp s' b = filp s b"
      using tx_kqueue_detach_spec [where k = k, OF inv a True k [OF True] one [unfolded armed_both_def]] by blast
    have "polled_for (A - {a}) s'" "blocks_ok (A - {a}) s'"
      using bl' s'(4) by (auto simp: polled_for_def blocks_ok_def attached_def)
    then show ?thesis using s' fd ops kq_inv_delete [OF s'(2,3)] by (auto simp: tx_aiocb_fini_def)
  next
    case False
    have "tx_kqueue_detach a k s = Inr s"
      using kq_coreD(3) [OF inv [unfolded kq_inv_def, THEN conjunct1] a] kqueue.ok_ops [OF inv a] False bl a
      by (auto simp: tx_kqueue_detach_def blocks_ok_def attached_mask attached_def Let_def)
    then show ?thesis using bl' False ops kq_inv_delete [OF inv False] by (auto simp: tx_aiocb_fini_def)
  qed
qed

section \<open>The system\<close>

inductive kq_step ::
    "kqueue_p \<Rightarrow> task_p set \<Rightarrow> aiocb_p set \<times> tx_mem \<Rightarrow> aiocb_p set \<times> tx_mem \<Rightarrow> bool" for q T where
    ks_op: "aio_op (\<lambda>k. fst (k 0) \<noteq> -1) T A s s' \<Longrightarrow> kq_step q T (A, s) (A, s')"
  | ks_init: "a \<notin> A \<Longrightarrow> tx_poll_get loop s = Some (KqueuePoll q) \<Longrightarrow>
      \<forall>b\<in>A. attached s b \<longrightarrow> tx_fd (filp s b) \<noteq> fd \<Longrightarrow>
      tx_aiocb_init a loop fd k s = Inr s' \<or> tx_listen_init a loop fd k s = Inr s' \<Longrightarrow>
      kq_step q T (A, s) (insert a A, s')"
  | ks_fini: "a \<in> A \<Longrightarrow> (attached s a \<longrightarrow> fst (k 0) \<noteq> -1) \<Longrightarrow> \<not> armed_both s a \<Longrightarrow>
      tx_aiocb_fini a k s = Inr s' \<Longrightarrow> kq_step q T (A, s) (A - {a}, s')"
  | ks_poll: "\<forall>ms. kevent_answer A s (wait ms) \<Longrightarrow> tx_kqueue_polling q wait s = Inr s' \<Longrightarrow>
      kq_step q T (A, s) (A, s')"
  | ks_rest: "rest_step s s' \<Longrightarrow> kq_step q T (A, s) (A, s')"

lemma kqueue_event_users: "same_users s (kqueue_event q ev s)"
  by (simp add: same_users_def attached_def kqueue_event_def kqueue_in_def kqueue_out_def upd_kqueue_def filp_upds
      Let_def flags split: prod.split)

lemma kqueue_events_users: "same_users s (fold (kqueue_event q) evs s)"
  by (induction evs arbitrary: s) (auto intro: same_users_trans kqueue_event_users)

lemma kqueue_polling_users: "tx_kqueue_polling q wait s = Inr s' \<Longrightarrow> same_users s s'"
proof -
  assume "tx_kqueue_polling q wait s = Inr s'"
  then have "\<exists>evs. io s' = io (fold (kqueue_event q) evs s)"
    by (auto simp: tx_kqueue_polling_def Let_def upd_loop_def split: prod.splits if_splits)
  then show ?thesis using kqueue_events_users by (metis same_users_io)
qed

definition kq_good :: "kqueue_p \<Rightarrow> task_p set \<Rightarrow> aiocb_p set \<times> tx_mem \<Rightarrow> bool" where
  "kq_good q T x \<longleftrightarrow> kq_inv q T (fst x) (snd x) \<and> polled_for (fst x) (snd x) \<and> blocks_ok (fst x) (snd x)"

lemma kq_step_good:
  assumes "kq_step q T x y" and "kq_good q T x" and t: "PollTask (KqueuePoll q) \<in> T"
  shows "kq_good q T y"
  using assms(1)
proof cases
  case (ks_op A s s')
  then show ?thesis using kqueue_user.user_op [of T A s s' q] assms(2) blocks_ok_users by (auto simp: kq_good_def)
next
  case (ks_init a A loop s fd k s')
  then show ?thesis using kq_init_block [of q T A s a loop fd k] kq_listen_block [of q T A s a loop fd k] assms(2)
    by (auto simp: kq_good_def)
next
  case (ks_fini a A s k s')
  then show ?thesis using kq_fini_block [of q T A s a k] assms(2) by (auto simp: kq_good_def)
next
  case (ks_poll A s wait s')
  obtain s'' where "tx_kqueue_polling q wait s = Inr s''" "kq_inv q T A s''" "polled_for A s''"
    using tx_kqueue_polling_spec [where U = UNIV and wait = wait and q = q and T = T and A = A and s = s]
      ks_poll assms(2) t by (auto simp: kq_good_def)
  then show ?thesis using ks_poll blocks_ok_users [OF _ kqueue_polling_users [OF ks_poll(4)]] assms(2)
    by (auto simp: kq_good_def)
next
  case (ks_rest s s' A)
  then have "waiters T A s'" using assms(2) by (auto simp: kq_good_def kq_inv_def waiters_def rest_step_def)
  then show ?thesis
    using kq_inv_same_poll [OF _ rest_same_poll [OF ks_rest(3)]] ks_rest blocks_ok_io assms(2)
    by (auto simp: kq_good_def polled_for_def rest_step_def)
qed

lemma kq_reach_good:
  assumes "(kq_step q T)\<^sup>*\<^sup>* x y" and "kq_good q T x" and "PollTask (KqueuePoll q) \<in> T"
  shows "kq_good q T y"
  using assms(1,2) by (induction rule: rtranclp_induct) (auto intro: kq_step_good assms(3))

lemma tx_kqueue_new_good:
  assumes "tx_kqueue_new (Some q) fd loop s = (p, s')" and "fd \<noteq> -1" and "tx_holder (loops s loop) \<noteq> VKqueue q"
  shows "p = Some (KqueuePoll q) \<and> tx_poll_get loop s' = Some (KqueuePoll q) \<and> kq_good q T ({}, s')"
  using assms by (auto simp: tx_kqueue_new_def Let_def kq_good_def kq_inv_def kq_core_def kq_held_def
      waiters_def polled_for_def blocks_ok_def tx_poll_get_def upd_kqueue_def upd_loop_def tx_poll_init_def
      tx_task_init_def upd_task_def on_tq_def)

lemma kq_waits_registered:
  assumes "kq_good q T (A, s)" and "a \<in> A"
  shows "tx_filterin (filp s a) \<noteq> None \<Longrightarrow> kq_watched (kcalls (io s)) q (tx_fd (filp s a)) True = Some a"
    and "tx_filterout (filp s a) \<noteq> None \<Longrightarrow> kq_watched (kcalls (io s)) q (tx_fd (filp s a)) False = Some a"
proof -
  have g: "kq_core q A s" "polled_for A s" "blocks_ok A s" using assms(1) by (simp_all add: kq_good_def kq_inv_def)
  have w: "kq_watched (kcalls (io s)) q (tx_fd (filp s a)) b = Some a"
    if "has (fl s a) (if b then TX_POLLIN else TX_POLLOUT)" for b
  proof -
    have "attached s a" using that g(3) assms(2) by (cases b) (auto simp: blocks_ok_def has_or_mask)
    then show ?thesis using kq_coreD(5) [OF g(1) assms(2)] that by (simp add: armed_for_def)
  qed
  show "tx_filterin (filp s a) \<noteq> None \<Longrightarrow> kq_watched (kcalls (io s)) q (tx_fd (filp s a)) True = Some a"
    "tx_filterout (filp s a) \<noteq> None \<Longrightarrow> kq_watched (kcalls (io s)) q (tx_fd (filp s a)) False = Some a"
    using w [of True] w [of False] g(2) assms(2) by (auto simp: polled_for_def)
qed

text \<open>A run: a loop with a poller, a block on descriptor 5, and a task that waits to read and to write.\<close>

definition kq_demo0 :: tx_mem where
  "kq_demo0 = snd (tx_kqueue_new (Some (Kqueue 0)) 3 (NewLoop 0) epoll_demo_loop)"

definition kq_demo1 :: tx_mem where
  "kq_demo1 = clear_flags (Aiocb 0) TX_WRITABLE (projr (tx_aiocb_init (Aiocb 0) (NewLoop 0) 5 (\<lambda>_. (0, 0)) kq_demo0))"

abbreviation kq_demo_tasks :: "task_p set" where
  "kq_demo_tasks \<equiv> {Task 0, PollTask (KqueuePoll (Kqueue 0))}"

lemma kq_demo_new:
  "tx_kqueue_new (Some (Kqueue 0)) 3 (NewLoop 0) epoll_demo_loop = (Some (KqueuePoll (Kqueue 0)), kq_demo0)"
  "tx_holder (loops epoll_demo_loop (NewLoop 0)) \<noteq> VKqueue (Kqueue 0)"
  by (simp add: kq_demo0_def tx_kqueue_new_def Let_def) code_simp

lemma kq_demo_reads:
  "tx_poll_get (NewLoop 0) kq_demo0 = Some (KqueuePoll (Kqueue 0))"
  "\<not> isl (tx_aiocb_init (Aiocb 0) (NewLoop 0) 5 (\<lambda>_. (0, 0)) kq_demo0)"
  "attached kq_demo1 (Aiocb 0)" "\<not> tx_readable kq_demo1 (Aiocb 0)" "\<not> tx_writable kq_demo1 (Aiocb 0)"
  by code_simp+

text \<open>A write of the whole buffer that would block clears \<open>TX_WRITABLE\<close>.\<close>

lemma kq_demo_run1: "(kq_step (Kqueue 0) kq_demo_tasks)\<^sup>*\<^sup>* ({}, kq_demo0) ({Aiocb 0}, kq_demo1)"
proof -
  define s where "s = projr (tx_aiocb_init (Aiocb 0) (NewLoop 0) 5 (\<lambda>_. (0, 0)) kq_demo0)"
  have init: "tx_aiocb_init (Aiocb 0) (NewLoop 0) 5 (\<lambda>_. (0, 0)) kq_demo0 = Inr s"
    using kq_demo_reads(2) by (simp add: s_def)
  have 1: "kq_step (Kqueue 0) kq_demo_tasks ({}, kq_demo0) ({Aiocb 0}, s)"
    by (rule ks_init [where loop = "NewLoop 0" and fd = 5 and k = "\<lambda>_. (0, 0)"]) (use init kq_demo_reads(1) in simp_all)
  have "kq_good (Kqueue 0) kq_demo_tasks ({Aiocb 0}, s)"
    by (rule kq_step_good [OF 1]) (use tx_kqueue_new_good [OF kq_demo_new(1) _ kq_demo_new(2)] in simp_all)
  then have "ops_of s (Aiocb 0) = KqueueOps" using kqueue.ok_ops by (auto simp: kq_good_def)
  then have "tx_outcb_write (Aiocb 0) [0] (\<lambda>_. (-1, EAGAIN)) s = Inr (-1, kq_demo1)"
    by (simp add: tx_outcb_write_def with_ops_def kqueue_fns_def tx_outcb_update_def write_fd_def kq_demo1_def s_def)
  then have "kq_step (Kqueue 0) kq_demo_tasks ({Aiocb 0}, s) ({Aiocb 0}, kq_demo1)"
    by (intro ks_op op_write) simp
  with 1 show ?thesis by (meson r_into_rtranclp rtranclp.rtrancl_into_rtrancl)
qed

lemma kq_demo_run2:
  "\<exists>s. (kq_step (Kqueue 0) kq_demo_tasks)\<^sup>*\<^sup>* ({}, kq_demo0) ({Aiocb 0}, s) \<and>
     tx_filterin (filp s (Aiocb 0)) = Some (Task 0) \<and> armed_both s (Aiocb 0) \<and> attached s (Aiocb 0)"
proof -
  let ?a = "Aiocb 0" and ?t = "Task 0" and ?k = "\<lambda>_. (0, 0) :: kres"
  have g: "kq_inv (Kqueue 0) kq_demo_tasks {?a} kq_demo1" "polled_for {?a} kq_demo1"
    "tx_fops (filp kq_demo1 ?a) = GenericFops"
    using kq_reach_good [OF kq_demo_run1] tx_kqueue_new_good [OF kq_demo_new(1) _ kq_demo_new(2)]
    by (auto simp: kq_good_def blocks_ok_def)
  obtain s where s: "tx_outcb_prepare ?a ?t ?k kq_demo1 = Inr s" "kq_inv (Kqueue 0) kq_demo_tasks {?a} s"
    "polled_for {?a} s" "same_users kq_demo1 s"
    "aiocbs (io s) = (aiocbs (io kq_demo1))(?a := (filp kq_demo1 ?a)
       \<lparr>filp_flags := fl kq_demo1 ?a OR TX_POLLOUT, tx_filterout := Some ?t\<rparr>)"
    using kqueue_user.user_prepare [where k = ?k and U = UNIV, OF g(1,2), of ?a ?t] g(3) kq_demo_reads by auto
  have s1: "attached s ?a" "\<not> tx_readable s ?a" "tx_fops (filp s ?a) = GenericFops"
    using s(4,5) kq_demo_reads(3,4) g(3) by (auto simp: same_users_def tx_readable_def flags)
  obtain s' where s': "tx_aincb_active ?a ?t ?k s = Inr s'" "same_users s s'"
    "aiocbs (io s') = (aiocbs (io s))(?a := (filp s ?a)\<lparr>filp_flags := fl s ?a OR TX_POLLIN, tx_filterin := Some ?t\<rparr>)"
    using kqueue_user.user_active [where k = ?k and U = UNIV, OF s(2,3), of ?a ?t] s1 by auto
  have "kq_step (Kqueue 0) kq_demo_tasks ({?a}, kq_demo1) ({?a}, s)"
    by (rule ks_op, rule op_prepare [where a = ?a and t = ?t and k = ?k]) (use kq_demo_reads s(1) in simp_all)
  moreover have "kq_step (Kqueue 0) kq_demo_tasks ({?a}, s) ({?a}, s')"
    by (rule ks_op, rule op_active [where a = ?a and t = ?t and k = ?k]) (use s1 s'(1) in simp_all)
  ultimately have "(kq_step (Kqueue 0) kq_demo_tasks)\<^sup>*\<^sup>* ({}, kq_demo0) ({?a}, s')"
    using kq_demo_run1 by (meson rtranclp.rtrancl_into_rtrancl)
  moreover have "attached s' ?a" using s1(1) s'(2) by (simp add: same_users_def)
  ultimately show ?thesis using s'(3) s(5) by (auto simp: armed_both_def flags)
qed



text \<open>C18. Taking down a kqueue block that is armed both for reading and for writing leaks one reference: in a
  reachable state, after \<open>tx_aiocb_fini\<close> the poller's count is one more than the requests still before the
  kernel, and a loop the poller held stays held, even when no block is left.\<close>
theorem kqueue_fini_leaks_reference:
  assumes "tx_kqueue_new (Some q) fd loop s0 = (p, s1)" and "fd \<noteq> -1" and "tx_holder (loops s0 loop) \<noteq> VKqueue q"
    and "PollTask (KqueuePoll q) \<in> T" and "(kq_step q T)\<^sup>*\<^sup>* ({}, s1) (A, s)"
    and "a \<in> A" and "attached s a" and "armed_both s a" and "fst (k 0) \<noteq> -1"
  shows "\<exists>s'. tx_aiocb_fini a k s = Inr s' \<and> \<not> attached s' a \<and>
    kq_refcnt s' q = int (card {b \<in> A - {a}. armed_for s' True b}) + int (card {b \<in> A - {a}. armed_for s' False b}) + 1 \<and>
    holder s' (KqueuePoll q) = holder s (KqueuePoll q)"
proof -
  have g: "kq_good q T (A, s)"
    using kq_reach_good [OF assms(5) _ assms(4)] tx_kqueue_new_good [OF assms(1-3)] by simp
  then have i: "kq_inv q T A s" "blocks_ok A s" and core: "kq_core q A s" by (simp_all add: kq_good_def kq_inv_def)
  note D = kq_coreD [OF core]
  have fd: "tx_fd (filp s a) \<noteq> -1" using i(2) assms(6,7) by (simp add: blocks_ok_def)
  have at: "has (fl s a) TX_ATTACHED" "\<not> has (fl s a) TX_DETACHED" "has (fl s a) TX_POLLIN" "has (fl s a) TX_POLLOUT"
    using assms(7,8) by (simp_all add: attached_def armed_both_def)
  have p: "filp_poll (filp s a) = KqueuePoll q" "poll_ops (io s) (KqueuePoll q) = KqueueOps" using D(2,3) assms(6) by simp_all
  define s' where "s' = upd_kqueue q (\<lambda>p. p\<lparr>kqueue_refcnt := kqueue_refcnt p - 1\<rparr>)
    (set_flags a TX_DETACHED (log_kcall (KeventDel q (tx_fd (filp s a)) (kqueue_deletes (fl s a)) a) s))"
  have n: "card {b\<in>A. armed_for s c b} = Suc (card {b \<in> A - {a}. armed_for s c b})" for c
  proof -
    have "armed_for s c a" using at by (simp add: armed_for_def attached_def)
    then have "{b\<in>A. armed_for s c b} = insert a {b \<in> A - {a}. armed_for s c b}" using assms(6) by auto
    then show ?thesis using D(1) by simp
  qed
  have af: "armed_for s' c b = armed_for s c b" if "b \<noteq> a" for c b
    using that by (simp add: armed_for_def attached_def s'_def upd_kqueue_def filp_upds)
  have cnt: "kq_refcnt s' q = int (card {b \<in> A - {a}. armed_for s' True b}) + int (card {b \<in> A - {a}. armed_for s' False b}) + 1"
  proof -
    have "{b \<in> A - {a}. armed_for s' c b} = {b \<in> A - {a}. armed_for s c b}" for c using af by auto
    moreover have "kq_refcnt s' q = kq_refcnt s q - 1" by (simp add: s'_def upd_kqueue_def filp_upds)
    ultimately show ?thesis using D(4) n by simp
  qed
  then have "kq_refcnt s' q \<noteq> 0" by simp
  then have "tx_kqueue_detach a k s = Inr s'"
    using at p assms(9) unfolding s'_def
    by (simp add: tx_kqueue_detach_def attached_mask kqueue_deletes_def upd_kqueue_def filp_upds has_or has_or_mask Let_def)
  moreover have "tx_aiocb_fini a k s = tx_kqueue_detach a k s"
    using fd p by (simp add: tx_aiocb_fini_def with_ops_def kqueue_fns_def)
  moreover have "\<not> attached s' a" by (simp add: attached_def s'_def upd_kqueue_def filp_upds flags)
  moreover have "holder s' (KqueuePoll q) = holder s (KqueuePoll q)" by (simp add: s'_def upd_kqueue_def filp_upds)
  ultimately show ?thesis using cnt by auto
qed

theorem kqueue_fini_leaks_reference_witness:
  "\<exists>s s'. tx_aiocb_fini (Aiocb 0) (\<lambda>_. (0, 0)) s = Inr s' \<and> kq_refcnt s' (Kqueue 0) = 1"
proof -
  obtain s where s: "(kq_step (Kqueue 0) kq_demo_tasks)\<^sup>*\<^sup>* ({}, kq_demo0) ({Aiocb 0}, s)"
    "armed_both s (Aiocb 0)" "attached s (Aiocb 0)" using kq_demo_run2 by blast
  show ?thesis
    using kqueue_fini_leaks_reference [OF kq_demo_new(1) _ kq_demo_new(2) _ s(1) _ s(3,2), of "\<lambda>_. (0, 0)"] by auto
qed

end
