(* ===== verification/TxPortSystem.thy ===== *)
theory TxPortSystem
  imports TxSystem
begin

text \<open>
  The system of theory \<open>TxSystem\<close> with the completion port poller. Here the kernel writes to memory of
  the library, the \<open>tx_overlapped_t\<close> of an operation in progress, so what has to hold in every reachable
  state is that this memory is still allocated, and that nothing else is: each \<open>tx_overlapped_t\<close> is
  deleted when the last of its block and its operations lets go of it.
\<close>

section \<open>Setting up and taking down blocks\<close>

definition fops_ok :: "aiocb_p set \<Rightarrow> tx_mem \<Rightarrow> bool" where
  "fops_ok A s \<longleftrightarrow> (\<forall>a\<in>A. tx_fops (filp s a) = GenericFops \<and> (attached s a \<longrightarrow> tx_fd (filp s a) \<noteq> -1))"

lemma port_inv_insert:
  assumes inv: "port_inv T A s" and a: "a \<notin> A" and p: "poll_ops (io s) (PortPoll p) = PortOps"
  shows "port_inv T (insert a A) (upd_filp a (fresh_filp (PortPoll p) fd) s)"
proof -
  let ?s = "upd_filp a (fresh_filp (PortPoll p) fd) s"
  from inv obtain Q where core: "port_core A Q s" and W: "waiters T A s" by (auto simp: port_inv_def)
  note D = port_coreD [OF core]
  have r: "filp ?s b = (if b = a then fresh_filp (PortPoll p) fd (filp s a) else filp s b)" for b
    by (simp add: upd_filp_def)
  have at: "attached ?s b = (b \<noteq> a \<and> attached s b)" for b by (auto simp: attached_def r fresh_flags)
  have io: "overlappeds (io ?s) = overlappeds (io s)" "ovl_live (io ?s) = ovl_live (io s)" "pq (io ?s) = pq (io s)"
    "in_flight (io ?s) = in_flight (io s)" "poll_ops (io ?s) = poll_ops (io s)" by (simp_all add: upd_filp_def)
  have "ovl_ok (insert a A) ?s v" if "live s v" for v using D(4) [OF that] a by (auto simp: ovl_ok_def io at r)
  moreover have "filp_ok ?s b" if "b \<in> insert a A" for b
  proof (cases "b = a")
    case True
    then show ?thesis by (simp add: filp_ok_def at)
  next
    case False
    then show ?thesis using D(6) [of b] that by (simp add: filp_ok_def io at r)
  qed
  moreover have "\<exists>p. filp_poll (filp ?s b) = PortPoll p \<and> poll_ops (io ?s) (PortPoll p) = PortOps"
    if "b \<in> insert a A" for b using D(7) [of b] that p by (cases "b = a") (auto simp: io r)
  ultimately have "port_core (insert a A) Q ?s" using D(1-3,5,8) unfolding port_core_def io by blast
  moreover have "waiters T (insert a A) ?s" using W by (auto simp: waiters_def r)
  ultimately show ?thesis by (auto simp: port_inv_def)
qed

lemma port_inv_delete:
  assumes "port_inv T A s" and a: "\<not> attached s a"
  shows "port_inv T (A - {a}) s"
  using assms(1) a unfolding port_inv_def port_core_def ovl_ok_def waiters_def by (elim exE conjE) (intro conjI exI; fast)

text \<open>What no operation but setting up and taking down changes of a block.\<close>

definition same_ids :: "tx_mem \<Rightarrow> tx_mem \<Rightarrow> bool" where
  "same_ids s s' \<longleftrightarrow> poll_ops (io s') = poll_ops (io s) \<and> (\<forall>b. tx_fops (filp s' b) = tx_fops (filp s b) \<and> tx_fd (filp s' b) = tx_fd (filp s b) \<and>
     (attached s' b \<longrightarrow> attached s b))"

lemma same_ids_refl [simp]: "same_ids s s"
  by (simp add: same_ids_def)

lemma same_ids_trans: "same_ids s s' \<Longrightarrow> same_ids s' s'' \<Longrightarrow> same_ids s s''"
  by (simp add: same_ids_def)

lemma fops_ok_ids: "fops_ok A s \<Longrightarrow> same_ids s s' \<Longrightarrow> fops_ok A s'"
  by (auto simp: fops_ok_def same_ids_def)

definition safe_mask :: "u32 \<Rightarrow> bool" where
  "safe_mask m \<longleftrightarrow> m \<in> {TX_READABLE, TX_WRITABLE, TX_POLLIN, TX_POLLOUT, TX_LISTEN, TX_DETACHED}"

lemma same_ids_step [simp]:
  "safe_mask m \<Longrightarrow> same_ids s (set_flags a m s)"
  "safe_mask m \<Longrightarrow> m \<noteq> TX_DETACHED \<Longrightarrow> same_ids s (clear_flags a m s)"
  "same_ids s (clear_in a s)" "same_ids s (clear_out a s)" "same_ids s (tx_task_active w r s)"
  "same_ids s (log_kcall c s)" "same_ids s (upd_ovl v f s)" "same_ids s (on_pq l s)" "same_ids s (ovl_get v s)"
  "same_ids s (set_flight v b x s)" "same_ids s (set_live v x s)" "same_ids s (ovl_put v s)"
  "same_ids s (upd_io (\<lambda>i. i\<lparr>lp_accept := True\<rparr>) s)" "same_ids s (upd_io (\<lambda>i. i\<lparr>lp_connect := True\<rparr>) s)"
  "same_ids s (upd_filp a (\<lambda>f. f\<lparr>tx_privp := None\<rparr>) s)"
  "same_ids s (upd_filp a (\<lambda>f. f\<lparr>tx_filterin := Some t\<rparr>) s)"
  "same_ids s (upd_filp a (\<lambda>f. f\<lparr>tx_filterout := Some t\<rparr>) s)"
  by (auto simp: same_ids_def attached_def ovl_upds ovl_put_def Let_def safe_mask_def flags)

lemma safe_masks [simp]: "safe_mask TX_READABLE" "safe_mask TX_WRITABLE" "safe_mask TX_POLLIN" "safe_mask TX_POLLOUT"
    "safe_mask TX_LISTEN" "safe_mask TX_DETACHED"
    "TX_READABLE \<noteq> TX_DETACHED" "TX_WRITABLE \<noteq> TX_DETACHED" "TX_POLLIN \<noteq> TX_DETACHED" "TX_POLLOUT \<noteq> TX_DETACHED"
  by (simp_all add: safe_mask_def) (simp_all add: flag_defs)

lemma same_ids_chain:
  assumes "same_ids s s1"
  shows "safe_mask m \<Longrightarrow> same_ids s (set_flags a m s1)"
    "safe_mask m \<Longrightarrow> m \<noteq> TX_DETACHED \<Longrightarrow> same_ids s (clear_flags a m s1)"
    "same_ids s (clear_in a s1)" "same_ids s (clear_out a s1)" "same_ids s (tx_task_active w r s1)"
    "same_ids s (log_kcall c s1)" "same_ids s (upd_ovl v f s1)" "same_ids s (on_pq l s1)" "same_ids s (ovl_get v s1)"
    "same_ids s (set_flight v b x s1)" "same_ids s (set_live v x s1)" "same_ids s (ovl_put v s1)"
    "same_ids s (upd_filp a (\<lambda>f. f\<lparr>tx_privp := None\<rparr>) s1)"
  by (rule same_ids_trans [OF assms]; simp)+

lemma sendout_ids: "tx_completion_port_sendout a buf k s = Inr (n, s') \<Longrightarrow> same_ids s s'"
  by (auto simp: tx_completion_port_sendout_def with_ovl_def Let_def split: if_splits option.splits
      intro!: same_ids_chain)

lemma connect_ids: "tx_completion_port_connect a k s = Inr (n, s') \<Longrightarrow> same_ids s s'"
  by (auto simp: tx_completion_port_connect_def with_ovl_def Let_def split: if_splits option.splits
      intro!: same_ids_chain)

lemma connect_attached: "tx_completion_port_connect a k s = Inr (n, s') \<Longrightarrow> attached s' b = attached s b"
  by (auto simp: tx_completion_port_connect_def with_ovl_def Let_def ovl_upds attached_def flags
      split: if_splits option.splits)

lemma accept_ids: "tx_completion_port_accept a s = Inr (n, s') \<Longrightarrow> same_ids s s'"
  by (auto simp: tx_completion_port_accept_def with_ovl_def Let_def split: if_splits option.splits
      intro!: same_ids_chain)

lemma pollin_ids: "tx_completion_port_pollin a k s = Inr s' \<Longrightarrow> same_ids s s'"
  by (auto simp: tx_completion_port_pollin_def port_pollin_listen_def with_ovl_def Let_def split: if_splits option.splits
      intro!: same_ids_chain)

lemma detach_ids: "tx_completion_port_detach a k s = Inr s' \<Longrightarrow> same_ids s s'"
  by (auto simp: tx_completion_port_detach_def with_ovl_def Let_def split: if_splits option.splits
      intro!: same_ids_chain)

lemma handle_ids: "handle_overlapped v b s = Inr s' \<Longrightarrow> same_ids s s'"
  by (auto simp: handle_overlapped_def with_ovl_def Let_def split: if_splits option.splits intro!: same_ids_chain)

lemma port_loop_ids:
  assumes "port_loop p krn n s = Some r"
  shows "\<forall>s'. r = Inr s' \<longrightarrow> same_ids s s'"
proof (rule port_loop.raw_induct [where P = "\<lambda>p krn n s r. \<forall>s'. r = Inr s' \<longrightarrow> same_ids s s'", OF _ assms])
  fix rec p n s r and krn :: port_kernel
  let ?t = "if tx_loop_timeout (tx_loop_get (PollTask (PortPoll p)) s) (VPort p) s \<noteq> 0 then 15 else 0 :: int"
  assume IH: "\<And>p krn n s r. rec p krn n s = Some r \<Longrightarrow> \<forall>s'. r = Inr s' \<longrightarrow> same_ids s s'"
    and body: "(let loop = tx_loop_get (PollTask (PortPoll p)) s;
          timeout = (if tx_loop_timeout loop (VPort p) s \<noteq> 0 then 15 else 0)
      in case krn n timeout (in_flight (io s)) of PortTimeout \<Rightarrow> Some (Inr s) | PortFailure \<Rightarrow> Some (Inl NullDeref)
         | PortDone v b \<Rightarrow> (case handle_overlapped v b (set_flight v b False s) of
                Inl e \<Rightarrow> Some (Inl e) | Inr s' \<Rightarrow> rec p krn (Suc n) s')) = Some r"
  show "\<forall>s'. r = Inr s' \<longrightarrow> same_ids s s'"
  proof (cases "krn n ?t (in_flight (io s))")
    case (PortDone v b)
    show ?thesis
    proof (cases "handle_overlapped v b (set_flight v b False s)")
      case (Inr s1)
      then have "rec p krn (Suc n) s1 = Some r" using body PortDone by (simp add: Let_def)
      then show ?thesis using IH same_ids_trans [OF same_ids_step(10) handle_ids [OF Inr]] same_ids_trans by blast
    qed (use body PortDone in \<open>auto simp: Let_def\<close>)
  qed (use body in \<open>auto simp: Let_def\<close>)
qed

lemma polling_ids:
  assumes "tx_completion_port_polling p krn s = Some (Inr s')"
  shows "same_ids s s'"
proof -
  obtain s1 where "port_loop p krn 0 s = Some (Inr s1)" "s' = tx_poll_active (PortPoll p) s1"
    using assms by (auto simp: tx_completion_port_polling_def res_bind_Inr_iff)
  then show ?thesis using port_loop_ids [of p krn 0 s] by (auto simp: same_ids_def attached_def)
qed

section \<open>The system\<close>

text \<open>
  \<open>send_honest\<close>: \<open>send\<close> takes at most what it is given. The kernel completes only operations in flight, and
  \<open>new\<close> returns memory that is not in use.
\<close>

definition send_honest :: "bytes \<Rightarrow> (nat \<Rightarrow> kres) \<Rightarrow> bool" where
  "send_honest buf k \<longleftrightarrow> buf \<noteq> [] \<and> fst (k 0) \<le> int (min 8192 (length buf))"

inductive port_step ::
    "port_p \<Rightarrow> task_p set \<Rightarrow> aiocb_p set \<times> tx_mem \<Rightarrow> aiocb_p set \<times> tx_mem \<Rightarrow> bool" for p T where
    ps_active: "a \<in> A \<Longrightarrow> tx_readable s a \<or> attached s a \<Longrightarrow> t \<in> T \<Longrightarrow> fst (k 0) \<noteq> -1 \<Longrightarrow>
      tx_aincb_active a t k s = Inr s' \<Longrightarrow> port_step p T (A, s) (A, s')"
  | ps_prepare: "a \<in> A \<Longrightarrow> attached s a \<Longrightarrow> t \<in> T \<Longrightarrow> tx_outcb_prepare a t k s = Inr s' \<Longrightarrow>
      port_step p T (A, s) (A, s')"
  | ps_stop: "a \<in> A \<Longrightarrow> tx_aincb_stop a v s = Inr s' \<Longrightarrow> port_step p T (A, s) (A, s')"
  | ps_cancel: "a \<in> A \<Longrightarrow> tx_outcb_cancel a v s = Inr s' \<Longrightarrow> port_step p T (A, s) (A, s')"
  | ps_read: "a \<in> A \<Longrightarrow> port_step p T (A, s) (A, tx_aincb_update a r s)"
  | ps_write: "a \<in> A \<Longrightarrow> attached s a \<Longrightarrow> send_honest buf k \<Longrightarrow> tx_outcb_write a buf k s = Inr (n, s') \<Longrightarrow>
      port_step p T (A, s) (A, s')"
  | ps_accept: "a \<in> A \<Longrightarrow> attached s a \<Longrightarrow> tx_listen_accept_win a s = Inr (n, s') \<Longrightarrow> port_step p T (A, s) (A, s')"
  | ps_connect: "a \<in> A \<Longrightarrow> attached s a \<Longrightarrow> t \<in> T \<Longrightarrow> fst (k 0) \<noteq> -1 \<Longrightarrow>
      tx_aiocb_connect_win a t k s = Inr (n, s') \<Longrightarrow> port_step p T (A, s) (A, s')"
  | ps_init: "a \<notin> A \<Longrightarrow> tx_poll_get loop s = Some (PortPoll p) \<Longrightarrow> fst (k 0) \<noteq> 0 \<Longrightarrow>
      \<not> live s (Ovl (nat (fst (k 1)))) \<Longrightarrow>
      tx_aiocb_init a loop fd k s = Inr s' \<or> tx_listen_init a loop fd k s = Inr s' \<Longrightarrow>
      port_step p T (A, s) (insert a A, s')"
  | ps_fini: "a \<in> A \<Longrightarrow> tx_aiocb_fini a k s = Inr s' \<Longrightarrow> port_step p T (A, s) (A - {a}, s')"
  | ps_poll: "port_answers krn \<Longrightarrow> tx_completion_port_polling p krn s = Some (Inr s') \<Longrightarrow>
      port_step p T (A, s) (A, s')"
  | ps_rest: "rest_step s s' \<Longrightarrow> port_step p T (A, s) (A, s')"

definition port_good :: "port_p \<Rightarrow> task_p set \<Rightarrow> aiocb_p set \<times> tx_mem \<Rightarrow> bool" where
  "port_good p T x \<longleftrightarrow> port_inv T (fst x) (snd x) \<and> fops_ok (fst x) (snd x) \<and>
     poll_ops (io (snd x)) (PortPoll p) = PortOps"

text \<open>Each operation in a good state: it returns, and leaves a good state.\<close>

lemma good_ids: "port_good p T (A, s) \<Longrightarrow> port_inv T A s' \<Longrightarrow> same_ids s s' \<Longrightarrow> port_good p T (A, s')"
  using fops_ok_ids by (auto simp: port_good_def same_ids_def)

lemma port_with_ops:
  assumes "port_inv T A s" and "a \<in> A"
  shows "with_ops a s f = f port_fns"
  using port.ok_ops [OF assms] by (simp add: with_ops_def)

lemma good_active:
  assumes g: "port_good p T (A, s)" and a: "a \<in> A" "tx_readable s a \<or> attached s a" and t: "t \<in> T" and k: "fst (k 0) \<noteq> -1"
  shows "\<exists>s'. tx_aincb_active a t k s = Inr s' \<and> port_good p T (A, s') \<and>
    (tx_readable s a \<longrightarrow> busy s' t \<or> stopped s' (loop_of s' t)) \<and>
    (\<not> tx_readable s a \<longrightarrow> port_granted k \<longrightarrow> tx_filterin (filp s' a) = Some t \<and> has (fl s' a) TX_POLLIN \<and>
       attached s' a = attached s a)"
proof -
  have i: "port_inv T A s" and f: "tx_fops (filp s a) = GenericFops" using g a(1) by (auto simp: port_good_def fops_ok_def)
  obtain s' where s': "generic_active_in poll_table a t k s = Inr s'" "port_inv T A s'"
    "tx_readable s a \<longrightarrow> s' = tx_task_active (Some t) (VAiocb a) s"
    "\<not> tx_readable s a \<longrightarrow> port_granted k \<longrightarrow> aiocbs (io s') = (aiocbs (io s))(a := (filp s a)
       \<lparr>filp_flags := fl s a OR TX_POLLIN, tx_filterin := Some t\<rparr>)"
    using port.active_in [where tab = poll_table and U = UNIV and k = k, OF _ i a t k] by auto
  have "same_ids s s'"
  proof (cases "tx_readable s a")
    case False
    define s1 where "s1 = (if tx_filterin (filp s a) \<noteq> Some t then upd_filp a (\<lambda>f. f\<lparr>tx_filterin := Some t\<rparr>) s else s)"
    have ids: "same_ids s s1" by (simp add: s1_def)
    have "ops_of s1 a = PortOps" using port.ok_ops [OF i a(1)] by (simp add: s1_def upd_filp_def)
    then have "(if has (fl s1 a) TX_POLLIN then Inr s1 else tx_completion_port_pollin a k s1) = Inr s'"
      using s'(1) False by (simp add: generic_active_in_def s1_def [symmetric] port_fns_def split: if_split_asm)
    then have "s' = s1 \<or> tx_completion_port_pollin a k s1 = Inr s'" by (simp split: if_splits)
    then show ?thesis using ids pollin_ids same_ids_trans by blast
  qed (use s'(3) in simp)
  moreover have "tx_readable s a \<longrightarrow> busy s' t \<or> stopped s' (loop_of s' t)"
    using s'(3) active_busy(2) [of s t "VAiocb a"] by (auto simp: stopped_def)
  moreover have "tx_filterin (filp s' a) = Some t \<and> has (fl s' a) TX_POLLIN \<and> attached s' a = attached s a"
    if "\<not> tx_readable s a" "port_granted k"
    using s'(4) that by (simp add: attached_def flags)
  moreover have "tx_aincb_active a t k s = Inr s'" using s'(1) f by (simp add: tx_aincb_active_def)
  ultimately show ?thesis using good_ids [OF g s'(2)] by blast
qed

lemma port_out:
  assumes i: "port_inv T A s" and a: "a \<in> A" "attached s a" and t: "t \<in> T"
  shows "\<exists>s'. generic_active_out poll_table a t k s = Inr s' \<and> port_inv T A s' \<and> same_ids s s' \<and>
    (busy s' t \<or> stopped s' (loop_of s' t) \<or> tx_filterout (filp s' a) = Some t \<and> has (fl s' a) TX_POLLOUT)"
proof (cases "tx_writable s a")
  case True
  let ?s = "tx_task_active (Some t) (VAiocb a) s"
  have "port_inv T A ?s"
    by (rule port.ok_frame [OF i same_poll_active]) (use port.ok_waiters [OF i] in \<open>simp add: waiters_def\<close>)
  then show ?thesis using True active_busy(2) [of s t "VAiocb a"] by (auto simp: generic_active_out_def stopped_def)
next
  case False
  let ?w = "upd_filp a (\<lambda>f. f\<lparr>tx_filterout := Some t\<rparr>) s"
  have ws: "waiters T A ?w" using port.ok_waiters [OF i] t by (auto simp: waiters_def upd_filp_def)
  from i obtain Q where "port_core A Q s" by (auto simp: port_inv_def)
  then have "has (fl s a) TX_POLLOUT" using port_attached [OF _ a] False by (metis tx_writable_def)
  then have "generic_active_out poll_table a t k s = Inr (if tx_filterout (filp s a) \<noteq> Some t then ?w else s)"
    using False by (simp add: generic_active_out_def upd_filp_def)
  then show ?thesis using i port.ok_frame [OF i same_poll_waiter(2) ws] \<open>has (fl s a) TX_POLLOUT\<close>
    by (auto simp: upd_filp_def same_ids_step(17) [unfolded upd_filp_def])
qed

lemma good_prepare:
  assumes g: "port_good p T (A, s)" and a: "a \<in> A" "attached s a" and t: "t \<in> T"
  shows "\<exists>s'. tx_outcb_prepare a t k s = Inr s' \<and> port_good p T (A, s') \<and>
    (busy s' t \<or> stopped s' (loop_of s' t) \<or> tx_filterout (filp s' a) = Some t \<and> has (fl s' a) TX_POLLOUT)"
proof -
  have "port_inv T A s" "tx_fops (filp s a) = GenericFops" using g a(1) by (auto simp: port_good_def fops_ok_def)
  then show ?thesis using port_out [of T A s a t k] a t good_ids [OF g] by (fastforce simp: tx_outcb_prepare_def)
qed

lemma sendout_le:
  "tx_completion_port_sendout a buf k s = Inr (n, s') \<Longrightarrow> fst (k 0) \<le> int (length buf) \<Longrightarrow> n \<le> int (length buf)"
  by (auto simp: tx_completion_port_sendout_def with_ovl_def Let_def split: if_splits option.splits)

lemma good_write:
  assumes g: "port_good p T (A, s)" and a: "a \<in> A" "attached s a" and h: "send_honest buf k"
  shows "\<exists>n s'. tx_outcb_write a buf k s = Inr (n, s') \<and> port_good p T (A, s') \<and> n \<noteq> 0 \<and> n \<le> int (min 8192 (length buf)) \<and>
    kcalls (io s') = kcalls (io s) @ (if n > 0 then [Sent a (take (nat n) buf)] else [])"
proof -
  have i: "port_inv T A s" using g by (simp add: port_good_def)
  let ?buf = "take (if length buf < 8192 then length buf else 8192) buf"
  have b: "?buf \<noteq> []" "fst (k 0) \<le> int (length ?buf)" using h by (auto simp: send_honest_def min_def split: if_splits)
  obtain n s' where s': "tx_completion_port_sendout a ?buf k s = Inr (n, s')" "port_inv T A s'" "n \<noteq> 0"
    "kcalls (io s') = kcalls (io s) @ (if n > 0 then [Sent a (take (nat n) ?buf)] else [])" "n \<le> int (length ?buf)"
    using tx_completion_port_sendout_spec [where k = k and U = UNIV, OF i a b] sendout_le [where k = k, OF _ b(2)] by blast
  have "tx_outcb_write a buf k s = Inr (n, s')"
    using s'(1) by (simp add: tx_outcb_write_def port_with_ops [OF i a(1)] port_fns_def)
  moreover have "take (nat n) ?buf = take (nat n) buf" using s'(5) by (simp split: if_splits)
  moreover have "n \<le> int (min 8192 (length buf))" using s'(5) by (simp split: if_splits)
  ultimately show ?thesis using s' good_ids [OF g s'(2) sendout_ids [OF s'(1)]] by auto
qed

lemma good_cancel:
  assumes g: "port_good p T (A, s)" and a: "a \<in> A"
  shows "\<exists>s'. tx_aincb_stop a v s = Inr s' \<and> port_good p T (A, s')"
    and "\<exists>s'. tx_outcb_cancel a v s = Inr s' \<and> port_good p T (A, s')"
proof -
  have i: "port_inv T A s" and f: "tx_fops (filp s a) = GenericFops" using g a(1) by (auto simp: port_good_def fops_ok_def)
  have W: "waiters T A (clear_in a s)" "waiters T A (clear_out a s)"
    using port.ok_waiters [OF i] by (auto simp: waiters_def filp_upds)
  have c: "port_good p T (A, clear_in a s)" "port_good p T (A, clear_out a s)"
    using port.ok_frame [OF i same_poll_waiter(1) W(1) [unfolded clear_in_def]]
      port.ok_frame [OF i same_poll_waiter(2) W(2) [unfolded clear_out_def]] good_ids [OF g]
    by (simp_all add: clear_in_def [symmetric] clear_out_def [symmetric])
  show "\<exists>s'. tx_aincb_stop a v s = Inr s' \<and> port_good p T (A, s')"
    "\<exists>s'. tx_outcb_cancel a v s = Inr s' \<and> port_good p T (A, s')"
    using g c by (simp_all add: tx_aincb_stop_def tx_outcb_cancel_def f generic_cancel_in_def generic_cancel_out_def)
qed

lemma port_inv_flag:
  assumes inv: "port_inv T A s" and m: "m \<in> {TX_READABLE, TX_LISTEN}"
  shows "port_inv T A (set_flags a m s)" "port_inv T A (clear_flags a m s)"
proof -
  have m': "\<not> has m TX_POLLIN" "\<not> has m TX_POLLOUT" "\<not> has m TX_ATTACHED" "\<not> has m TX_DETACHED" "\<not> has m TX_WRITABLE"
    using m by (auto simp: flags)
  have r: "attached (set_flags a m s) b = attached s b" "attached (clear_flags a m s) b = attached s b"
    "has (fl (set_flags a m s) b) TX_POLLIN = has (fl s b) TX_POLLIN"
    "has (fl (clear_flags a m s) b) TX_POLLIN = has (fl s b) TX_POLLIN"
    "has (fl (set_flags a m s) b) TX_POLLOUT = has (fl s b) TX_POLLOUT"
    "has (fl (clear_flags a m s) b) TX_POLLOUT = has (fl s b) TX_POLLOUT"
    "has (fl (set_flags a m s) b) TX_WRITABLE = has (fl s b) TX_WRITABLE"
    "has (fl (clear_flags a m s) b) TX_WRITABLE = has (fl s b) TX_WRITABLE"
    "tx_privp (filp (set_flags a m s) b) = tx_privp (filp s b)" "tx_privp (filp (clear_flags a m s) b) = tx_privp (filp s b)"
    "filp_poll (filp (set_flags a m s) b) = filp_poll (filp s b)" "filp_poll (filp (clear_flags a m s) b) = filp_poll (filp s b)"
    for b using m' by (simp_all add: attached_def filp_upds flags)
  have io: "overlappeds (io (set_flags a m s)) = overlappeds (io s)" "overlappeds (io (clear_flags a m s)) = overlappeds (io s)"
    "ovl_live (io (set_flags a m s)) = ovl_live (io s)" "ovl_live (io (clear_flags a m s)) = ovl_live (io s)"
    "pq (io (set_flags a m s)) = pq (io s)" "pq (io (clear_flags a m s)) = pq (io s)"
    "in_flight (io (set_flags a m s)) = in_flight (io s)" "in_flight (io (clear_flags a m s)) = in_flight (io s)"
    by (simp_all add: filp_upds)
  show "port_inv T A (set_flags a m s)" "port_inv T A (clear_flags a m s)"
    using inv unfolding port_inv_def port_core_def ovl_ok_def filp_ok_def waiters_def r io flags_io_reads
    by (simp_all add: filp_upds fun_upd_apply cong: conj_cong) 
qed

lemma good_read:
  assumes g: "port_good p T (A, s)"
  shows "port_good p T (A, tx_aincb_update a r s)"
  using g port_inv_flag(2) [of T A s TX_READABLE a] good_ids [OF g] by (auto simp: port_good_def tx_aincb_update_def)

lemma good_accept:
  assumes g: "port_good p T (A, s)" and a: "a \<in> A" "attached s a"
  shows "\<exists>n s'. tx_listen_accept_win a s = Inr (n, s') \<and> port_good p T (A, s')"
proof -
  have i: "port_inv T A s" using g by (simp add: port_good_def)
  obtain n s' where s': "tx_completion_port_accept a s = Inr (n, s')" "port_inv T A s'"
    using tx_completion_port_accept_spec [where U = UNIV, OF i a] by blast
  then show ?thesis using good_ids [OF g s'(2) accept_ids [OF s'(1)]]
    by (simp add: tx_listen_accept_win_def port_with_ops [OF i a(1)] port_fns_def)
qed

lemma good_connect:
  assumes g: "port_good p T (A, s)" and a: "a \<in> A" "attached s a" and t: "t \<in> T" and k: "fst (k 0) \<noteq> -1"
  shows "\<exists>n s'. tx_aiocb_connect_win a t k s = Inr (n, s') \<and> port_good p T (A, s') \<and>
    (busy s' t \<or> stopped s' (loop_of s' t) \<or> tx_filterout (filp s' a) = Some t \<and> has (fl s' a) TX_POLLOUT)"
proof -
  have i: "port_inv T A s" using g by (simp add: port_good_def)
  obtain n s1 where s1: "tx_completion_port_connect a k s = Inr (n, s1)" "port_inv T A s1"
    using tx_completion_port_connect_spec [where k = k and U = UNIV, OF i a k] by blast
  have at: "attached s1 a" using connect_attached [OF s1(1)] a(2) by simp
  obtain s2 where s2: "generic_active_out poll_table a t (\<lambda>i. k (2 + i)) s1 = Inr s2" "port_inv T A s2" "same_ids s1 s2"
    "busy s2 t \<or> stopped s2 (loop_of s2 t) \<or> tx_filterout (filp s2 a) = Some t \<and> has (fl s2 a) TX_POLLOUT"
    using port_out [OF s1(2) a(1) at t] by blast
  have "tx_aiocb_connect_win a t k s = Inr (n, s2)"
    using s1(1) s2(1) by (simp add: tx_aiocb_connect_win_def port_with_ops [OF i a(1)] port_fns_def)
  then show ?thesis using s2(4) good_ids [OF g s2(2) same_ids_trans [OF connect_ids [OF s1(1)] s2(3)]] by blast
qed

lemma port_attach_keeps:
  assumes "tx_completion_port_attach a k s = Inr s'"
  shows "tx_fops (filp s' b) = tx_fops (filp s b)" "tx_fd (filp s' b) = tx_fd (filp s b)"
    "poll_ops (io s') = poll_ops (io s)" "tx_readable s' b = tx_readable s b"
    "has (fl s' b) TX_POLLIN = has (fl s b) TX_POLLIN"
  using assms by (auto simp: tx_completion_port_attach_def Let_def ovl_upds tx_readable_def flags split: poll_p.splits if_splits)

lemma good_init:
  assumes g: "port_good p T (A, s)" and a: "a \<notin> A" and poll: "tx_poll_get loop s = Some (PortPoll p)"
    and k: "fst (k 0) \<noteq> 0" and new: "\<not> live s (Ovl (nat (fst (k 1))))"
  shows "\<exists>s'. tx_aiocb_init a loop fd k s = Inr s' \<and> port_good p T (insert a A, s') \<and> (attached s' a \<longleftrightarrow> fd \<noteq> -1) \<and>
    \<not> tx_readable s' a \<and> \<not> has (fl s' a) TX_POLLIN"
proof -
  have i: "port_inv T A s" and f: "fops_ok A s" and p: "poll_ops (io s) (PortPoll p) = PortOps"
    using g by (simp_all add: port_good_def)
  define s1 where "s1 = upd_filp a (fresh_filp (PortPoll p) fd) s"
  have init: "tx_aiocb_init a loop fd k s =
      (if fd = -1 then Inr s1 else with_ops a s1 (\<lambda>ops. tx_attach ops a k s1))"
    by (simp add: tx_aiocb_init_def tx_aiocb_init_poll_def poll s1_def Let_def)
  have r: "filp s1 b = (if b = a then fresh_filp (PortPoll p) fd (filp s a) else filp s b)" for b
    by (simp add: s1_def upd_filp_def)
  have io: "ovl_live (io s1) = ovl_live (io s)" "poll_ops (io s1) = poll_ops (io s)" by (simp_all add: s1_def upd_filp_def)
  have i1: "port_inv T (insert a A) s1" unfolding s1_def by (rule port_inv_insert [OF i a p])
  have at: "\<not> attached s1 a" "b \<noteq> a \<Longrightarrow> attached s1 b = attached s b" for b
    by (simp_all add: attached_def r fresh_flags)
  have rd: "\<not> tx_readable s1 a" "\<not> has (fl s1 a) TX_POLLIN" by (simp_all add: tx_readable_def r flags)
  have f1: "fops_ok (insert a A) s1" using f a at by (auto simp: fops_ok_def r)
  show ?thesis
  proof (cases "fd = -1")
    case True
    then show ?thesis using init i1 f1 at p rd by (auto simp: port_good_def io)
  next
    case False
    have "has TX_WRITABLE TX_WRITABLE" by (simp add: flags)
    then obtain s' where s': "tx_completion_port_attach a k s1 = Inr s'" "port_inv T (insert a A) s'" "attached s' a"
      "\<forall>b. b \<noteq> a \<longrightarrow> filp s' b = filp s1 b"
      using tx_completion_port_attach_spec [where k = k and U = UNIV, OF i1, of a] k new
      by (auto simp: r fresh_flags io tx_writable_def)
    note K = port_attach_keeps [OF s'(1)]
    have "attached s' b = attached s1 b" if "b \<noteq> a" for b using s'(4) that by (simp add: attached_def)
    then have "fops_ok (insert a A) s'" using f1 False by (auto simp: fops_ok_def K r)
    moreover have "tx_aiocb_init a loop fd k s = Inr s'"
      unfolding init using False s'(1) by (simp add: port_with_ops [OF i1, of a] port_fns_def)
    ultimately show ?thesis using s' False p rd by (auto simp: port_good_def K io)
  qed
qed

lemma good_listen:
  assumes "port_good p T (A, s)" and "a \<notin> A" and poll: "tx_poll_get loop s = Some (PortPoll p)"
    and "fst (k 0) \<noteq> 0" and "\<not> live s (Ovl (nat (fst (k 1))))"
  shows "\<exists>s'. tx_listen_init a loop fd k s = Inr s' \<and> port_good p T (insert a A, s') \<and> (attached s' a \<longleftrightarrow> fd \<noteq> -1)"
proof -
  obtain s1 where s1: "tx_aiocb_init a loop fd k s = Inr s1" "port_good p T (insert a A, s1)" "attached s1 a \<longleftrightarrow> fd \<noteq> -1"
    using good_init [OF assms] by blast
  have "tx_listen_init a loop fd k s = Inr (set_flags a TX_LISTEN s1)"
    using s1(1) by (simp add: tx_listen_init_def tx_aiocb_init_def poll)
  moreover have "port_good p T (insert a A, set_flags a TX_LISTEN s1)"
    using s1(2) port_inv_flag(1) [of T "insert a A" s1 TX_LISTEN a] good_ids [OF s1(2)] by (auto simp: port_good_def)
  moreover have "attached (set_flags a TX_LISTEN s1) a = attached s1 a" by (simp add: attached_def filp_upds flags)
  ultimately show ?thesis using s1(3) by auto
qed

lemma good_fini:
  assumes g: "port_good p T (A, s)" and a: "a \<in> A"
  shows "\<exists>s'. tx_aiocb_fini a k s = Inr s' \<and> port_good p T (A - {a}, s') \<and> \<not> attached s' a"
proof -
  have i: "port_inv T A s" and f: "fops_ok A s" using g by (simp_all add: port_good_def)
  have sub: "fops_ok (A - {a}) s'" if "fops_ok A s'" for s' using that by (auto simp: fops_ok_def)
  show ?thesis
  proof (cases "attached s a")
    case True
    then have fd: "tx_fd (filp s a) \<noteq> -1" using f a by (simp add: fops_ok_def)
    obtain s' where s': "tx_completion_port_detach a k s = Inr s'" "port_inv T A s'" "\<not> attached s' a"
      using tx_completion_port_detach_spec [where k = k and U = UNIV, OF i a True] by blast
    have "port_good p T (A, s')" by (rule good_ids [OF g s'(2) detach_ids [OF s'(1)]])
    then show ?thesis using fd s' port_inv_delete [OF s'(2,3)] sub
      by (auto simp: tx_aiocb_fini_def port_with_ops [OF i a] port_fns_def port_good_def)
  next
    case False
    then have "tx_completion_port_detach a k s = Inr s"
      using port.ok_ops [OF i a] by (auto simp: tx_completion_port_detach_def attached_mask attached_def)
    then show ?thesis using False g port_inv_delete [OF i False] sub
      by (auto simp: tx_aiocb_fini_def port_with_ops [OF i a] port_fns_def port_good_def)
  qed
qed

lemma good_polling:
  assumes g: "port_good p T (A, s)" and krn: "port_answers krn" and t: "PollTask (PortPoll p) \<in> T"
  shows "\<exists>s1. tx_completion_port_polling p krn s = Some (Inr (tx_poll_active (PortPoll p) s1)) \<and>
    port_good p T (A, tx_poll_active (PortPoll p) s1) \<and> port_delivered s s1"
proof -
  obtain s1 where s1: "tx_completion_port_polling p krn s = Some (Inr (tx_poll_active (PortPoll p) s1))"
    "port_inv T A (tx_poll_active (PortPoll p) s1)" "port_delivered s s1"
    using tx_completion_port_polling_spec [where U = UNIV, OF _ krn t] g by (auto simp: port_good_def)
  then show ?thesis using good_ids [OF g s1(2) polling_ids [OF s1(1)]] by blast
qed

lemma port_step_good:
  assumes "port_step p T x y" and "port_good p T x" and t: "PollTask (PortPoll p) \<in> T"
  shows "port_good p T y"
  using assms(1)
proof cases
  case (ps_active a A s t k s')
  then show ?thesis using good_active [of p T A s a t k] assms(2) by auto
next
  case (ps_prepare a A s t k s')
  then show ?thesis using good_prepare [of p T A s a t k] assms(2) by auto
next
  case (ps_stop a A v s s')
  then show ?thesis using good_cancel(1) [of p T A s a v] assms(2) by auto
next
  case (ps_cancel a A v s s')
  then show ?thesis using good_cancel(2) [of p T A s a v] assms(2) by auto
next
  case (ps_read a A s r)
  then show ?thesis using good_read [of p T A s a r] assms(2) by auto
next
  case (ps_write a A s buf k n s')
  then show ?thesis using good_write [of p T A s a buf k] assms(2) by auto
next
  case (ps_accept a A s n s')
  then show ?thesis using good_accept [of p T A s a] assms(2) by auto
next
  case (ps_connect a A s t k n s')
  then show ?thesis using good_connect [of p T A s a t k] assms(2) by auto
next
  case (ps_init a A loop s k fd s')
  then show ?thesis using good_init [of p T A s a loop k fd] good_listen [of p T A s a loop k fd] assms(2) by auto
next
  case (ps_fini a A k s s')
  then show ?thesis using good_fini [of p T A s a k] assms(2) by auto
next
  case (ps_poll krn s s' A)
  then show ?thesis using good_polling [of p T A s krn] assms(2) t by auto
next
  case (ps_rest s s' A)
  then have "waiters T A s'" using assms(2) port.ok_waiters [of T A s] by (auto simp: port_good_def waiters_def rest_step_def)
  then have "port_inv T A s'"
    using port_inv_same_poll [OF _ rest_same_poll [OF ps_rest(3)]] assms(2) ps_rest by (auto simp: port_good_def)
  then show ?thesis using ps_rest assms(2) by (auto simp: port_good_def fops_ok_def rest_step_def attached_def)
qed

lemma port_reach_good:
  assumes "(port_step p T)\<^sup>*\<^sup>* x y" and "port_good p T x" and "PollTask (PortPoll p) \<in> T"
  shows "port_good p T y"
  using assms(1,2) by (induction rule: rtranclp_induct) (auto intro: port_step_good assms(3))

text \<open>The first port of a program that has no block yet.\<close>

lemma tx_completion_port_new_good:
  assumes new: "tx_completion_port_new (Some p) h loop zs = (q, s)" and h: "h \<noteq> 0"
    and z: "\<And>r. poll_ops (io zs) (PortPoll r) \<noteq> PortOps" "\<And>v. \<not> live zs v" "\<And>v b. \<not> flight zs v b"
      "list_rep (pq (io zs)) (\<lambda>_. None)"
  shows "q = Some (PortPoll p) \<and> tx_poll_get loop s = Some (PortPoll p) \<and> port_good p T ({}, s) \<and> (\<forall>v. \<not> live s v)"
proof -
  define s3 where "s3 = upd_io (\<lambda>i. i\<lparr>poll_ops := (poll_ops i)(PortPoll p := PortOps)\<rparr>)
    (tx_poll_active (PortPoll p) (tx_poll_init (PortPoll p) loop PortPolling (VPort p) zs))"
  have s: "q = Some (PortPoll p)" "s = on_pq (LIST_INIT p) (upd_loop loop (\<lambda>l. l\<lparr>tx_poller := Some (PortPoll p)\<rparr>) s3)"
    using new h by (auto simp: tx_completion_port_new_def s3_def Let_def)
  have i0: "io (tx_poll_init (PortPoll p) loop PortPolling (VPort p) zs) = io zs"
    by (simp add: tx_poll_init_def tx_task_init_def upd_task_def)
  have io: "pq (io s) = LIST_INIT p (pq (io zs))" "ovl_live (io s) = ovl_live (io zs)" "in_flight (io s) = in_flight (io zs)"
    "poll_ops (io s) = (poll_ops (io zs))(PortPoll p := PortOps)" "tx_poll_get loop s = Some (PortPoll p)"
    by (simp_all add: s s3_def i0 on_pq_def upd_loop_def tx_poll_get_def)
  have "list_rep (pq (io s)) ((\<lambda>_. None)(p \<mapsto> []))" unfolding io by (rule tq.init [OF z(4)])
  then have "port_core {} ((\<lambda>_. None)(p \<mapsto> [])) s"
    using z(1-3) by (auto simp: port_core_def io linked_iff split: if_split_asm)
  then show ?thesis using s(1) io z(2) by (auto simp: port_good_def port_inv_def fops_ok_def waiters_def)
qed

text \<open>A run: a loop with a port, a block on descriptor 5, and a task that waits to read.\<close>

definition port_demo0 :: tx_mem where
  "port_demo0 = snd (tx_completion_port_new (Some (Port 0)) 3 (NewLoop 0) epoll_demo_loop)"

abbreviation port_demo_tasks :: "task_p set" where
  "port_demo_tasks \<equiv> {Task 0, PollTask (PortPoll (Port 0))}"

lemma port_demo_new:
  "tx_completion_port_new (Some (Port 0)) 3 (NewLoop 0) epoll_demo_loop = (Some (PortPoll (Port 0)), port_demo0)"
  "poll_ops (io epoll_demo_loop) (PortPoll r) \<noteq> PortOps" "\<not> live epoll_demo_loop v" "\<not> flight epoll_demo_loop v b"
  "list_rep (pq (io epoll_demo_loop)) (\<lambda>_. None)"
proof -
  have io: "io epoll_demo_loop = zero_io"
    by (simp add: epoll_demo_loop_def tx_loop_new_def upd_loop_def upd_task_def on_tq_def zero_mem_def Let_def)
  show "poll_ops (io epoll_demo_loop) (PortPoll r) \<noteq> PortOps" "\<not> live epoll_demo_loop v" "\<not> flight epoll_demo_loop v b"
    "list_rep (pq (io epoll_demo_loop)) (\<lambda>_. None)"
    by (simp_all add: io zero_io_def list_rep_def disjoint_lists_def)
qed (simp add: port_demo0_def tx_completion_port_new_def Let_def)

lemma port_demo_good: "tx_poll_get (NewLoop 0) port_demo0 = Some (PortPoll (Port 0))"
    "port_good (Port 0) port_demo_tasks ({}, port_demo0)" "\<not> live port_demo0 v"
  using tx_completion_port_new_good [OF port_demo_new(1) _ port_demo_new(2-5)] by simp_all

lemma port_demo_run:
  "\<exists>s v. (port_step (Port 0) port_demo_tasks)\<^sup>*\<^sup>* ({}, port_demo0) ({Aiocb 0}, s) \<and> attached s (Aiocb 0) \<and>
     flight s v False \<and> port_waiter s v False = {Task 0}"
proof -
  let ?a = "Aiocb 0" and ?k = "\<lambda>_. (1, 0) :: kres" and ?T = port_demo_tasks
  have new: "\<not> live port_demo0 (Ovl (nat (fst (1 :: int, 0 :: int))))"
    by (rule port_demo_good(3))
  obtain s where s: "tx_aiocb_init ?a (NewLoop 0) 5 ?k port_demo0 = Inr s" "attached s ?a" "\<not> tx_readable s ?a"
    "port_good (Port 0) ?T ({?a}, s)"
    using good_init [where k = ?k and fd = 5, OF port_demo_good(2) _ port_demo_good(1) _ new, of ?a] by auto
  have 1: "port_step (Port 0) ?T ({}, port_demo0) ({?a}, s)"
    by (rule ps_init [where loop = "NewLoop 0" and fd = 5 and k = ?k]) (use s new port_demo_good(1) in simp_all)
  have "port_granted ?k" by (simp add: port_granted_def ex_started_def wsa_started_def SOCKET_ERROR_def)
  then obtain s' where s': "tx_aincb_active ?a (Task 0) ?k s = Inr s'" "port_good (Port 0) ?T ({?a}, s')"
    "tx_filterin (filp s' ?a) = Some (Task 0)" "has (fl s' ?a) TX_POLLIN" "attached s' ?a"
    using good_active [where k = ?k, OF s(4), of ?a "Task 0"] s(2,3) by auto
  have 2: "port_step (Port 0) ?T ({?a}, s) ({?a}, s')"
    by (rule ps_active [where a = ?a and t = "Task 0" and k = ?k]) (use s s'(1) in simp_all)
  obtain Q where "port_core {?a} Q s'" using s'(2) by (auto simp: port_good_def port_inv_def)
  then obtain v where "flight s' v False" "ov_filp (ovl s' v) = Some ?a"
    using port_attached [of "{?a}" Q s' ?a] s'(4,5) by auto
  moreover from this have "port_waiter s' v False = {Task 0}" using s'(3) by (simp add: port_waiter_def)
  ultimately show ?thesis using 1 2 s'(5) by (meson converse_rtranclp_into_rtranclp rtranclp.rtrancl_refl)
qed

text \<open>C12. No memory of a completion port is used after it was deleted, and none is leaked: in every reachable
  state an operation the kernel still has uses a \<open>tx_overlapped_t\<close> that is allocated, and an allocated one
  belongs to an attached block or to such an operation, with the reference count being their number. So
  the operations on an attached block return without a failed assertion or a dangling pointer, also when
  completions of blocks that were taken down are still to come.\<close>
theorem completion_port_memory_safe:
  assumes "tx_completion_port_new (Some p) h loop zs = (q, s0)" and "h \<noteq> 0"
    and "\<And>r. poll_ops (io zs) (PortPoll r) \<noteq> PortOps" "\<And>v. \<not> live zs v" "\<And>v b. \<not> flight zs v b"
      "list_rep (pq (io zs)) (\<lambda>_. None)"
    and "PollTask (PortPoll p) \<in> T" and "(port_step p T)\<^sup>*\<^sup>* ({}, s0) (A, s)"
    and "a \<in> A" and "attached s a" and "t \<in> T" and "fst (k 0) \<noteq> -1" and "send_honest buf k'"
  shows "(\<forall>v b. flight s v b \<longrightarrow> live s v) \<and>
    (\<forall>v. live s v \<longrightarrow> ov_refcnt (ovl s v) = of_bool (ov_filp (ovl s v) \<noteq> None) + of_bool (flight s v True) + of_bool (flight s v False) \<and>
       ov_refcnt (ovl s v) > 0) \<and>
    (\<exists>s'. tx_aincb_active a t k s = Inr s') \<and> (\<exists>s'. tx_outcb_prepare a t k s = Inr s') \<and>
    (\<exists>n s'. tx_outcb_write a buf k' s = Inr (n, s')) \<and> (\<exists>n s'. tx_listen_accept_win a s = Inr (n, s')) \<and>
    (\<exists>n s'. tx_aiocb_connect_win a t k s = Inr (n, s')) \<and> (\<exists>s'. tx_aiocb_fini a k s = Inr s')"
proof -
  have g: "port_good p T (A, s)"
    using port_reach_good [OF assms(8) _ assms(7)] tx_completion_port_new_good [OF assms(1-6)] by simp
  then obtain Q where "port_core A Q s" by (auto simp: port_good_def port_inv_def)
  note D = port_coreD [OF this]
  have "\<forall>v b. flight s v b \<longrightarrow> live s v" using D(5) by blast
  moreover have "\<forall>v. live s v \<longrightarrow> ov_refcnt (ovl s v) = of_bool (ov_filp (ovl s v) \<noteq> None) + of_bool (flight s v True) +
      of_bool (flight s v False) \<and> ov_refcnt (ovl s v) > 0"
    using D(4) by (auto simp: ovl_ok_def)
  ultimately show ?thesis
    using good_active [where k = k, OF g assms(9) disjI2 [OF assms(10)] assms(11,12)]
      good_prepare [where k = k, OF g assms(9,10,11)] good_write [OF g assms(9,10,13)] good_accept [OF g assms(9,10)]
      good_connect [where k = k, OF g assms(9-12)] good_fini [where k = k, OF g assms(9)] by blast
qed

theorem completion_port_memory_safe_witness:
  "\<exists>s. attached s (Aiocb 0) \<and> (\<exists>n s'. tx_outcb_write (Aiocb 0) [1] (\<lambda>_. (0, 0)) s = Inr (n, s')) \<and>
     (\<exists>s'. tx_aiocb_fini (Aiocb 0) (\<lambda>_. (0, 0)) s = Inr s')"
proof -
  obtain s where s: "(port_step (Port 0) port_demo_tasks)\<^sup>*\<^sup>* ({}, port_demo0) ({Aiocb 0}, s)" "attached s (Aiocb 0)"
    using port_demo_run by blast
  have "send_honest [1] (\<lambda>_. (0, 0))" by (simp add: send_honest_def)
  then show ?thesis
    using completion_port_memory_safe [OF port_demo_new(1) _ port_demo_new(2-5) _ s(1) _ s(2), of "Task 0" "\<lambda>_. (0, 0)"] s(2)
    by (intro exI [of _ s]) simp
qed

text \<open>C13. The completion port's polling loop ends: as the kernel completes only operations in flight, each
  turn takes one away, and when it stops the waiter of every operation it delivered is activated, unless
  its loop was stopped, and no operation was started.\<close>
theorem completion_port_polling_ends:
  assumes "tx_completion_port_new (Some p) h loop zs = (q, s0)" and "h \<noteq> 0"
    and "\<And>r. poll_ops (io zs) (PortPoll r) \<noteq> PortOps" "\<And>v. \<not> live zs v" "\<And>v b. \<not> flight zs v b"
      "list_rep (pq (io zs)) (\<lambda>_. None)"
    and "PollTask (PortPoll p) \<in> T" and "(port_step p T)\<^sup>*\<^sup>* ({}, s0) (A, s)" and "port_answers krn"
  shows "\<exists>s1. tx_completion_port_polling p krn s = Some (Inr (tx_poll_active (PortPoll p) s1)) \<and>
    (\<forall>v b. flight s1 v b \<longrightarrow> flight s v b) \<and>
    (\<forall>v b t. flight s v b \<longrightarrow> \<not> flight s1 v b \<longrightarrow> t \<in> port_waiter s v b \<longrightarrow> stopped s (loop_of s t) \<or> busy s1 t)"
proof -
  have g: "port_good p T (A, s)"
    using port_reach_good [OF assms(8) _ assms(7)] tx_completion_port_new_good [OF assms(1-6)] by simp
  obtain s1 where s1: "tx_completion_port_polling p krn s = Some (Inr (tx_poll_active (PortPoll p) s1))" "port_delivered s s1"
    using good_polling [OF g assms(9,7)] by blast
  have "stopped s (loop_of s t) \<or> busy s1 t" if "flight s v b" "\<not> flight s1 v b" "t \<in> port_waiter s v b" for v b t
  proof -
    have "if flight s1 v b then port_waiter s1 v b = port_waiter s v b else wakes (port_waiter s v b) s s1"
      using s1(2) that(1) unfolding port_delivered_def by blast
    then show ?thesis using that by (simp add: wakes_def)
  qed
  moreover have "flight s v b" if "flight s1 v b" for v b using s1(2) that unfolding port_delivered_def by blast
  ultimately show ?thesis using s1(1) by blast
qed

theorem completion_port_polling_ends_witness:
  "\<exists>s v s1. flight s v False \<and>
     tx_completion_port_polling (Port 0) (\<lambda>n _ F. if F v False then PortDone v False else PortTimeout) s =
       Some (Inr (tx_poll_active (PortPoll (Port 0)) s1))"
proof -
  obtain s v where s: "(port_step (Port 0) port_demo_tasks)\<^sup>*\<^sup>* ({}, port_demo0) ({Aiocb 0}, s)" "flight s v False"
    using port_demo_run by blast
  have k: "port_answers (\<lambda>n _ F. if F v False then PortDone v False else PortTimeout)" by (simp add: port_answers_def)
  obtain s1 where "tx_completion_port_polling (Port 0) (\<lambda>n _ F. if F v False then PortDone v False else PortTimeout) s =
       Some (Inr (tx_poll_active (PortPoll (Port 0)) s1))"
    using completion_port_polling_ends [OF port_demo_new(1) _ port_demo_new(2-5) _ s(1) k] by auto
  with s(2) show ?thesis by (intro exI conjI)
qed



text \<open>C19. A failing \<open>AcceptEx\<close> strands the task that waits to accept: \<open>TX_PANIC(1, ...)\<close> does not end the process,
  so \<open>tx_aincb_active\<close> returns as if all were well, with the task waiting on the block and no operation in
  flight whose completion could activate it.\<close>
theorem accept_failure_strands_waiter:
  assumes "tx_completion_port_new (Some p) h loop zs = (q, s0)" and "h \<noteq> 0"
    and "\<And>r. poll_ops (io zs) (PortPoll r) \<noteq> PortOps" "\<And>v. \<not> live zs v" "\<And>v b. \<not> flight zs v b"
      "list_rep (pq (io zs)) (\<lambda>_. None)"
    and "PollTask (PortPoll p) \<in> T" and "(port_step p T)\<^sup>*\<^sup>* ({}, s0) (A, s)"
    and "a \<in> A" and "attached s a" and "t \<in> T" and "has (fl s a) TX_LISTEN" and "\<not> has (fl s a) TX_POLLIN"
    and "\<not> tx_readable s a" and "fst (k 0) \<noteq> -1" and "\<not> ex_started (k 2)"
  shows "\<exists>s' v. tx_aincb_active a t k s = Inr s' \<and> tx_filterin (filp s' a) = Some t \<and>
    tx_privp (filp s' a) = Some v \<and> \<not> flight s' v False"
proof -
  have g: "port_good p T (A, s)"
    using port_reach_good [OF assms(8) _ assms(7)] tx_completion_port_new_good [OF assms(1-6)] by simp
  then obtain Q where c: "port_core A Q s" and f: "tx_fops (filp s a) = GenericFops"
    using assms(9) by (auto simp: port_good_def port_inv_def fops_ok_def)
  obtain v where v: "tx_privp (filp s a) = Some v" "live s v" "flight s v False = has (fl s a) TX_POLLIN"
    "ov_refcnt (ovl s v) = 1 + of_bool (has (fl s a) TX_POLLOUT) + of_bool (has (fl s a) TX_POLLIN)" "ops_of s a = PortOps"
    by (rule port_attached [OF c assms(9,10)])
  define s1 where "s1 = (if tx_filterin (filp s a) \<noteq> Some t then upd_filp a (\<lambda>f. f\<lparr>tx_filterin := Some t\<rparr>) s else s)"
  have r: "filp s1 a = (filp s a)\<lparr>tx_filterin := Some t\<rparr>" "poll_ops (io s1) = poll_ops (io s)"
    "ovl_live (io s1) = ovl_live (io s)" "overlappeds (io s1) = overlappeds (io s)" "in_flight (io s1) = in_flight (io s)"
    by (simp_all add: s1_def upd_filp_def)
  define s' where "s' = log_kcall (CloseFd (fst (k 1))) (upd_io (\<lambda>i. i\<lparr>lp_accept := True\<rparr>) s1)"
  have r': "filp s' = filp s1" "in_flight (io s') = in_flight (io s)" by (simp_all add: s'_def log_kcall_def r)
  have "refcnt_small v s'" using v(4) assms(13) by (simp add: refcnt_small_def s'_def log_kcall_def r)
  then have "port_pollin_listen a k s1 = Inr s'"
    using assms(10,12,13,15,16) v(1,2) unfolding s'_def
    by (simp add: port_pollin_listen_def with_ovl_live r attached_def attached_mask Let_def)
  then have "tx_completion_port_pollin a k s1 = Inr s'"
    using v(5) assms(12) by (simp add: tx_completion_port_pollin_def r)
  then have "tx_aincb_active a t k s = Inr s'"
    using assms(13,14) v(5) f by (simp add: tx_aincb_active_def generic_active_in_def s1_def [symmetric] r port_fns_def)
  then show ?thesis using v(1,3) assms(13) r' by (auto simp: r)
qed

lemma port_demo_listen:
  "\<exists>s. (port_step (Port 0) port_demo_tasks)\<^sup>*\<^sup>* ({}, port_demo0) ({Aiocb 0}, s) \<and> attached s (Aiocb 0) \<and>
     has (fl s (Aiocb 0)) TX_LISTEN \<and> \<not> has (fl s (Aiocb 0)) TX_POLLIN \<and> \<not> tx_readable s (Aiocb 0)"
proof -
  let ?a = "Aiocb 0" and ?k = "\<lambda>_. (1, 0) :: kres" and ?T = port_demo_tasks
  have new: "\<not> live port_demo0 (Ovl (nat (fst (1 :: int, 0 :: int))))"
    by (rule port_demo_good(3))
  obtain s where s: "tx_aiocb_init ?a (NewLoop 0) 5 ?k port_demo0 = Inr s" "attached s ?a" "\<not> tx_readable s ?a"
    "\<not> has (fl s ?a) TX_POLLIN"
    using good_init [where k = ?k and fd = 5, OF port_demo_good(2) _ port_demo_good(1) _ new, of ?a] by auto
  have l: "tx_listen_init ?a (NewLoop 0) 5 ?k port_demo0 = Inr (set_flags ?a TX_LISTEN s)"
    using s(1) by (simp add: tx_listen_init_def tx_aiocb_init_def port_demo_good(1))
  have "port_step (Port 0) ?T ({}, port_demo0) ({?a}, set_flags ?a TX_LISTEN s)"
    by (rule ps_init [where loop = "NewLoop 0" and fd = 5 and k = ?k]) (use l new port_demo_good(1) in simp_all)
  then show ?thesis using s(2-4) by (intro exI [of _ "set_flags ?a TX_LISTEN s"])
    (auto simp: attached_def tx_readable_def filp_upds flags)
qed

theorem accept_failure_strands_waiter_witness:
  "\<exists>s s' v. tx_aincb_active (Aiocb 0) (Task 0) (\<lambda>_. (0, 0)) s = Inr s' \<and>
     tx_filterin (filp s' (Aiocb 0)) = Some (Task 0) \<and> tx_privp (filp s' (Aiocb 0)) = Some v \<and> \<not> flight s' v False"
proof -
  obtain s where s: "(port_step (Port 0) port_demo_tasks)\<^sup>*\<^sup>* ({}, port_demo0) ({Aiocb 0}, s)" "attached s (Aiocb 0)"
    "has (fl s (Aiocb 0)) TX_LISTEN" "\<not> has (fl s (Aiocb 0)) TX_POLLIN" "\<not> tx_readable s (Aiocb 0)"
    using port_demo_listen by blast
  have "\<not> ex_started (0, 0)" by (simp add: ex_started_def WSA_IO_PENDING_def)
  then show ?thesis
    using accept_failure_strands_waiter [OF port_demo_new(1) _ port_demo_new(2-5) _ s(1) _ s(2) _ s(3-5),
        of "Task 0" "\<lambda>_. (0, 0)"] by - (rule exI [of _ s], simp)
qed

end
