(* ===== verification/TxCallbacks.thy ===== *)
theory TxCallbacks
  imports TxMachine
begin

text \<open>
  \<open>tx_loop_main\<close> run with callbacks. The interface is the locale \<open>loop_callbacks\<close>: what calling a
  task of the loop may do to the memory. Under it the function \<open>tx_loop_main\<close> is a run of the state
  machine of \<open>TxMachine\<close>, it never dereferences null itself, and it returns once its loop was stopped
  or broken.
\<close>

section \<open>What the clients leave alone\<close>

text \<open>Nothing but \<open>tx_loop_main\<close> resets \<open>tx_stop\<close> or \<open>tx_break\<close> of a loop that exists.\<close>

definition told :: "loop_p \<Rightarrow> tx_mem \<Rightarrow> bool" where
  "told up s \<longleftrightarrow> tx_stop (loops s up) \<noteq> 0 \<or> tx_break (loops s up) \<noteq> 0"

lemma told_upd: "told up s \<Longrightarrow> told up (upd_task t f s)" "told up s \<Longrightarrow> told up (on_tq g s)"
  by (simp_all add: told_def mem_defs)

lemma told_active: "told up s \<Longrightarrow> told up (tx_task_active t r s)"
  by (simp add: told_def)

lemma told_drop: "told up s \<Longrightarrow> told up (tx_task_drop t s)"
  by (simp add: told_def)

lemma told_wakeup: "tx_task_wakeup q r s = Some s' \<Longrightarrow> told up s \<Longrightarrow> told up s'"
  unfolding tx_task_wakeup_def
  by (auto simp: wakeup_one_def intro!: told_upd(2) told_active told_upd(1)
      dest!: list_foreach_safe_keeps [where P = "told up"])

lemma told_api: "api_step T U s s' \<Longrightarrow> told up s \<Longrightarrow> told up s'"
proof -
  assume st: "api_step T U s s'" and b: "told up s"
  from st show ?thesis
  proof cases
    case (api_init t l call data)
    then show ?thesis using b by (simp add: tx_task_init_def told_upd)
  next
    case (api_record t n)
    then show ?thesis using b by (simp add: tx_task_record_def Let_def told_upd told_drop)
  next
    case (api_wakeup n r)
    then show ?thesis using b told_wakeup by blast
  next
    case api_other
    then show ?thesis using b by (simp add: task_frame_def told_def)
  next
    case api_stop
    then show ?thesis using b by (simp add: told_def tx_loop_stop_def upd_loop_def)
  next
    case api_break
    then show ?thesis using b by (simp add: told_def tx_loop_break_def upd_loop_def)
  next
    case api_poll_active
    then show ?thesis using b by (simp add: told_def)
  qed (use b in \<open>simp_all add: told_active told_drop tx_task_mark_def told_upd\<close>)
qed

lemma told_client: "client_step c c' \<Longrightarrow> LoopQ up \<in> fst (snd c) \<Longrightarrow> told up (snd (snd c)) \<Longrightarrow> told up (snd (snd c'))"
proof (induction rule: client_step.induct)
  case (client_api T U s s')
  then show ?case using told_api by auto
qed (auto simp: told_def tx_loop_new_def tx_loop_default_def tx_task_init_def mem_defs Let_def)

lemma told_client_run:
  "client_run c c' \<Longrightarrow> LoopQ up \<in> fst (snd c) \<Longrightarrow> told up (snd (snd c)) \<Longrightarrow> told up (snd (snd c'))"
proof (induction rule: rtranclp_induct)
  case (step y z)
  then show ?case using told_client [of y z up] client_run_frame [OF step(1)] by blast
qed

section \<open>Tasks that are called\<close>

text \<open>Only the task of a poller is ever queued without being marked busy.\<close>

definition marked :: "tx_mem \<Rightarrow> task_p \<Rightarrow> bool" where
  "marked s t \<longleftrightarrow> idle s t \<or> busy s t \<or> pending s t"

lemma marked_drop: "marked s t \<Longrightarrow> marked (tx_task_drop (Some u) s) t"
  by (cases "idle s u") (auto simp: marked_def tx_task_drop_idle tx_task_drop_reads)

lemma marked_active: "marked s t \<Longrightarrow> marked (tx_task_active (Some u) r s) t"
proof (cases "stopped s (loop_of s u) \<or> busy s u")
  case False
  assume "marked s t"
  then have "marked (tx_task_drop (Some u) s) t" by (rule marked_drop)
  with False show ?thesis by (auto simp: marked_def tx_task_active_reads)
qed (simp add: tx_task_active_skip)

lemma marked_api:
  assumes inv: "loop_inv T U M s Q" and st: "api_step T U s s'" and m: "marked s t" and t: "\<And>p. t \<noteq> PollTask p"
  shows "marked s' t"
  using st
proof cases
  case (api_init u up call data)
  then show ?thesis using m by (auto simp: marked_def tx_task_init_def mem_defs task_reads flags)
next
  case (api_mark u)
  then show ?thesis using m by (auto simp: marked_def tx_task_mark_def mem_defs task_reads flags)
next
  case (api_record u n)
  then show ?thesis using marked_drop [OF m, of u] by (auto simp: marked_def tx_task_record_reads)
next
  case (api_wakeup n r)
  obtain xs where xs: "Q (UserQ n) = Some xs" using api_wakeup(1) loop_invD(6) [OF inv] by blast
  have "\<not> stopped s (loop_of s u)" if "u \<in> set xs" for u
    using loop_invD(4) [OF inv, of n u] api_wakeup(2) that xs by (auto simp: on_list_def)
  from tx_task_wakeup_spec [OF inv xs this, of r] api_wakeup(3) have "woken s r xs s'" by auto
  then show ?thesis using m by (cases "t \<in> set xs") (auto simp: woken_def marked_def task_reads)
next
  case (api_poll_active p)
  then show ?thesis using m t
    by (cases "stopped s (loop_of s (PollTask p)) \<or> \<not> idle s (PollTask p)")
      (auto simp: marked_def tx_poll_active_skip tx_poll_active_reads)
next
  case api_stop
  then show ?thesis using m by (simp add: marked_def tx_loop_stop_def upd_loop_def task_reads)
next
  case api_break
  then show ?thesis using m by (simp add: marked_def tx_loop_break_def upd_loop_def task_reads)
next
  case api_other
  then show ?thesis using m by (simp add: task_frame_def marked_def task_reads)
qed (use m in \<open>simp_all add: marked_active marked_drop\<close>)

lemma marked_loop:
  assumes "loop_step U l (s, M) (s', M')" and m: "marked s t"
  shows "marked s' t"
  using assms(1)
proof cases
  case (loop_call up u)
  have "marked (on_tq (LIST_REMOVE u) s) t" using m by (simp add: marked_def task_reads on_tq_def)
  then show ?thesis using loop_call by (auto simp: marked_def loop_take_reads)
qed (use m in \<open>simp_all add: marked_def task_reads loop_round_reads on_tq_def upd_loop_def\<close>)

lemma reach_marked:
  assumes "reach c" and "t \<in> fst c" and t: "\<And>p. t \<noteq> PollTask p"
  shows "marked (snd (snd (snd c))) t"
  using assms(1,2)
proof (induction rule: reach.induct)
  case (reach_step c l c')
  obtain T U M s T' U' M' s' where c: "c = (T, U, M, s)" "c' = (T', U', M', s')" by (cases c, cases c')
  obtain Q where inv: "loop_inv T U M s Q" using reach_inv reach_step(1) c by blast
  show ?case
  proof (cases "t \<in> T")
    case True
    then have m: "marked s t" and o: "ordinary t" using reach_step.IH loop_invD(7) [OF inv True] by (simp_all add: c)
    from reach_step(2) [unfolded c] have "marked s' t"
    proof cases
      case sys_client
      then have "client_step (T, U, s) (T', U', s')" by simp
      then show ?thesis
      proof cases
        case client_api
        then show ?thesis using marked_api [OF inv _ m t] by blast
      qed (use m o in \<open>auto simp: marked_def tx_loop_new_def tx_loop_default_def tx_task_init_def mem_defs task_reads flags Let_def\<close>)
    next
      case sys_loop
      then show ?thesis using marked_loop m by blast
    qed
    then show ?thesis by (simp add: c)
  next
    case False
    from reach_step(2) [unfolded c] show ?thesis using reach_step.prems False
      by (auto simp: c marked_def tx_task_init_def mem_defs task_reads flags elim!: sys_stepE client_stepE)
  qed
qed simp

text \<open>A task that the main loop calls was queued, and busy unless it is a poller's.\<close>

lemma called_was_queued:
  assumes "reach (T, U, M, s0)" and "sys_step (Call up t) (T, U, M, s0) (T, U, M, s)" and "t \<in> T"
  shows "\<not> idle s0 t" and "(\<And>p. t \<noteq> PollTask p) \<Longrightarrow> busy s0 t" and "s = loop_take up t (on_tq (LIST_REMOVE t) s0)"
proof -
  obtain Q where inv: "loop_inv T U M s0 Q" by (rule reach_inv [OF assms(1)])
  note D = loop_invD [OF inv]
  have st: "up \<in> M" "lh_first (tq s0) (LoopQ up) = Some t" "t \<noteq> Phony up" "s = loop_take up t (on_tq (LIST_REMOVE t) s0)"
    using assms(2) by (auto elim!: sys_stepE loop_stepE)
  obtain ys where ys: "runq Q up (t # ys)" by (rule at_front [OF inv st(1,2)])
  then have on: "on_list Q (LoopQ up) t" using runq_on_list by fastforce
  then show ni: "\<not> idle s0 t" using D(8) [OF assms(3)] by (auto simp: unlinked_on_list)
  have "\<not> pending s0 t" using D(3) [OF on] D(7) [OF assms(3)] by auto
  then show "busy s0 t" if "\<And>p. t \<noteq> PollTask p"
    using reach_marked [OF assms(1), of t] assms(3) ni that by (simp add: marked_def)
  show "s = loop_take up t (on_tq (LIST_REMOVE t) s0)" by (rule st)
qed

section \<open>Calls that only append\<close>

text \<open>
  A call \<open>grows\<close> the queues if it leaves every loop's queue as it is, but for tasks put at its end. For
  activation this needs that only the tasks of pollers are queued without being busy.
\<close>

definition tidy :: "task_p set \<Rightarrow> tx_mem \<Rightarrow> bool" where
  "tidy T s \<longleftrightarrow> (\<forall>t\<in>T. (\<forall>p. t \<noteq> PollTask p) \<longrightarrow> marked s t)"

definition grows :: "task_p set \<Rightarrow> tx_mem \<Rightarrow> tx_mem \<Rightarrow> bool" where
  "grows T s s' \<longleftrightarrow> (\<forall>U M Q. loop_inv T U M s Q \<longrightarrow> tidy T s \<longrightarrow>
     (\<exists>Q'. loop_inv T U M s' Q' \<and> tidy T s' \<and> (\<forall>up xs. runq Q up xs \<longrightarrow> (\<exists>ys. runq Q' up (xs @ ys)))))"

lemma reach_tidy: "reach (T, U, M, s) \<Longrightarrow> tidy T s"
  using reach_marked [of "(T, U, M, s)"] by (simp add: tidy_def)

lemma grows_keep:
  assumes "\<And>U M Q. loop_inv T U M s Q \<Longrightarrow> loop_inv T U M s' Q" and "\<And>t. marked s t \<Longrightarrow> marked s' t"
  shows "grows T s s'"
  unfolding grows_def
proof (intro allI impI)
  fix U M Q assume "loop_inv T U M s Q" "tidy T s"
  then show "\<exists>Q'. loop_inv T U M s' Q' \<and> tidy T s' \<and> (\<forall>up xs. runq Q up xs \<longrightarrow> (\<exists>ys. runq Q' up (xs @ ys)))"
    using assms by (intro exI [of _ Q]) (auto simp: tidy_def intro: exI [of _ "[]"])
qed

lemma grows_refl [simp]: "grows T s s"
  by (rule grows_keep)

lemma grows_trans: "grows T s s1 \<Longrightarrow> grows T s1 s2 \<Longrightarrow> grows T s s2"
  unfolding grows_def by (metis append.assoc)

lemma grows_frame: "task_frame s s' \<Longrightarrow> grows T s s'"
  by (rule grows_keep) (auto simp: task_frame_def marked_def task_reads intro: loop_inv_frame)

lemma grows_stop: "grows T s (tx_loop_stop up s)"
  by (rule grows_keep) (auto simp: tx_loop_stop_def upd_loop_def marked_def task_reads
      intro: loop_inv_stop [unfolded tx_loop_stop_def upd_loop_def])

lemma grows_active:
  assumes t: "t \<in> T" "\<And>p. t \<noteq> PollTask p"
  shows "grows T s (tx_task_active (Some t) r s)"
proof (cases "stopped s (loop_of s t) \<or> busy s t")
  case False
  let ?s = "tx_task_active (Some t) r s"
  show ?thesis unfolding grows_def
  proof (intro allI impI)
    fix U M Q assume inv: "loop_inv T U M s Q" and td: "tidy T s"
    note D = loop_invD [OF inv]
    let ?Q = "q_before (Tailer (loop_of s t)) t (q_remove t Q)"
    have "marked s t" using td t by (simp add: tidy_def)
    then have "idle s t \<or> pending s t" using False by (simp add: marked_def)
    then have off: "t \<notin> set xs" if "runq Q up xs" for up xs
      using D(3) [of up t] D(8) [OF t(1)] runq_on_list [OF that, of t] D(7) [OF t(1)]
      by (auto simp: unlinked_on_list)
    have "loop_inv T U M ?s ?Q" using loop_inv_active [OF inv t(1)] False by simp
    moreover have "tidy T ?s" using td marked_active by (auto simp: tidy_def)
    moreover have "\<exists>ys. runq ?Q up (xs @ ys)" if "runq Q up xs" for up xs
      using runq_wake [OF inv t(1) that] off [OF that] by (auto simp: removeAll_id)
    ultimately show "\<exists>Q'. loop_inv T U M ?s Q' \<and> tidy T ?s \<and> (\<forall>up xs. runq Q up xs \<longrightarrow> (\<exists>ys. runq Q' up (xs @ ys)))"
      by blast
  qed
qed (simp add: tx_task_active_skip)

lemma marked_poll_active: "(\<And>q. t \<noteq> PollTask q) \<Longrightarrow> marked s t \<Longrightarrow> marked (tx_poll_active p s) t"
  by (cases "stopped s (loop_of s (PollTask p)) \<or> \<not> idle s (PollTask p)")
    (auto simp: marked_def tx_poll_active_skip tx_poll_active_reads)

lemma grows_poll_active:
  assumes t: "PollTask p \<in> T"
  shows "grows T s (tx_poll_active p s)"
proof (cases "stopped s (loop_of s (PollTask p)) \<or> \<not> idle s (PollTask p)")
  case False
  let ?s = "tx_poll_active p s"
  show ?thesis unfolding grows_def
  proof (intro allI impI)
    fix U M Q assume inv: "loop_inv T U M s Q" and td: "tidy T s"
    let ?Q = "q_before (Tailer (loop_of s (PollTask p))) (PollTask p) Q"
    have "unlinked Q (PollTask p)" using loop_invD(8) [OF inv t] False by simp
    then have q: "q_remove (PollTask p) Q = Q" and off: "PollTask p \<notin> set xs" if "runq Q up xs" for up xs
      using runq_on_list [OF that] by (auto simp: q_remove_unlinked unlinked_on_list)
    have "loop_inv T U M ?s ?Q" using loop_inv_poll_active [OF inv t] False by simp
    moreover have "tidy T ?s" using td marked_poll_active by (auto simp: tidy_def)
    moreover have "\<exists>ys. runq ?Q up (xs @ ys)" if "runq Q up xs" for up xs
      using runq_wake [OF inv t that] q [OF that] off [OF that] by (auto simp: removeAll_id)
    ultimately show "\<exists>Q'. loop_inv T U M ?s Q' \<and> tidy T ?s \<and> (\<forall>up xs. runq Q up xs \<longrightarrow> (\<exists>ys. runq Q' up (xs @ ys)))"
      by blast
  qed
qed (simp add: tx_poll_active_skip)

text \<open>The tasks ahead of the phony task, while the loop runs.\<close>

definition ahead :: "loop_p \<Rightarrow> tx_mem \<Rightarrow> task_p list \<Rightarrow> bool" where
  "ahead up s xs \<longleftrightarrow> (\<exists>zs. lseg (tq s) (First (LoopQ up)) (xs @ Phony up # zs) None)"

lemma ahead_runq:
  assumes inv: "loop_inv T U M s Q" and r: "runq Q up ys"
  shows "ahead up s xs \<longleftrightarrow> (\<exists>zs. ys = xs @ Phony up # zs)"
proof -
  have seg: "lseg (tq s) (First (LoopQ up)) (ys @ [Tailer up]) None"
    using loop_invD(1) [OF inv] r by (auto simp: list_rep_def runq_def)
  show ?thesis
  proof
    assume "ahead up s xs"
    then obtain zs where zs: "xs @ Phony up # zs = ys @ [Tailer up]" using lseg_same [OF _ seg] by (auto simp: ahead_def)
    then have "zs \<noteq> []" by (metis last_snoc task_p.distinct append_is_Nil_conv last_appendR last.simps list.distinct(1) butlast_snoc)
    then have "ys = xs @ Phony up # butlast zs" using arg_cong [OF zs, of butlast] by (simp add: butlast_append)
    then show "\<exists>zs. ys = xs @ Phony up # zs" by blast
  next
    assume "\<exists>zs. ys = xs @ Phony up # zs"
    then show "ahead up s xs" using seg by (auto simp: ahead_def)
  qed
qed

lemma ahead_grows:
  assumes "grows T s s'" and "reach (T, U, M, s)" and "ahead up s xs" and "up \<in> M"
  shows "ahead up s' xs"
proof -
  obtain Q where inv: "loop_inv T U M s Q" by (rule reach_inv [OF assms(2)])
  have "on_list Q (LoopQ up) (Phony up)" using loop_invD(5) [OF inv] assms(4) by blast
  then obtain ys where ys: "runq Q up ys" using loop_invD(2) [OF inv, of up] by (auto simp: on_list_def)
  then obtain zs where zs: "ys = xs @ Phony up # zs" using ahead_runq [OF inv] assms(3) by blast
  obtain Q' where Q': "loop_inv T U M s' Q'" "\<forall>up xs. runq Q up xs \<longrightarrow> (\<exists>ys. runq Q' up (xs @ ys))"
    using assms(1) inv reach_tidy [OF assms(2)] unfolding grows_def by blast
  then obtain ws where "runq Q' up (ys @ ws)" using ys by blast
  from ahead_runq [OF Q'(1) this] show ?thesis by (simp add: zs)
qed

section \<open>Callbacks\<close>

text \<open>What the moves of \<open>tx_loop_main\<close> do not touch.\<close>

definition loop_frame :: "tx_mem \<Rightarrow> tx_mem \<Rightarrow> bool" where
  "loop_frame s s' \<longleftrightarrow>
     s' = s\<lparr>tasks := tasks s', loops := loops s', tq := tq s'\<rparr> \<and>
     (\<forall>t. task_call (tasks s' t) = task_call (tasks s t) \<and> task_data (tasks s' t) = task_data (tasks s t) \<and>
          task_loop (tasks s' t) = task_loop (tasks s t) \<and> tx_reason (tasks s' t) = tx_reason (tasks s t)) \<and>
     (\<forall>up. tx_stop (loops s' up) = tx_stop (loops s up) \<and> tx_holder (loops s' up) = tx_holder (loops s up) \<and>
          tx_poller (loops s' up) = tx_poller (loops s up)) \<and>
     (\<forall>t. (busy s' t \<longrightarrow> busy s t) \<and> (idle s t \<longrightarrow> idle s' t))"

lemma loop_frame_round: "loop_frame s (loop_round up (on_tq f s))"
  by (auto simp: loop_frame_def loop_round_def mem_defs task_reads Let_def)

lemma loop_frame_take: "loop_frame s (loop_take up t (on_tq f s))"
  by (auto simp: loop_frame_def loop_take_def mem_defs task_reads flags Let_def)

lemma loop_frame_on_tq: "loop_frame s (on_tq f s)"
  by (simp add: loop_frame_def on_tq_def task_reads)

lemma loop_frame_unbreak: "loop_frame s (upd_loop up (\<lambda>l. l\<lparr>tx_break := b\<rparr>) s)"
  by (simp add: loop_frame_def upd_loop_def task_reads)

text \<open>The states of the loop's iterations, from one where \<open>tx_loop_main\<close> evaluates its condition.\<close>

inductive loop_turns :: "(call_p \<Rightarrow> void_p \<Rightarrow> tx_mem \<Rightarrow> tx_mem res) \<Rightarrow> loop_p \<Rightarrow> bool \<Rightarrow> tx_mem \<Rightarrow> bool \<Rightarrow> tx_mem \<Rightarrow> bool"
  for run up where
  turns_refl: "loop_turns run up fr s fr s"
| turns_step: "tx_stop (loops s up) = 0 \<or> fr \<Longrightarrow> tx_loop_turn run up fr s = Inr (Again fr1 s1) \<Longrightarrow>
    loop_turns run up fr1 s1 fr2 s2 \<Longrightarrow> loop_turns run up fr s fr2 s2"

lemma iter_from_turns:
  "loop_turns run up fr s fr2 s2 \<Longrightarrow> tx_loop_iter run up fr2 s2 = Some r \<Longrightarrow> tx_loop_iter run up fr s = Some r"
  by (induction rule: loop_turns.induct) (simp, subst tx_loop_iter.simps, simp)

text \<open>
  The interface of a program's callbacks. \<open>own\<close> is the program's own invariant (that the tasks its
  callbacks use are initialised, the state of its pollers and timers); the loop's moves do not disturb
  it, and a call through a task of the loop is a run of library calls that keeps it.
\<close>

locale loop_callbacks =
  fixes run :: "call_p \<Rightarrow> void_p \<Rightarrow> tx_mem \<Rightarrow> tx_mem res"
    and own :: "task_p set \<Rightarrow> taskq_p set \<Rightarrow> tx_mem \<Rightarrow> bool"
  assumes own_frame: "own T U s \<Longrightarrow> loop_frame s s' \<Longrightarrow> own T U s'"
    and run_client: "reach (T, U, M, s0) \<Longrightarrow> own T U s0 \<Longrightarrow> sys_step (Call up t) (T, U, M, s0) (T, U, M, s) \<Longrightarrow>
      reach (T, U, M, s) \<Longrightarrow> own T U s \<Longrightarrow> t \<in> T \<Longrightarrow> idle s t \<Longrightarrow>
      run (task_call (tasks s t)) (task_data (tasks s t)) s = Inr s' \<Longrightarrow>
      \<exists>T' U'. client_run (T, U, s) (T', U', s') \<and> own T' U' s'"
begin

definition ready :: "loop_p set \<Rightarrow> tx_mem \<Rightarrow> bool" where
  "ready M s \<longleftrightarrow> (\<exists>T U. reach (T, U, M, s) \<and> own T U s)"

text \<open>An error with which a call of the loop can end.\<close>

definition failing :: "tx_error \<Rightarrow> bool" where
  "failing e \<longleftrightarrow> (\<exists>T U M s0 up t s. reach (T, U, M, s0) \<and> own T U s0 \<and>
     sys_step (Call up t) (T, U, M, s0) (T, U, M, s) \<and> reach (T, U, M, s) \<and> own T U s \<and> t \<in> T \<and> idle s t \<and>
     run (task_call (tasks s t)) (task_data (tasks s t)) s = Inl e)"

lemma turn_empty:
  assumes "reach (T, U, M, s)" and "up \<in> M"
  obtains t where "lh_first (tq s) (LoopQ up) = Some t"
    and "t = Phony up \<or> t \<in> T \<and> sys_step (Call up t) (T, U, M, s)
      (T, U, M, loop_take up t (on_tq (LIST_REMOVE t) s)) \<and> idle (loop_take up t (on_tq (LIST_REMOVE t) s)) t"
proof -
  obtain Q where inv: "loop_inv T U M s Q" by (rule reach_inv [OF assms(1)])
  have "on_list Q (LoopQ up) (Phony up)" using loop_invD(5) [OF inv] assms(2) by blast
  then obtain xs where xs: "runq Q up xs" using loop_invD(2) [OF inv, of up] by (auto simp: on_list_def)
  then have "lh_first (tq s) (LoopQ up) = list_head (xs @ [Tailer up])"
    using tq.first [OF loop_invD(1) [OF inv]] by (simp add: runq_def)
  then obtain t where t: "lh_first (tq s) (LoopQ up) = Some t" by (cases xs) auto
  obtain ys where ys: "runq Q up (t # ys)" by (rule at_front [OF inv assms(2) t])
  have "t \<in> T \<and> sys_step (Call up t) (T, U, M, s) (T, U, M, loop_take up t (on_tq (LIST_REMOVE t) s))"
    if "t \<noteq> Phony up"
    using loop_inv_take(2) [OF inv ys that] sys_loop [OF loop_call [OF assms(2) t that]] by blast
  with that t show thesis by (auto simp: loop_take_reads)
qed

text \<open>One iteration: it never finds the queue empty, and what it leaves is again reachable.\<close>

lemma turn_cases:
  assumes "ready M s" and "up \<in> M"
  shows "\<exists>s'. ready M s' \<and>
    (tx_loop_turn run up fr s = Inr (Leave s') \<or> (\<exists>fr'. tx_loop_turn run up fr s = Inr (Again fr' s')) \<or>
     (\<exists>e. tx_loop_turn run up fr s = Inl e \<and> failing e))"
proof -
  obtain T U where r: "reach (T, U, M, s)" and o: "own T U s" using assms(1) by (auto simp: ready_def)
  obtain t where t: "lh_first (tq s) (LoopQ up) = Some t"
    and call: "t = Phony up \<or> t \<in> T \<and> sys_step (Call up t) (T, U, M, s)
      (T, U, M, loop_take up t (on_tq (LIST_REMOVE t) s)) \<and> idle (loop_take up t (on_tq (LIST_REMOVE t) s)) t"
    by (rule turn_empty [OF r assms(2)])
  show ?thesis
  proof (cases "t = Phony up")
    case True
    let ?s = "loop_round up (on_tq (LIST_REMOVE (Phony up)) s)"
    have r2: "reach (T, U, M, ?s)"
      using reach.reach_step [OF r sys_loop [OF loop_phony [OF assms(2)]]] t True by simp
    have o2: "own T U ?s" by (rule own_frame [OF o loop_frame_round])
    let ?b = "upd_loop up (\<lambda>l. l\<lparr>tx_break := 0\<rparr>) ?s"
    have "reach (T, U, M, ?b)" by (rule reach.reach_step [OF r2 sys_loop [OF loop_unbreak [OF assms(2)]]])
    moreover have "own T U ?b" by (rule own_frame [OF o2 loop_frame_unbreak])
    ultimately have "ready M ?s" "ready M ?b" using r2 o2 by (auto simp: ready_def)
    moreover have "tx_loop_turn run up fr s = Inr (Leave ?b) \<or> tx_loop_turn run up fr s = Inr (Again False ?s)"
      using t True by (simp add: tx_loop_turn_def Let_def)
    ultimately show ?thesis by blast
  next
    case False
    let ?s = "loop_take up t (on_tq (LIST_REMOVE t) s)"
    have c: "t \<in> T" "idle ?s t" and st: "sys_step (Call up t) (T, U, M, s) (T, U, M, ?s)"
      using call False by blast+
    have r2: "reach (T, U, M, ?s)" by (rule reach.reach_step [OF r st])
    have o2: "own T U ?s" by (rule own_frame [OF o loop_frame_take])
    show ?thesis
    proof (cases "run (task_call (tasks ?s t)) (task_data (tasks ?s t)) ?s")
      case (Inl e)
      moreover from this have "tx_loop_turn run up fr s = Inl e"
        using t False by (simp add: tx_loop_turn_def Let_def)
      moreover have "failing e" using r o st r2 o2 c Inl unfolding failing_def by blast
      ultimately show ?thesis using assms(1) by blast
    next
      case (Inr s')
      from run_client [OF r o st r2 o2 c Inr] obtain T' U' where "client_run (T, U, ?s) (T', U', s')" "own T' U' s'"
        by blast
      then have "ready M s'" using reach_client_run [OF _ r2] unfolding ready_def by blast
      moreover have "tx_loop_turn run up fr s = Inr (Again fr s')"
        using t False Inr by (simp add: tx_loop_turn_def Let_def)
      ultimately show ?thesis by blast
    qed
  qed
qed

lemma iter_ready:
  assumes "tx_loop_iter run up fr s = Some r" and "ready M s" and "up \<in> M"
  shows "(\<exists>s'. r = Inr s' \<and> ready M s') \<or> (\<exists>e. r = Inl e \<and> failing e)"
proof -
  have "run' = run \<longrightarrow> up \<in> M \<longrightarrow> ready M s \<longrightarrow>
      (\<exists>s'. r = Inr s' \<and> ready M s') \<or> (\<exists>e. r = Inl e \<and> failing e)"
    if "tx_loop_iter run' up fr s = Some r" for run'
    using that
  proof (induction run' up fr s r rule: tx_loop_iter.raw_induct [rotated, consumes 1, case_names 1])
    case (1 rec run' up fr s r)
    show ?case
    proof (intro impI)
      assume run': "run' = run" and up: "up \<in> M" and s: "ready M s"
      show "(\<exists>s'. r = Inr s' \<and> ready M s') \<or> (\<exists>e. r = Inl e \<and> failing e)"
      proof (cases "tx_stop (loops s up) = 0 \<or> fr")
        case False
        then show ?thesis using 1(2) s by auto
      next
        case True
        from turn_cases [OF s up, of fr] obtain s' where s': "ready M s'"
          and c: "tx_loop_turn run up fr s = Inr (Leave s') \<or> (\<exists>fr'. tx_loop_turn run up fr s = Inr (Again fr' s')) \<or>
            (\<exists>e. tx_loop_turn run up fr s = Inl e \<and> failing e)" by blast
        from c show ?thesis
        proof (elim disjE exE conjE)
          fix fr' assume "tx_loop_turn run up fr s = Inr (Again fr' s')"
          then have "rec run up fr' s' = Some r" using 1(2) True by (simp add: run')
          from 1(1) [OF this] show ?thesis using up s' by blast
        next
          fix e assume "tx_loop_turn run up fr s = Inl e" and e: "failing e"
          then have "r = Inl e" using 1(2) True by (auto simp: run')
          with e show ?thesis by blast
        qed (use 1(2) True s' in \<open>auto simp: run'\<close>)
      qed
    qed
  qed
  with assms show ?thesis by blast
qed

text \<open>
  Once \<open>tx_stop\<close> or \<open>tx_break\<close> is set the loop ends: the phony task only moves forward, and leaves
  the loop when it is first in the queue. \<open>n\<close> is the number of tasks ahead of it.
\<close>

lemma iter_returns:
  assumes "reach (T, U, M, s)" and "own T U s" and "up \<in> M" and "told up s"
    and "loop_inv T U M s Q" and "runq Q up xs" and "pos (Phony up) xs \<le> n"
  shows "\<exists>r. tx_loop_iter run up fr s = Some r"
  using assms
proof (induction n arbitrary: T U s Q xs fr)
  case 0
  have "Phony up \<in> set xs" using runq_phony_notin [OF 0(5,6)] 0(3) by blast
  with 0(7) have "xs \<noteq> [] \<and> hd xs = Phony up" by (cases xs) (auto simp: pos_def split: if_splits)
  then have hd: "lh_first (tq s) (LoopQ up) = Some (Phony up)"
    using tq.first [OF loop_invD(1) [OF 0(5)]] 0(6) by (cases xs) (auto simp: runq_def)
  let ?s = "loop_round up (on_tq (LIST_REMOVE (Phony up)) s)"
  have told: "told up ?s" using 0(4) by (simp add: told_def loop_round_reads on_tq_def)
  have "tx_loop_turn run up fr s = (if tx_break (loops ?s up) \<noteq> 0
      then Inr (Leave (upd_loop up (\<lambda>l. l\<lparr>tx_break := 0\<rparr>) ?s)) else Inr (Again False ?s))"
    using hd by (simp add: tx_loop_turn_def Let_def)
  moreover have "\<exists>r. tx_loop_iter run up False ?s = Some r" if "tx_break (loops ?s up) = 0"
    using that told by (subst tx_loop_iter.simps) (simp add: told_def)
  ultimately show ?case by (subst tx_loop_iter.simps) (auto split: if_splits)
next
  case (Suc n)
  show ?case
  proof (cases "pos (Phony up) xs = 0")
    case True
    with Suc.IH [OF Suc.prems(1-6)] show ?thesis by simp
  next
    case ahead: False
  obtain t ys where xs: "xs = t # ys" and t: "t \<noteq> Phony up" and n: "pos (Phony up) ys \<le> n"
    using Suc.prems(7) ahead by (cases xs) (auto simp: pos_def split: if_splits)
  have hd: "lh_first (tq s) (LoopQ up) = Some t"
    using tq.first [OF loop_invD(1) [OF Suc.prems(5)]] Suc.prems(6) by (auto simp: runq_def xs)
  let ?s = "loop_take up t (on_tq (LIST_REMOVE t) s)"
  have c: "t \<in> T" and inv2: "loop_inv T U M ?s (q_remove t Q)"
    using loop_inv_take [OF Suc.prems(5) Suc.prems(6) [unfolded xs] t] by auto
  have st: "sys_step (Call up t) (T, U, M, s) (T, U, M, ?s)" by (rule sys_loop [OF loop_call [OF Suc.prems(3) hd t]])
  have r2: "reach (T, U, M, ?s)" by (rule reach.reach_step [OF Suc.prems(1) st])
  have o2: "own T U ?s" by (rule own_frame [OF Suc.prems(2) loop_frame_take])
  have told: "told up ?s" using Suc.prems(4) by (simp add: told_def loop_take_reads on_tq_def)
  show ?thesis
  proof (cases "tx_stop (loops s up) = 0 \<or> fr")
    case False
    then show ?thesis by (subst tx_loop_iter.simps) simp
  next
    case True
    show ?thesis
    proof (cases "run (task_call (tasks ?s t)) (task_data (tasks ?s t)) ?s")
      case (Inl e)
      then have "tx_loop_turn run up fr s = Inl e" using hd t by (simp add: tx_loop_turn_def Let_def)
      then show ?thesis using True by (subst tx_loop_iter.simps) simp
    next
      case (Inr s')
      have turn: "tx_loop_turn run up fr s = Inr (Again fr s')" using hd t Inr by (simp add: tx_loop_turn_def Let_def)
      from run_client [OF Suc.prems(1,2) st r2 o2 c _ Inr] obtain T' U' where cr: "client_run (T, U, ?s) (T', U', s')"
        and o': "own T' U' s'" by (auto simp: loop_take_reads)
      have nT: "t \<noteq> Tailer w" for w using c loop_invD(7) [OF Suc.prems(5)] by fastforce
      have q: "runq (q_remove t Q) up (removeAll t xs)" by (rule runq_q_remove [OF nT Suc.prems(6)])
      have inQ: "Phony up \<in> set (removeAll t xs)"
        using runq_phony_notin [OF inv2 q] Suc.prems(3) by blast
      obtain Q' where Q': "loop_inv T' U' M s' Q'" "front (q_remove t Q) Q'"
        using loop_inv_client_run [OF cr] inv2 by auto
      then obtain xs' where xs': "runq Q' up xs'" "pos (Phony up) xs' \<le> pos (Phony up) (removeAll t xs)"
        using q inQ unfolding front_def by blast
      have le: "pos (Phony up) xs' \<le> n"
        using xs' pos_removeAll [of t "Phony up" ys] t n by (simp add: xs)
      have "LoopQ up \<in> U" using loop_invD(6) [OF Suc.prems(5)] Suc.prems(6) by (auto simp: runq_def)
      then have told': "told up s'" using told_client_run [OF cr, of up] told by simp
      have "\<exists>r. tx_loop_iter run up fr s' = Some r"
        by (rule Suc.IH [OF reach_client_run [OF cr r2] o' Suc.prems(3) told' Q'(1) xs'(1) le])
      then show ?thesis using turn True by (subst tx_loop_iter.simps) simp
    qed
  qed
  qed
qed

text \<open>
  \<open>tx_loop_main\<close> is a run of the state machine: what it returns is reachable, with the loop left, and
  if it does not return normally a callback did not.
\<close>

lemma main_ready:
  assumes "tx_loop_main run up s = Some r" and "reach (T, U, M, s)" and "own T U s"
    and "LoopQ up \<in> U" and "up \<notin> M"
  shows "(\<exists>s'. r = Inr s' \<and> ready M s') \<or> (\<exists>e. r = Inl e \<and> failing e)"
proof -
  let ?s = "on_tq (LIST_INSERT_BEFORE (Tailer up) (Phony up)) s"
  have "reach (T, U, insert up M, ?s)" by (rule reach.reach_step [OF assms(2) sys_loop [OF loop_enter [OF assms(4,5)]]])
  then have enter: "ready (insert up M) ?s" using own_frame [OF assms(3) loop_frame_on_tq] by (auto simp: ready_def)
  from assms(1) obtain r' where r': "tx_loop_iter run up True ?s = Some r'"
    and r: "r = res_bind r' (\<lambda>s'. Inr (on_tq (LIST_REMOVE (Phony up)) s'))"
    by (auto simp: tx_loop_main_def)
  have leave: "ready M (on_tq (LIST_REMOVE (Phony up)) s')" if "ready (insert up M) s'" for s'
  proof -
    from that obtain T' U' where w: "reach (T', U', insert up M, s')" "own T' U' s'" by (auto simp: ready_def)
    have "reach (T', U', insert up M - {up}, on_tq (LIST_REMOVE (Phony up)) s')"
      by (rule reach.reach_step [OF w(1) sys_loop [OF loop_leave]]) simp
    then show ?thesis using own_frame [OF w(2) loop_frame_on_tq] assms(5) by (auto simp: ready_def)
  qed
  from iter_ready [OF r' enter] leave show ?thesis unfolding r by auto
qed

lemma turns_ready:
  "loop_turns run up fr s fr2 s2 \<Longrightarrow> ready M s \<Longrightarrow> up \<in> M \<Longrightarrow> ready M s2"
proof (induction rule: loop_turns.induct)
  case (turns_step s fr fr1 s1 fr2 s2)
  then show ?case using turn_cases [of M s up fr] by auto
qed

text \<open>If some iteration leaves the loop stopped or broken, \<open>tx_loop_main\<close> returns.\<close>

lemma main_returns:
  assumes "reach (T, U, M, s)" and "own T U s" and "LoopQ up \<in> U" and "up \<notin> M"
    and "loop_turns run up True (on_tq (LIST_INSERT_BEFORE (Tailer up) (Phony up)) s) fr s2" and "told up s2"
  shows "\<exists>r. tx_loop_main run up s = Some r"
proof -
  let ?s = "on_tq (LIST_INSERT_BEFORE (Tailer up) (Phony up)) s"
  have "reach (T, U, insert up M, ?s)" by (rule reach.reach_step [OF assms(1) sys_loop [OF loop_enter [OF assms(3,4)]]])
  then have "ready (insert up M) ?s" using own_frame [OF assms(2) loop_frame_on_tq] by (auto simp: ready_def)
  from turns_ready [OF assms(5) this] obtain T' U' where s2: "reach (T', U', insert up M, s2)" "own T' U' s2"
    by (auto simp: ready_def)
  obtain Q where inv: "loop_inv T' U' (insert up M) s2 Q" by (rule reach_inv [OF s2(1)])
  have "on_list Q (LoopQ up) (Phony up)" using loop_invD(5) [OF inv] by blast
  then obtain xs where xs: "runq Q up xs" using loop_invD(2) [OF inv, of up] by (auto simp: on_list_def)
  from iter_returns [OF s2 _ assms(6) inv xs order_refl, of fr] iter_from_turns [OF assms(5)]
  show ?thesis unfolding tx_loop_main_def by auto
qed

end

end
