(* ===== verification/TxTimer.thy ===== *)
theory TxTimer
  imports TxTaskInv
begin

text \<open>
  \<open>tx_timer.cpp\<close>: timers in a two-level timing wheel. A ring has 50 slots of 15 ms (\<open>mi\<close>), 60 slots of
  750 ms (\<open>ma\<close>) and one list for everything later (\<open>st\<close>). \<open>tx_timer_polling\<close> is the callback of the
  ring's own task; it advances the wheels to the clock, activates the tasks of the timers that are due
  and files the others again.

  The \<open>size_t\<close> fields are \<open>u64\<close>, \<open>tx_ticks\<close> and \<open>interval\<close> are \<open>u32\<close>; the mixed arithmetic of the source
  is written out with its conversions. The clock readings are arguments.
\<close>

section \<open>The clock\<close>

text \<open>\<open>tx_getticks\<close> of \<open>tx_platform.cpp\<close> (the branch for Linux) on a reading of \<open>CLOCK_MONOTONIC\<close>.\<close>

definition tx_getticks :: "int \<times> int \<Rightarrow> tx_mem \<Rightarrow> u32 \<times> tx_mem" where
  "tx_getticks ts s =
     (let t = word_of_int (fst ts * 1000 + snd ts div 1000000) in (t, s\<lparr>tx_ticks := t\<rparr>))"

text \<open>
  The Windows branch: \<open>bootup\<close> and \<open>frequency\<close> are static and set by the first call from what the counter and its
  frequency then are. The counter does not run backwards, so the division of C is \<open>div\<close>.
\<close>

record win_counter =
  bootup :: int
  frequency :: int

definition tx_getticks_win :: "int \<times> int \<Rightarrow> int \<Rightarrow> win_counter \<Rightarrow> tx_mem \<Rightarrow> u32 \<times> win_counter \<times> tx_mem" where
  "tx_getticks_win start now c s =
     (let c1 = (if frequency c = 0 then c\<lparr>bootup := fst start, frequency := snd start\<rparr> else c);
          t = word_of_int ((now - bootup c1) * 1000 div frequency c1)
      in (t, c1, s\<lparr>tx_ticks := t\<rparr>))"

text \<open>The reading of the Linux clock that gives the same ticks as so many milliseconds of the counter.\<close>

definition win_reading :: "int \<Rightarrow> int \<times> int" where
  "win_reading ms = (ms div 1000, ms mod 1000 * 1000000)"

lemma tx_getticks_reading: "tx_getticks (win_reading ms) s = (word_of_int ms, s\<lparr>tx_ticks := word_of_int ms\<rparr>)"
proof -
  have "ms div 1000 * 1000 + ms mod 1000 * 1000000 div 1000000 = ms" by simp
  then show ?thesis by (simp add: tx_getticks_def win_reading_def Let_def)
qed

lemma tx_getticks_win_linux:
  "tx_getticks_win start now c s = (t, c1, s') \<Longrightarrow>
     tx_getticks (win_reading ((now - bootup c1) * 1000 div frequency c1)) s = (t, s')"
  by (auto simp: tx_getticks_reading tx_getticks_win_def Let_def split: if_splits)

section \<open>Timers\<close>

definition TIMER_IDLE :: u32 where [flag_defs]: "TIMER_IDLE = 0x01"

definition MIN_TIME_OUT :: nat where "MIN_TIME_OUT = 15"
definition MAX_MI_WHEEL :: nat where "MAX_MI_WHEEL = 50"
definition MAX_MA_WHEEL :: nat where "MAX_MA_WHEEL = 60"
definition MIN_MA_TIMER :: nat where "MIN_MA_TIMER = MIN_TIME_OUT * MAX_MI_WHEEL"
definition MIN_ST_TIMER :: nat where "MIN_ST_TIMER = MIN_MA_TIMER * MAX_MA_WHEEL"

lemmas wheel_sizes = MIN_TIME_OUT_def MAX_MI_WHEEL_def MAX_MA_WHEEL_def MIN_MA_TIMER_def MIN_ST_TIMER_def

lemma timer_flag_tests [flags]:
  "has TIMER_IDLE TIMER_IDLE" "\<not> has (f AND NOT TIMER_IDLE) TIMER_IDLE"
  by (simp_all add: has_def flag_defs and.assoc)

definition tx_timer_init :: "timer_p \<Rightarrow> ring_p \<Rightarrow> task_p option \<Rightarrow> tx_mem \<Rightarrow> tx_mem" where
  "tx_timer_init timer provider task s =
     upd_timer timer (\<lambda>m. m\<lparr>interval := 0, timer_task := task, timer_flags := TIMER_IDLE,
       tx_ring := provider\<rparr>) s"

text \<open>The list a timer with this \<open>interval\<close> is filed in: the arithmetic of \<open>tx_timer_reset\<close>.\<close>

definition timer_slot :: "ring_p \<Rightarrow> tx_timer_ring \<Rightarrow> u32 \<Rightarrow> timerq_p" where
  "timer_slot r g iv =
     (let mi0 = ((ucast iv :: u64) - tx_mi_tick g) div of_nat MIN_TIME_OUT;
          mi = (if mi0 = 0 then 1 else mi0)
      in if mi < of_nat MAX_MI_WHEEL then
           MiTimers r (unat ((tx_mi_wheel g + mi) mod of_nat MAX_MI_WHEEL))
         else
           let ma = ((ucast iv :: u64) - tx_ma_tick g) div of_nat MIN_MA_TIMER in
           if ma < of_nat MAX_MA_WHEEL then
             MaTimers r (unat ((tx_ma_wheel g + ma) mod of_nat MAX_MA_WHEEL))
           else StTimers r)"

function tx_timer_reset :: "timer_p \<Rightarrow> u32 \<Rightarrow> tx_mem \<Rightarrow> tx_mem" where
  "tx_timer_reset timer umilsec s =
     (if has (timer_flags (timers s timer)) TIMER_IDLE then
        let ring = tx_ring (timers s timer);
            s1 = upd_timer timer (\<lambda>m. m\<lparr>timer_flags := timer_flags m AND NOT TIMER_IDLE\<rparr>) s;
            s2 = upd_timer timer (\<lambda>m. m\<lparr>interval := tx_ticks s1 + umilsec\<rparr>) s1
        in on_mq (LIST_INSERT_HEAD (timer_slot ring (rings s2 ring) (interval (timers s2 timer))) timer) s2
      else
        let s1 = on_mq (LIST_REMOVE timer) s;
            s2 = upd_timer timer (\<lambda>m. m\<lparr>timer_flags := timer_flags m OR TIMER_IDLE\<rparr>) s1
        in tx_timer_reset timer umilsec s2)"
  by pat_completeness auto
termination
  by (relation "measure (\<lambda>(timer, _, s). if has (timer_flags (timers s timer)) TIMER_IDLE then 0 else 1)")
    (auto simp: upd_timer_def on_mq_def flags)

declare tx_timer_reset.simps [simp del]

definition tx_timer_drain :: "timer_p \<Rightarrow> tx_mem \<Rightarrow> tx_mem" where
  "tx_timer_drain timer s =
     (if \<not> has (timer_flags (timers s timer)) TIMER_IDLE then
        let s1 = on_mq (LIST_REMOVE timer) s;
            s2 = upd_timer timer (\<lambda>m. m\<lparr>timer_flags := timer_flags m OR TIMER_IDLE\<rparr>) s1
        in tx_task_active (timer_task (timers s2 timer)) (VTimer timer) s2
      else s)"

definition tx_timer_stop :: "timer_p \<Rightarrow> tx_mem \<Rightarrow> tx_mem" where
  "tx_timer_stop timer s =
     (if \<not> has (timer_flags (timers s timer)) TIMER_IDLE then
        on_mq (LIST_REMOVE timer)
          (upd_timer timer (\<lambda>m. m\<lparr>timer_flags := timer_flags m OR TIMER_IDLE\<rparr>) s)
      else s)"

section \<open>Polling\<close>

text \<open>The body of the three \<open>LIST_FOREACH_SAFE\<close> loops.\<close>

definition timer_expire :: "u32 \<Rightarrow> timer_p \<Rightarrow> tx_mem \<Rightarrow> tx_mem" where
  "timer_expire ticks cur s =
     (let s1 = on_mq (LIST_REMOVE cur) s;
          s2 = upd_timer cur (\<lambda>m. m\<lparr>timer_flags := timer_flags m OR TIMER_IDLE\<rparr>) s1
      in if sint (interval (timers s1 cur) - ticks - of_nat MIN_TIME_OUT) < 0 then
           tx_task_active (timer_task (timers s2 cur)) (VTimer cur) s2
         else tx_timer_reset cur (interval (timers s2 cur) - ticks) s2)"

text \<open>
  \<open>timerq = *q; LIST_INIT(q); LIST_FOREACH_SAFE(cur, &timerq, ..)\<close>. The local head is only read for its
  first element.
\<close>

definition timer_drain_list :: "u32 \<Rightarrow> timerq_p \<Rightarrow> tx_mem \<Rightarrow> tx_mem option" where
  "timer_drain_list ticks q s =
     (let first = lh_first (mq s) q in
      list_foreach_safe (\<lambda>s n. le_next (mq s) n) (timer_expire ticks) first (on_mq (LIST_INIT q) s))"

partial_function (option) timer_mi_loop :: "ring_p \<Rightarrow> u32 \<Rightarrow> tx_mem \<Rightarrow> tx_mem option" where
  "timer_mi_loop r ticks s =
     (if c_int ((ucast ticks :: u64) - tx_mi_tick (rings s r) - of_nat MIN_TIME_OUT) \<ge> 0 then
        let s1 = upd_ring r (\<lambda>g. g\<lparr>tx_mi_tick := tx_mi_tick g + of_nat MIN_TIME_OUT,
                   tx_mi_wheel := tx_mi_wheel g + 1\<rparr>) s;
            wheel = unat (tx_mi_wheel (rings s1 r) mod of_nat MAX_MI_WHEEL)
        in Option.bind (timer_drain_list ticks (MiTimers r wheel) s1) (timer_mi_loop r ticks)
      else Some s)"

partial_function (option) timer_ma_loop :: "ring_p \<Rightarrow> u32 \<Rightarrow> tx_mem \<Rightarrow> tx_mem option" where
  "timer_ma_loop r ticks s =
     (if c_int ((ucast ticks :: u64) - tx_ma_tick (rings s r) - of_nat MIN_MA_TIMER) \<ge> 0 then
        let s1 = upd_ring r (\<lambda>g. g\<lparr>tx_ma_tick := tx_ma_tick g + of_nat MIN_MA_TIMER,
                   tx_ma_wheel := tx_ma_wheel g + 1\<rparr>) s;
            wheel = unat (tx_ma_wheel (rings s1 r) mod of_nat MAX_MA_WHEEL)
        in Option.bind (timer_drain_list ticks (MaTimers r wheel) s1) (timer_ma_loop r ticks)
      else Some s)"

definition timer_st_turn :: "ring_p \<Rightarrow> u32 \<Rightarrow> tx_mem \<Rightarrow> tx_mem option" where
  "timer_st_turn r ticks s =
     (if c_int ((ucast ticks :: u64) - tx_st_tick (rings s r) - of_nat MIN_ST_TIMER) \<ge> 0 then
        timer_drain_list ticks (StTimers r) (upd_ring r (\<lambda>g. g\<lparr>tx_st_tick := ucast ticks\<rparr>) s)
      else Some s)"

text \<open>
  The whole callback. The second clock reading is the one after \<open>usleep\<close>. \<open>delete ring\<close> happens when
  the ring's task could not be queued again, that is when the loop was stopped.
\<close>

definition tx_timer_polling :: "ring_p \<Rightarrow> int \<times> int \<Rightarrow> int \<times> int \<Rightarrow> tx_mem \<Rightarrow> tx_mem option" where
  "tx_timer_polling r now1 now2 s =
     (let (ticks, s0) = tx_getticks now1 s in
      Option.bind (timer_mi_loop r ticks s0) (\<lambda>s1.
      Option.bind (timer_ma_loop r ticks s1) (\<lambda>s2.
      Option.bind (timer_st_turn r ticks s2) (\<lambda>s3.
        let poll = Callout r;
            s4 = (if tx_loop_timeout (task_loop (tasks s3 (PollTask poll))) (VRing r) s3 \<noteq> 0
                  then snd (tx_getticks now2 s3) else s3);
            s5 = tx_poll_active poll s4
        in Some (if has (task_flags (tasks s5 (PollTask poll))) TASK_IDLE
                 then s5\<lparr>ring_live := (ring_live s5)(r := False)\<rparr> else s5)))))"

section \<open>Rings\<close>

definition init_heads :: "timerq_p list \<Rightarrow> tx_mem \<Rightarrow> tx_mem" where
  "init_heads hs s = fold (\<lambda>h. on_mq (LIST_INIT h)) hs s"

text \<open>\<open>r\<close> is the block \<open>new\<close> returned.\<close>

definition tx_timer_ring_new :: "ring_p \<Rightarrow> int \<times> int \<Rightarrow> loop_p \<Rightarrow> tx_mem \<Rightarrow> ring_p \<times> tx_mem" where
  "tx_timer_ring_new r now loop s =
     (let s0 = s\<lparr>ring_live := (ring_live s)(r := True)\<rparr>;
          (ticks, s1) = tx_getticks now s0;
          s2 = upd_ring r (\<lambda>g. g\<lparr>tx_st_tick := ucast ticks\<rparr>) s1;
          s3 = on_mq (LIST_INIT (StTimers r)) s2;
          s4 = upd_ring r (\<lambda>g. g\<lparr>tx_mi_tick := ucast (tx_ticks s3), tx_mi_wheel := 0\<rparr>) s3;
          s5 = init_heads (map (MiTimers r) [0..<MAX_MI_WHEEL]) s4;
          s6 = upd_ring r (\<lambda>g. g\<lparr>tx_ma_tick := ucast (tx_ticks s5), tx_ma_wheel := 0\<rparr>) s5;
          s7 = init_heads (map (MaTimers r) [0..<MAX_MA_WHEEL]) s6;
          s8 = tx_poll_init (Callout r) loop TimerPolling (VRing r) s7;
          s9 = tx_poll_active (Callout r) s8
      in if has (task_flags (tasks s9 (PollTask (Callout r)))) TASK_IDLE
         then (NullRing, s9\<lparr>ring_live := (ring_live s9)(r := False)\<rparr>) else (r, s9))"

text \<open>
  \<open>container_of(np, tx_timer_ring, tx_tm_callout.tx_task)\<close>: of any other task the result would be a
  pointer into an unrelated object; it is only computed of tasks with this callback.
\<close>

fun ring_container_of :: "task_p \<Rightarrow> ring_p" where
  "ring_container_of (PollTask (Callout r)) = r"
| "ring_container_of _ = NullRing"

definition tx_timer_ring_get :: "ring_p \<Rightarrow> int \<times> int \<Rightarrow> loop_p \<Rightarrow> tx_mem \<Rightarrow> (ring_p \<times> tx_mem) option" where
  "tx_timer_ring_get fresh now loop s =
     map_option (\<lambda>found. case found of
         Some np \<Rightarrow> (ring_container_of np, s)
       | None \<Rightarrow> tx_timer_ring_new fresh now loop s)
       (list_search (le_next (tq s)) (\<lambda>np. task_call (tasks s np) = TimerPolling)
         (lh_first (tq s) (LoopQ loop)))"

definition tx_timer_init_loop ::
    "timer_p \<Rightarrow> ring_p \<Rightarrow> int \<times> int \<Rightarrow> loop_p \<Rightarrow> task_p option \<Rightarrow> tx_mem \<Rightarrow> tx_mem option" where
  \<comment> \<open>the overload \<open>tx_timer_init(timer, loop, task)\<close>\<close>
  "tx_timer_init_loop timer fresh now loop task s =
     map_option (\<lambda>(r, s1). tx_timer_init timer r task s1) (tx_timer_ring_get fresh now loop s)"

text \<open>Making the wheel touches neither the I/O half of the memory nor the rings.\<close>

lemma init_heads_io [simp]: "io (init_heads hs s) = io s" "ring_live (init_heads hs s) = ring_live s"
  by (induction hs arbitrary: s) (auto simp: init_heads_def on_mq_def)

lemma upd_ring_io [simp]: "io (upd_ring r g s) = io s" "ring_live (upd_ring r g s) = ring_live s"
  by (simp_all add: upd_ring_def)

end
