(* ===== verification/TxTimerInv.thy ===== *)
theory TxTimerInv
  imports TxTimer
begin

text \<open>
  The timing wheel is correct: which list a timer may be filed in, given its deadline and the state of
  the wheels; that every operation files it so; and what a polling therefore does: it ends, it activates
  no timer 15 ms or more before its deadline, and it leaves none pending that is 15 ms overdue (750 ms
  for a timer that was set more than 45 s ahead).

  The arithmetic is in natural numbers, \<open>unat\<close> of the words. The bound is that of a clock that has
  not passed \<open>2^31\<close> ms (24.8 days).
\<close>

section \<open>Word arithmetic\<close>

lemma sint_of_int32: "- (2^31) \<le> v \<Longrightarrow> v < 2^31 \<Longrightarrow> sint (of_int v :: u32) = v"
  by (simp add: signed_of_int signed_take_bit_int_eq_self)

lemma c_int_of_int: "- (2^31) \<le> v \<Longrightarrow> v < 2^31 \<Longrightarrow> c_int (of_int v) = v"
proof -
  assume *: "- (2^31) \<le> v" "v < 2^31"
  have "(ucast (of_int v :: u64) :: u32) = of_int v"
    by (simp add: unsigned_of_int word_of_int_eq_iff)
  with sint_of_int32 [OF *] show ?thesis by (simp add: c_int_def)
qed

lemma nat_window:
  "y \<le> x + j \<Longrightarrow> j + k \<le> 2 ^ 31 \<Longrightarrow> x < 2 ^ 31 \<Longrightarrow>
     - (2^31) \<le> int x - int y - int k \<and> int x - int y - int k < 2^31"
  by simp

lemma tick_due:
  assumes "unat b \<le> unat a" and "k \<le> 2^31" and "unat a < 2 ^ 31"
  shows "c_int ((ucast (a::u32) :: u64) - b - of_nat k) \<ge> 0 \<longleftrightarrow> unat b + k \<le> unat a"
proof -
  have eq: "(ucast a :: u64) - b - of_nat k = of_int (int (unat a) - int (unat b) - int k)"
    by simp
  have "c_int ((ucast a :: u64) - b - of_nat k) = int (unat a) - int (unat b) - int k"
    unfolding eq using nat_window [of "unat b" "unat a" 0 k] assms by (intro c_int_of_int) auto
  then show ?thesis by linarith
qed

lemma expire_due:
  assumes "unat (iv::u32) < 2 ^ 31" and "unat t + k \<le> 2 ^ 31"
  shows "sint (iv - t - of_nat k) < 0 \<longleftrightarrow> unat iv < unat t + k"
proof -
  have eq: "iv - t - of_nat k = of_int (int (unat iv) - int (unat t) - int k)" by simp
  have "sint (iv - t - of_nat k) = int (unat iv) - int (unat t) - int k"
    unfolding eq using nat_window [of "unat t" "unat iv" "unat t" k] assms by (intro sint_of_int32) auto
  then show ?thesis by linarith
qed

lemma unat_ucast_u64 [simp]: "unat (ucast (a::u32) :: u64) = unat a"
  by transfer (simp add: take_bit_eq_mod)

lemma unat_of_nat_small: "k < 2^32 \<Longrightarrow> unat (of_nat k :: u64) = k"
  by (simp add: unsigned_of_nat take_bit_nat_eq_self)

lemma u64_div:
  assumes "unat b \<le> unat a" and "k < 2^32"
  shows "unat (((ucast (a::u32) :: u64) - b) div of_nat k) = (unat a - unat b) div k"
proof -
  have "b \<le> (ucast a :: u64)" using assms(1) by (simp add: word_le_nat_alt)
  then have "unat ((ucast a :: u64) - b) = unat a - unat b" by (simp add: unat_sub)
  then show ?thesis using assms(2) by (simp add: unat_div unat_of_nat_small)
qed

lemma u64_wheel:
  assumes "unat w + unat i < 2^64" and "k < 2^32"
  shows "unat ((w + i :: u64) mod of_nat k) = (unat w + unat i) mod k"
proof -
  have "unat (w + i) = unat w + unat i" using assms(1) by (subst unat_add_lem [symmetric]) simp
  then show ?thesis using assms(2) by (simp add: unat_mod unat_of_nat_small)
qed

lemma u64_less: "k < 2^32 \<Longrightarrow> (i :: u64) < of_nat k \<longleftrightarrow> unat i < k"
  by (simp add: word_less_nat_alt unat_of_nat_small)

section \<open>Where a timer may be filed\<close>

definition timer_idle :: "tx_mem \<Rightarrow> timer_p \<Rightarrow> bool" where
  "timer_idle s m \<longleftrightarrow> has (timer_flags (timers s m)) TIMER_IDLE"

abbreviation deadline :: "tx_mem \<Rightarrow> timer_p \<Rightarrow> nat" where
  "deadline s m \<equiv> unat (interval (timers s m))"

fun head_ring :: "timerq_p \<Rightarrow> ring_p" where
  "head_ring (StTimers r) = r"
| "head_ring (MiTimers r i) = r"
| "head_ring (MaTimers r i) = r"

definition heads_of :: "ring_p \<Rightarrow> timerq_p set" where
  "heads_of r = insert (StTimers r) (MiTimers r ` {..<50} \<union> MaTimers r ` {..<60})"

text \<open>
  A slot of the fine wheel that comes up in \<open>d\<close> steps of 15 ms holds timers due then (or, in the next
  slot, before that); a slot of the coarse wheel that comes up in \<open>e\<close> steps of 750 ms holds timers due
  in the 750 ms after; the last list may be up to 750 ms late.
\<close>

definition mi_ok :: "tx_timer_ring \<Rightarrow> nat \<Rightarrow> nat \<Rightarrow> bool" where
  "mi_ok g w D \<longleftrightarrow> (\<exists>d. 1 \<le> d \<and> d < 50 \<and> w = (unat (tx_mi_wheel g) + d) mod 50 \<and>
     unat (tx_mi_tick g) \<le> D \<and> D < unat (tx_mi_tick g) + 15 * d + 15 \<and>
     (d = 1 \<or> unat (tx_mi_tick g) + 15 * d \<le> D))"

definition ma_ok :: "tx_timer_ring \<Rightarrow> nat \<Rightarrow> nat \<Rightarrow> bool" where
  "ma_ok g w D \<longleftrightarrow> (\<exists>e. 1 \<le> e \<and> e < 60 \<and> w = (unat (tx_ma_wheel g) + e) mod 60 \<and>
     unat (tx_ma_tick g) + 750 * e \<le> D \<and> D < unat (tx_ma_tick g) + 750 * e + 750)"

definition st_ok :: "tx_timer_ring \<Rightarrow> nat \<Rightarrow> bool" where
  "st_ok g D \<longleftrightarrow> unat (tx_st_tick g) + 45000 < D + 750"

fun filed :: "tx_timer_ring \<Rightarrow> timerq_p \<Rightarrow> nat \<Rightarrow> bool" where
  "filed g (MiTimers r w) D = mi_ok g w D"
| "filed g (MaTimers r w) D = ma_ok g w D"
| "filed g (StTimers r) D = st_ok g D"

text \<open>The wheels of a ring at clock value \<open>T\<close>.\<close>

definition ring_ok :: "tx_timer_ring \<Rightarrow> nat \<Rightarrow> bool" where
  "ring_ok g T \<longleftrightarrow>
     unat (tx_ma_tick g) \<le> unat (tx_mi_tick g) \<and> unat (tx_mi_tick g) \<le> T \<and>
     unat (tx_st_tick g) < unat (tx_ma_tick g) + 750 \<and> unat (tx_st_tick g) \<le> T \<and>
     15 dvd (unat (tx_mi_tick g) - unat (tx_ma_tick g)) \<and>
     15 * unat (tx_mi_wheel g) \<le> unat (tx_mi_tick g) \<and> 750 * unat (tx_ma_wheel g) \<le> unat (tx_ma_tick g) \<and>
     T + 15 \<le> 2^31"

lemma ring_okD:
  assumes "ring_ok g T"
  shows "unat (tx_ma_tick g) \<le> unat (tx_mi_tick g)" "unat (tx_mi_tick g) \<le> T"
    "unat (tx_st_tick g) < unat (tx_ma_tick g) + 750" "unat (tx_st_tick g) \<le> T"
    "15 dvd (unat (tx_mi_tick g) - unat (tx_ma_tick g))"
    "15 * unat (tx_mi_wheel g) \<le> unat (tx_mi_tick g)" "750 * unat (tx_ma_wheel g) \<le> unat (tx_ma_tick g)"
    "T + 15 \<le> 2^31"
  using assms unfolding ring_ok_def by blast+

text \<open>\<open>tx_timer_reset\<close> files a timer that is not overdue where it belongs.\<close>

lemma timer_slot_filed:
  assumes ok: "ring_ok g T" and D: "T \<le> unat iv"
  shows "filed g (timer_slot r g iv) (unat iv)" and "timer_slot r g iv \<in> heads_of r"
    and "head_ring (timer_slot r g iv) = r"
proof -
  note R = ring_okD [OF ok]
  let ?D = "unat iv" and ?mi = "unat (tx_mi_tick g)" and ?ma = "unat (tx_ma_tick g)"
  define i0 where "i0 = ((ucast iv :: u64) - tx_mi_tick g) div of_nat MIN_TIME_OUT"
  define i where "i = (if i0 = 0 then 1 else i0)"
  define j where "j = ((ucast iv :: u64) - tx_ma_tick g) div of_nat MIN_MA_TIMER"
  have i0: "unat i0 = (?D - ?mi) div 15"
    unfolding i0_def using u64_div [of "tx_mi_tick g" iv 15] R D by (simp add: wheel_sizes)
  then have i: "unat i = max 1 ((?D - ?mi) div 15)"
    by (auto simp: i_def unat_eq_zero) (metis One_nat_def Suc_leI max.absorb2 neq0_conv unat_eq_zero)
  have j: "unat j = (?D - ?ma) div 750"
    unfolding j_def using u64_div [of "tx_ma_tick g" iv 750] R D by (simp add: wheel_sizes)
  have slot: "timer_slot r g iv = (if i < of_nat MAX_MI_WHEEL
      then MiTimers r (unat ((tx_mi_wheel g + i) mod of_nat MAX_MI_WHEEL))
      else if j < of_nat MAX_MA_WHEEL then MaTimers r (unat ((tx_ma_wheel g + j) mod of_nat MAX_MA_WHEEL))
      else StTimers r)"
    by (simp add: timer_slot_def Let_def i_def i0_def j_def)
  have mw: "unat (tx_mi_wheel g) < 2^32" "unat (tx_ma_wheel g) < 2^32" using R by auto
  consider (mi) "unat i < 50" | (ma) "50 \<le> unat i" "unat j < 60" | (st) "50 \<le> unat i" "60 \<le> unat j" by linarith
  then have "filed g (timer_slot r g iv) ?D \<and> timer_slot r g iv \<in> heads_of r \<and> head_ring (timer_slot r g iv) = r"
  proof cases
    case mi
    have w: "unat ((tx_mi_wheel g + i) mod 50) = (unat (tx_mi_wheel g) + unat i) mod 50"
      using u64_wheel [of "tx_mi_wheel g" i 50] mi mw by simp
    have s: "timer_slot r g iv = MiTimers r ((unat (tx_mi_wheel g) + unat i) mod 50)"
      using mi w u64_less [of 50 i] by (simp add: slot wheel_sizes)
    have "mi_ok g ((unat (tx_mi_wheel g) + unat i) mod 50) ?D"
      unfolding mi_ok_def using mi R D i by (intro exI [of _ "unat i"]) (auto simp: max_def split: if_splits)
    then show ?thesis by (simp add: s heads_of_def)
  next
    case ma
    have w: "unat ((tx_ma_wheel g + j) mod 60) = (unat (tx_ma_wheel g) + unat j) mod 60"
      using u64_wheel [of "tx_ma_wheel g" j 60] ma mw by simp
    have s: "timer_slot r g iv = MaTimers r ((unat (tx_ma_wheel g) + unat j) mod 60)"
      using ma w u64_less [of 50 i] u64_less [of 60 j] by (simp add: slot wheel_sizes)
    have "750 \<le> ?D - ?ma" using ma(1) i R by (auto simp: max_def split: if_splits)
    then have "ma_ok g ((unat (tx_ma_wheel g) + unat j) mod 60) ?D"
      unfolding ma_ok_def using ma R D j by (intro exI [of _ "unat j"]) auto
    then show ?thesis by (simp add: s heads_of_def)
  next
    case st
    have s: "timer_slot r g iv = StTimers r"
      using st u64_less [of 50 i] u64_less [of 60 j] by (simp add: slot wheel_sizes)
    have "st_ok g ?D" unfolding st_ok_def using st(2) j R D by linarith
    then show ?thesis by (simp add: s heads_of_def)
  qed
  then show "filed g (timer_slot r g iv) (unat iv)" "timer_slot r g iv \<in> heads_of r"
    "head_ring (timer_slot r g iv) = r" by auto
qed

section \<open>The invariant of a ring\<close>

text \<open>
  \<open>TM\<close> is the set of initialised timers and \<open>W\<close> the family of lists. \<open>X\<close> are timers that may be
  misfiled for the moment: those of a slot that has come up and is being drained.
\<close>

definition wheel_inv ::
    "timer_p set \<Rightarrow> ring_p \<Rightarrow> timer_p set \<Rightarrow> tx_mem \<Rightarrow> (timerq_p \<rightharpoonup> timer_p list) \<Rightarrow> bool" where
  "wheel_inv TM r X s W \<longleftrightarrow>
     list_rep (mq s) W \<and> heads_of r \<subseteq> dom W \<and>
     (\<forall>h m. on_list W h m \<longrightarrow> m \<in> TM \<and> head_ring h = tx_ring (timers s m) \<and>
        (head_ring h = r \<longrightarrow> h \<in> heads_of r \<and> deadline s m < 2^31)) \<and>
     (\<forall>m\<in>TM. timer_idle s m \<longleftrightarrow> unlinked W m) \<and>
     (\<forall>h m. on_list W h m \<longrightarrow> head_ring h = r \<longrightarrow> m \<notin> X \<longrightarrow> filed (rings s r) h (deadline s m))"

lemma wheel_invD:
  assumes "wheel_inv TM r X s W"
  shows "list_rep (mq s) W" and "heads_of r \<subseteq> dom W"
    and "\<And>h m. on_list W h m \<Longrightarrow> m \<in> TM \<and> head_ring h = tx_ring (timers s m)"
    and "\<And>h m. on_list W h m \<Longrightarrow> head_ring h = r \<Longrightarrow> h \<in> heads_of r \<and> deadline s m < 2^31"
    and "\<And>m. m \<in> TM \<Longrightarrow> timer_idle s m \<longleftrightarrow> unlinked W m"
    and "\<And>h m. on_list W h m \<Longrightarrow> head_ring h = r \<Longrightarrow> m \<notin> X \<Longrightarrow> filed (rings s r) h (deadline s m)"
  using assms unfolding wheel_inv_def by blast+

lemma wheel_inv_weaken: "wheel_inv TM r X s W \<Longrightarrow> X \<subseteq> Y \<Longrightarrow> wheel_inv TM r Y s W"
  unfolding wheel_inv_def by blast

text \<open>The fields the invariant reads: everything else may change.\<close>

lemma wheel_inv_frame:
  assumes "wheel_inv TM r X s W" and "mq s' = mq s" and "timers s' = timers s" and "rings s' r = rings s r"
  shows "wheel_inv TM r X s' W"
  using assms unfolding wheel_inv_def timer_idle_def by simp

lemma wheel_inv_remove:
  assumes inv: "wheel_inv TM r X s W" and m: "m \<in> TM" "\<not> timer_idle s m"
    and mq: "mq s' = LIST_REMOVE m (mq s)" and rings: "rings s' r = rings s r"
    and idle: "timer_idle s' m" and own: "tx_ring (timers s' m) = tx_ring (timers s m)"
    and same: "\<And>n. n \<noteq> m \<Longrightarrow> timers s' n = timers s n"
  shows "wheel_inv TM r X s' (q_remove m W)"
proof -
  note D = wheel_invD [OF inv]
  have link: "linked W m" using D(5) m by (auto simp: linked_def)
  have "list_rep (mq s') (q_remove m W)" unfolding mq by (rule tq.unlink [OF D(1) link])
  moreover have "heads_of r \<subseteq> dom (q_remove m W)" using D(2) by simp
  moreover have "timer_idle s' n \<longleftrightarrow> unlinked (q_remove m W) n" if "n \<in> TM" for n
    using D(5) [OF that] idle same [of n] by (cases "n = m") (auto simp: timer_idle_def)
  ultimately show ?thesis
    unfolding wheel_inv_def using D(3,4,6) same by (auto simp: rings)
qed

lemma wheel_inv_insert:
  assumes inv: "wheel_inv TM r X s W" and m: "m \<in> TM" "timer_idle s m"
    and h: "h \<in> heads_of r" "head_ring h = r" and own: "tx_ring (timers s' m) = r"
    and mq: "mq s' = LIST_INSERT_HEAD h m (mq s)" and rings: "rings s' r = rings s r"
    and busy: "\<not> timer_idle s' m" and dl: "deadline s' m < 2^31" "filed (rings s r) h (deadline s' m)"
    and same: "\<And>n. n \<noteq> m \<Longrightarrow> timers s' n = timers s n"
  shows "wheel_inv TM r (X - {m}) s' (q_head h m W)"
proof -
  note D = wheel_invD [OF inv]
  have free: "unlinked W m" using D(5) m by blast
  have dom: "h \<in> dom W" using D(2) h by blast
  have off: "\<not> on_list W g m" for g using free by (auto simp: unlinked_on_list)
  have "list_rep (mq s') (q_head h m W)" unfolding mq by (rule tq.ihead [OF D(1) dom free])
  moreover have "heads_of r \<subseteq> dom (q_head h m W)" using D(2) by simp
  moreover have "timer_idle s' n \<longleftrightarrow> unlinked (q_head h m W) n" if "n \<in> TM" for n
    using D(5) [OF that] busy same [of n] dom by (cases "n = m") (auto simp: timer_idle_def unlinked_on_list)
  moreover have "n \<in> TM \<and> head_ring g = tx_ring (timers s' n) \<and>
      (head_ring g = r \<longrightarrow> g \<in> heads_of r \<and> deadline s' n < 2^31)" if "on_list (q_head h m W) g n" for g n
    using that D(3,4) [of g n] off same [of n] m(1) h own dl by (cases "n = m") auto
  moreover have "filed (rings s' r) g (deadline s' n)"
    if "on_list (q_head h m W) g n" "head_ring g = r" "n \<notin> X - {m}" for g n
    using that D(6) [of g n] off same [of n] dl by (cases "n = m") (auto simp: rings)
  ultimately show ?thesis unfolding wheel_inv_def by blast
qed

section \<open>Operations on one timer\<close>

lemma reset_idle_reads:
  fixes u :: u32
  assumes "timer_idle s m"
  defines "s' \<equiv> tx_timer_reset m u s"
  shows "mq s' = LIST_INSERT_HEAD (timer_slot (tx_ring (timers s m)) (rings s (tx_ring (timers s m)))
      (tx_ticks s + u)) m (mq s)"
    and "\<not> timer_idle s' m" and "interval (timers s' m) = tx_ticks s + u"
    and "tx_ring (timers s' m) = tx_ring (timers s m)" and "timer_task (timers s' m) = timer_task (timers s m)"
    and "n \<noteq> m \<Longrightarrow> timers s' n = timers s n"
    and "rings s' = rings s" and "tx_ticks s' = tx_ticks s" and "tasks s' = tasks s" and "loops s' = loops s"
    and "tq s' = tq s" and "ring_live s' = ring_live s"
  using assms(1) unfolding s'_def
  by (auto simp: tx_timer_reset.simps timer_idle_def upd_timer_def on_mq_def Let_def flags)

lemma reset_pending:
  assumes "\<not> timer_idle s m"
  shows "tx_timer_reset m u s = tx_timer_reset m u
    (upd_timer m (\<lambda>t. t\<lparr>timer_flags := timer_flags t OR TIMER_IDLE\<rparr>) (on_mq (LIST_REMOVE m) s))"
  using assms by (subst tx_timer_reset.simps) (simp add: timer_idle_def)

lemma wheel_inv_reset_idle:
  assumes inv: "wheel_inv TM r X s W" and m: "m \<in> TM" "timer_idle s m" "tx_ring (timers s m) = r"
    and ok: "ring_ok (rings s r) (unat (tx_ticks s))" and u: "unat (tx_ticks s) + unat u < 2^31"
  shows "wheel_inv TM r (X - {m}) (tx_timer_reset m u s)
    (q_head (timer_slot r (rings s r) (tx_ticks s + u)) m W)"
proof -
  have add: "unat (tx_ticks s + u) = unat (tx_ticks s) + unat u"
    using u by (subst unat_add_lem [symmetric]) simp
  note F = timer_slot_filed [OF ok, of "tx_ticks s + u" r]
  show ?thesis
    by (rule wheel_inv_insert [OF inv m(1,2)]) (use F u m(3) in \<open>simp_all add: reset_idle_reads [OF m(2)] add\<close>)
qed

section \<open>Draining a list\<close>

text \<open>
  What processing timers at clock value \<open>T\<close> may do: a pending timer either is activated, and then its
  deadline is less than 15 ms ahead and its task is runnable, or stays pending with its deadline; idle
  timers and the links between timers, tasks and rings stay as they are.
\<close>

definition settled :: "nat \<Rightarrow> tx_mem \<Rightarrow> tx_mem \<Rightarrow> timer_p \<Rightarrow> bool" where
  "settled T s s' m \<longleftrightarrow>
     timer_task (timers s' m) = timer_task (timers s m) \<and> tx_ring (timers s' m) = tx_ring (timers s m) \<and>
     (timer_idle s m \<longrightarrow> timers s' m = timers s m) \<and>
     (\<not> timer_idle s m \<longrightarrow>
        timer_idle s' m \<and> deadline s m < T + 15 \<and>
          (\<forall>t. timer_task (timers s m) = Some t \<longrightarrow> stopped s (loop_of s t) \<or> busy s' t) \<or>
        \<not> timer_idle s' m \<and> deadline s' m = deadline s m)"

definition polled :: "nat \<Rightarrow> tx_mem \<Rightarrow> tx_mem \<Rightarrow> bool" where
  "polled T s s' \<longleftrightarrow>
     (\<forall>t. busy s t \<longrightarrow> busy s' t) \<and> (\<forall>t. loop_of s' t = loop_of s t) \<and>
     (\<forall>up. stopped s' up = stopped s up) \<and>
     (\<forall>t. stopped s (loop_of s t) \<longrightarrow> idle s' t = idle s t) \<and> (\<forall>m. settled T s s' m)"

lemma polled_refl [simp]: "polled T s s"
  by (simp add: polled_def settled_def)

lemma settled_trans:
  assumes "settled T s s1 m" and "settled T s1 s2 m" and "\<And>t. busy s1 t \<Longrightarrow> busy s2 t"
    and "\<And>t. loop_of s1 t = loop_of s t" and "\<And>up. stopped s1 up = stopped s up"
  shows "settled T s s2 m"
proof (cases "timer_idle s m")
  case True
  then have "timers s1 m = timers s m" using assms(1) by (simp add: settled_def)
  moreover from this have "timers s2 m = timers s1 m" using assms(2) True by (simp add: settled_def timer_idle_def)
  ultimately show ?thesis using True by (simp add: settled_def)
next
  case False
  show ?thesis
  proof (cases "timer_idle s1 m")
    case True
    then have "timers s2 m = timers s1 m" using assms(2) by (simp add: settled_def)
    then show ?thesis using assms(1,3) True False by (auto simp: settled_def timer_idle_def)
  next
    case pend: False
    then show ?thesis using assms False by (auto simp: settled_def)
  qed
qed

lemma polled_trans: "polled T s s1 \<Longrightarrow> polled T s1 s2 \<Longrightarrow> polled T s s2"
  unfolding polled_def by (intro conjI allI settled_trans [of T s s1 _ s2]) auto

lemma polled_frame:
  "timers s' = timers s \<Longrightarrow> tasks s' = tasks s \<Longrightarrow> (\<And>up. tx_stop (loops s' up) = tx_stop (loops s up)) \<Longrightarrow>
     polled T s s'"
  by (simp add: polled_def settled_def timer_idle_def task_reads)

lemma active_stopped: "stopped s (loop_of s t) \<Longrightarrow> idle (tx_task_active u r s) t = idle s t"
proof (cases u)
  case (Some v)
  assume st: "stopped s (loop_of s t)"
  show ?thesis
  proof (cases "stopped s (loop_of s v) \<or> busy s v")
    case False
    then have "t \<noteq> v" using st by blast
    then show ?thesis using Some tx_task_active_other [of t v r s] by (simp add: idle_def)
  qed (simp add: Some tx_task_active_skip)
qed simp

text \<open>One timer of the list being drained.\<close>

lemma timer_expire_inv:
  assumes inv: "wheel_inv TM r X s W" and on: "on_list W h c" "head_ring h = r"
    and ok: "ring_ok (rings s r) (unat (tx_ticks s))"
  defines "s' \<equiv> timer_expire (tx_ticks s) c s"
  shows "\<exists>W'. wheel_inv TM r (X - {c}) s' W' \<and> (\<forall>g ys. W g = Some ys \<longrightarrow> (\<exists>zs. W' g = Some (zs @ removeAll c ys)))"
    and "polled (unat (tx_ticks s)) s s'" and "rings s' = rings s" and "tx_ticks s' = tx_ticks s"
    and "timer_idle s' c \<longleftrightarrow> deadline s c < unat (tx_ticks s) + 15" and "ring_live s' = ring_live s"
proof -
  note D = wheel_invD [OF inv]
  let ?T = "unat (tx_ticks s)" and ?W = "q_remove c W"
  define s2 where "s2 = upd_timer c (\<lambda>m. m\<lparr>timer_flags := timer_flags m OR TIMER_IDLE\<rparr>) (on_mq (LIST_REMOVE c) s)"
  have c: "c \<in> TM" "tx_ring (timers s c) = r" using D(3) on by auto
  have dl: "deadline s c < 2^31" using D(4) on by blast
  have pend: "\<not> timer_idle s c" using D(5) [OF c(1)] on by (auto simp: unlinked_on_list)
  have R: "mq s2 = LIST_REMOVE c (mq s)" "rings s2 = rings s" "tx_ticks s2 = tx_ticks s" "timer_idle s2 c"
    "timer_task (timers s2 c) = timer_task (timers s c)" "tx_ring (timers s2 c) = r"
    "interval (timers s2 c) = interval (timers s c)" "tasks s2 = tasks s" "loops s2 = loops s" "ring_live s2 = ring_live s"
    using c(2) by (simp_all add: s2_def upd_timer_def on_mq_def timer_idle_def flags)
  have other: "timers s2 n = timers s n" if "n \<noteq> c" for n using that by (simp add: s2_def upd_timer_def on_mq_def)
  have inv2: "wheel_inv TM r X s2 ?W"
    by (rule wheel_inv_remove [OF inv c(1) pend]) (simp_all add: R other c(2))
  have limit: "?T + 15 \<le> 2^31" using ring_okD(8) [OF ok] .
  have due: "sint (interval (timers s c) - tx_ticks s - of_nat MIN_TIME_OUT) < 0 \<longleftrightarrow> deadline s c < ?T + 15"
    using expire_due [of "interval (timers s c)" "tx_ticks s" 15] dl limit by (simp add: wheel_sizes)
  have s': "s' = (if deadline s c < ?T + 15 then tx_task_active (timer_task (timers s c)) (VTimer c) s2
      else tx_timer_reset c (interval (timers s c) - tx_ticks s) s2)"
    unfolding s'_def timer_expire_def Let_def using due
    by (simp add: s2_def [symmetric] R(5,7)) (simp add: on_mq_def)
  have "(\<exists>W'. wheel_inv TM r (X - {c}) s' W' \<and> (\<forall>g ys. W g = Some ys \<longrightarrow> (\<exists>zs. W' g = Some (zs @ removeAll c ys)))) \<and>
    polled ?T s s' \<and> rings s' = rings s \<and> tx_ticks s' = tx_ticks s \<and>
    (timer_idle s' c \<longleftrightarrow> deadline s c < ?T + 15) \<and> ring_live s' = ring_live s"
  proof (cases "deadline s c < ?T + 15")
    case True
    have e: "s' = tx_task_active (timer_task (timers s c)) (VTimer c) s2" using s' True by simp
    have "wheel_inv TM r X s' ?W" by (rule wheel_inv_frame [OF inv2]) (simp_all add: e)
    then have w: "wheel_inv TM r (X - {c}) s' ?W" unfolding wheel_inv_def by auto
    have lists: "\<exists>zs. ?W g = Some (zs @ removeAll c ys)" if "W g = Some ys" for g ys
      using that by (intro exI [of _ "[]"]) simp
    have i: "timer_idle s' c" using R(4) by (simp add: e timer_idle_def)
    have st: "settled ?T s s' m" for m
    proof (cases "m = c")
      case True
      have "stopped s (loop_of s t) \<or> busy s' t" if "timer_task (timers s c) = Some t" for t
        using active_busy(2) [of s2 t "VTimer c"] that unfolding e by (simp add: stopped_def R)
      then show ?thesis using i pend True R(5,6) c(2) \<open>deadline s c < ?T + 15\<close> by (simp add: settled_def e)
    next
      case False
      then show ?thesis using other [OF False] by (simp add: settled_def e timer_idle_def)
    qed
    have "busy s' t" if "busy s t" for t
      unfolding e by (rule active_busy(1)) (use that in \<open>simp add: busy_def R\<close>)
    moreover have "idle s' t = idle s t" if "stopped s (loop_of s t)" for t
      using active_stopped [of s2 t] that unfolding e by (simp add: stopped_def idle_def R)
    ultimately have p: "polled ?T s s'" using st by (simp add: polled_def e R stopped_def)
    with w lists i True show ?thesis by (auto simp: e R)
  next
    case False
    let ?u = "interval (timers s c) - tx_ticks s"
    have e: "s' = tx_timer_reset c ?u s2" using s' False by simp
    have u: "unat ?u = deadline s c - ?T" using False by (intro unat_sub) (simp add: word_le_nat_alt)
    have w: "wheel_inv TM r (X - {c}) s' (q_head (timer_slot r (rings s2 r) (tx_ticks s2 + ?u)) c ?W)"
      unfolding e using dl False
      by (intro wheel_inv_reset_idle [OF inv2 c(1) R(4,6)]) (simp_all add: R ok u)
    have lists: "\<exists>zs. q_head (timer_slot r (rings s2 r) (tx_ticks s2 + ?u)) c ?W g = Some (zs @ removeAll c ys)"
      if "W g = Some ys" for g ys
      using that by (cases "g = timer_slot r (rings s2 r) (tx_ticks s2 + ?u)")
        (auto simp: q_head_def intro: exI [of _ "[c]"] exI [of _ "[]"])
    note Z = reset_idle_reads [OF R(4), where u = ?u, folded e]
    have oth: "timers s' n = timers s n" if "n \<noteq> c" for n using Z(6) [OF that] other [OF that] by simp
    have iv: "interval (timers s' c) = interval (timers s c)" by (simp add: Z R)
    have "settled ?T s s' m" for m
      using oth [of m] iv Z(2,4,5) R(5,6) c(2) pend by (cases "m = c") (simp_all add: settled_def timer_idle_def)
    then have p: "polled ?T s s'" by (simp add: polled_def Z R task_reads)
    with w lists False Z show ?thesis by (auto simp: R)
  qed
  then show "\<exists>W'. wheel_inv TM r (X - {c}) s' W' \<and> (\<forall>g ys. W g = Some ys \<longrightarrow> (\<exists>zs. W' g = Some (zs @ removeAll c ys)))"
    "polled ?T s s'" "rings s' = rings s" "tx_ticks s' = tx_ticks s"
    "timer_idle s' c \<longleftrightarrow> deadline s c < ?T + 15" "ring_live s' = ring_live s" by auto
qed

text \<open>A whole list: \<open>LIST_INIT\<close> on the head, then one timer after the other.\<close>

lemma timer_drain_list_inv:
  assumes inv: "wheel_inv TM r (set xs) s W" and at: "W h = Some xs" "head_ring h = r"
    and ok: "ring_ok (rings s r) (unat (tx_ticks s))"
  shows "\<exists>s' W'. timer_drain_list (tx_ticks s) h s = Some s' \<and> wheel_inv TM r {} s' W' \<and>
    polled (unat (tx_ticks s)) s s' \<and> rings s' = rings s \<and> tx_ticks s' = tx_ticks s \<and> ring_live s' = ring_live s"
proof -
  note D = wheel_invD [OF inv]
  let ?ticks = "tx_ticks s" and ?nx = "\<lambda>s n. le_next (mq s) n"
  define I where "I rest st \<longleftrightarrow> (\<exists>W' zs. wheel_inv TM r (set rest) st W' \<and> W' h = Some (zs @ rest) \<and>
      polled (unat ?ticks) s st \<and> rings st = rings s \<and> tx_ticks st = ?ticks \<and> ring_live st = ring_live s)" for rest st
  have step: "?nx st c = list_head rest \<and> I rest (timer_expire ?ticks c st)" if Ic: "I (c # rest) st" for c rest st
  proof -
    from Ic obtain W' zs where w: "wheel_inv TM r (set (c # rest)) st W'" "W' h = Some (zs @ c # rest)"
      "polled (unat ?ticks) s st" "rings st = rings s" "tx_ticks st = ?ticks" "ring_live st = ring_live s" unfolding I_def by blast
    have on: "on_list W' h c" using w(2) by (auto simp: on_list_def)
    have ok': "ring_ok (rings st r) (unat (tx_ticks st))" using ok w(4,5) by simp
    note E = timer_expire_inv [OF w(1) on at(2) ok', unfolded w(5)]
    obtain W2 where W2: "wheel_inv TM r (set (c # rest) - {c}) (timer_expire ?ticks c st) W2"
      "\<And>g ys. W' g = Some ys \<Longrightarrow> \<exists>us. W2 g = Some (us @ removeAll c ys)" using E(1) by blast
    have dist: "distinct (zs @ c # rest)" by (rule tq.distinct_list [OF wheel_invD(1) [OF w(1)] w(2)])
    then have "set (c # rest) - {c} = set rest" "removeAll c (zs @ c # rest) = zs @ rest"
      by (auto simp: removeAll_middle)
    moreover from this obtain us where "W2 h = Some (us @ zs @ rest)" using W2(2) [OF w(2)] by auto
    ultimately have "I rest (timer_expire ?ticks c st)"
      unfolding I_def using W2(1) polled_trans [OF w(3) E(2)] E(3,4,6) w(4,6)
      by (intro exI [of _ W2] exI [of _ "us @ zs"]) simp
    moreover have "?nx st c = list_head rest" using tq.succ [OF wheel_invD(1) [OF w(1)] w(2)] by simp
    ultimately show ?thesis by simp
  qed
  have start: "I xs s" unfolding I_def using inv at by (intro exI [of _ W] exI [of _ "[]"]) simp
  have first: "lh_first (mq s) h = list_head xs" by (rule tq.first [OF D(1) at(1)])
  have fin: "I [] st \<Longrightarrow> timer_drain_list ?ticks h s = Some st \<Longrightarrow> ?thesis" for st
    unfolding I_def by auto
  show ?thesis
  proof (cases xs)
    case Nil
    let ?st = "on_mq (LIST_INIT h) s"
    have "LIST_INIT h (mq s) = mq s" using first Nil by (simp add: LIST_INIT_def fun_upd_idem)
    then have "?st = s" by (simp add: on_mq_def)
    moreover have "timer_drain_list ?ticks h s = Some ?st"
      using first Nil by (simp add: timer_drain_list_def list_foreach_safe.simps)
    ultimately show ?thesis using fin [of s] start Nil by simp
  next
    case (Cons c rest)
    have eq: "timer_expire ?ticks c (on_mq (LIST_INIT h) s) = timer_expire ?ticks c s"
      using tq.init_unlink [OF D(1), of h c rest] at Cons by (simp add: timer_expire_def on_mq_def)
    have "timer_drain_list ?ticks h s =
        list_foreach_safe ?nx (timer_expire ?ticks) (list_head rest) (timer_expire ?ticks c s)"
      using first step [of c rest s] start Cons eq
      by (simp add: timer_drain_list_def list_foreach_safe.simps [of _ _ "Some c"] on_mq_def LIST_INIT_def)
    moreover have "I rest (timer_expire ?ticks c s)" using step start Cons by blast
    note list_foreach_safe_fold [where I = I and nx = ?nx, OF step this]
    ultimately show ?thesis using fin by simp
  qed
qed

section \<open>The wheels turn\<close>

lemma upd_ring_reads [simp]:
  "rings (upd_ring r f s) r = f (rings s r)" "mq (upd_ring r f s) = mq s"
  "timers (upd_ring r f s) = timers s" "tasks (upd_ring r f s) = tasks s" "loops (upd_ring r f s) = loops s"
  "tx_ticks (upd_ring r f s) = tx_ticks s" "tq (upd_ring r f s) = tq s" "ring_live (upd_ring r f s) = ring_live s"
  by (simp_all add: upd_ring_def)

lemma u64_add: "unat (x :: u64) + k < 2^32 \<Longrightarrow> unat (x + of_nat k) = unat x + k"
  by (subst unat_add_lem [THEN iffD1]) (simp_all add: unat_of_nat_small)

text \<open>After a step of a wheel only the slot that has come up holds timers that are not where they belong.\<close>

definition mi_step :: "tx_timer_ring \<Rightarrow> tx_timer_ring" where
  "mi_step g = g\<lparr>tx_mi_tick := tx_mi_tick g + of_nat MIN_TIME_OUT, tx_mi_wheel := tx_mi_wheel g + 1\<rparr>"

definition ma_step :: "tx_timer_ring \<Rightarrow> tx_timer_ring" where
  "ma_step g = g\<lparr>tx_ma_tick := tx_ma_tick g + of_nat MIN_MA_TIMER, tx_ma_wheel := tx_ma_wheel g + 1\<rparr>"

lemma mi_step_reads:
  assumes "ring_ok g T" and "unat (tx_mi_tick g) + 15 \<le> T"
  shows "unat (tx_mi_tick (mi_step g)) = unat (tx_mi_tick g) + 15"
    and "unat (tx_mi_wheel (mi_step g)) = unat (tx_mi_wheel g) + 1"
    and "tx_ma_tick (mi_step g) = tx_ma_tick g" "tx_ma_wheel (mi_step g) = tx_ma_wheel g"
    "tx_st_tick (mi_step g) = tx_st_tick g"
  using ring_okD [OF assms(1)] assms(2) u64_add [of "tx_mi_tick g" 15] u64_add [of "tx_mi_wheel g" 1]
  by (simp_all add: mi_step_def wheel_sizes)

lemma ma_step_reads:
  assumes "ring_ok g T" and "unat (tx_ma_tick g) + 750 \<le> T"
  shows "unat (tx_ma_tick (ma_step g)) = unat (tx_ma_tick g) + 750"
    and "unat (tx_ma_wheel (ma_step g)) = unat (tx_ma_wheel g) + 1"
    and "tx_mi_tick (ma_step g) = tx_mi_tick g" "tx_mi_wheel (ma_step g) = tx_mi_wheel g"
    "tx_st_tick (ma_step g) = tx_st_tick g"
  using ring_okD [OF assms(1)] assms(2) u64_add [of "tx_ma_tick g" 750] u64_add [of "tx_ma_wheel g" 1]
  by (simp_all add: ma_step_def wheel_sizes)

lemma mi_step_filed:
  assumes ok: "ring_ok g T" and le: "unat (tx_mi_tick g) + 15 \<le> T"
    and f: "filed g h D" and ne: "h \<noteq> MiTimers (head_ring h) ((unat (tx_mi_wheel g) + 1) mod 50)"
  shows "filed (mi_step g) h D"
proof (cases h)
  case (MiTimers r w)
  then obtain d where d: "1 \<le> d" "d < 50" "w = (unat (tx_mi_wheel g) + d) mod 50"
    "D < unat (tx_mi_tick g) + 15 * d + 15" "d = 1 \<or> unat (tx_mi_tick g) + 15 * d \<le> D"
    using f by (auto simp: mi_ok_def)
  have "d \<noteq> 1" using ne d(3) MiTimers by auto
  then obtain d' where "d = Suc d'" "1 \<le> d'" using d(1) by (cases d) auto
  then have "mi_ok (mi_step g) w D"
    unfolding mi_ok_def mi_step_reads [OF ok le] using d by (intro exI [of _ d']) auto
  then show ?thesis using MiTimers by simp
qed (use f in \<open>simp_all add: ma_ok_def st_ok_def mi_step_reads [OF ok le]\<close>)

lemma ma_step_filed:
  assumes ok: "ring_ok g T" and le: "unat (tx_ma_tick g) + 750 \<le> T"
    and f: "filed g h D" and ne: "h \<noteq> MaTimers (head_ring h) ((unat (tx_ma_wheel g) + 1) mod 60)"
  shows "filed (ma_step g) h D"
proof (cases h)
  case (MaTimers r w)
  then obtain e where e: "1 \<le> e" "e < 60" "w = (unat (tx_ma_wheel g) + e) mod 60"
    "unat (tx_ma_tick g) + 750 * e \<le> D" "D < unat (tx_ma_tick g) + 750 * e + 750"
    using f by (auto simp: ma_ok_def)
  have "e \<noteq> 1" using ne e(3) MaTimers by auto
  then obtain e' where "e = Suc e'" "1 \<le> e'" using e(1) by (cases e) auto
  then have "ma_ok (ma_step g) w D"
    unfolding ma_ok_def ma_step_reads [OF ok le] using e by (intro exI [of _ e']) auto
  then show ?thesis using MaTimers by simp
qed (use f in \<open>simp_all add: mi_ok_def st_ok_def ma_step_reads [OF ok le]\<close>)

lemma mi_step_ok:
  assumes ok: "ring_ok g T" and le: "unat (tx_mi_tick g) + 15 \<le> T"
  shows "ring_ok (mi_step g) T"
proof -
  have "15 dvd (unat (tx_mi_tick g) + 15 - unat (tx_ma_tick g))"
    using ring_okD(1,5) [OF ok] by (metis Nat.add_diff_assoc2 dvd_add_triv_right_iff)
  then show ?thesis using ring_okD [OF ok] le by (simp add: ring_ok_def mi_step_reads [OF ok le])
qed

lemma ma_step_ok:
  assumes ok: "ring_ok g T" and le: "unat (tx_ma_tick g) + 750 \<le> T" and up: "T < unat (tx_mi_tick g) + 15"
  shows "ring_ok (ma_step g) T"
proof -
  note R = ring_okD [OF ok]
  obtain k where k: "unat (tx_mi_tick g) - unat (tx_ma_tick g) = 15 * k" using R(5) by (auto simp: dvd_def)
  then have "50 \<le> k" using le up by linarith
  then have le2: "unat (tx_ma_tick g) + 750 \<le> unat (tx_mi_tick g)" using k by linarith
  have "unat (tx_mi_tick g) - (unat (tx_ma_tick g) + 750) = 15 * (k - 50)" using k le2 by linarith
  then show ?thesis using R le2 le by (simp add: ring_ok_def ma_step_reads [OF ok le])
qed

text \<open>A slot that has come up: its timers are the exceptions while it is drained.\<close>

lemma wheel_inv_turn:
  assumes inv: "wheel_inv TM r {} s W" and h: "h \<in> heads_of r" "head_ring h = r"
    and g: "\<And>k D. k \<in> heads_of r \<Longrightarrow> k \<noteq> h \<Longrightarrow> filed (rings s r) k D \<Longrightarrow> filed (f (rings s r)) k D"
  obtains xs where "W h = Some xs" and "wheel_inv TM r (set xs) (upd_ring r f s) W"
proof -
  note D = wheel_invD [OF inv]
  obtain xs where xs: "W h = Some xs" using D(2) h(1) by blast
  have "filed (f (rings s r)) k (deadline s m)" if "on_list W k m" "head_ring k = r" "m \<notin> set xs" for k m
  proof -
    have "k \<noteq> h" using that xs by (auto simp: on_list_def)
    then show ?thesis using g D(4,6) that by blast
  qed
  then have "wheel_inv TM r (set xs) (upd_ring r f s) W"
    using D unfolding wheel_inv_def timer_idle_def by simp
  with xs show thesis by (rule that)
qed

lemma timer_mi_loop_inv:
  assumes "wheel_inv TM r {} s W" and "ring_ok (rings s r) (unat (tx_ticks s))"
  shows "\<exists>s' W'. timer_mi_loop r (tx_ticks s) s = Some s' \<and> wheel_inv TM r {} s' W' \<and>
    polled (unat (tx_ticks s)) s s' \<and> tx_ticks s' = tx_ticks s \<and> ring_live s' = ring_live s \<and> ring_ok (rings s' r) (unat (tx_ticks s)) \<and>
    unat (tx_ticks s) < unat (tx_mi_tick (rings s' r)) + 15"
  using assms
proof (induction "unat (tx_ticks s) - unat (tx_mi_tick (rings s r))" arbitrary: s W rule: less_induct)
  case less
  let ?g = "rings s r" and ?T = "unat (tx_ticks s)"
  note R = ring_okD [OF less.prems(2)]
  have test: "c_int ((ucast (tx_ticks s) :: u64) - tx_mi_tick ?g - of_nat MIN_TIME_OUT) \<ge> 0 \<longleftrightarrow>
      unat (tx_mi_tick ?g) + 15 \<le> ?T"
    using tick_due [of "tx_mi_tick ?g" "tx_ticks s" 15] R by (simp add: wheel_sizes)
  show ?case
  proof (cases "unat (tx_mi_tick ?g) + 15 \<le> ?T")
    case False
    then have "timer_mi_loop r (tx_ticks s) s = Some s" using test by (subst timer_mi_loop.simps) simp
    then show ?thesis using less.prems False by auto
  next
    case True
    note S = mi_step_reads [OF less.prems(2) True] and ok1 = mi_step_ok [OF less.prems(2) True]
    let ?s1 = "upd_ring r mi_step s" and ?w = "(unat (tx_mi_wheel ?g) + 1) mod 50"
    have h: "MiTimers r ?w \<in> heads_of r" "head_ring (MiTimers r ?w) = r" by (simp_all add: heads_of_def)
    have fl: "filed (mi_step ?g) k D" if "k \<in> heads_of r" "k \<noteq> MiTimers r ?w" "filed ?g k D" for k D
      by (rule mi_step_filed [OF less.prems(2) True that(3)]) (use that in \<open>auto simp: heads_of_def\<close>)
    obtain xs where xs: "W (MiTimers r ?w) = Some xs" "wheel_inv TM r (set xs) ?s1 W"
      by (rule wheel_inv_turn [where f = mi_step, OF less.prems(1) h fl])
    have "ring_ok (rings ?s1 r) (unat (tx_ticks ?s1))" using ok1 by simp
    from timer_drain_list_inv [OF xs(2) xs(1) h(2) this] obtain s2 W2 where
      s2: "timer_drain_list (tx_ticks s) (MiTimers r ?w) ?s1 = Some s2" "wheel_inv TM r {} s2 W2"
      "polled ?T ?s1 s2" "rings s2 = rings ?s1" "tx_ticks s2 = tx_ticks s" "ring_live s2 = ring_live ?s1" by auto
    have "unat (tx_mi_wheel (mi_step ?g) mod of_nat MAX_MI_WHEEL) = ?w"
      using S(2) by (simp add: wheel_sizes unat_mod)
    moreover have "(\<lambda>g. g\<lparr>tx_mi_tick := tx_mi_tick g + of_nat MIN_TIME_OUT, tx_mi_wheel := tx_mi_wheel g + 1\<rparr>) = mi_step"
      by (simp add: mi_step_def fun_eq_iff)
    ultimately have loop: "timer_mi_loop r (tx_ticks s) s = timer_mi_loop r (tx_ticks s) s2"
      using test True s2(1) by (subst timer_mi_loop.simps) (simp add: Let_def)
    have dec: "unat (tx_ticks s2) - unat (tx_mi_tick (rings s2 r)) < ?T - unat (tx_mi_tick ?g)"
      using True S(1) by (simp add: s2)
    have "ring_ok (rings s2 r) (unat (tx_ticks s2))" using ok1 by (simp add: s2)
    from less.hyps [OF dec s2(2) this] obtain s' W' where
      s': "timer_mi_loop r (tx_ticks s) s2 = Some s'" "wheel_inv TM r {} s' W'" "polled ?T s2 s'"
      "tx_ticks s' = tx_ticks s" "ring_live s' = ring_live s2" "ring_ok (rings s' r) ?T" "?T < unat (tx_mi_tick (rings s' r)) + 15"
      by (auto simp: s2)
    have "polled ?T s ?s1" by (rule polled_frame) simp_all
    then have "polled ?T s s'" using polled_trans s2(3) s'(3) by blast
    with s' s2(6) loop show ?thesis by auto
  qed
qed

lemma timer_ma_loop_inv:
  assumes "wheel_inv TM r {} s W" and "ring_ok (rings s r) (unat (tx_ticks s))"
    and "unat (tx_ticks s) < unat (tx_mi_tick (rings s r)) + 15"
  shows "\<exists>s' W'. timer_ma_loop r (tx_ticks s) s = Some s' \<and> wheel_inv TM r {} s' W' \<and>
    polled (unat (tx_ticks s)) s s' \<and> tx_ticks s' = tx_ticks s \<and> ring_live s' = ring_live s \<and> ring_ok (rings s' r) (unat (tx_ticks s)) \<and>
    unat (tx_ticks s) < unat (tx_mi_tick (rings s' r)) + 15 \<and>
    unat (tx_ticks s) < unat (tx_ma_tick (rings s' r)) + 750"
  using assms
proof (induction "unat (tx_ticks s) - unat (tx_ma_tick (rings s r))" arbitrary: s W rule: less_induct)
  case less
  let ?g = "rings s r" and ?T = "unat (tx_ticks s)"
  note R = ring_okD [OF less.prems(2)]
  have "unat (tx_ma_tick ?g) \<le> ?T" using R by linarith
  then have test: "c_int ((ucast (tx_ticks s) :: u64) - tx_ma_tick ?g - of_nat MIN_MA_TIMER) \<ge> 0 \<longleftrightarrow>
      unat (tx_ma_tick ?g) + 750 \<le> ?T"
    using tick_due [of "tx_ma_tick ?g" "tx_ticks s" 750] R(8) by (simp add: wheel_sizes)
  show ?case
  proof (cases "unat (tx_ma_tick ?g) + 750 \<le> ?T")
    case False
    then have "timer_ma_loop r (tx_ticks s) s = Some s" using test by (subst timer_ma_loop.simps) simp
    then show ?thesis using less.prems False by auto
  next
    case True
    note S = ma_step_reads [OF less.prems(2) True] and ok1 = ma_step_ok [OF less.prems(2) True less.prems(3)]
    let ?s1 = "upd_ring r ma_step s" and ?w = "(unat (tx_ma_wheel ?g) + 1) mod 60"
    have h: "MaTimers r ?w \<in> heads_of r" "head_ring (MaTimers r ?w) = r" by (simp_all add: heads_of_def)
    have fl: "filed (ma_step ?g) k D" if "k \<in> heads_of r" "k \<noteq> MaTimers r ?w" "filed ?g k D" for k D
      by (rule ma_step_filed [OF less.prems(2) True that(3)]) (use that in \<open>auto simp: heads_of_def\<close>)
    obtain xs where xs: "W (MaTimers r ?w) = Some xs" "wheel_inv TM r (set xs) ?s1 W"
      by (rule wheel_inv_turn [where f = ma_step, OF less.prems(1) h fl])
    have "ring_ok (rings ?s1 r) (unat (tx_ticks ?s1))" using ok1 by simp
    from timer_drain_list_inv [OF xs(2) xs(1) h(2) this] obtain s2 W2 where
      s2: "timer_drain_list (tx_ticks s) (MaTimers r ?w) ?s1 = Some s2" "wheel_inv TM r {} s2 W2"
      "polled ?T ?s1 s2" "rings s2 = rings ?s1" "tx_ticks s2 = tx_ticks s" "ring_live s2 = ring_live ?s1" by auto
    have "unat (tx_ma_wheel (ma_step ?g) mod of_nat MAX_MA_WHEEL) = ?w"
      using S(2) by (simp add: wheel_sizes unat_mod)
    moreover have "(\<lambda>g. g\<lparr>tx_ma_tick := tx_ma_tick g + of_nat MIN_MA_TIMER, tx_ma_wheel := tx_ma_wheel g + 1\<rparr>) = ma_step"
      by (simp add: ma_step_def fun_eq_iff)
    ultimately have loop: "timer_ma_loop r (tx_ticks s) s = timer_ma_loop r (tx_ticks s) s2"
      using test True s2(1) by (subst timer_ma_loop.simps) (simp add: Let_def)
    have dec: "unat (tx_ticks s2) - unat (tx_ma_tick (rings s2 r)) < ?T - unat (tx_ma_tick ?g)"
      using True S(1) by (simp add: s2)
    have "ring_ok (rings s2 r) (unat (tx_ticks s2))"
      "unat (tx_ticks s2) < unat (tx_mi_tick (rings s2 r)) + 15"
      using ok1 less.prems(3) S(3) by (simp_all add: s2)
    from less.hyps [OF dec s2(2) this] obtain s' W' where
      s': "timer_ma_loop r (tx_ticks s) s2 = Some s'" "wheel_inv TM r {} s' W'" "polled ?T s2 s'"
      "tx_ticks s' = tx_ticks s" "ring_live s' = ring_live s2" "ring_ok (rings s' r) ?T" "?T < unat (tx_mi_tick (rings s' r)) + 15"
      "?T < unat (tx_ma_tick (rings s' r)) + 750" by (auto simp: s2)
    have "polled ?T s ?s1" by (rule polled_frame) simp_all
    then have "polled ?T s s'" using polled_trans s2(3) s'(3) by blast
    with s' s2(6) loop show ?thesis by auto
  qed
qed

lemma timer_st_turn_inv:
  assumes inv: "wheel_inv TM r {} s W" and ok: "ring_ok (rings s r) (unat (tx_ticks s))"
    and up: "unat (tx_ticks s) < unat (tx_ma_tick (rings s r)) + 750"
  shows "\<exists>s' W'. timer_st_turn r (tx_ticks s) s = Some s' \<and> wheel_inv TM r {} s' W' \<and>
    polled (unat (tx_ticks s)) s s' \<and> tx_ticks s' = tx_ticks s \<and> ring_live s' = ring_live s \<and> ring_ok (rings s' r) (unat (tx_ticks s)) \<and>
    tx_mi_tick (rings s' r) = tx_mi_tick (rings s r) \<and> tx_ma_tick (rings s' r) = tx_ma_tick (rings s r) \<and>
    unat (tx_ticks s) < unat (tx_st_tick (rings s' r)) + 45000"
proof -
  let ?g = "rings s r" and ?T = "unat (tx_ticks s)"
  note R = ring_okD [OF ok]
  have test: "c_int ((ucast (tx_ticks s) :: u64) - tx_st_tick ?g - of_nat MIN_ST_TIMER) \<ge> 0 \<longleftrightarrow>
      unat (tx_st_tick ?g) + 45000 \<le> ?T"
    using tick_due [of "tx_st_tick ?g" "tx_ticks s" 45000] R(4,8) by (simp add: wheel_sizes)
  show ?thesis
  proof (cases "unat (tx_st_tick ?g) + 45000 \<le> ?T")
    case False
    then show ?thesis using inv ok test by (auto simp: timer_st_turn_def)
  next
    case True
    let ?f = "\<lambda>g. g\<lparr>tx_st_tick := ucast (tx_ticks s)\<rparr>"
    let ?s1 = "upd_ring r ?f s"
    have h: "StTimers r \<in> heads_of r" "head_ring (StTimers r) = r" by (simp_all add: heads_of_def)
    have fl: "filed (?f ?g) k D" if "k \<in> heads_of r" "k \<noteq> StTimers r" "filed ?g k D" for k D
      using that by (auto simp: heads_of_def mi_ok_def ma_ok_def)
    obtain xs where xs: "W (StTimers r) = Some xs" "wheel_inv TM r (set xs) ?s1 W"
      by (rule wheel_inv_turn [where f = ?f, OF inv h fl])
    have ok1: "ring_ok (rings ?s1 r) (unat (tx_ticks ?s1))" using R up by (simp add: ring_ok_def)
    from timer_drain_list_inv [OF xs(2) xs(1) h(2) ok1] obtain s2 W2 where
      s2: "timer_drain_list (tx_ticks s) (StTimers r) ?s1 = Some s2" "wheel_inv TM r {} s2 W2"
      "polled ?T ?s1 s2" "rings s2 = rings ?s1" "tx_ticks s2 = tx_ticks s" "ring_live s2 = ring_live ?s1" by auto
    have "polled ?T s ?s1" by (rule polled_frame) simp_all
    then have "polled ?T s s2" using polled_trans s2(3) by blast
    then show ?thesis using s2 test True ok1 by (auto simp: timer_st_turn_def)
  qed
qed

end
