(* ===== verification/TxWheel.thy ===== *)
theory TxWheel
  imports TxTimerInv TxMachine
begin

text \<open>
  The operations of \<open>tx_timer.cpp\<close> as a whole: setting, stopping and draining a timer, the polling
  callback, new rings; and what goes wrong at the edges: a clock that has wrapped and a loop that was
  stopped while timers are pending.
\<close>

definition timers_ok :: "timer_p set \<Rightarrow> ring_p \<Rightarrow> tx_mem \<Rightarrow> bool" where
  "timers_ok TM r s \<longleftrightarrow> (\<exists>W. wheel_inv TM r {} s W) \<and> ring_ok (rings s r) (unat (tx_ticks s))"

lemma timers_ok_frame:
  "timers_ok TM r s \<Longrightarrow> mq s' = mq s \<Longrightarrow> timers s' = timers s \<Longrightarrow> rings s' = rings s \<Longrightarrow>
     tx_ticks s' = tx_ticks s \<Longrightarrow> timers_ok TM r s'"
  unfolding timers_ok_def using wheel_inv_frame [of TM r "{}" s _ s'] by auto

section \<open>The operations\<close>

lemma wheel_inv_init:
  assumes inv: "wheel_inv TM r X s W" and m: "unlinked W m"
  shows "wheel_inv (insert m TM) r X (tx_timer_init m q task s) W"
proof -
  let ?s = "tx_timer_init m q task s"
  have off: "n \<noteq> m" if "on_list W h n" for h n using m that by (auto simp: unlinked_on_list)
  have R: "mq ?s = mq s" "rings ?s = rings s" "timer_idle ?s m" "n \<noteq> m \<Longrightarrow> timers ?s n = timers s n" for n
    by (simp_all add: tx_timer_init_def upd_timer_def timer_idle_def flags)
  have "timer_idle ?s n \<longleftrightarrow> unlinked W n" if "n \<in> insert m TM" for n
    using that m R(3) R(4) [of n] wheel_invD(5) [OF inv, of n] by (cases "n = m") (auto simp: timer_idle_def)
  then show ?thesis
    unfolding wheel_inv_def R(1,2) using wheel_invD [OF inv] off R(4) by auto
qed

lemma timers_ok_reset:
  assumes ok: "timers_ok TM r s" and m: "m \<in> TM" "tx_ring (timers s m) = r"
    and u: "unat (tx_ticks s) + unat u < 2^31"
  shows "timers_ok TM r (tx_timer_reset m u s)" and "\<not> timer_idle (tx_timer_reset m u s) m"
    and "deadline (tx_timer_reset m u s) m = unat (tx_ticks s) + unat u"
    and "\<And>n. n \<noteq> m \<Longrightarrow> timers (tx_timer_reset m u s) n = timers s n"
proof -
  obtain W where inv: "wheel_inv TM r {} s W" and rk: "ring_ok (rings s r) (unat (tx_ticks s))"
    using ok by (auto simp: timers_ok_def)
  have add: "unat (tx_ticks s + u) = unat (tx_ticks s) + unat u" using u by (subst unat_add_lem [symmetric]) simp
  have main: "timers_ok TM r (tx_timer_reset m u st) \<and> \<not> timer_idle (tx_timer_reset m u st) m \<and>
      deadline (tx_timer_reset m u st) m = unat (tx_ticks s) + unat u \<and>
      (\<forall>n. n \<noteq> m \<longrightarrow> timers (tx_timer_reset m u st) n = timers s n)"
    if "wheel_inv TM r {} st V" "timer_idle st m" "tx_ring (timers st m) = r" "rings st = rings s"
      "tx_ticks st = tx_ticks s" "\<And>n. n \<noteq> m \<Longrightarrow> timers st n = timers s n" for st V
  proof -
    note Z = reset_idle_reads [OF that(2), where u = u]
    have "wheel_inv TM r ({} - {m}) (tx_timer_reset m u st) (q_head (timer_slot r (rings st r) (tx_ticks st + u)) m V)"
      by (rule wheel_inv_reset_idle [OF that(1) m(1) that(2,3)]) (use u in \<open>simp_all add: that rk\<close>)
    then show ?thesis using rk Z that(6) by (auto simp: timers_ok_def that(4,5) add)
  qed
  have "timers_ok TM r (tx_timer_reset m u s) \<and> \<not> timer_idle (tx_timer_reset m u s) m \<and>
      deadline (tx_timer_reset m u s) m = unat (tx_ticks s) + unat u \<and>
      (\<forall>n. n \<noteq> m \<longrightarrow> timers (tx_timer_reset m u s) n = timers s n)"
  proof (cases "timer_idle s m")
    case True
    then show ?thesis by (intro main [OF inv]) (simp_all add: m)
  next
    case False
    let ?st = "upd_timer m (\<lambda>t. t\<lparr>timer_flags := timer_flags t OR TIMER_IDLE\<rparr>) (on_mq (LIST_REMOVE m) s)"
    have "wheel_inv TM r {} ?st (q_remove m W)"
      by (rule wheel_inv_remove [OF inv m(1) False]) (simp_all add: upd_timer_def on_mq_def timer_idle_def flags)
    then show ?thesis
      unfolding reset_pending [OF False]
      by (intro main) (simp_all add: upd_timer_def on_mq_def timer_idle_def flags m)
  qed
  then show "timers_ok TM r (tx_timer_reset m u s)" "\<not> timer_idle (tx_timer_reset m u s) m"
    "deadline (tx_timer_reset m u s) m = unat (tx_ticks s) + unat u"
    "\<And>n. n \<noteq> m \<Longrightarrow> timers (tx_timer_reset m u s) n = timers s n" by auto
qed

lemma timers_ok_stop:
  assumes ok: "timers_ok TM r s" and m: "m \<in> TM"
  shows "timers_ok TM r (tx_timer_stop m s)" and "timer_idle (tx_timer_stop m s) m"
    and "\<And>n. n \<noteq> m \<Longrightarrow> timers (tx_timer_stop m s) n = timers s n"
proof -
  obtain W where inv: "wheel_inv TM r {} s W" and rk: "ring_ok (rings s r) (unat (tx_ticks s))"
    using ok by (auto simp: timers_ok_def)
  show "timer_idle (tx_timer_stop m s) m"
    by (simp add: tx_timer_stop_def timer_idle_def upd_timer_def on_mq_def flags)
  show "timers (tx_timer_stop m s) n = timers s n" if "n \<noteq> m" for n
    using that by (simp add: tx_timer_stop_def upd_timer_def on_mq_def)
  show "timers_ok TM r (tx_timer_stop m s)"
  proof (cases "timer_idle s m")
    case True
    then show ?thesis using ok by (simp add: tx_timer_stop_def timer_idle_def)
  next
    case False
    then have "wheel_inv TM r {} (tx_timer_stop m s) (q_remove m W)"
      by (intro wheel_inv_remove [OF inv m False])
        (simp_all add: tx_timer_stop_def upd_timer_def on_mq_def timer_idle_def flags)
    moreover have "rings (tx_timer_stop m s) = rings s" "tx_ticks (tx_timer_stop m s) = tx_ticks s"
      by (simp_all add: tx_timer_stop_def upd_timer_def on_mq_def)
    ultimately show ?thesis using rk by (auto simp: timers_ok_def)
  qed
qed

lemma timers_ok_drain:
  assumes ok: "timers_ok TM r s" and m: "m \<in> TM" "\<not> timer_idle s m"
  shows "timers_ok TM r (tx_timer_drain m s)" and "timer_idle (tx_timer_drain m s) m"
    and "\<And>t. timer_task (timers s m) = Some t \<Longrightarrow> stopped s (loop_of s t) \<or> busy (tx_timer_drain m s) t"
proof -
  obtain W where inv: "wheel_inv TM r {} s W" and rk: "ring_ok (rings s r) (unat (tx_ticks s))"
    using ok by (auto simp: timers_ok_def)
  let ?st = "upd_timer m (\<lambda>t. t\<lparr>timer_flags := timer_flags t OR TIMER_IDLE\<rparr>) (on_mq (LIST_REMOVE m) s)"
  have eq: "tx_timer_drain m s = tx_task_active (timer_task (timers ?st m)) (VTimer m) ?st"
    using m(2) by (simp add: tx_timer_drain_def timer_idle_def Let_def)
  have "wheel_inv TM r {} ?st (q_remove m W)"
    by (rule wheel_inv_remove [OF inv m]) (simp_all add: upd_timer_def on_mq_def timer_idle_def flags)
  then have "timers_ok TM r ?st" using rk by (auto simp: timers_ok_def upd_timer_def on_mq_def)
  then show "timers_ok TM r (tx_timer_drain m s)" unfolding eq by (rule timers_ok_frame) simp_all
  show "timer_idle (tx_timer_drain m s) m" unfolding eq by (simp add: timer_idle_def upd_timer_def flags)
  fix t assume "timer_task (timers s m) = Some t"
  then show "stopped s (loop_of s t) \<or> busy (tx_timer_drain m s) t"
    unfolding eq using active_busy(2) [of ?st t "VTimer m"]
    by (simp add: upd_timer_def on_mq_def stopped_def)
qed

section \<open>Polling\<close>

text \<open>The reading \<open>ts\<close> of the clock is \<open>T\<close> milliseconds.\<close>

definition clock_at :: "int \<times> int \<Rightarrow> nat \<Rightarrow> bool" where
  "clock_at ts T \<longleftrightarrow> fst ts * 1000 + snd ts div 1000000 = int T"

lemma tx_getticks_reads:
  assumes "clock_at ts T" and "T < 2^32"
  shows "unat (fst (tx_getticks ts s)) = T" and "snd (tx_getticks ts s) = s\<lparr>tx_ticks := fst (tx_getticks ts s)\<rparr>"
  using assms by (simp_all add: tx_getticks_def clock_at_def Let_def)
    (simp add: unsigned_of_nat take_bit_nat_eq_self)

lemma ring_ok_later: "ring_ok g T \<Longrightarrow> T \<le> T' \<Longrightarrow> T' + 15 \<le> 2^31 \<Longrightarrow> ring_ok g T'"
  unfolding ring_ok_def by auto

lemma timers_ok_getticks:
  assumes "timers_ok TM r s" and "clock_at ts T" and "unat (tx_ticks s) \<le> T" and "T + 15 \<le> 2^31"
  shows "timers_ok TM r (snd (tx_getticks ts s))"
proof -
  note G = tx_getticks_reads [of ts T s, OF assms(2)]
  have "T < 2^32" using assms(4) by simp
  with G have "rings (snd (tx_getticks ts s)) = rings s" "unat (tx_ticks (snd (tx_getticks ts s))) = T"
    "mq (snd (tx_getticks ts s)) = mq s" "timers (snd (tx_getticks ts s)) = timers s" by simp_all
  then show ?thesis
    using assms ring_ok_later wheel_inv_frame [of TM r "{}" s _ "snd (tx_getticks ts s)"]
    unfolding timers_ok_def by (metis (no_types))
qed

lemma tx_poll_active_stopped: "stopped s (loop_of s t) \<Longrightarrow> idle (tx_poll_active p s) t = idle s t"
  by (cases "stopped s (loop_of s (PollTask p)) \<or> \<not> idle s (PollTask p)")
    (auto simp: tx_poll_active_skip tx_poll_active_reads)

lemma poll_active_idle: "idle (tx_poll_active p s) (PollTask p) \<Longrightarrow> stopped s (loop_of s (PollTask p))"
  by (cases "stopped s (loop_of s (PollTask p)) \<or> \<not> idle s (PollTask p)")
    (auto simp: tx_poll_active_skip tx_poll_active_reads)

text \<open>What is still pending after the wheels were turned to \<open>T\<close>.\<close>

lemma filed_late:
  assumes "ring_ok g T" and "filed g h D" and "T < unat (tx_mi_tick g) + 15"
    and "T < unat (tx_ma_tick g) + 750" and "T < unat (tx_st_tick g) + 45000"
  shows "T < D + 750" and "(\<forall>r. h \<noteq> StTimers r) \<Longrightarrow> T < D + 15"
proof -
  have *: "T < D + 15" if "\<forall>r. h \<noteq> StTimers r"
    using assms that by (cases h) (auto simp: mi_ok_def ma_ok_def)
  show "T < D + 750" using * assms by (cases h) (auto simp: st_ok_def)
  show "(\<forall>r. h \<noteq> StTimers r) \<Longrightarrow> T < D + 15" by (rule *)
qed

lemma wheel_turn:
  assumes ok: "timers_ok TM r s0"
  shows "\<exists>s1 s2 s3. timer_mi_loop r (tx_ticks s0) s0 = Some s1 \<and> timer_ma_loop r (tx_ticks s0) s1 = Some s2 \<and>
    timer_st_turn r (tx_ticks s0) s2 = Some s3 \<and> timers_ok TM r s3 \<and> tx_ticks s3 = tx_ticks s0 \<and> ring_live s3 = ring_live s0 \<and>
    polled (unat (tx_ticks s0)) s0 s3 \<and>
    (\<forall>m h xs. m \<in> TM \<longrightarrow> tx_ring (timers s3 m) = r \<longrightarrow> \<not> timer_idle s3 m \<longrightarrow>
       unat (tx_ticks s0) < deadline s3 m + 750 \<and>
       (lseg (mq s3) (First (StTimers r)) xs None \<longrightarrow> m \<notin> set xs \<longrightarrow> unat (tx_ticks s0) < deadline s3 m + 15))"
proof -
  let ?ticks = "tx_ticks s0" and ?T = "unat (tx_ticks s0)"
  obtain W where inv: "wheel_inv TM r {} s0 W" and rk: "ring_ok (rings s0 r) ?T"
    using ok by (auto simp: timers_ok_def)
  from timer_mi_loop_inv [OF inv rk] obtain s1 W1 where s1: "timer_mi_loop r ?ticks s0 = Some s1"
    "wheel_inv TM r {} s1 W1" "polled ?T s0 s1" "tx_ticks s1 = ?ticks" "ring_live s1 = ring_live s0" "ring_ok (rings s1 r) (unat (tx_ticks s1))"
    "unat (tx_ticks s1) < unat (tx_mi_tick (rings s1 r)) + 15" by auto
  from timer_ma_loop_inv [OF s1(2,6,7)] obtain s2 W2 where s2: "timer_ma_loop r ?ticks s1 = Some s2"
    "wheel_inv TM r {} s2 W2" "polled ?T s1 s2" "tx_ticks s2 = ?ticks" "ring_live s2 = ring_live s0" "ring_ok (rings s2 r) (unat (tx_ticks s2))"
    "?T < unat (tx_mi_tick (rings s2 r)) + 15" "unat (tx_ticks s2) < unat (tx_ma_tick (rings s2 r)) + 750"
    by (auto simp: s1(4,5))
  from timer_st_turn_inv [OF s2(2,6,8)] obtain s3 W3 where s3: "timer_st_turn r ?ticks s2 = Some s3"
    "wheel_inv TM r {} s3 W3" "polled ?T s2 s3" "tx_ticks s3 = ?ticks" "ring_live s3 = ring_live s0" "ring_ok (rings s3 r) ?T"
    "tx_mi_tick (rings s3 r) = tx_mi_tick (rings s2 r)" "tx_ma_tick (rings s3 r) = tx_ma_tick (rings s2 r)"
    "?T < unat (tx_st_tick (rings s3 r)) + 45000" by (auto simp: s2(4,5))
  have up: "?T < unat (tx_mi_tick (rings s3 r)) + 15" "?T < unat (tx_ma_tick (rings s3 r)) + 750"
    using s2(7,8) by (simp_all add: s3 s2)
  have late: "?T < deadline s3 m + 750 \<and>
      (lseg (mq s3) (First (StTimers r)) xs None \<longrightarrow> m \<notin> set xs \<longrightarrow> ?T < deadline s3 m + 15)"
    if m: "m \<in> TM" "tx_ring (timers s3 m) = r" "\<not> timer_idle s3 m" for m xs
  proof -
    note D = wheel_invD [OF s3(2)]
    obtain h where h: "on_list W3 h m" using D(5) [OF m(1)] m(3) by (auto simp: unlinked_on_list)
    have hr: "head_ring h = r" using D(3) [OF h] m(2) by simp
    have f: "filed (rings s3 r) h (deadline s3 m)" using D(6) [OF h hr] by simp
    note L = filed_late [OF s3(6) f up s3(9)]
    have "\<forall>q. h \<noteq> StTimers q" if "lseg (mq s3) (First (StTimers r)) xs None" "m \<notin> set xs"
    proof (intro allI notI)
      fix q assume q: "h = StTimers q"
      then have "h = StTimers r" using hr by simp
      with h obtain ys where ys: "W3 (StTimers r) = Some ys" "m \<in> set ys" by (auto simp: on_list_def)
      then have "lseg (mq s3) (First (StTimers r)) ys None" using D(1) by (simp add: list_rep_def)
      then show False using lseg_same that ys(2) by blast
    qed
    with L show ?thesis by blast
  qed
  have "polled ?T s0 s3" using polled_trans s1(3) s2(3) s3(3) by blast
  then show ?thesis using s1(1) s2(1) s3 late by (intro exI [of _ s1] exI [of _ s2] exI [of _ s3]) (auto simp: timers_ok_def)
qed

lemma tx_timer_polling_spec:
  assumes ok: "timers_ok TM r s" and now1: "clock_at now1 T" "unat (tx_ticks s) \<le> T"
    and now2: "clock_at now2 T2" "T \<le> T2" "T2 + 15 \<le> 2^31"
  obtains s' where "tx_timer_polling r now1 now2 s = Some s'" and "timers_ok TM r s'" and "polled T s s'"
    and "T \<le> unat (tx_ticks s')"
    and "\<And>m h xs. m \<in> TM \<Longrightarrow> tx_ring (timers s' m) = r \<Longrightarrow> \<not> timer_idle s' m \<Longrightarrow> T < deadline s' m + 750 \<and>
      (lseg (mq s') (First (StTimers r)) xs None \<longrightarrow> m \<notin> set xs \<longrightarrow> T < deadline s' m + 15)"
    and "ring_live s' = (if idle s' (PollTask (Callout r)) then (ring_live s)(r := False) else ring_live s)"
    and "unat (tx_ticks s') \<le> T2"
    and "idle s' (PollTask (Callout r)) \<Longrightarrow> stopped s' (loop_of s' (PollTask (Callout r)))"
proof -
  have lim: "T < 2^32" "T + 15 \<le> 2^31" "T2 < 2^32" using now2 by simp_all
  let ?ticks = "fst (tx_getticks now1 s)" and ?s0 = "snd (tx_getticks now1 s)"
  have T: "unat ?ticks = T" "tx_ticks ?s0 = ?ticks" "timers ?s0 = timers s" "tasks ?s0 = tasks s" "loops ?s0 = loops s"
    "ring_live ?s0 = ring_live s"
    using tx_getticks_reads [OF now1(1) lim(1), of s] by simp_all
  have ok0: "timers_ok TM r ?s0" by (rule timers_ok_getticks [OF ok now1 lim(2)])
  from wheel_turn [OF ok0, unfolded T] obtain s1 s2 s3 where
    run: "timer_mi_loop r ?ticks ?s0 = Some s1" "timer_ma_loop r ?ticks s1 = Some s2" "timer_st_turn r ?ticks s2 = Some s3"
    and s3: "timers_ok TM r s3" "tx_ticks s3 = ?ticks" "polled T ?s0 s3" and live: "ring_live s3 = ring_live s"
    and late: "\<And>m h xs. m \<in> TM \<Longrightarrow> tx_ring (timers s3 m) = r \<Longrightarrow> \<not> timer_idle s3 m \<Longrightarrow> T < deadline s3 m + 750 \<and>
      (lseg (mq s3) (First (StTimers r)) xs None \<longrightarrow> m \<notin> set xs \<longrightarrow> T < deadline s3 m + 15)"
    by (elim exE conjE) (rule that, assumption+, simp_all)
  define s4 where "s4 = (if tx_loop_timeout (loop_of s3 (PollTask (Callout r))) (VRing r) s3 \<noteq> 0
      then snd (tx_getticks now2 s3) else s3)"
  have R2: "unat (fst (tx_getticks now2 s3)) = T2" "mq (snd (tx_getticks now2 s3)) = mq s3"
    "timers (snd (tx_getticks now2 s3)) = timers s3" "tasks (snd (tx_getticks now2 s3)) = tasks s3"
    "loops (snd (tx_getticks now2 s3)) = loops s3" "ring_live (snd (tx_getticks now2 s3)) = ring_live s3"
    "tx_ticks (snd (tx_getticks now2 s3)) = fst (tx_getticks now2 s3)"
    using tx_getticks_reads [OF now2(1) lim(3), of s3] by simp_all
  have ok4: "timers_ok TM r s4"
    using s3(1) timers_ok_getticks [OF s3(1) now2(1)] now2 s3(2) T(1) by (simp add: s4_def)
  have R4: "mq s4 = mq s3" "timers s4 = timers s3" "tasks s4 = tasks s3" "loops s4 = loops s3" "ring_live s4 = ring_live s3"
    "T \<le> unat (tx_ticks s4)" "unat (tx_ticks s4) \<le> T2"
    using R2 s3(2) T(1) now2(2) by (simp_all add: s4_def)
  let ?s5 = "tx_poll_active (Callout r) s4"
  let ?s' = "if idle ?s5 (PollTask (Callout r)) then ?s5\<lparr>ring_live := (ring_live ?s5)(r := False)\<rparr> else ?s5"
  have R: "mq ?s' = mq s3" "timers ?s' = timers s3" "busy ?s' t = busy s3 t" "loop_of ?s' t = loop_of s3 t"
    "stopped ?s' up = stopped s3 up" "T \<le> unat (tx_ticks ?s')" "unat (tx_ticks ?s') \<le> T2" for t up
    using tx_poll_active_busy [of "Callout r" s4 t] by (simp_all add: R4 task_reads)
  have i: "idle ?s' t = idle s3 t" if "stopped s3 (loop_of s3 t)" for t
    using tx_poll_active_stopped [of s4 t "Callout r"] that by (simp add: R4 task_reads)
  have ok5: "timers_ok TM r ?s5" by (rule timers_ok_frame [OF ok4]) simp_all
  have ok': "timers_ok TM r ?s'" by (rule timers_ok_frame [OF ok5]) simp_all
  have "polled T s ?s0" by (rule polled_frame) (simp_all add: T)
  moreover have "polled T s3 ?s'" unfolding polled_def settled_def timer_idle_def using R(1-5) i by presburger
  ultimately have p: "polled T s ?s'" using polled_trans s3(3) by blast
  show thesis
  proof (rule that [of ?s'])
    show "tx_timer_polling r now1 now2 s = Some ?s'"
      unfolding tx_timer_polling_def Let_def split_def using run
      by (simp add: s4_def [symmetric] idle_def)
    show "T < deadline ?s' m + 750 \<and> (lseg (mq ?s') (First (StTimers r)) xs None \<longrightarrow> m \<notin> set xs \<longrightarrow> T < deadline ?s' m + 15)"
      if "m \<in> TM" "tx_ring (timers ?s' m) = r" "\<not> timer_idle ?s' m" for m xs
      using late [of m xs] that unfolding timer_idle_def R by blast
    show "stopped ?s' (loop_of ?s' (PollTask (Callout r)))" if "idle ?s' (PollTask (Callout r))"
    proof -
      have "idle ?s5 (PollTask (Callout r))" using that by (simp add: idle_def split: if_splits)
      then have "stopped s4 (loop_of s4 (PollTask (Callout r)))" by (rule poll_active_idle)
      then show ?thesis unfolding R(4,5) by (simp add: R4 task_reads)
    qed
    show "ring_live ?s' = (if idle ?s' (PollTask (Callout r)) then (ring_live s)(r := False) else ring_live s)"
      by (simp add: R4 live idle_def)
  qed (use ok' p R in auto)
qed

section \<open>New rings\<close>

lemma init_heads_reads [simp]:
  "tasks (init_heads hs s) = tasks s" "loops (init_heads hs s) = loops s" "tq (init_heads hs s) = tq s"
  "rings (init_heads hs s) = rings s" "timers (init_heads hs s) = timers s" "tx_ticks (init_heads hs s) = tx_ticks s"
  by (induction hs arbitrary: s) (auto simp: init_heads_def on_mq_def)

lemma init_heads_mq: "mq (init_heads hs s) = fold LIST_INIT hs (mq s)"
  by (induction hs arbitrary: s) (auto simp: init_heads_def on_mq_def)

lemma init_heads_rep:
  "list_rep (mq s) W \<Longrightarrow> list_rep (mq (init_heads hs s)) (\<lambda>h. if h \<in> set hs then Some [] else W h)"
proof (induction hs arbitrary: s W)
  case (Cons h hs)
  have "list_rep (mq (on_mq (LIST_INIT h) s)) (W(h \<mapsto> []))" using tq.init [OF Cons.prems] by (simp add: on_mq_def)
  from Cons.IH [OF this]
  have "list_rep (mq (init_heads (h # hs) s)) (\<lambda>k. if k \<in> set hs then Some [] else (W(h \<mapsto> [])) k)"
    by (simp add: init_heads_def)
  moreover have "(\<lambda>k. if k \<in> set hs then Some [] else (W(h \<mapsto> [])) k) = (\<lambda>k. if k \<in> set (h # hs) then Some [] else W k)"
    by (auto simp: fun_eq_iff)
  ultimately show ?case by simp
qed (simp add: init_heads_def)

text \<open>A new ring: all its lists are empty and its wheels are at the clock.\<close>

lemma timers_ok_ring_new:
  assumes rep: "list_rep (mq s) W" and new: "\<And>h. h \<in> dom W \<Longrightarrow> head_ring h \<noteq> r"
    and own: "\<And>h m. on_list W h m \<Longrightarrow> m \<in> TM \<and> head_ring h = tx_ring (timers s m)"
    and idle: "\<And>m. m \<in> TM \<Longrightarrow> timer_idle s m \<longleftrightarrow> unlinked W m"
    and now: "clock_at now T" "T + 15 \<le> 2^31"
  shows "timers_ok TM r (snd (tx_timer_ring_new r now loop s))"
proof -
  let ?s = "snd (tx_timer_ring_new r now loop s)"
  let ?hs = "StTimers r # map (MiTimers r) [0..<MAX_MI_WHEEL] @ map (MaTimers r) [0..<MAX_MA_WHEEL]"
  let ?W = "\<lambda>h. if h \<in> heads_of r then Some [] else W h"
  have T: "unat (fst (tx_getticks now s)) = T" using now tx_getticks_reads(1) [of now T s] by simp
  have hs: "set ?hs = heads_of r"
    by (auto simp: heads_of_def wheel_sizes)
  note defs = tx_timer_ring_new_def tx_getticks_def tx_poll_init_def tx_task_init_def upd_task_def Let_def split_def
  have R: "mq ?s = mq (init_heads ?hs s)" "timers ?s = timers s" "tx_ticks ?s = fst (tx_getticks now s)"
    by (simp_all add: defs init_heads_mq on_mq_def)
  have G: "unat (tx_st_tick (rings ?s r)) = T" "unat (tx_mi_tick (rings ?s r)) = T" "unat (tx_ma_tick (rings ?s r)) = T"
    "tx_mi_wheel (rings ?s r) = 0" "tx_ma_wheel (rings ?s r) = 0"
    unfolding T [symmetric] by (simp_all add: defs on_mq_def)
  have none: "W k = None" if "k \<in> heads_of r" for k
  proof -
    have "head_ring k = r" using that by (auto simp: heads_of_def)
    then have "k \<notin> dom W" using new by blast
    then show ?thesis by (simp add: domIff)
  qed
  have "list_rep (mq ?s) ?W" using init_heads_rep [OF rep, of ?hs] unfolding hs R .
  moreover have on: "on_list ?W h m \<longleftrightarrow> on_list W h m" for h m
    using none unfolding on_list_def by auto
  then have "unlinked ?W m \<longleftrightarrow> unlinked W m" for m by (simp add: unlinked_on_list)
  moreover have "head_ring h \<noteq> r" if "on_list W h m" for h m using new that by (auto simp: on_list_def)
  ultimately have "wheel_inv TM r {} ?s ?W"
    unfolding wheel_inv_def on using own idle by (auto simp: timer_idle_def R)
  moreover have "ring_ok (rings ?s r) (unat (tx_ticks ?s))" using now(2) by (simp add: ring_ok_def R G T)
  ultimately show ?thesis by (auto simp: timers_ok_def)
qed

text \<open>A program with one timer, of 500 ms, on a loop that has been entered.\<close>

definition demo_ring :: tx_mem where
  "demo_ring = snd (tx_timer_ring_new (Ring 0) (1, 0) (NewLoop 0) demo_init)"

definition demo_timer :: tx_mem where
  "demo_timer = tx_timer_reset (Timer 0) 500 (tx_timer_init (Timer 0) (Ring 0) (Some (Task 0)) demo_ring)"

lemma demo_clock: "clock_at (1, 0) 1000" "clock_at (1, 485000000) 1485" "clock_at (1, 500000000) 1500"
  by (simp_all add: clock_at_def)

lemma demo_init_mq: "list_rep (mq demo_init) (\<lambda>_. None)"
  by (simp add: list_rep_def disjoint_lists_def)

lemma demo_ring_ok: "timers_ok {} (Ring 0) demo_ring"
  unfolding demo_ring_def
  by (rule timers_ok_ring_new [OF demo_init_mq _ _ _ demo_clock(1)]) (simp_all add: on_list_def)

lemma demo_ring_ticks: "tx_ticks demo_ring = 1000"
  by (simp add: demo_ring_def tx_timer_ring_new_def tx_getticks_def tx_poll_init_def tx_task_init_def
      upd_task_def on_mq_def Let_def split_def)

lemma demo_timer_init_ok:
  "timers_ok {Timer 0} (Ring 0) (tx_timer_init (Timer 0) (Ring 0) (Some (Task 0)) demo_ring)"
proof -
  let ?s = "tx_timer_init (Timer 0) (Ring 0) (Some (Task 0)) demo_ring"
  obtain W where W: "wheel_inv {} (Ring 0) {} demo_ring W" using demo_ring_ok by (auto simp: timers_ok_def)
  have "unlinked W (Timer 0)" using wheel_invD(3) [OF W] by (auto simp: unlinked_on_list)
  from wheel_inv_init [OF W this] have "wheel_inv {Timer 0} (Ring 0) {} ?s W" by simp
  moreover have "rings ?s = rings demo_ring" "tx_ticks ?s = tx_ticks demo_ring"
    by (simp_all add: tx_timer_init_def upd_timer_def)
  ultimately show ?thesis using demo_ring_ok by (auto simp: timers_ok_def)
qed

lemma demo_timer_ok:
  "timers_ok {Timer 0} (Ring 0) demo_timer" "\<not> timer_idle demo_timer (Timer 0)"
  "deadline demo_timer (Timer 0) = 1500" "tx_ticks demo_timer = 1000" "tx_ring (timers demo_timer (Timer 0)) = Ring 0"
  "timer_task (timers demo_timer (Timer 0)) = Some (Task 0)"
proof -
  let ?s = "tx_timer_init (Timer 0) (Ring 0) (Some (Task 0)) demo_ring"
  have R: "tx_ticks ?s = 1000" "tx_ring (timers ?s (Timer 0)) = Ring 0" "timer_idle ?s (Timer 0)"
    "timer_task (timers ?s (Timer 0)) = Some (Task 0)"
    by (simp_all add: tx_timer_init_def upd_timer_def timer_idle_def demo_ring_ticks flags)
  note Z = timers_ok_reset [OF demo_timer_init_ok _ R(2), of 500, folded demo_timer_def]
  show "timers_ok {Timer 0} (Ring 0) demo_timer" "\<not> timer_idle demo_timer (Timer 0)"
    "deadline demo_timer (Timer 0) = 1500" using Z(1-3) by (simp_all add: R)
  show "tx_ticks demo_timer = 1000" "tx_ring (timers demo_timer (Timer 0)) = Ring 0"
    "timer_task (timers demo_timer (Timer 0)) = Some (Task 0)"
    using reset_idle_reads [OF R(3), where u = 500, folded demo_timer_def] R by simp_all
qed

section \<open>Properties\<close>





lemma wrapped_slot:
  assumes "2^32 \<le> unat (tx_mi_tick g)" "unat (tx_mi_tick g) < 2^63"
    and "2^32 \<le> unat (tx_ma_tick g)" "unat (tx_ma_tick g) < 2^63"
  shows "timer_slot r g iv = StTimers r"
proof -
  have far: "k \<le> 60 * 750 \<Longrightarrow> of_nat k \<le> (ucast iv :: u64) - b" if b: "2^32 \<le> unat b" "unat b < 2^63" for b k
  proof -
    assume k: "k \<le> 60 * 750"
    have iv: "unat iv < 2^32" using unsigned_less [of iv] by simp
    then have "\<not> b \<le> (ucast iv :: u64)" using b by (simp add: word_le_nat_alt)
    then have "unat ((ucast iv :: u64) - b) = unat iv + 2^64 - unat b" by (simp add: unat_sub_if_size word_size word_le_nat_alt)
    then have "2^62 \<le> unat ((ucast iv :: u64) - b)" using b by simp
    moreover have "unat (of_nat k :: u64) = k" using k by (intro unat_of_nat_small) simp
    ultimately show ?thesis using k by (simp add: word_le_nat_alt)
  qed
  have "50 \<le> unat (((ucast iv :: u64) - tx_mi_tick g) div 15)"
    using far [of "tx_mi_tick g" 750] assms(1,2) by (simp add: unat_div word_le_nat_alt)
  moreover have "60 \<le> unat (((ucast iv :: u64) - tx_ma_tick g) div 750)"
    using far [of "tx_ma_tick g" 45000] assms(3,4) by (simp add: unat_div word_le_nat_alt)
  ultimately show ?thesis
    by (auto simp: timer_slot_def wheel_sizes Let_def word_less_nat_alt)
qed

text \<open>C9. The clock wraps, the wheels do not. \<open>tx_mi_tick\<close> and \<open>tx_ma_tick\<close> are 64 bits wide and follow
  the 32-bit clock past \<open>2^32\<close>, a timer's deadline is 32 bits wide: once both ticks have passed \<open>2^32\<close>
  (49.7 days), every timer, however short, is put on the list of those more than 45 s ahead, and a polling
  less than 45 s after that list was last emptied does not touch it.\<close>
theorem timers_late_after_clock_wrap:
  assumes "2^32 \<le> unat (tx_mi_tick (rings s (tx_ring (timers s m))))"
    and "unat (tx_mi_tick (rings s (tx_ring (timers s m)))) < 2^63"
    and "2^32 \<le> unat (tx_ma_tick (rings s (tx_ring (timers s m))))"
    and "unat (tx_ma_tick (rings s (tx_ring (timers s m)))) < 2^63"
  shows "lh_first (mq (tx_timer_reset m u s)) (StTimers (tx_ring (timers s m))) = Some m \<and>
    (\<forall>ticks st. c_int ((ucast ticks :: u64) - tx_st_tick (rings st r) - of_nat MIN_ST_TIMER) < 0 \<longrightarrow>
       timer_st_turn r ticks st = Some st)"
proof -
  have idle: "lh_first (mq (tx_timer_reset m u st)) (StTimers (tx_ring (timers s m))) = Some m"
    if "timer_idle st m" "tx_ring (timers st m) = tx_ring (timers s m)" "rings st = rings s" for st
    using reset_idle_reads(1) [OF that(1), of u] wrapped_slot [OF assms] that(2,3)
    by (simp add: LIST_INSERT_HEAD_def set_prev_def set_prev_opt_def Let_def split: option.splits)
  have "lh_first (mq (tx_timer_reset m u s)) (StTimers (tx_ring (timers s m))) = Some m"
  proof (cases "timer_idle s m")
    case True
    then show ?thesis by (rule idle) simp_all
  next
    case False
    show ?thesis unfolding reset_pending [OF False]
      by (rule idle) (simp_all add: upd_timer_def on_mq_def timer_idle_def flags)
  qed
  then show ?thesis by (auto simp: timer_st_turn_def)
qed

lemma timers_late_after_clock_wrap_witness:
  "lh_first (mq (tx_timer_reset (Timer 0) 100
     (upd_ring (Ring 0) (\<lambda>g. g\<lparr>tx_mi_tick := 0x100000005, tx_ma_tick := 0x100000005\<rparr>) demo_timer)))
     (StTimers (Ring 0)) = Some (Timer 0)"
proof -
  let ?s = "upd_ring (Ring 0) (\<lambda>g. g\<lparr>tx_mi_tick := 0x100000005, tx_ma_tick := 0x100000005\<rparr>) demo_timer"
  have r: "tx_ring (timers ?s (Timer 0)) = Ring 0" using demo_timer_ok(5) by simp
  show ?thesis using timers_late_after_clock_wrap [of ?s "Timer 0" 100] unfolding r by simp
qed

text \<open>C10. A stopped loop deletes its ring, pending timers and all: when the polling callback runs in a
  loop that was stopped, it deletes the ring although a timer that is not due stays pending, linked to a
  list head inside the deleted ring (\<open>tx_timer_stop\<close> would write through it).\<close>
theorem stopped_loop_deletes_ring:
  assumes "timers_ok TM r s" and "clock_at now1 T" and "unat (tx_ticks s) \<le> T"
    and "clock_at now2 T2" and "T \<le> T2" and "T2 + 15 \<le> 2^31"
    and "m \<in> TM" and "\<not> timer_idle s m" and "tx_ring (timers s m) = r" and "T + 15 \<le> deadline s m"
    and "stopped s (loop_of s (PollTask (Callout r)))" and "idle s (PollTask (Callout r))"
  shows "\<exists>s' h xs. tx_timer_polling r now1 now2 s = Some s' \<and> \<not> ring_live s' r \<and> \<not> timer_idle s' m \<and>
    head_ring h = r \<and> lseg (mq s') (First h) xs None \<and> m \<in> set xs"
proof (rule tx_timer_polling_spec [OF assms(1-6)])
  fix s' assume run: "tx_timer_polling r now1 now2 s = Some s'" and ok: "timers_ok TM r s'" and p: "polled T s s'"
    and live: "ring_live s' = (if idle s' (PollTask (Callout r)) then (ring_live s)(r := False) else ring_live s)"
  have "idle s' (PollTask (Callout r))" using p assms(11,12) by (simp add: polled_def)
  then have dead: "\<not> ring_live s' r" using live by simp
  have "settled T s s' m" using p by (simp add: polled_def)
  then have pend: "\<not> timer_idle s' m" "tx_ring (timers s' m) = r" using assms(8-10) by (auto simp: settled_def)
  obtain W where inv: "wheel_inv TM r {} s' W" using ok by (auto simp: timers_ok_def)
  obtain h where h: "on_list W h m" using wheel_invD(5) [OF inv assms(7)] pend by (auto simp: unlinked_on_list)
  then obtain xs where xs: "W h = Some xs" "m \<in> set xs" by (auto simp: on_list_def)
  have "lseg (mq s') (First h) xs None" using wheel_invD(1) [OF inv] xs by (simp add: list_rep_def)
  moreover have "head_ring h = r" using wheel_invD(3) [OF inv h] pend by simp
  ultimately show ?thesis using run dead pend xs by blast
qed

text \<open>The demonstration: the callout is being called (idle) in a loop that was just stopped.\<close>

definition demo_stopped :: tx_mem where
  "demo_stopped = tx_loop_stop (NewLoop 0) (tx_task_drop (Some (PollTask (Callout (Ring 0)))) demo_timer)"

lemma demo_stopped_reads:
  "mq demo_stopped = mq demo_timer" "timers demo_stopped = timers demo_timer" "rings demo_stopped = rings demo_timer"
  "tx_ticks demo_stopped = tx_ticks demo_timer" "idle demo_stopped (PollTask (Callout (Ring 0)))"
  using idle_after_drop [of "PollTask (Callout (Ring 0))" demo_timer]
  by (simp_all add: demo_stopped_def tx_loop_stop_def upd_loop_def idle_def)

lemma stopped_loop_deletes_ring_witness:
  "\<exists>s'. tx_timer_polling (Ring 0) (1, 485000000) (1, 500000000) demo_stopped = Some s' \<and>
     \<not> ring_live s' (Ring 0) \<and> \<not> timer_idle s' (Timer 0)"
proof -
  have ok: "timers_ok {Timer 0} (Ring 0) demo_stopped"
    by (rule timers_ok_frame [OF demo_timer_ok(1)]) (simp_all add: demo_stopped_reads)
  have lp: "loop_of demo_stopped (PollTask (Callout (Ring 0))) = NewLoop 0"
    by (simp add: demo_stopped_def demo_timer_def demo_ring_def tx_loop_stop_def upd_loop_def
        reset_idle_reads(9) tx_timer_init_def upd_timer_def timer_idle_def flags
        tx_timer_ring_new_def tx_poll_init_def tx_task_init_def upd_task_def Let_def split_def)
  have st: "stopped demo_stopped (NewLoop 0)"
    by (simp add: demo_stopped_def stopped_def tx_loop_stop_def upd_loop_def)
  show ?thesis
    using stopped_loop_deletes_ring [OF ok demo_clock(2) _ demo_clock(3), of "Timer 0"]
      demo_timer_ok(2-5) demo_stopped_reads(4,5) st
    by (auto simp: lp timer_idle_def demo_stopped_reads(2))
qed

end
