(* ===== verification/TxCat.thy ===== *)
theory TxCat
  imports TxCallbacks TxWheel TxSystem
begin

text \<open>
  \<open>txcat.cpp\<close>, the program that copies its standard input to its standard output, on Linux: its three
  callbacks, its \<open>main\<close>, and the call through a task's \<open>tx_call\<close> as the dispatch to them and to the
  polling functions of the timer ring and of epoll.

  What the kernel answers is an environment: functions of the state the call is made in, so that the
  answers may differ from round to round. The interface \<open>loop_callbacks\<close> is interpreted on these
  callbacks, for every environment whose answers are those the system calls document.
\<close>

section \<open>The program\<close>

text \<open>The tasks, the timer, the block and the integer variables of \<open>main\<close>.\<close>

abbreviation (input) uptick_task :: task_p where "uptick_task \<equiv> Task 0"
abbreviation (input) tmtask_task :: task_p where "tmtask_task \<equiv> Task 1"
abbreviation (input) iotest_task :: task_p where "iotest_task \<equiv> Task 2"
abbreviation (input) tmtask_timer :: timer_p where "tmtask_timer \<equiv> Timer 0"
abbreviation (input) iotest_file :: aiocb_p where "iotest_file \<equiv> Aiocb 0"
abbreviation (input) uptick_ticks :: nat where "uptick_ticks \<equiv> 0"
abbreviation (input) uptick_last_ticks :: nat where "uptick_last_ticks \<equiv> 1"
abbreviation (input) cat_ring :: ring_p where "cat_ring \<equiv> Ring 0"
abbreviation (input) cat_epoll :: epoll_p where "cat_epoll \<equiv> Epoll 0"

definition STDIN_FILE_FD :: int where "STDIN_FILE_FD = 0"
definition STDOUT_FD :: int where "STDOUT_FD = 1"

definition set_cell :: "nat \<Rightarrow> int \<Rightarrow> tx_mem \<Rightarrow> tx_mem" where
  "set_cell i v s = s\<lparr>cells := (cells s)(i := v)\<rparr>"

definition update_tick :: "tx_mem \<Rightarrow> tx_mem" where
  "update_tick s =
     (let ticks = uint (tx_ticks s);
          s1 = (if ticks \<noteq> cells s uptick_last_ticks then set_cell uptick_last_ticks ticks s else s)
      in if cells s1 uptick_ticks < 100 then
           let s2 = tx_task_active (Some uptick_task) (VUser 0) s1
           in set_cell uptick_ticks (cells s2 uptick_ticks + 1) s2
         else s1)"

text \<open>The ring of a timer that is set must not have been deleted.\<close>

definition update_timer :: "tx_mem \<Rightarrow> tx_mem res" where
  "update_timer s =
     (if ring_live s (tx_ring (timers s tmtask_timer)) then Inr (tx_timer_reset tmtask_timer 50000 s)
      else Inl UseAfterFree)"

text \<open>
  The results of the successive \<open>read\<close> calls of one callback: some that return data, then one that
  returns none (a \<open>read\<close> that returned data for ever would keep the callback from returning).
\<close>

datatype read_end = Eof | Failed int

fun end_kres :: "read_end \<Rightarrow> kres" where
  "end_kres Eof = (0, 0)"
| "end_kres (Failed errno) = (-1, errno)"

text \<open>The part of the loop of \<open>update_stdio\<close> after \<open>read\<close>; \<open>None\<close> is going round again.\<close>

definition stdio_step :: "(nat \<Rightarrow> kres) \<Rightarrow> kres \<Rightarrow> tx_mem \<Rightarrow> tx_mem \<times> tx_mem res option" where
  "stdio_step k len s =
     (let s1 = tx_aincb_update iotest_file len s in
      (s1, if \<not> tx_readable s1 iotest_file then Some (tx_aincb_active iotest_file iotest_task k s1)
           else if fst len \<le> 0 then Some (Inr (tx_loop_stop (tx_loop_get iotest_task s1) s1))
           else None))"

fun stdio_loop :: "int \<Rightarrow> (nat \<Rightarrow> kres) \<Rightarrow> bytes list \<Rightarrow> read_end \<Rightarrow> tx_mem \<Rightarrow> tx_mem res" where
  "stdio_loop fd k [] r s =
     (case stdio_step k (end_kres r) s of (s1, Some x) \<Rightarrow> x | (s1, None) \<Rightarrow> Inr s1)"
| "stdio_loop fd k (buf # bufs) r s =
     (case stdio_step k (int (length buf), 0) (log_kcall (Input fd buf) s) of
        (s1, Some x) \<Rightarrow> x
      | (s1, None) \<Rightarrow> stdio_loop fd k bufs r (log_kcall (Output STDOUT_FD buf) s1))"

record cat_env =
  clock_of :: "tx_mem \<Rightarrow> (int \<times> int) \<times> (int \<times> int)"    \<comment> \<open>the readings of one timer polling\<close>
  wait_of :: "tx_mem \<Rightarrow> epoll_wait"
  ctl_of :: "tx_mem \<Rightarrow> nat \<Rightarrow> kres"                        \<comment> \<open>\<open>epoll_ctl\<close> on an attached descriptor\<close>
  add_of :: kres                                            \<comment> \<open>\<open>epoll_ctl(EPOLL_CTL_ADD)\<close> of standard input\<close>
  reads_of :: "tx_mem \<Rightarrow> bytes list \<times> read_end"
  fd_of :: "tx_mem \<Rightarrow> int"                                  \<comment> \<open>\<open>epoll_create\<close>\<close>

definition update_stdio :: "cat_env \<Rightarrow> tx_mem \<Rightarrow> tx_mem res" where
  "update_stdio env s = stdio_loop STDIN_FILE_FD (ctl_of env s) (fst (reads_of env s)) (snd (reads_of env s)) s"

text \<open>The call through \<open>task->tx_call\<close>.\<close>

definition cat_polling :: "cat_env \<Rightarrow> ring_p \<Rightarrow> tx_mem \<Rightarrow> tx_mem res" where
  "cat_polling env r s =
     (if \<not> ring_live s r then Inl UseAfterFree
      else case tx_timer_polling r (fst (clock_of env s)) (snd (clock_of env s)) s of
             Some s' \<Rightarrow> Inr s'
           | None \<Rightarrow> Inl AssertFail)"

fun cat_run :: "cat_env \<Rightarrow> call_p \<Rightarrow> void_p \<Rightarrow> tx_mem \<Rightarrow> tx_mem res" where
  "cat_run env (UserCall 0) _ s = Inr (update_tick s)"
| "cat_run env (UserCall (Suc 0)) _ s = update_timer s"
| "cat_run env (UserCall (Suc (Suc 0))) _ s = update_stdio env s"
| "cat_run env TimerPolling (VRing r) s = cat_polling env r s"
| "cat_run env EpollPolling (VEpoll e) s = tx_epoll_polling e (wait_of env s) s"
| "cat_run env _ _ s = Inl NullDeref"

text \<open>\<open>main\<close> before and after \<open>tx_loop_main\<close>. On Linux \<open>tx_completion_port_init\<close> returns null.\<close>

text \<open>\<open>cat_boot\<close> is the part up to the timer.\<close>

definition cat_boot :: "cat_env \<Rightarrow> tx_mem \<Rightarrow> (loop_p \<times> tx_mem) res" where
  "cat_boot env s =
     (let (loop, s1) = tx_loop_default s in
      res_bind (opt_res (tx_epoll_init (Some cat_epoll) (fd_of env s1) loop s1)) (\<lambda>(poll, s2).
      res_bind (opt_res (tx_timer_ring_get cat_ring (fst (clock_of env s2)) loop s2)) (\<lambda>(provider, s3).
      res_bind (opt_res (tx_timer_ring_get (Ring 1) (fst (clock_of env s3)) loop s3)) (\<lambda>(provider1, s4).
      res_bind (opt_res (tx_timer_ring_get (Ring 2) (fst (clock_of env s4)) loop s4)) (\<lambda>(provider2, s5).
      let s6 = set_cell uptick_ticks 0 s5;
          (ticks, s7) = tx_getticks (fst (clock_of env s6)) s6;
          s8 = set_cell uptick_last_ticks (uint ticks) s7;
          s9 = tx_task_init uptick_task loop (UserCall 0) (VUser 0) s8;
          s10 = tx_task_active (Some uptick_task) (VUser 0) s9
      in res_bind (opt_res (tx_timer_init_loop tmtask_timer (Ring 3) (fst (clock_of env s10)) loop (Some tmtask_task) s10)) (\<lambda>s11.
      let s12 = tx_task_init tmtask_task loop (UserCall 1) (VUser 1) s11
      in Inr (loop, tx_timer_reset tmtask_timer 500 s12)))))))"

definition cat_setup :: "cat_env \<Rightarrow> tx_mem \<Rightarrow> (loop_p \<times> tx_mem) res" where
  "cat_setup env s =
     res_bind (cat_boot env s) (\<lambda>(loop, s13).
     res_bind (tx_aiocb_init iotest_file loop STDIN_FILE_FD (\<lambda>_. add_of env) s13) (\<lambda>s14.
     let s15 = tx_task_init iotest_task loop (UserCall 2) (VUser 2) s14
     in res_bind (tx_aincb_active iotest_file iotest_task (ctl_of env s15) s15) (\<lambda>s16. Inr (loop, s16))))"

text \<open>Stopping a timer that is set unlinks it from a list of its ring.\<close>

definition cat_teardown :: "cat_env \<Rightarrow> loop_p \<Rightarrow> tx_mem \<Rightarrow> tx_mem res" where
  "cat_teardown env loop s =
     res_bind (tx_aincb_stop iotest_file (VTask iotest_task) s) (\<lambda>s1.
     if \<not> has (timer_flags (timers s1 tmtask_timer)) TIMER_IDLE \<and> \<not> ring_live s1 (tx_ring (timers s1 tmtask_timer))
     then Inl UseAfterFree
     else
       let s2 = tx_timer_stop tmtask_timer s1
       in res_bind (tx_aiocb_fini iotest_file (ctl_of env s2) s2) (\<lambda>s3.
          Inr (snd (tx_loop_delete loop (log_kcall (CloseFd STDIN_FILE_FD) s3)))))"

definition txcat :: "cat_env \<Rightarrow> tx_mem \<Rightarrow> tx_mem res option" where
  "txcat env s =
     (case cat_setup env s of
        Inl e \<Rightarrow> Some (Inl e)
      | Inr (loop, s1) \<Rightarrow>
          map_option (\<lambda>r. res_bind r (cat_teardown env loop)) (tx_loop_main (cat_run env) loop s1))"

section \<open>What the library leaves alone\<close>

text \<open>The state of the program and of its timers, and what its tasks call.\<close>

definition same_prog :: "tx_mem \<Rightarrow> tx_mem \<Rightarrow> bool" where
  "same_prog s s' \<longleftrightarrow> timers s' = timers s \<and> rings s' = rings s \<and> mq s' = mq s \<and> tx_ticks s' = tx_ticks s \<and>
     ring_live s' = ring_live s \<and>
     (\<forall>t. task_call (tasks s' t) = task_call (tasks s t) \<and> task_data (tasks s' t) = task_data (tasks s t) \<and>
        loop_of s' t = loop_of s t \<and> (stopped s (loop_of s t) \<longrightarrow> idle s' t = idle s t)) \<and>
     (\<forall>up. stopped s up \<longrightarrow> stopped s' up)"

lemma same_prog_refl [simp]: "same_prog s s"
  by (simp add: same_prog_def)

lemma same_prog_trans: "same_prog s s' \<Longrightarrow> same_prog s' s'' \<Longrightarrow> same_prog s s''"
  by (simp add: same_prog_def)

lemma calls_kept [simp]:
  "task_call (tasks (tx_task_active w r s) t) = task_call (tasks s t)"
  "task_data (tasks (tx_task_active w r s) t) = task_data (tasks s t)"
  "task_call (tasks (tx_poll_active p s) t) = task_call (tasks s t)"
  "task_data (tasks (tx_poll_active p s) t) = task_data (tasks s t)"
  "cells (tx_task_active w r s) = cells s" "cells (tx_poll_active p s) = cells s"
  by (auto simp: tx_task_active_def tx_task_drop_def tx_poll_active_def mem_defs Let_def split: option.splits)

lemma same_prog_step:
  "same_prog s (tx_task_active w r s)" "same_prog s (tx_poll_active p s)" "same_prog s (upd_io f s)"
  "same_prog s (upd_loop up (\<lambda>l. l\<lparr>tx_holder := h\<rparr>) s)"
  using active_stopped tx_poll_active_stopped
  by (auto simp: same_prog_def upd_io_def upd_loop_def stopped_def idle_def)

lemmas same_prog_steps = same_prog_trans [OF _ same_prog_step(1)] same_prog_trans [OF _ same_prog_step(2)]
  same_prog_trans [OF _ same_prog_step(3)] same_prog_trans [OF _ same_prog_step(4)]

text \<open>Whom activating a task makes busy.\<close>

lemma busy_active_iff: "busy (tx_task_active w r s) t \<longleftrightarrow> busy s t \<or> (w = Some t \<and> \<not> stopped s (loop_of s t))"
proof (cases w)
  case (Some u)
  show ?thesis
  proof (cases "stopped s (loop_of s u) \<or> busy s u")
    case True
    then show ?thesis by (auto simp: Some tx_task_active_skip)
  next
    case False
    then have "busy (tx_task_drop (Some u) s) t \<longleftrightarrow> busy s t"
      using tx_task_drop_reads(3) [of s u t] by (cases "idle s u") (auto simp: tx_task_drop_idle)
    then show ?thesis using False tx_task_active_reads(3) [of s u r t] by (auto simp: Some)
  qed
qed (simp add: tx_task_active_def)

section \<open>What epoll does to the program\<close>

fun input_of :: "kcall list \<Rightarrow> bytes" where
  "input_of [] = []"
| "input_of (Input fd buf # cs) = buf @ input_of cs"
| "input_of (_ # cs) = input_of cs"

fun output_of :: "kcall list \<Rightarrow> bytes" where
  "output_of [] = []"
| "output_of (Output fd buf # cs) = buf @ output_of cs"
| "output_of (_ # cs) = output_of cs"

lemma input_snoc [simp]: "input_of (cs @ [c]) = input_of cs @ input_of [c]"
  by (induction cs rule: input_of.induct) auto

lemma output_snoc [simp]: "output_of (cs @ [c]) = output_of cs @ output_of [c]"
  by (induction cs rule: output_of.induct) auto

text \<open>
  The part of the program's invariant that concerns its block: whatever was read has been written, nobody
  but the task of \<open>update_stdio\<close> waits, and when that task is runnable the block is marked readable (so
  what it reads is not dropped).
\<close>

definition cat_io :: "tx_mem \<Rightarrow> bool" where
  "cat_io s \<longleftrightarrow> output_of (kcalls (io s)) = input_of (kcalls (io s)) \<and>
     (\<forall>a. tx_filterout (filp s a) = None \<and> tx_filterin (filp s a) \<in> {None, Some iotest_task}) \<and>
     (busy s iotest_task \<longrightarrow> tx_readable s iotest_file)"

lemma busy_upd [simp]: "busy (upd_io f s) t = busy s t" "idle (upd_io f s) t = idle s t"
  "stopped (upd_io f s) up = stopped s up" "busy (upd_loop up g s) t = busy s t"
  by (simp_all add: task_reads upd_io_def upd_loop_def)

lemma epoll_parts_prog:
  "same_prog s (epoll_hup a s)" "same_prog s (epoll_out a s)" "same_prog s (epoll_in a s)"
  "same_prog s (tx_epoll_pollit e a k s)"
  by (auto simp: epoll_hup_def epoll_out_def epoll_in_def tx_epoll_pollit_def epoll_ctl_def filp_upds Let_def
      intro!: same_prog_steps)

lemma epoll_event_prog: "same_prog s (epoll_event e ev s)"
  by (auto simp: epoll_event_def upd_epoll_def Let_def split: prod.splits
      intro!: same_prog_steps epoll_parts_prog same_prog_trans [OF _ epoll_parts_prog(1)]
        same_prog_trans [OF _ epoll_parts_prog(2)] same_prog_trans [OF _ epoll_parts_prog(3)]
        same_prog_trans [OF _ epoll_parts_prog(4)])

lemma grows_upd_io: "grows T s (upd_io f s)"
  by (rule grows_frame) simp

lemma grows_holder: "grows T s (upd_loop up (\<lambda>l. l\<lparr>tx_holder := h\<rparr>) s)"
  by (rule grows_frame) (simp add: task_frame_def upd_loop_def)

lemma cat_io_frame:
  "cat_io s \<Longrightarrow> aiocbs (io s') = aiocbs (io s) \<Longrightarrow> output_of (kcalls (io s')) = output_of (kcalls (io s)) \<Longrightarrow>
     input_of (kcalls (io s')) = input_of (kcalls (io s)) \<Longrightarrow> (busy s' iotest_task \<Longrightarrow> busy s iotest_task) \<Longrightarrow> cat_io s'"
  by (auto simp: cat_io_def tx_readable_def)

lemma epoll_parts_cat:
  assumes "cat_io s"
  shows "cat_io (epoll_hup iotest_file s)" "cat_io (epoll_out iotest_file s)" "cat_io (epoll_in iotest_file s)"
    "cat_io (tx_epoll_pollit e iotest_file k s)"
proof -
  have o: "tx_filterout (filp s iotest_file) = None" using assms by (simp add: cat_io_def)
  show "cat_io (epoll_hup iotest_file s)" using assms
    by (simp add: cat_io_def epoll_hup_def filp_upds Let_def o tx_readable_def flags)
  show "cat_io (epoll_out iotest_file s)" using assms
    by (simp add: cat_io_def epoll_out_def filp_upds Let_def o tx_readable_def flags)
  show "cat_io (epoll_in iotest_file s)" using assms
    by (simp add: cat_io_def epoll_in_def filp_upds Let_def tx_readable_def flags)
  show "cat_io (tx_epoll_pollit e iotest_file k s)" using assms
    by (simp add: cat_io_def tx_epoll_pollit_def epoll_ctl_def filp_upds Let_def tx_readable_def flags)
qed

lemma epoll_parts_grow:
  assumes "cat_io s" and t: "iotest_task \<in> T"
  shows "grows T s (epoll_hup a s)" "grows T s (epoll_out a s)" "grows T s (epoll_in a s)"
    "grows T s (tx_epoll_pollit e a k s)"
proof -
  have f: "tx_filterout (filp s a) = None" "tx_filterin (filp s a) = None \<or> tx_filterin (filp s a) = Some iotest_task"
    using assms(1) by (auto simp: cat_io_def)
  have n: "tx_task_active None r s' = s'" for r s' by (simp add: tx_task_active_def)
  have act: "grows T s s1 \<Longrightarrow> grows T s (tx_task_active (Some iotest_task) r s1)" for r s1
    by (erule grows_trans) (simp add: grows_active t)
  note up = grows_trans [OF _ grows_upd_io]
  show "grows T s (epoll_hup a s)" "grows T s (epoll_out a s)" "grows T s (epoll_in a s)"
    "grows T s (tx_epoll_pollit e a k s)"
    using f(2) by (auto simp: epoll_hup_def epoll_out_def epoll_in_def tx_epoll_pollit_def epoll_ctl_def filp_upds
        Let_def f(1) n intro!: up act)
qed

lemma epoll_event_cat:
  assumes "cat_io s" and "fst (snd ev) = iotest_file"
  shows "cat_io (epoll_event e ev s)"
proof -
  obtain v k where ev: "ev = (v, iotest_file, k)" using assms(2) by (cases ev) auto
  have "cat_io (upd_epoll e f s)" for f by (rule cat_io_frame [OF assms(1)]) (simp_all add: upd_epoll_def)
  then show ?thesis by (simp add: ev epoll_event_def Let_def epoll_parts_cat)
qed

lemma epoll_event_grow:
  assumes "cat_io s" and "fst (snd ev) = iotest_file" and t: "iotest_task \<in> T"
  shows "grows T s (epoll_event e ev s)"
proof -
  obtain v k where ev: "ev = (v, iotest_file, k)" using assms(2) by (cases ev) auto
  have io: "cat_io (upd_epoll e f s)" for f by (rule cat_io_frame [OF assms(1)]) (simp_all add: upd_epoll_def)
  have "grows T s (upd_epoll e f s)" for f unfolding upd_epoll_def by (rule grows_upd_io)
  then show ?thesis using epoll_parts_grow [OF _ t]
    by (auto simp: ev epoll_event_def Let_def io epoll_parts_cat intro!: grows_trans [OF _ epoll_parts_grow(1) [OF _ t]]
        grows_trans [OF _ epoll_parts_grow(2) [OF _ t]] grows_trans [OF _ epoll_parts_grow(3) [OF _ t]]
        grows_trans [OF _ epoll_parts_grow(4) [OF _ t]])
qed


lemma epoll_fold_cat:
  "cat_io s \<Longrightarrow> \<forall>ev\<in>set evs. fst (snd ev) = iotest_file \<Longrightarrow>
     cat_io (fold (epoll_event e) evs s) \<and> same_prog s (fold (epoll_event e) evs s) \<and>
     (iotest_task \<in> T \<longrightarrow> grows T s (fold (epoll_event e) evs s))"
proof (induction evs arbitrary: s)
  case (Cons ev evs)
  then show ?case using epoll_event_cat [of s ev e] same_prog_trans [OF epoll_event_prog [of s e ev]]
      epoll_event_grow [of s ev T e] by (auto intro: grows_trans)
qed simp

lemma epoll_polling_cat:
  assumes "cat_io s" and "\<And>ms. epoll_answer {iotest_file} s (wait ms)" and "tx_epoll_polling e wait s = Inr s'"
  shows "cat_io s'" and "same_prog s s'"
    and "iotest_task \<in> T \<Longrightarrow> PollTask (EpollTask e) \<in> T \<Longrightarrow> grows T s s'"
proof -
  define ms :: int where "ms = (if tx_loop_timeout (loop_of s (PollTask (EpollTask e))) (VEpoll e) s \<noteq> 0 then 10 else 0)"
  obtain nfds errno evs where w: "wait ms = ((nfds, errno), evs)" by (metis prod.exhaust)
  let ?s1 = "fold (epoll_event e) (take (nat nfds) evs) s"
  have "\<forall>ev\<in>set (take (nat nfds) evs). fst (snd ev) = iotest_file"
    using assms(2) [of ms] by (auto simp: w epoll_answer_def event_for_def dest: in_set_takeD)
  from epoll_fold_cat [OF assms(1) this, of e T] have s1: "cat_io ?s1" "same_prog s ?s1"
    and g1: "iotest_task \<in> T \<Longrightarrow> grows T s ?s1" by auto
  obtain s2 where s': "s' = tx_poll_active (EpollTask e) s2" and s2: "s2 = ?s1 \<or> (\<exists>up h. s2 = upd_loop up (\<lambda>l. l\<lparr>tx_holder := h\<rparr>) ?s1)"
    using assms(3) by (auto simp: tx_epoll_polling_def Let_def w tx_loop_get_def ms_def [symmetric] split: if_splits)
  have "io (upd_loop up g ?s1) = io ?s1" for up g by (simp add: upd_loop_def)
  then have "cat_io s2" using s2 by (auto intro!: cat_io_frame [OF s1(1)] s1(1))
  then show "cat_io s'" by (rule cat_io_frame) (simp_all add: s' tx_poll_active_busy)
  show "same_prog s s'" using s2 s1(2) by (auto simp: s' intro!: same_prog_steps)
  show "grows T s s'" if t: "iotest_task \<in> T" "PollTask (EpollTask e) \<in> T"
    using s2 g1 [OF t(1)] grows_holder unfolding s' by (auto intro!: grows_trans [OF _ grows_poll_active [OF t(2)]] intro: grows_trans)
qed

section \<open>What the timers do to the program\<close>

text \<open>\<open>w\<close> is the one task that timers activate, not a poller's.\<close>

definition waker :: "task_p set \<Rightarrow> task_p \<Rightarrow> bool" where
  "waker T w \<longleftrightarrow> w \<in> T \<and> (\<forall>p. w \<noteq> PollTask p)"

definition ticked :: "task_p set \<Rightarrow> taskq_p set \<Rightarrow> task_p \<Rightarrow> tx_mem \<Rightarrow> tx_mem \<Rightarrow> bool" where
  "ticked T U w s s' \<longleftrightarrow> api_run T U s s' \<and> grows T s s' \<and> rest_step s s' \<and> cells s' = cells s \<and>
     (\<forall>t. task_call (tasks s' t) = task_call (tasks s t) \<and> task_data (tasks s' t) = task_data (tasks s t) \<and>
        (busy s' t \<longrightarrow> busy s t \<or> t = w)) \<and>
     (\<forall>up. tx_stop (loops s' up) = tx_stop (loops s up)) \<and>
     (\<forall>m. timer_task (timers s' m) \<in> {None, Some w} \<and> tx_ring (timers s' m) = tx_ring (timers s m))"

lemma ticked_refl: "\<forall>m. timer_task (timers s m) \<in> {None, Some w} \<Longrightarrow> ticked T U w s s"
  by (simp add: ticked_def rest_step_def)

lemma ticked_other:
  assumes "ticked T U w s s1" and "task_frame s1 s'" and "io s' = io s1" and "cells s' = cells s1"
    and "loops s' = loops s1"
    and "\<And>m. timer_task (timers s' m) = timer_task (timers s1 m) \<and> tx_ring (timers s' m) = tx_ring (timers s1 m)"
  shows "ticked T U w s s'"
proof -
  have "tasks s' = tasks s1" using assms(2) by (simp add: task_frame_def)
  moreover have "api_run T U s s'"
    using assms(1) api_other [OF assms(2)] by (auto simp: ticked_def intro: rtranclp.rtrancl_into_rtrancl)
  moreover have "grows T s s'" using assms(1) grows_frame [OF assms(2)] by (auto simp: ticked_def intro: grows_trans)
  ultimately show ?thesis using assms by (simp add: ticked_def rest_step_def task_reads)
qed

lemma ticked_step:
  assumes "ticked T U w s s1"
  shows "ticked T U w s (on_mq f s1)" "ticked T U w s (upd_ring r g s1)"
    "(\<And>m. timer_task (h m) = timer_task m \<and> tx_ring (h m) = tx_ring m) \<Longrightarrow> ticked T U w s (upd_timer n h s1)"
    "ticked T U w s (s1\<lparr>ring_live := l\<rparr>)" "ticked T U w s (s1\<lparr>tx_ticks := c\<rparr>)"
  by (rule ticked_other [OF assms]; simp add: task_frame_def mem_defs)+

lemma ticked_active:
  assumes "ticked T U w s s1" and "waker T w"
  shows "ticked T U w s (tx_task_active (timer_task (timers s1 m)) r s1)"
proof -
  have w: "t = w" if "timer_task (timers s1 m) = Some t" for t
    using assms(1) that by (auto simp: ticked_def dest: spec [of _ m])
  have "api_run T U s (tx_task_active (timer_task (timers s1 m)) r s1)"
    by (rule api_run_active) (use assms w in \<open>auto simp: ticked_def waker_def\<close>)
  moreover have "grows T s (tx_task_active (timer_task (timers s1 m)) r s1)"
  proof (cases "timer_task (timers s1 m)")
    case (Some t)
    then have "grows T s1 (tx_task_active (Some t) r s1)" using grows_active [of t T] w assms(2) by (simp add: waker_def)
    then show ?thesis using assms(1) by (auto simp: Some ticked_def intro: grows_trans)
  qed (use assms(1) in \<open>simp add: tx_task_active_def ticked_def\<close>)
  ultimately show ?thesis using assms w by (auto simp: ticked_def rest_step_def busy_active_iff)
qed

lemma ticked_poll_active:
  assumes "ticked T U w s s1" and "PollTask p \<in> T"
  shows "ticked T U w s (tx_poll_active p s1)"
proof -
  have "api_run T U s (tx_poll_active p s1)"
    by (rule api_run_poll_active) (use assms in \<open>auto simp: ticked_def\<close>)
  moreover have "grows T s (tx_poll_active p s1)"
    using assms grows_poll_active by (auto simp: ticked_def intro: grows_trans)
  ultimately show ?thesis using assms by (auto simp: ticked_def rest_step_def tx_poll_active_busy)
qed

lemma ticked_reset: "ticked T U w s s1 \<Longrightarrow> ticked T U w s (tx_timer_reset m u s1)"
proof -
  have idle: "ticked T U w s (tx_timer_reset m u s2)" if "ticked T U w s s2" "timer_idle s2 m" for s2
    using that by (subst tx_timer_reset.simps) (auto simp: timer_idle_def Let_def intro!: ticked_step)
  assume t: "ticked T U w s s1"
  show ?thesis
  proof (cases "timer_idle s1 m")
    case True
    with t show ?thesis by (rule idle)
  next
    case False
    show ?thesis unfolding reset_pending [OF False]
      by (intro idle ticked_step t) (simp_all add: timer_idle_def upd_timer_def flags)
  qed
qed

lemma ticked_getticks: "ticked T U w s s1 \<Longrightarrow> ticked T U w s (snd (tx_getticks now s1))"
  by (simp add: tx_getticks_def Let_def ticked_step)

lemma ticked_drain_list:
  assumes "ticked T U w s s1" and "waker T w" and "timer_drain_list ticks q s1 = Some s2"
  shows "ticked T U w s s2"
proof (rule list_foreach_safe_keeps [OF assms(3) [unfolded timer_drain_list_def Let_def], where P = "ticked T U w s"])
  show "ticked T U w s (on_mq (LIST_INIT q) s1)" by (rule ticked_step [OF assms(1)])
  fix n s' assume "ticked T U w s s'"
  then show "ticked T U w s (timer_expire ticks n s')"
    by (auto simp: timer_expire_def Let_def intro!: ticked_active ticked_reset ticked_step assms(2))
qed


lemma ticked_mi:
  assumes "timer_mi_loop r ticks s1 = Some s2" and "ticked T U w s s1" and "waker T w"
  shows "ticked T U w s s2"
proof -
  have "ticked T U w s s1 \<longrightarrow> ticked T U w s s2" using assms(1)
  proof (induction r ticks s1 s2 rule: timer_mi_loop.raw_induct [rotated, consumes 1, case_names 1])
    case (1 rec r ticks s1 s2)
    show ?case
    proof
      assume t: "ticked T U w s s1"
      show "ticked T U w s s2"
        using 1(2) t by (auto simp: Let_def bind_eq_Some_conv split: if_splits
            intro: 1(1) [rule_format] dest!: ticked_drain_list [OF ticked_step(2) [OF t] assms(3)])
    qed
  qed
  with assms(2) show ?thesis by blast
qed

lemma ticked_ma:
  assumes "timer_ma_loop r ticks s1 = Some s2" and "ticked T U w s s1" and "waker T w"
  shows "ticked T U w s s2"
proof -
  have "ticked T U w s s1 \<longrightarrow> ticked T U w s s2" using assms(1)
  proof (induction r ticks s1 s2 rule: timer_ma_loop.raw_induct [rotated, consumes 1, case_names 1])
    case (1 rec r ticks s1 s2)
    show ?case
    proof
      assume t: "ticked T U w s s1"
      show "ticked T U w s s2"
        using 1(2) t by (auto simp: Let_def bind_eq_Some_conv split: if_splits
            intro: 1(1) [rule_format] dest!: ticked_drain_list [OF ticked_step(2) [OF t] assms(3)])
    qed
  qed
  with assms(2) show ?thesis by blast
qed

lemma timer_polling_ticked:
  assumes "tx_timer_polling r now1 now2 s = Some s'" and t: "\<forall>m. timer_task (timers s m) \<in> {None, Some w}"
    and w: "waker T w" and p: "PollTask (Callout r) \<in> T"
  shows "ticked T U w s s'"
proof -
  obtain ticks s0 where s0: "tx_getticks now1 s = (ticks, s0)" by (metis prod.exhaust)
  have t0: "ticked T U w s s0" using ticked_getticks [OF ticked_refl [OF t], where now = now1 and T = T and U = U] by (simp add: s0)
  obtain s1 s2 s3 where run: "timer_mi_loop r ticks s0 = Some s1" "timer_ma_loop r ticks s1 = Some s2"
      "timer_st_turn r ticks s2 = Some s3"
    and s': "s' = (let s4 = (if tx_loop_timeout (loop_of s3 (PollTask (Callout r))) (VRing r) s3 \<noteq> 0
                  then snd (tx_getticks now2 s3) else s3);
            s5 = tx_poll_active (Callout r) s4
        in if has (task_flags (tasks s5 (PollTask (Callout r)))) TASK_IDLE
                 then s5\<lparr>ring_live := (ring_live s5)(r := False)\<rparr> else s5)"
    using assms(1) by (auto simp: tx_timer_polling_def s0 Let_def bind_eq_Some_conv)
  have "ticked T U w s s2" using ticked_ma [OF run(2) ticked_mi [OF run(1) t0 w] w] .
  then have "ticked T U w s s3"
    using run(3) ticked_drain_list [OF ticked_step(2) w] by (auto simp: timer_st_turn_def split: if_splits)
  then show ?thesis unfolding s' Let_def
    by (auto intro!: ticked_step(4) ticked_poll_active ticked_getticks p)
qed

section \<open>The reading loop\<close>

lemma epoll_good_log:
  assumes "epoll_good e T (A, s)"
  shows "epoll_good e T (A, log_kcall (Input fd buf) s)" "epoll_good e T (A, log_kcall (Output fd buf) s)"
proof -
  have i: "epoll_interest (kcalls (io (log_kcall (Input fd buf) s))) e f = epoll_interest (kcalls (io s)) e f"
    "epoll_interest (kcalls (io (log_kcall (Output fd buf) s))) e f = epoll_interest (kcalls (io s)) e f" for f
    by simp_all
  show "epoll_good e T (A, log_kcall (Input fd buf) s)" "epoll_good e T (A, log_kcall (Output fd buf) s)"
    using assms unfolding epoll_good_def fst_conv snd_conv epoll_inv_def epoll_core_def epoll_held_def other_fds_def
      armed_def attached_def wanted_def waiters_def polled_for_def blocks_ok_def flags_io_reads i log_kcall_reads(1)
    by assumption+
qed

lemma epoll_good_ready:
  assumes "epoll_good e T (A, s)" and m: "ready_mask m"
  shows "epoll_good e T (A, clear_flags a m s)"
  using assms(1) epoll_inv_ready(2) [OF _ m] epoll_user.ready_polled(2) [OF m]
    blocks_ok_users [OF _ same_users_step(2) [OF m]] by (simp add: epoll_good_def)

lemma epoll_good_rest:
  assumes g: "epoll_good e T (A, s)" and r: "rest_step s s'"
  shows "epoll_good e T (A, s')"
proof -
  have "waiters T A s'" using assms by (auto simp: epoll_good_def epoll_inv_def waiters_def rest_step_def)
  then show ?thesis
    using epoll_inv_same_poll [OF _ rest_same_poll [OF r]] r blocks_ok_io g
    by (auto simp: epoll_good_def polled_for_def rest_step_def)
qed

text \<open>Waiting on a block that is not readable starts no task.\<close>

definition quiet :: "tx_mem \<Rightarrow> tx_mem \<Rightarrow> bool" where
  "quiet s s' \<longleftrightarrow> tasks s' = tasks s \<and> same_prog s s' \<and> input_of (kcalls (io s')) = input_of (kcalls (io s)) \<and>
     output_of (kcalls (io s')) = output_of (kcalls (io s)) \<and> (\<forall>up. tx_stop (loops s' up) = tx_stop (loops s up))"

lemma cells_upd_io [simp]: "cells (upd_io f s) = cells s"
  by (simp add: upd_io_def)

lemma quiet_refl: "quiet s s"
  by (simp add: quiet_def)

lemma quiet_io:
  "quiet s s1 \<Longrightarrow> input_of (kcalls (f (io s1))) = input_of (kcalls (io s1)) \<Longrightarrow>
     output_of (kcalls (f (io s1))) = output_of (kcalls (io s1)) \<Longrightarrow> quiet s (upd_io f s1)"
  by (simp add: quiet_def upd_io_def same_prog_def task_reads)

lemma quiet_steps:
  assumes "quiet s s1"
  shows "quiet s (upd_filp a f s1)" "quiet s (upd_epoll e g s1)" "quiet s (set_flags a m s1)"
    "quiet s (log_kcall (EpollMod e fd ev a) s1)" "quiet s (upd_loop up (\<lambda>l. l\<lparr>tx_holder := h\<rparr>) s1)"
  using assms unfolding filp_upds by (auto intro!: quiet_io simp: quiet_def upd_loop_def same_prog_def task_reads)

lemma quiet_hold: "quiet s s1 \<Longrightarrow> quiet s (epoll_hold e s1)"
  by (simp add: epoll_hold_def Let_def quiet_steps)

lemma pollin_quiet: "tx_epoll_pollin a k s = Inr s' \<Longrightarrow> quiet s0 s \<Longrightarrow> quiet s0 s'"
  by (auto simp: tx_epoll_pollin_def epoll_ctl_def Let_def split: poll_p.splits if_splits intro!: quiet_hold quiet_steps)

lemma aincb_wait_quiet:
  assumes "tx_aincb_active a t k s = Inr s'" and "\<not> tx_readable s a" and "tx_fops (filp s a) = GenericFops"
    and "ops_of s a = EpollOps"
  shows "quiet s s'"
proof -
  define s1 where "s1 = (if tx_filterin (filp s a) \<noteq> Some t then upd_filp a (\<lambda>f. f\<lparr>tx_filterin := Some t\<rparr>) s else s)"
  have q: "quiet s s1" unfolding s1_def by (auto intro!: quiet_steps quiet_refl)
  have o: "ops_of s1 a = EpollOps" using assms(4) by (simp add: s1_def upd_filp_def)
  have "s' = s1 \<or> tx_epoll_pollin a k s1 = Inr s'"
    using assms(1-3) o by (auto simp: tx_aincb_active_def generic_active_in_def s1_def [symmetric] Let_def epoll_fns_def
        simp del: fun_upd_apply split: if_splits)
  then show ?thesis using q pollin_quiet [OF _ q] by blast
qed

definition cat_block :: "task_p set \<Rightarrow> tx_mem \<Rightarrow> bool" where
  "cat_block T s \<longleftrightarrow> epoll_good cat_epoll T ({iotest_file}, s) \<and> cat_io s \<and>
     (attached s iotest_file \<or> tx_readable s iotest_file)"

lemma stdio_wait:
  assumes b: "cat_block T s" and t: "iotest_task \<in> T" and q: "\<not> busy s iotest_task" and at: "attached s iotest_file"
    and k: "\<forall>i. fst (k i) = 0" and nr: "\<not> tx_readable s iotest_file"
  shows "\<exists>s'. tx_aincb_active iotest_file iotest_task k s = Inr s' \<and> cat_block T s' \<and> api_run T U s s' \<and> same_prog s s' \<and>
    output_of (kcalls (io s')) = output_of (kcalls (io s)) \<and> \<not> tx_readable s' iotest_file \<and>
    tx_filterin (filp s' iotest_file) = Some iotest_task \<and> (\<forall>up. tx_stop (loops s' up) = tx_stop (loops s up))"
proof -
  have g: "epoll_inv cat_epoll T {iotest_file} s" "polled_for {iotest_file} s" "blocks_ok {iotest_file} s"
    using b by (simp_all add: cat_block_def epoll_good_def)
  have f: "tx_fops (filp s iotest_file) = GenericFops" using g(3) by (simp add: blocks_ok_def)
  have o: "ops_of s iotest_file = EpollOps" using epoll.ok_ops [OF g(1)] by simp
  obtain s' where s': "tx_aincb_active iotest_file iotest_task k s = Inr s'" "epoll_inv cat_epoll T {iotest_file} s'"
    "api_run T U s s'" "polled_for {iotest_file} s'" "same_users s s'"
    "aiocbs (io s') = (aiocbs (io s))(iotest_file := (filp s iotest_file)
        \<lparr>filp_flags := fl s iotest_file OR TX_POLLIN, tx_filterin := Some iotest_task\<rparr>)"
    using epoll_user.user_active [where k = k and U = U, OF g(1,2) _ disjI2 [OF at] t _ _ f] k nr by auto
  note Q = aincb_wait_quiet [OF s'(1) nr f o, unfolded quiet_def]
  have "busy s' iotest_task = busy s iotest_task" by (simp add: task_reads Q)
  moreover have "attached s' iotest_file" using s'(5) at by (simp add: same_users_def)
  moreover have "cat_io s'" using b q calculation(1) by (auto simp: cat_block_def cat_io_def s'(6) Q)
  ultimately have "cat_block T s'"
    using s' blocks_ok_users [OF g(3)] by (simp add: cat_block_def epoll_good_def)
  then show ?thesis using s' Q nr by (auto simp: tx_readable_def flags)
qed

lemma end_kres_neg: "fst (end_kres r) \<le> 0"
  by (cases r) auto

lemma rest_log: "task_frame s (log_kcall c s)"
  by (simp add: log_kcall_def)

lemma stop_block:
  assumes b: "cat_block T s"
  shows "cat_block T (tx_loop_stop up s)" "api_run T U s (tx_loop_stop up s)" "same_prog s (tx_loop_stop up s)"
proof -
  have r: "rest_step s (tx_loop_stop up s)" by (simp add: rest_step_def tx_loop_stop_def upd_loop_def)
  have "epoll_good cat_epoll T ({iotest_file}, tx_loop_stop up s)"
    using b by (intro epoll_good_rest [OF _ r]) (simp add: cat_block_def)
  then show "cat_block T (tx_loop_stop up s)"
    using b by (auto simp: cat_block_def cat_io_def tx_loop_stop_def upd_loop_def attached_def tx_readable_def task_reads)
  show "api_run T U s (tx_loop_stop up s)" by (rule r_into_rtranclp, rule api_stop)
  show "same_prog s (tx_loop_stop up s)" by (simp add: same_prog_def tx_loop_stop_def upd_loop_def task_reads)
qed


lemma copy_block:
  fixes fd fd' :: int and buf :: bytes
  assumes "cat_block T s" and "\<not> busy s iotest_task" and "tx_readable s iotest_file"
  defines "s2 \<equiv> log_kcall (Output fd' buf) (log_kcall (Input fd buf) s)"
  shows "cat_block T s2" "api_run T U s s2" "same_prog s s2" "\<not> busy s2 iotest_task" "tx_readable s2 iotest_file"
    "attached s2 iotest_file = attached s iotest_file" "output_of (kcalls (io s2)) = output_of (kcalls (io s)) @ buf"
    "loops s2 = loops s" "tasks s2 = tasks s"
proof -
  have R: "filp s2 = filp s" "tasks s2 = tasks s" "loops s2 = loops s"
    "kcalls (io s2) = kcalls (io s) @ [Input fd buf] @ [Output fd' buf]"
    by (simp_all add: s2_def log_kcall_def)
  have g: "epoll_good cat_epoll T ({iotest_file}, s2)"
    using assms(1) by (simp add: s2_def epoll_good_log cat_block_def)
  show "tx_readable s2 iotest_file" "\<not> busy s2 iotest_task" "attached s2 iotest_file = attached s iotest_file"
    "loops s2 = loops s" "tasks s2 = tasks s"
    using assms(2,3) by (simp_all add: tx_readable_def attached_def task_reads R)
  have "kcalls (io s2) = (kcalls (io s) @ [Input fd buf]) @ [Output fd' buf]" by (simp add: R)
  then have B: "output_of (kcalls (io s2)) = output_of (kcalls (io s)) @ buf" "input_of (kcalls (io s2)) = input_of (kcalls (io s)) @ buf"
    by (simp_all only: input_snoc output_snoc) simp_all
  then have "cat_io s2" using assms(1,3) by (auto simp: cat_block_def cat_io_def R tx_readable_def)
  then show "cat_block T s2" using g assms(1,3) by (auto simp: cat_block_def attached_def tx_readable_def R)
  show "output_of (kcalls (io s2)) = output_of (kcalls (io s)) @ buf" by (rule B)
  show "api_run T U s s2" unfolding s2_def by (intro api_run_filp) simp
  show "same_prog s s2" unfolding s2_def log_kcall_def by (intro same_prog_steps same_prog_refl)
qed

lemma stdio_loop_spec:
  assumes "cat_block T s" and t: "iotest_task \<in> T" and "\<not> busy s iotest_task" and "tx_readable s iotest_file"
    and k: "\<forall>i. fst (k i) = 0" and "\<forall>b\<in>set bufs. b \<noteq> []" and "r = Failed EAGAIN \<Longrightarrow> attached s iotest_file"
  shows "\<exists>s'. stdio_loop fd k bufs r s = Inr s' \<and> cat_block T s' \<and> api_run T U s s' \<and> same_prog s s' \<and>
    output_of (kcalls (io s')) = output_of (kcalls (io s)) @ concat bufs \<and>
    (if r = Failed EAGAIN then \<not> tx_readable s' iotest_file \<and> tx_filterin (filp s' iotest_file) = Some iotest_task \<and>
       (\<forall>up. tx_stop (loops s' up) = tx_stop (loops s up))
     else stopped s' (loop_of s iotest_task))"
  using assms(1,3,4,6,7)
proof (induction bufs arbitrary: s)
  case Nil
  show ?case
  proof (cases "r = Failed EAGAIN")
    case True
    let ?s = "clear_flags iotest_file TX_READABLE s"
    have m: "ready_mask TX_READABLE" by (simp add: ready_mask_def)
    have R: "tasks ?s = tasks s" "loops ?s = loops s" "\<not> tx_readable ?s iotest_file" "attached ?s iotest_file"
      "\<not> busy ?s iotest_task" "kcalls (io ?s) = kcalls (io s)"
      using Nil True by (simp_all add: filp_upds tx_readable_def attached_def task_reads flags upd_io_def)
    have "cat_io ?s" using Nil(1) R(5) by (auto simp: cat_block_def cat_io_def filp_upds)
    then have "cat_block T ?s" using Nil(1) epoll_good_ready [OF _ m] R(4) by (simp add: cat_block_def)
    from stdio_wait [where U = U, OF this t R(5,4) k R(3)] obtain s' where
      s': "tx_aincb_active iotest_file iotest_task k ?s = Inr s'" "cat_block T s'" "api_run T U ?s s'" "same_prog ?s s'"
      "output_of (kcalls (io s')) = output_of (kcalls (io ?s))" "\<not> tx_readable s' iotest_file"
      "tx_filterin (filp s' iotest_file) = Some iotest_task" "\<forall>up. tx_stop (loops s' up) = tx_stop (loops ?s up)" by blast
    have "stdio_loop fd k [] r s = Inr s'"
      using s'(1) R(3) by (simp add: True stdio_step_def tx_aincb_update_def)
    moreover have "api_run T U s s'" using api_run_filp(2) [of T U s s iotest_file TX_READABLE] s'(3) by simp
    moreover have "same_prog s ?s" by (simp add: clear_flags_def upd_filp_def same_prog_step)
    ultimately show ?thesis using s' R True same_prog_trans by auto
  next
    case False
    have u: "tx_aincb_update iotest_file (end_kres r) s = s" using False by (cases r) (simp_all add: tx_aincb_update_def)
    have "stdio_loop fd k [] r s = Inr (tx_loop_stop (tx_loop_get iotest_task s) s)"
      using Nil(3) end_kres_neg [of r] by (simp add: stdio_step_def u Let_def)
    then show ?thesis using stop_block [OF Nil(1)] False
      by (auto simp: tx_loop_stop_def upd_loop_def stopped_def tx_loop_get_def)
  qed
next
  case (Cons buf bufs)
  let ?s = "log_kcall (Output STDOUT_FD buf) (log_kcall (Input fd buf) s)"
  note C = copy_block [where buf = buf and fd = fd and fd' = STDOUT_FD, OF Cons.prems(1-3)]
  have eq: "stdio_loop fd k (buf # bufs) r s = stdio_loop fd k bufs r ?s"
    using Cons.prems by (simp add: stdio_step_def tx_aincb_update_def tx_readable_def Let_def)
  have lp: "loop_of ?s iotest_task = loop_of s iotest_task" by (simp add: task_reads C(9))
  from Cons.IH [OF C(1,4,5)] Cons.prems(4,5) obtain s' where s': "stdio_loop fd k bufs r ?s = Inr s'" "cat_block T s'"
    "api_run T U ?s s'" "same_prog ?s s'" "output_of (kcalls (io s')) = output_of (kcalls (io ?s)) @ concat bufs"
    "if r = Failed EAGAIN then \<not> tx_readable s' iotest_file \<and> tx_filterin (filp s' iotest_file) = Some iotest_task \<and>
       (\<forall>up. tx_stop (loops s' up) = tx_stop (loops ?s up)) else stopped s' (loop_of ?s iotest_task)"
    by (auto simp: C(6))
  have "api_run T U s s'" using C(2) s'(3) by (rule rtranclp_trans)
  then show ?case using s' same_prog_trans [OF C(3)] unfolding eq lp C(7,8) by (intro exI [of _ s']) auto
qed

end
