(* ===== verification/TxCatRun.thy ===== *)
theory TxCatRun
  imports TxCat
begin

text \<open>
  \<open>txcat\<close> as a whole. Its callbacks are an instance of the interface \<open>loop_callbacks\<close>, so its loop is a run
  of the task machine; what it writes is what it read; and it ends when its input does.
\<close>

section \<open>The environment and the program's invariant\<close>

text \<open>
  What the kernel is documented to answer: \<open>epoll_wait\<close> reports descriptors that were asked for,
  \<open>epoll_ctl\<close> succeeds on a descriptor that is attached, \<open>read\<close> returns at most what was asked for, and on a
  descriptor that epoll refuses (a regular file) never \<open>EAGAIN\<close>; the clock does not go backwards and stays
  below \<open>2^31\<close> milliseconds.
\<close>

definition clock_ok :: "cat_env \<Rightarrow> tx_mem \<Rightarrow> bool" where
  "clock_ok env s \<longleftrightarrow> unat (tx_ticks s) + 65536 \<le> 2^31 \<longrightarrow>
     (\<exists>T T2. clock_at (fst (clock_of env s)) T \<and> unat (tx_ticks s) \<le> T \<and> clock_at (snd (clock_of env s)) T2 \<and>
        T \<le> T2 \<and> T2 + 65536 \<le> 2^31)"

definition reads_ok :: "cat_env \<Rightarrow> tx_mem \<Rightarrow> bool" where
  "reads_ok env s \<longleftrightarrow> (\<forall>b\<in>set (fst (reads_of env s)). b \<noteq> [] \<and> length b \<le> 32768) \<and>
     (snd (reads_of env s) = Failed EAGAIN \<longrightarrow> attached s iotest_file)"

definition env_ok :: "cat_env \<Rightarrow> bool" where
  "env_ok env \<longleftrightarrow> (fst (add_of env) = 0 \<or> add_of env = (-1, EPERM)) \<and>
     (\<forall>s. (\<forall>ms. epoll_answer {iotest_file} s (wait_of env s ms)) \<and> (\<forall>i. fst (ctl_of env s i) = 0) \<and>
        reads_ok env s \<and> clock_ok env s \<and> fd_of env s \<noteq> -1)"

abbreviation (input) cat_callout :: task_p where "cat_callout \<equiv> PollTask (Callout cat_ring)"
abbreviation (input) cat_poller :: task_p where "cat_poller \<equiv> PollTask (EpollTask cat_epoll)"

definition cat_tasks :: "task_p set" where
  "cat_tasks = {uptick_task, tmtask_task, iotest_task, cat_poller, cat_callout}"

definition cat_heads :: "taskq_p set" where
  "cat_heads = {LoopQ DefaultLoop}"

fun cat_call :: "task_p \<Rightarrow> call_p \<times> void_p" where
  "cat_call (Task n) = (UserCall n, VUser n)"
| "cat_call (PollTask (EpollTask e)) = (EpollPolling, VEpoll e)"
| "cat_call (PollTask (Callout r)) = (TimerPolling, VRing r)"
| "cat_call _ = (NullCall, VNull)"

definition cat_calls :: "tx_mem \<Rightarrow> bool" where
  "cat_calls s \<longleftrightarrow> (\<forall>t\<in>cat_tasks. loop_of s t = DefaultLoop \<and> (task_call (tasks s t), task_data (tasks s t)) = cat_call t)"

definition cat_timers :: "tx_mem \<Rightarrow> bool" where
  "cat_timers s \<longleftrightarrow> timers_ok {tmtask_timer} cat_ring s \<and> tx_ring (timers s tmtask_timer) = cat_ring \<and>
     (\<forall>m. timer_task (timers s m) \<in> {None, Some tmtask_task}) \<and> unat (tx_ticks s) + 65536 \<le> 2^31"

text \<open>A ring that was deleted has a task that is not queued, in a loop that was stopped.\<close>

definition cat_ring_kept :: "tx_mem \<Rightarrow> bool" where
  "cat_ring_kept s \<longleftrightarrow> ring_live s cat_ring \<or> stopped s DefaultLoop \<and> idle s cat_callout"

definition cat_own :: "cat_env \<Rightarrow> task_p set \<Rightarrow> taskq_p set \<Rightarrow> tx_mem \<Rightarrow> bool" where
  "cat_own env T U s \<longleftrightarrow> env_ok env \<and> T = cat_tasks \<and> U = cat_heads \<and> cat_calls s \<and> cat_block T s \<and>
     cat_timers s \<and> cat_ring_kept s"

lemma cat_calls_same: "cat_calls s \<Longrightarrow> same_prog s s' \<Longrightarrow> cat_calls s'"
  by (simp add: cat_calls_def same_prog_def)

lemma cat_timers_same: "cat_timers s \<Longrightarrow> same_prog s s' \<Longrightarrow> cat_timers s'"
  unfolding cat_timers_def same_prog_def using timers_ok_frame [of "{tmtask_timer}" cat_ring s s'] by simp

lemma cat_ring_same: "cat_ring_kept s \<Longrightarrow> cat_calls s \<Longrightarrow> same_prog s s' \<Longrightarrow> cat_ring_kept s'"
  by (auto simp: cat_ring_kept_def same_prog_def cat_calls_def cat_tasks_def)

lemma cat_own_same: "cat_own env T U s \<Longrightarrow> same_prog s s' \<Longrightarrow> cat_block T s' \<Longrightarrow> cat_own env T U s'"
  unfolding cat_own_def using cat_calls_same cat_timers_same cat_ring_same by blast

lemma cat_block_rest:
  "cat_block T s \<Longrightarrow> rest_step s s' \<Longrightarrow> (busy s' iotest_task \<Longrightarrow> busy s iotest_task) \<Longrightarrow> cat_block T s'"
  using epoll_good_rest cat_io_frame [of s s'] unfolding cat_block_def
  by (auto simp: rest_step_def attached_def tx_readable_def)

lemma cat_own_frame:
  assumes "cat_own env T U s" and "loop_frame s s'"
  shows "cat_own env T U s'"
proof -
  define ts where "ts = tasks s'" define ls where "ls = loops s'" define q where "q = tq s'"
  have s': "s' = s\<lparr>tasks := ts, loops := ls, tq := q\<rparr>" using assms(2) by (simp add: loop_frame_def ts_def ls_def q_def)
  have f: "rest_step s s'" "busy s' iotest_task \<Longrightarrow> busy s iotest_task"
    using assms(2) by (simp_all add: loop_frame_def rest_step_def task_reads) (simp add: s')
  have "cat_block T s'" using assms(1) f by (auto simp: cat_own_def intro: cat_block_rest)
  moreover have "cat_calls s'" using assms by (simp add: cat_own_def cat_calls_def loop_frame_def task_reads)
  moreover have "timers_ok {tmtask_timer} cat_ring s'"
    by (rule timers_ok_frame [of _ _ s]) (use assms(1) in \<open>simp_all add: cat_own_def cat_timers_def s'\<close>)
  then have "cat_timers s'" using assms(1) by (simp add: cat_own_def cat_timers_def s')
  moreover have "ring_live s' = ring_live s" by (simp add: s')
  then have "cat_ring_kept s'" using assms by (auto simp: cat_own_def cat_ring_kept_def loop_frame_def stopped_def)
  ultimately show ?thesis using assms(1) by (simp add: cat_own_def)
qed

section \<open>The callbacks keep it\<close>

lemma cat_tasks_in: "uptick_task \<in> cat_tasks" "tmtask_task \<in> cat_tasks" "iotest_task \<in> cat_tasks"
  "cat_poller \<in> cat_tasks" "cat_callout \<in> cat_tasks"
  by (simp_all add: cat_tasks_def)

lemma cat_ownD:
  assumes "cat_own env T U s"
  shows "env_ok env" "T = cat_tasks" "U = cat_heads" "cat_calls s" "cat_block cat_tasks s" "cat_timers s" "cat_ring_kept s"
proof -
  have T: "T = cat_tasks" using assms by (simp add: cat_own_def)
  show "env_ok env" "T = cat_tasks" "U = cat_heads" "cat_calls s" "cat_block cat_tasks s" "cat_timers s" "cat_ring_kept s"
    using assms T by (simp_all add: cat_own_def)
qed

lemma set_cell_same: "same_prog s (set_cell i v s)" "rest_step s (set_cell i v s)" "task_frame s (set_cell i v s)"
  by (simp_all add: set_cell_def same_prog_def rest_step_def task_frame_def task_reads)

lemma cat_own_cell:
  assumes "cat_own env T U s"
  shows "cat_own env T U (set_cell i v s)" and "api_step T U s (set_cell i v s)"
proof -
  have "cat_block T (set_cell i v s)"
    by (rule cat_block_rest [OF _ set_cell_same(2)]) (use assms in \<open>auto simp: cat_own_def set_cell_def task_reads\<close>)
  then show "cat_own env T U (set_cell i v s)" by (rule cat_own_same [OF assms set_cell_same(1)])
  show "api_step T U s (set_cell i v s)" by (rule api_other [OF set_cell_same(3)])
qed

lemma cat_own_active:
  assumes "cat_own env T U s" and "t \<in> cat_tasks" and "t \<noteq> iotest_task"
  shows "cat_own env T U (tx_task_active (Some t) r s)" and "api_step T U s (tx_task_active (Some t) r s)"
proof -
  have "cat_block T (tx_task_active (Some t) r s)"
    by (rule cat_block_rest) (use assms in \<open>auto simp: cat_own_def rest_step_def busy_active_iff\<close>)
  then show "cat_own env T U (tx_task_active (Some t) r s)" by (rule cat_own_same [OF assms(1) same_prog_step(1)])
  show "api_step T U s (tx_task_active (Some t) r s)" by (rule api_active) (use assms cat_ownD(2) [OF assms(1)] in simp)
qed

lemma update_tick_own:
  assumes "cat_own env T U s"
  shows "cat_own env T U (update_tick s) \<and> api_run T U s (update_tick s)"
proof -
  define s1 where "s1 = (if uint (tx_ticks s) \<noteq> cells s uptick_last_ticks then set_cell uptick_last_ticks (uint (tx_ticks s)) s else s)"
  have 1: "cat_own env T U s1" "api_run T U s s1" using assms cat_own_cell [OF assms] by (auto simp: s1_def)
  let ?s2 = "tx_task_active (Some uptick_task) (VUser 0) s1"
  have 2: "cat_own env T U ?s2" "api_step T U s1 ?s2" using cat_own_active [OF 1(1) cat_tasks_in(1)] by simp_all
  let ?s3 = "set_cell uptick_ticks (cells ?s2 uptick_ticks + 1) ?s2"
  have 3: "cat_own env T U ?s3" "api_step T U ?s2 ?s3" by (rule cat_own_cell [OF 2(1)])+
  have "api_run T U s ?s3" using 1(2) 2(2) 3(2) by (blast intro: rtranclp.rtrancl_into_rtrancl)
  moreover have "update_tick s = (if cells s1 uptick_ticks < 100 then ?s3 else s1)"
    unfolding update_tick_def Let_def s1_def [symmetric] ..
  ultimately show ?thesis using 1 3 by auto
qed

text \<open>The callbacks of the timers.\<close>

lemma ticked_own:
  assumes "cat_own env T U s" and k: "ticked T U tmtask_task s s'" and "timers_ok {tmtask_timer} cat_ring s'"
    and "unat (tx_ticks s') + 65536 \<le> 2^31" and "cat_ring_kept s'"
  shows "cat_own env T U s' \<and> api_run T U s s'"
proof -
  have "cat_block T s'" by (rule cat_block_rest [of _ s]) (use assms(1) k in \<open>auto simp: cat_own_def ticked_def\<close>)
  moreover have "cat_calls s'" using assms(1) k by (simp add: cat_own_def cat_calls_def ticked_def rest_step_def)
  moreover have "cat_timers s'" using assms k by (simp add: cat_own_def cat_timers_def ticked_def)
  ultimately show ?thesis using assms by (simp add: cat_own_def ticked_def)
qed

lemma update_timer_own:
  assumes own: "cat_own env T U s" and "update_timer s = Inr s'"
  shows "cat_own env T U s' \<and> api_run T U s s'"
proof -
  have s': "s' = tx_timer_reset tmtask_timer 50000 s" using assms(2) by (simp add: update_timer_def split: if_splits)
  have t: "cat_timers s" using own by (simp add: cat_own_def)
  have k: "ticked T U tmtask_task s s'" unfolding s' by (rule ticked_reset [OF ticked_refl]) (use t in \<open>simp add: cat_timers_def\<close>)
  have ok: "timers_ok {tmtask_timer} cat_ring s'" unfolding s'
    by (rule timers_ok_reset(1)) (use t in \<open>simp_all add: cat_timers_def\<close>)
  have R: "tx_ticks s' = tx_ticks s" "ring_live s' = ring_live s" "tasks s' = tasks s" "loops s' = loops s"
    unfolding s' by (cases "timer_idle s tmtask_timer"; simp add: reset_idle_reads reset_pending timer_idle_def upd_timer_def on_mq_def flags)+
  show ?thesis
    by (rule ticked_own [OF own k ok]) (use own in \<open>simp_all add: R cat_own_def cat_timers_def cat_ring_kept_def task_reads\<close>)
qed

lemma cat_polling_own:
  assumes own: "cat_own env T U s" and run: "cat_polling env cat_ring s = Inr s'"
  shows "cat_own env T U s' \<and> api_run T U s s'"
proof -
  note D = cat_ownD [OF own]
  have live: "ring_live s cat_ring" using run by (auto simp: cat_polling_def split: if_splits)
  have t: "timers_ok {tmtask_timer} cat_ring s" "\<forall>m. timer_task (timers s m) \<in> {None, Some tmtask_task}"
    "unat (tx_ticks s) + 65536 \<le> 2^31" using D(6) by (simp_all add: cat_timers_def)
  obtain T1 T2 where c: "clock_at (fst (clock_of env s)) T1" "unat (tx_ticks s) \<le> T1" "clock_at (snd (clock_of env s)) T2"
    "T1 \<le> T2" "T2 + 65536 \<le> 2^31" using D(1) t(3) by (auto simp: env_ok_def clock_ok_def)
  have p: "tx_timer_polling cat_ring (fst (clock_of env s)) (snd (clock_of env s)) s = Some s'"
    using run by (auto simp: cat_polling_def split: if_splits option.splits)
  obtain s2 where s2: "tx_timer_polling cat_ring (fst (clock_of env s)) (snd (clock_of env s)) s = Some s2"
    "timers_ok {tmtask_timer} cat_ring s2" "unat (tx_ticks s2) \<le> T2"
    "ring_live s2 = (if idle s2 cat_callout then (ring_live s)(cat_ring := False) else ring_live s)"
    "idle s2 cat_callout \<longrightarrow> stopped s2 (loop_of s2 cat_callout)"
  proof (rule tx_timer_polling_spec [OF t(1) c(1-4)])
    show "T2 + 15 \<le> 2^31" using c(5) by simp
    fix x assume *: "tx_timer_polling cat_ring (fst (clock_of env s)) (snd (clock_of env s)) s = Some x"
      "timers_ok {tmtask_timer} cat_ring x" "unat (tx_ticks x) \<le> T2"
      "ring_live x = (if idle x cat_callout then (ring_live s)(cat_ring := False) else ring_live s)"
      "idle x cat_callout \<Longrightarrow> stopped x (loop_of x cat_callout)"
    show thesis by (rule that [OF *(1-4)]) (use *(5) in blast)
  qed
  have s': "s' = s2" using p s2(1) by simp
  have k: "ticked T U tmtask_task s s'"
    by (rule timer_polling_ticked [OF p t(2)]) (simp_all add: D(2) cat_tasks_def waker_def)
  have lp: "loop_of s' cat_callout = DefaultLoop"
    using k D(4) by (simp add: ticked_def rest_step_def cat_calls_def cat_tasks_def)
  have "cat_ring_kept s'" using s2(4,5) live lp by (auto simp: s' cat_ring_kept_def)
  then show ?thesis using ticked_own [OF own k] s2(2,3) c(5) by (simp add: s')
qed

lemma epoll_polling_own:
  assumes own: "cat_own env T U s" and run: "tx_epoll_polling cat_epoll (wait_of env s) s = Inr s'"
  shows "cat_own env T U s' \<and> api_run T U s s'"
proof -
  note D = cat_ownD [OF own]
  have g: "epoll_inv cat_epoll T {iotest_file} s" "polled_for {iotest_file} s" "blocks_ok {iotest_file} s" "cat_io s"
    "attached s iotest_file \<or> tx_readable s iotest_file"
    using D(2,5) by (simp_all add: cat_block_def epoll_good_def)
  have ans: "epoll_answer {iotest_file} s (wait_of env s ms)" for ms using D(1) by (simp add: env_ok_def)
  have p: "cat_poller \<in> T" using D(2) cat_tasks_in(4) by simp
  from tx_epoll_polling_spec [where U = U and wait = "wait_of env s", OF g(1,2) p ans]
  obtain s2 ms where s2: "tx_epoll_polling cat_epoll (wait_of env s) s = Inr s2" "epoll_inv cat_epoll T {iotest_file} s2"
    "polled_for {iotest_file} s2" "api_run T U s s2"
    and fl: "\<forall>(v, a)\<in>epoll_delivered (wait_of env s ms). filp s2 a = filp_after v (filp s a)"
    "\<forall>b. b \<notin> snd ` epoll_delivered (wait_of env s ms) \<longrightarrow> filp s2 b = filp s b"
    by (elim exE conjE) (rule that; (assumption | fast))
  have s': "s' = s2" using run s2(1) by simp
  note E = epoll_polling_cat [OF g(4) ans run]
  have su: "same_users s s'" using epoll_polling_users [OF fl] by (simp add: s')
  have "filp s' iotest_file = filp s iotest_file \<or> (\<exists>v. filp s' iotest_file = filp_after v (filp s iotest_file))"
    using fl by (cases "iotest_file \<in> snd ` epoll_delivered (wait_of env s ms)") (force simp: s')+
  then have "tx_readable s iotest_file \<Longrightarrow> tx_readable s' iotest_file"
    by (auto simp: tx_readable_def filp_after_reads)
  then have "attached s' iotest_file \<or> tx_readable s' iotest_file" using g(5) su by (auto simp: same_users_def)
  then have "cat_block T s'" using s2(2,3) E(1) blocks_ok_users [OF g(3) su] by (simp add: cat_block_def epoll_good_def s')
  then show ?thesis using cat_own_same [OF own E(2)] s2(4) s' by simp
qed

lemma update_stdio_own:
  assumes own: "cat_own env T U s" and "\<not> busy s iotest_task" and "tx_readable s iotest_file"
  shows "\<exists>s'. update_stdio env s = Inr s' \<and> cat_own env T U s' \<and> api_run T U s s' \<and>
    output_of (kcalls (io s')) = output_of (kcalls (io s)) @ concat (fst (reads_of env s)) \<and>
    (if snd (reads_of env s) = Failed EAGAIN then \<not> tx_readable s' iotest_file \<and>
       tx_filterin (filp s' iotest_file) = Some iotest_task \<and> (\<forall>up. tx_stop (loops s' up) = tx_stop (loops s up))
     else stopped s' DefaultLoop) \<and> ring_live s' = ring_live s"
proof -
  note D = cat_ownD [OF own]
  have b: "cat_block T s" and t: "iotest_task \<in> T" using D(2,5) cat_tasks_in by simp_all
  have e: "\<forall>i. fst (ctl_of env s i) = 0" "\<forall>b\<in>set (fst (reads_of env s)). b \<noteq> []"
    "snd (reads_of env s) = Failed EAGAIN \<Longrightarrow> attached s iotest_file" using D(1) by (auto simp: env_ok_def reads_ok_def)
  have lp: "loop_of s iotest_task = DefaultLoop" using D(4) by (simp add: cat_calls_def cat_tasks_def)
  have live: "same_prog s s' \<Longrightarrow> ring_live s' = ring_live s" for s' by (simp add: same_prog_def)
  from stdio_loop_spec [where U = U, OF b t assms(2,3) e] show ?thesis
    unfolding update_stdio_def lp using cat_own_same [OF own] live by blast
qed

section \<open>The callbacks as an instance of the interface\<close>

text \<open>What a call of the loop finds: the task of \<open>update_stdio\<close> was busy, so its block is readable.\<close>

lemma cat_called:
  assumes "reach (T, U, M, s0)" and own0: "cat_own env T U s0" and st: "sys_step (Call up t) (T, U, M, s0) (T, U, M, s)"
    and own: "cat_own env T U s" and t: "t \<in> T"
  shows "t = cat_callout \<Longrightarrow> ring_live s cat_ring" and "t = iotest_task \<Longrightarrow> tx_readable s iotest_file"
proof -
  note C = called_was_queued [OF assms(1) st t]
  have io: "io s = io s0" "ring_live s = ring_live s0" by (simp_all add: C(3) loop_take_def on_tq_def mem_defs Let_def)
  show "ring_live s cat_ring" if "t = cat_callout"
    using own0 C(1) that by (simp add: cat_own_def cat_ring_kept_def io)
  show "tx_readable s iotest_file" if "t = iotest_task"
    using own0 C(2) that by (simp add: cat_own_def cat_block_def cat_io_def tx_readable_def io)
qed

lemma cat_run_client:
  assumes "reach (T, U, M, s0)" and own0: "cat_own env T U s0" and st: "sys_step (Call up t) (T, U, M, s0) (T, U, M, s)"
    and own: "cat_own env T U s" and t: "t \<in> T" "idle s t"
  shows "(\<exists>s'. cat_run env (task_call (tasks s t)) (task_data (tasks s t)) s = Inr s' \<and> cat_own env T U s' \<and> api_run T U s s') \<or>
    (t = tmtask_task \<and> \<not> ring_live s cat_ring \<and> cat_run env (task_call (tasks s t)) (task_data (tasks s t)) s = Inl UseAfterFree)"
proof -
  note D = cat_ownD [OF own]
  note C = cat_called [OF assms(1-4) t(1)]
  obtain Q where inv: "loop_inv T U M s Q"
    by (rule reach_inv [OF reach.reach_step [OF assms(1) st]])
  have q: "\<not> busy s t" using loop_invD(9) [OF inv t] by simp
  have "(task_call (tasks s t), task_data (tasks s t)) = cat_call t" using D(2,4) t(1) by (simp add: cat_calls_def)
  then have call: "task_call (tasks s t) = fst (cat_call t)" "task_data (tasks s t) = snd (cat_call t)"
    by (simp_all add: prod_eq_iff)
  have "t \<in> cat_tasks" using t(1) D(2) by simp
  then consider "t = uptick_task" | "t = tmtask_task" | "t = iotest_task" | "t = cat_poller" | "t = cat_callout"
    by (auto simp: cat_tasks_def)
  then show ?thesis
  proof cases
    case 1
    show ?thesis using update_tick_own [OF own] unfolding call unfolding 1 by simp
  next
    case 2
    have r: "tx_ring (timers s tmtask_timer) = cat_ring" using D(6) by (simp add: cat_timers_def)
    show ?thesis using update_timer_own [OF own] r unfolding call unfolding 2 by (auto simp: update_timer_def)
  next
    case 3
    show ?thesis using update_stdio_own [OF own] q C(2) 3 unfolding call unfolding 3 by (auto simp: numeral_2_eq_2)
  next
    case 4
    have "\<exists>s'. tx_epoll_polling cat_epoll (wait_of env s) s = Inr s'"
      using tx_epoll_polling_spec [where U = U and e = cat_epoll and T = T and A = "{iotest_file}" and s = s and wait = "wait_of env s"]
        D(1,2,5) cat_tasks_in(4) by (auto simp: cat_block_def epoll_good_def env_ok_def)
    then show ?thesis using epoll_polling_own [OF own] unfolding call unfolding 4 by auto
  next
    case 5
    have "\<exists>s'. cat_polling env cat_ring s = Inr s'"
    proof -
      have t: "timers_ok {tmtask_timer} cat_ring s" "unat (tx_ticks s) + 65536 \<le> 2^31" using D(6) by (simp_all add: cat_timers_def)
      obtain T1 T2 where c: "clock_at (fst (clock_of env s)) T1" "unat (tx_ticks s) \<le> T1" "clock_at (snd (clock_of env s)) T2"
        "T1 \<le> T2" "T2 + 65536 \<le> 2^31" using D(1) t(2) by (auto simp: env_ok_def clock_ok_def)
      have "\<exists>x. tx_timer_polling cat_ring (fst (clock_of env s)) (snd (clock_of env s)) s = Some x"
        by (rule tx_timer_polling_spec [OF t(1) c(1-4)]) (use c(5) in auto)
      then show ?thesis using C(1) 5 by (auto simp: cat_polling_def)
    qed
    then show ?thesis using cat_polling_own [OF own] unfolding call unfolding 5 by auto
  qed
qed

interpretation txcat: loop_callbacks "cat_run env" "cat_own env" for env
proof
  show "cat_own env T U s \<Longrightarrow> loop_frame s s' \<Longrightarrow> cat_own env T U s'" for T U s s' by (rule cat_own_frame)
  fix T U M s0 up t s s'
  assume a: "reach (T, U, M, s0)" "cat_own env T U s0" "sys_step (Call up t) (T, U, M, s0) (T, U, M, s)"
    "reach (T, U, M, s)" "cat_own env T U s" "t \<in> T" "idle s t"
    "cat_run env (task_call (tasks s t)) (task_data (tasks s t)) s = Inr s'"
  from cat_run_client [OF a(1-3,5-7)] a(8) have "cat_own env T U s'" "api_run T U s s'" by auto
  then show "\<exists>T' U'. client_run (T, U, s) (T', U', s') \<and> cat_own env T' U' s'" using api_run_client by blast
qed

end
