(* ===== verification/TxCatMain.thy ===== *)
theory TxCatMain
  imports TxCatRun
begin

text \<open>
  \<open>main\<close> of \<open>txcat.cpp\<close> from zeroed memory to the end of its loop, and the properties of the program.
\<close>

section \<open>The tasks while the program is set up\<close>

definition booted :: "task_p set \<Rightarrow> tx_mem \<Rightarrow> bool" where
  "booted T s \<longleftrightarrow> reach (T, cat_heads, {}, s) \<and> T \<subseteq> cat_tasks \<and> (\<forall>t. loop_of s t = DefaultLoop) \<and>
     (\<forall>t. (task_call (tasks s t), task_data (tasks s t)) = (if t \<in> T then cat_call t else (NullCall, VNull))) \<and>
     \<not> stopped s DefaultLoop \<and> (\<forall>p. PollTask p \<in> T \<longrightarrow> \<not> idle s (PollTask p)) \<and> \<not> busy s iotest_task"

lemma bootedD:
  assumes "booted T s"
  shows "reach (T, cat_heads, {}, s)" "T \<subseteq> cat_tasks" "loop_of s t = DefaultLoop" "\<not> stopped s DefaultLoop"
    "task_call (tasks s t) = (if t \<in> T then fst (cat_call t) else NullCall)"
    "task_data (tasks s t) = (if t \<in> T then snd (cat_call t) else VNull)"
    "PollTask p \<in> T \<Longrightarrow> \<not> idle s (PollTask p)" "\<not> busy s iotest_task"
  using assms by (auto simp: booted_def prod_eq_iff)

lemma reach_api: "reach (T, U, M, s) \<Longrightarrow> api_step T U s s' \<Longrightarrow> reach (T, U, M, s')"
  by (blast intro: reach_client client_api)

lemma booted_frame: "booted T s \<Longrightarrow> task_frame s s' \<Longrightarrow> booted T s'"
  using reach_api [OF _ api_other, of T cat_heads "{}" s s']
  by (simp add: booted_def task_frame_def task_reads)

lemma booted_init:
  assumes b: "booted T s" and t: "t \<notin> T" "t \<in> cat_tasks" "\<And>p. t \<noteq> PollTask p" and c: "cat_call t = (c, d)"
  shows "booted (insert t T) (tx_task_init t DefaultLoop c d s)"
proof -
  have "reach (insert t T, cat_heads, {}, tx_task_init t DefaultLoop c d s)"
    by (rule reach_client [OF bootedD(1) [OF b] client_task_init [OF t(1)]])
      (use t(2) in \<open>auto simp: cat_tasks_def cat_heads_def\<close>)
  then show ?thesis using b t c
    by (auto simp: booted_def tx_task_init_def upd_task_def task_reads flags)
qed

lemma booted_poll:
  assumes b: "booted T s" and t: "PollTask p \<notin> T" "PollTask p \<in> cat_tasks" and c: "cat_call (PollTask p) = (c, d)"
  shows "booted (insert (PollTask p) T) (tx_poll_active p (tx_poll_init p DefaultLoop c d s))"
proof -
  let ?i = "tx_poll_init p DefaultLoop c d s"
  have i: "reach (insert (PollTask p) T, cat_heads, {}, ?i)" unfolding tx_poll_init_def
    by (rule reach_client [OF bootedD(1) [OF b] client_task_init [OF t(1)]]) (simp_all add: cat_heads_def)
  have r: "reach (insert (PollTask p) T, cat_heads, {}, tx_poll_active p ?i)"
    by (rule reach_api [OF i api_poll_active]) simp
  have ok: "\<not> stopped ?i (loop_of ?i (PollTask p))" "idle ?i (PollTask p)"
    using b by (simp_all add: booted_def tx_poll_init_def tx_task_init_def upd_task_def task_reads flags)
  have "idle (tx_poll_active p ?i) u \<longleftrightarrow> idle s u \<and> u \<noteq> PollTask p" for u
    using tx_poll_active_reads(2) [OF ok] by (auto simp: tx_poll_init_def tx_task_init_def upd_task_def task_reads flags)
  moreover have "stopped (tx_poll_active p ?i) up = stopped s up" "busy (tx_poll_active p ?i) iotest_task = busy s iotest_task" for up
    by (simp_all add: tx_poll_active_busy) (simp_all add: tx_poll_init_def tx_task_init_def upd_task_def task_reads)
  ultimately show ?thesis using b t(2) c r
    by (auto simp: booted_def tx_poll_init_def tx_task_init_def upd_task_def)
qed

lemma booted_active:
  assumes b: "booted T s" and t: "t \<in> T" "\<And>p. t \<noteq> PollTask p" "t \<noteq> iotest_task"
  shows "booted T (tx_task_active (Some t) r s)"
proof -
  have "reach (T, cat_heads, {}, tx_task_active (Some t) r s)"
    by (rule reach_api [OF bootedD(1) [OF b] api_active [OF t(1)]])
  moreover have "tasks (tx_task_active (Some t) r s) (PollTask p) = tasks s (PollTask p)" for p
    by (rule tx_task_active_other) (use t(2) in metis)
  then have "idle (tx_task_active (Some t) r s) (PollTask p) = idle s (PollTask p)" for p by (simp add: idle_def)
  ultimately show ?thesis using b t(3) by (simp add: booted_def busy_active_iff stopped_def)
qed

text \<open>The search of the queue for the task of a poller.\<close>

lemma find_one: "find (\<lambda>t. t = x \<and> b) ys = (if b \<and> x \<in> set ys then Some x else None)"
  by (induction ys) auto

lemma booted_search:
  assumes b: "booted T s" and c: "c \<noteq> NullCall" "fst (cat_call (PollTask p)) = c"
    and one: "\<And>t. t \<in> cat_tasks \<Longrightarrow> fst (cat_call t) = c \<Longrightarrow> t = PollTask p"
  shows "list_search (le_next (tq s)) (\<lambda>np. task_call (tasks s np) = c) (lh_first (tq s) (LoopQ DefaultLoop)) =
    Some (if PollTask p \<in> T then Some (PollTask p) else None)"
proof -
  obtain Q where inv: "loop_inv T cat_heads {} s Q" by (rule reach_inv [OF bootedD(1) [OF b]])
  note D = loop_invD [OF inv]
  obtain xs where xs: "Q (LoopQ DefaultLoop) = Some (xs @ [Tailer DefaultLoop])"
    using D(2,6) by (auto simp: cat_heads_def runq_def)
  have hd: "lh_first (tq s) (LoopQ DefaultLoop) = list_head (xs @ [Tailer DefaultLoop])"
    using tq.first [OF D(1) xs] .
  have call: "task_call (tasks s t) = c \<longleftrightarrow> t = PollTask p \<and> PollTask p \<in> T" for t
    using bootedD(2) [OF b] bootedD(5) [OF b, of t] c one [of t] by (auto split: if_splits)
  have on: "PollTask p \<in> set xs" if "PollTask p \<in> T"
  proof -
    have "\<not> unlinked Q (PollTask p)" using D(8) [OF that] bootedD(7) [OF b that] by blast
    then obtain h where h: "on_list Q h (PollTask p)" by (auto simp: unlinked_on_list)
    then have "h \<in> cat_heads" using D(6) by (auto simp: on_list_def)
    then show ?thesis using h xs by (auto simp: cat_heads_def on_list_def)
  qed
  have "find (\<lambda>np. task_call (tasks s np) = c) (xs @ [Tailer DefaultLoop]) = (if PollTask p \<in> T then Some (PollTask p) else None)"
    using on unfolding call find_one by auto
  then show ?thesis unfolding hd using list_search_rep [OF D(1), of _ "[]"] xs by simp
qed

section \<open>The poller and the timers while the program is set up\<close>

definition calm :: "tx_mem \<Rightarrow> tx_mem \<Rightarrow> bool" where
  "calm s s' \<longleftrightarrow> rest_step s s' \<and> (\<forall>up. tx_poller (loops s' up) = tx_poller (loops s up))"

definition boot_io :: "tx_mem \<Rightarrow> bool" where
  "boot_io s \<longleftrightarrow> epoll_good cat_epoll cat_tasks ({}, s) \<and> tx_poller (loops s DefaultLoop) = Some (EpollTask cat_epoll) \<and>
     (\<forall>a. tx_filterout (filp s a) = None \<and> tx_filterin (filp s a) = None) \<and>
     output_of (kcalls (io s)) = input_of (kcalls (io s))"

lemma boot_io_calm: "boot_io s \<Longrightarrow> calm s s' \<Longrightarrow> boot_io s'"
  using epoll_good_rest [of cat_epoll cat_tasks "{}" s s'] by (auto simp: boot_io_def calm_def rest_step_def)

definition boot_timers :: "timer_p set \<Rightarrow> tx_mem \<Rightarrow> bool" where
  "boot_timers TM s \<longleftrightarrow> timers_ok TM cat_ring s \<and> (\<forall>m. timer_task (timers s m) \<in> {None, Some tmtask_task}) \<and>
     (\<forall>m\<in>TM. tx_ring (timers s m) = cat_ring) \<and> unat (tx_ticks s) + 65536 \<le> 2^31 \<and> ring_live s cat_ring"

lemma boot_timers_same:
  "boot_timers TM s \<Longrightarrow> timers s' = timers s \<Longrightarrow> rings s' = rings s \<Longrightarrow> mq s' = mq s \<Longrightarrow> tx_ticks s' = tx_ticks s \<Longrightarrow>
     ring_live s' = ring_live s \<Longrightarrow> boot_timers TM s'"
  unfolding boot_timers_def using timers_ok_frame [of TM cat_ring s s'] by simp

lemma poller_kept [simp]:
  "tx_poller (loops (tx_task_active w r s) up) = tx_poller (loops s up)"
  by (auto simp: tx_task_active_def tx_task_drop_def mem_defs Let_def split: option.splits)

lemma calm_active: "calm s (tx_task_active w r s)"
  by (simp add: calm_def rest_step_def)

lemma calm_cell: "calm s (set_cell i v s)"
  by (simp add: calm_def rest_step_def set_cell_def)

lemma calm_init: "loop_of s t = up \<Longrightarrow> calm s (tx_task_init t up c d s)"
  by (simp add: calm_def rest_step_def tx_task_init_def upd_task_def)

lemma calm_trans: "calm s s' \<Longrightarrow> calm s' s'' \<Longrightarrow> calm s s''"
  by (simp add: calm_def rest_step_def)

lemma calm_getticks: "calm s (snd (tx_getticks now s))"
  by (simp add: calm_def rest_step_def tx_getticks_def Let_def)

lemma frame_getticks: "task_frame s (snd (tx_getticks now s))"
  by (simp add: task_frame_def tx_getticks_def Let_def)

lemma frame_cell: "task_frame s (set_cell i v s)"
  by (simp add: task_frame_def set_cell_def)

section \<open>The steps of the set-up\<close>

text \<open>The loop and its poller.\<close>

lemma boot_loop:
  "tx_loop_default zero_mem = (DefaultLoop, snd (tx_loop_default zero_mem))" "booted {} (snd (tx_loop_default zero_mem))"
proof -
  have "reach ({}, cat_heads, {}, snd (tx_loop_default zero_mem))"
    unfolding cat_heads_def
    by (rule reach_client [OF reach_boot client_loop_default]) (simp_all add: zero_mem_def zero_loop_def)
  then show "booted {} (snd (tx_loop_default zero_mem))"
    by (simp add: booted_def tx_loop_default_def zero_mem_def zero_loop_def zero_task_def mem_defs task_reads flags Let_def)
  show "tx_loop_default zero_mem = (DefaultLoop, snd (tx_loop_default zero_mem))"
    by (simp add: tx_loop_default_def zero_mem_def Let_def)
qed

lemma boot_poller:
  assumes fd: "fd \<noteq> -1"
  shows "\<exists>s. tx_epoll_init (Some cat_epoll) fd DefaultLoop (snd (tx_loop_default zero_mem)) = Some (Some (EpollTask cat_epoll), s) \<and>
    booted {cat_poller} s \<and> boot_io s \<and> mq s = zero_lheap \<and> timers s = timers zero_mem \<and> tx_ticks s = 0"
proof -
  define s1 where "s1 = snd (tx_loop_default zero_mem)"
  have Z: "mq s1 = zero_lheap" "timers s1 = timers zero_mem" "tx_ticks s1 = 0" "io s1 = zero_io" "loops s1 = (\<lambda>_. zero_loop)"
    by (simp_all add: s1_def tx_loop_default_def zero_mem_def mem_defs Let_def)
  have b: "booted {} s1" using boot_loop by (simp add: s1_def)
  have n: "tx_poller (loops s1 DefaultLoop) = None" by (simp add: Z zero_loop_def)
  have se: "epoll_search (Some cat_epoll) fd DefaultLoop s1 = Some (tx_epoll_new (Some cat_epoll) fd DefaultLoop s1)"
    unfolding epoll_search_def
    by (subst booted_search [OF b, where p = "EpollTask cat_epoll"]) (auto simp: cat_tasks_def)
  obtain p s where new: "tx_epoll_new (Some cat_epoll) fd DefaultLoop s1 = (p, s)" by fastforce
  let ?a = "tx_poll_active (EpollTask cat_epoll) (tx_poll_init (EpollTask cat_epoll) DefaultLoop EpollPolling (VEpoll cat_epoll) s1)"
  have a: "booted {cat_poller} ?a" by (rule booted_poll [OF b]) (simp_all add: cat_tasks_def)
  have s: "tasks s = tasks ?a" "tq s = tq ?a" "mq s = mq ?a" "timers s = timers ?a" "tx_ticks s = tx_ticks ?a"
    "loops s = (loops ?a)(DefaultLoop := (loops ?a DefaultLoop)\<lparr>tx_poller := Some (EpollTask cat_epoll)\<rparr>)"
    "aiocbs (io s) = aiocbs (io ?a)" "kcalls (io s) = kcalls (io ?a)"
    using new fd by (auto simp: tx_epoll_new_def Let_def upd_io_def upd_loop_def upd_epoll_def)
  have "task_frame ?a s" by (simp add: task_frame_def s)
  then have "booted {cat_poller} s" by (rule booted_frame [OF a])
  moreover have "p = Some (EpollTask cat_epoll)" "epoll_good cat_epoll cat_tasks ({}, s)"
    using tx_epoll_new_good [OF new fd] by (simp_all add: Z zero_loop_def)
  moreover have "boot_io s"
    using calculation(3) by (simp add: boot_io_def s tx_poll_init_def tx_task_init_def upd_task_def Z zero_io_def)
  ultimately show ?thesis using n se new
    by (intro exI [of _ s]) (simp add: s1_def [symmetric] tx_epoll_init_def s Z tx_poll_init_def tx_task_init_def upd_task_def)
qed

text \<open>The ring: the first call makes it, the others find it.\<close>

lemma boot_ring:
  assumes b: "booted {cat_poller} s" and io: "boot_io s" and mq: "mq s = zero_lheap" and tm: "timers s = timers zero_mem"
    and c: "clock_at now T" "T + 65536 \<le> 2^31"
  shows "\<exists>s'. tx_timer_ring_get cat_ring now DefaultLoop s = Some (cat_ring, s') \<and> booted {cat_callout, cat_poller} s' \<and>
    boot_io s' \<and> boot_timers {} s'"
proof -
  let ?s' = "snd (tx_timer_ring_new cat_ring now DefaultLoop s)"
  have ok: "timers_ok {} cat_ring ?s'"
    by (rule timers_ok_ring_new [where W = "\<lambda>_. None", OF _ _ _ _ c(1)]) (use c(2) in \<open>simp_all add: mq list_rep_def disjoint_lists_def on_list_def\<close>)
  define s7 where "s7 = init_heads (map (MaTimers cat_ring) [0..<MAX_MA_WHEEL]) (upd_ring cat_ring (\<lambda>g. g\<lparr>tx_ma_tick := ucast (fst (tx_getticks now s)), tx_ma_wheel := 0\<rparr>)
     (init_heads (map (MiTimers cat_ring) [0..<MAX_MI_WHEEL]) (upd_ring cat_ring (\<lambda>g. g\<lparr>tx_mi_tick := ucast (fst (tx_getticks now s)), tx_mi_wheel := 0\<rparr>)
     (on_mq (LIST_INIT (StTimers cat_ring)) (upd_ring cat_ring (\<lambda>g. g\<lparr>tx_st_tick := ucast (fst (tx_getticks now s))\<rparr>)
       (s\<lparr>ring_live := (ring_live s)(cat_ring := True), tx_ticks := fst (tx_getticks now s)\<rparr>))))))"
  have R: "tasks s7 = tasks s" "tq s7 = tq s" "loops s7 = loops s" "io s7 = io s" "timers s7 = timers s" "ring_live s7 cat_ring"
    "tx_ticks s7 = fst (tx_getticks now s)"
    by (simp_all add: s7_def on_mq_def)
  let ?a = "tx_poll_active (Callout cat_ring) (tx_poll_init (Callout cat_ring) DefaultLoop TimerPolling (VRing cat_ring) s7)"
  have "booted {cat_poller} s7" by (rule booted_frame [OF b]) (simp add: task_frame_def R)
  then have a: "booted {cat_callout, cat_poller} ?a" by (rule booted_poll) (simp_all add: cat_tasks_def)
  have "\<not> has (task_flags (tasks ?a cat_callout)) TASK_IDLE" using bootedD(7) [OF a, of "Callout cat_ring"] by (simp add: idle_def)
  then have new: "tx_timer_ring_new cat_ring now DefaultLoop s = (cat_ring, ?a)"
    by (simp add: tx_timer_ring_new_def tx_getticks_def s7_def on_mq_def Let_def)
  have "calm s ?a"
    using bootedD(3) [OF b] bootedD(3) [OF a] by (simp add: calm_def rest_step_def R tx_poll_init_def tx_task_init_def upd_task_def)
  then have "boot_io ?a" by (rule boot_io_calm [OF io])
  moreover have "boot_timers {} ?a"
    using ok c tm tx_getticks_reads(1) [of now T s]
    by (simp add: boot_timers_def new R zero_mem_def tx_poll_init_def tx_task_init_def upd_task_def)
  moreover have "tx_timer_ring_get cat_ring now DefaultLoop s = Some (tx_timer_ring_new cat_ring now DefaultLoop s)"
    unfolding tx_timer_ring_get_def
    by (subst booted_search [OF b, where p = "Callout cat_ring"]) (auto simp: cat_tasks_def)
  ultimately show ?thesis using a new by auto
qed

lemma boot_ring_again:
  "booted T s \<Longrightarrow> cat_callout \<in> T \<Longrightarrow> tx_timer_ring_get r now DefaultLoop s = Some (cat_ring, s)"
  unfolding tx_timer_ring_get_def
  by (subst booted_search [where p = "Callout cat_ring"]) (auto simp: cat_tasks_def)

text \<open>The tasks of \<open>main\<close>, its timer and its block.\<close>

abbreviation (input) boot_tasks :: "task_p set" where "boot_tasks \<equiv> {cat_callout, cat_poller}"

lemma boot_uptick:
  fixes v :: int
  assumes b: "booted boot_tasks s" and io: "boot_io s" and tm: "boot_timers {} s"
    and c: "clock_at now T" "unat (tx_ticks s) \<le> T" "T + 65536 \<le> 2^31"
  defines "s' \<equiv> tx_task_active (Some uptick_task) (VUser 0) (tx_task_init uptick_task DefaultLoop (UserCall 0) (VUser 0)
      (set_cell uptick_last_ticks v (snd (tx_getticks now s))))"
  shows "booted (insert uptick_task boot_tasks) s'" "boot_io s'" "boot_timers {} s'"
proof -
  let ?s1 = "set_cell uptick_last_ticks v (snd (tx_getticks now s))"
  have b1: "booted boot_tasks ?s1" by (intro booted_frame [OF booted_frame [OF b frame_getticks] frame_cell])
  then have b2: "booted (insert uptick_task boot_tasks) (tx_task_init uptick_task DefaultLoop (UserCall 0) (VUser 0) ?s1)"
    by (rule booted_init) (simp_all add: cat_tasks_def)
  show "booted (insert uptick_task boot_tasks) s'"
    unfolding s'_def by (rule booted_active [OF b2]) simp_all
  have "calm s s'" unfolding s'_def
    by (intro calm_trans [OF _ calm_active] calm_trans [OF _ calm_init] calm_trans [OF calm_getticks calm_cell])
      (rule bootedD(3) [OF b1])
  then show "boot_io s'" by (rule boot_io_calm [OF io])
  have t1: "boot_timers {} (snd (tx_getticks now s))"
    using tm c tx_getticks_reads [of now T s] timers_ok_getticks [of "{}" cat_ring s now T]
    by (auto simp: boot_timers_def)
  show "boot_timers {} s'"
    by (rule boot_timers_same [OF t1]) (simp_all add: s'_def set_cell_def tx_task_init_def upd_task_def)
qed

lemma boot_timer:
  assumes b: "booted (insert uptick_task boot_tasks) s" and io: "boot_io s" and tm: "boot_timers {} s"
  shows "\<exists>s1. tx_timer_init_loop tmtask_timer r now DefaultLoop (Some tmtask_task) s = Some s1 \<and>
    (let s' = tx_timer_reset tmtask_timer 500 (tx_task_init tmtask_task DefaultLoop (UserCall 1) (VUser 1) s1) in
      booted (insert tmtask_task (insert uptick_task boot_tasks)) s' \<and> boot_io s' \<and> boot_timers {tmtask_timer} s')"
proof -
  let ?s1 = "tx_timer_init tmtask_timer cat_ring (Some tmtask_task) s"
  let ?s2 = "tx_task_init tmtask_task DefaultLoop (UserCall 1) (VUser 1) ?s1"
  let ?s3 = "tx_timer_reset tmtask_timer 500 ?s2"
  have eq: "tx_timer_init_loop tmtask_timer r now DefaultLoop (Some tmtask_task) s = Some ?s1"
    using boot_ring_again [OF b] by (simp add: tx_timer_init_loop_def)
  have f1: "task_frame s ?s1" "calm s ?s1" by (simp_all add: task_frame_def calm_def rest_step_def tx_timer_init_def upd_timer_def)
  have b1: "booted (insert uptick_task boot_tasks) ?s1" by (rule booted_frame [OF b f1(1)])
  have b2: "booted (insert tmtask_task (insert uptick_task boot_tasks)) ?s2"
    by (rule booted_init [OF b1]) (simp_all add: cat_tasks_def)
  obtain W where W: "wheel_inv {} cat_ring {} s W" using tm by (auto simp: boot_timers_def timers_ok_def)
  have "unlinked W tmtask_timer" using wheel_invD(3) [OF W] by (auto simp: unlinked_on_list)
  from wheel_inv_init [OF W this] have "wheel_inv {tmtask_timer} cat_ring {} ?s1 W" by simp
  then have ok1: "timers_ok {tmtask_timer} cat_ring ?s1"
    using tm by (auto simp: timers_ok_def boot_timers_def tx_timer_init_def upd_timer_def)
  have R: "mq ?s2 = mq ?s1" "timers ?s2 = timers ?s1" "rings ?s2 = rings ?s1" "tx_ticks ?s2 = tx_ticks ?s1" "ring_live ?s2 = ring_live ?s1"
    by (simp_all add: tx_task_init_def upd_task_def)
  have I: "timer_idle ?s2 tmtask_timer" "tx_ring (timers ?s2 tmtask_timer) = cat_ring" "tx_ticks ?s2 = tx_ticks s" "ring_live ?s2 = ring_live s"
    "timer_task (timers ?s2 tmtask_timer) = Some tmtask_task" "m \<noteq> tmtask_timer \<Longrightarrow> timers ?s2 m = timers s m" for m
    by (simp_all add: timer_idle_def tx_timer_init_def upd_timer_def tx_task_init_def upd_task_def flags)
  note Z = reset_idle_reads [OF I(1), where u = 500]
  have ok2: "timers_ok {tmtask_timer} cat_ring ?s2" by (rule timers_ok_frame [OF ok1]) (simp_all add: tx_task_init_def upd_task_def)
  have ok3: "timers_ok {tmtask_timer} cat_ring ?s3"
    by (rule timers_ok_reset(1) [OF ok2]) (use tm I in \<open>simp_all add: boot_timers_def\<close>)
  have w: "timer_task (timers ?s2 m) \<in> {None, Some tmtask_task}" for m
    using tm I(5) I(6) [of m] by (cases "m = tmtask_timer") (simp_all only: boot_timers_def insert_iff simp_thms)
  have k: "ticked UNIV UNIV tmtask_task ?s2 ?s3"
    by (rule ticked_reset [OF ticked_refl], rule allI, rule w)
  have f3: "task_frame ?s2 ?s3" unfolding task_frame_def Z by simp
  have "booted (insert tmtask_task (insert uptick_task boot_tasks)) ?s3" by (rule booted_frame [OF b2 f3])
  moreover have "calm s ?s3"
    by (rule calm_trans [OF f1(2) calm_trans [OF calm_init]])
      (use k bootedD(3) [OF b1] in \<open>auto simp: ticked_def calm_def Z [simplified]\<close>)
  then have "boot_io ?s3" by (rule boot_io_calm [OF io])
  moreover have "boot_timers {tmtask_timer} ?s3"
    using ok3 tm k Z [simplified] I by (simp add: boot_timers_def ticked_def)
  ultimately show ?thesis using eq by (simp add: Let_def)
qed

text \<open>What setting up the block leaves alone, and what the block is then.\<close>

lemma quiet_add: "quiet s s1 \<Longrightarrow> quiet s (log_kcall (EpollAdd e fd ev a) s1)"
  unfolding filp_upds by (auto intro!: quiet_io)

lemma aiocb_init_quiet:
  assumes "tx_aiocb_init iotest_file DefaultLoop STDIN_FILE_FD (\<lambda>_. r) s = Inr s'" and io: "boot_io s"
    and r: "fst r = 0 \<or> r = (-1, EPERM)"
  shows "quiet s s'" "loops s' = loops s" "tq s' = tq s" "tx_filterin (filp s' a) = None" "tx_filterout (filp s' a) = None"
    "r = (-1, EPERM) \<Longrightarrow> tx_readable s' iotest_file"
proof -
  define s1 where "s1 = upd_filp iotest_file (fresh_filp (EpollTask cat_epoll) STDIN_FILE_FD) s"
  have g: "poll_ops (io s) (EpollTask cat_epoll) = EpollOps"
    using io by (auto simp: boot_io_def epoll_good_def epoll_inv_def epoll_core_def)
  have at: "tx_epoll_attach iotest_file (\<lambda>_. r) s1 = Inr s'"
    using assms(1) io g by (simp add: tx_aiocb_init_def tx_poll_get_def boot_io_def tx_aiocb_init_poll_def s1_def [symmetric]
      STDIN_FILE_FD_def with_ops_def Let_def)
      (simp add: s1_def upd_filp_def g epoll_fns_def STDIN_FILE_FD_def)
  have q1: "quiet s s1" unfolding s1_def by (rule quiet_steps(1) [OF quiet_refl])
  show "quiet s s'"
    using at q1 by (auto simp: tx_epoll_attach_def epoll_ctl_def clear_flags_def Let_def
        split: poll_p.splits if_splits intro!: quiet_steps quiet_add)
  show "loops s' = loops s" "tq s' = tq s" using at by (auto simp: tx_epoll_attach_def epoll_ctl_def filp_upds s1_def upd_io_def Let_def
      split: poll_p.splits if_splits)
  have "tx_filterin (filp s1 a) = None" "tx_filterout (filp s1 a) = None" using io by (auto simp: s1_def upd_filp_def boot_io_def)
  then show "tx_filterin (filp s' a) = None" "tx_filterout (filp s' a) = None" using epoll_attach_keeps [OF at] by simp_all
  show "tx_readable s' iotest_file" if "r = (-1, EPERM)"
    using at that by (auto simp: tx_epoll_attach_def epoll_ctl_def filp_upds s1_def upd_io_def Let_def tx_readable_def flags
      split: poll_p.splits if_splits)
qed

lemma boot_block:
  assumes b: "booted T s" and io: "boot_io s" and r: "fst r = 0 \<or> r = (-1, EPERM)" and nt: "iotest_task \<notin> T"
  shows "\<exists>s1. tx_aiocb_init iotest_file DefaultLoop STDIN_FILE_FD (\<lambda>_. r) s = Inr s1 \<and>
    (let s' = tx_task_init iotest_task DefaultLoop (UserCall 2) (VUser 2) s1 in
      booted (insert iotest_task T) s' \<and> cat_block cat_tasks s' \<and> (\<forall>TM. boot_timers TM s \<longrightarrow> boot_timers TM s') \<and> (r = (-1, EPERM) \<longrightarrow> tx_readable s' iotest_file))"
proof -
  have g: "epoll_inv cat_epoll cat_tasks {} s" "polled_for {} s" "blocks_ok {} s" "tx_poll_get DefaultLoop s = Some (EpollTask cat_epoll)"
    using io by (simp_all add: boot_io_def epoll_good_def tx_poll_get_def)
  obtain s1 where s1: "tx_aiocb_init iotest_file DefaultLoop STDIN_FILE_FD (\<lambda>_. r) s = Inr s1" "epoll_inv cat_epoll cat_tasks {iotest_file} s1"
    "polled_for {iotest_file} s1" "blocks_ok {iotest_file} s1" "attached s1 iotest_file \<longleftrightarrow> STDIN_FILE_FD \<noteq> -1 \<and> fst r = 0"
    using epoll_init_block [OF g(1-3) _ g(4), of iotest_file STDIN_FILE_FD "\<lambda>_. r"] by auto
  note Q = aiocb_init_quiet [OF s1(1) io r]
  let ?s = "tx_task_init iotest_task DefaultLoop (UserCall 2) (VUser 2) s1"
  have "task_frame s s1" using Q(1-3) by (simp add: quiet_def task_frame_def)
  then have b1: "booted T s1" by (rule booted_frame [OF b])
  then have b2: "booted (insert iotest_task T) ?s" by (rule booted_init) (use nt in \<open>simp_all add: cat_tasks_def\<close>)
  have rs: "rest_step s1 ?s" using calm_init [OF bootedD(3) [OF b1]] by (simp add: calm_def)
  have "epoll_good cat_epoll cat_tasks ({iotest_file}, ?s)"
    by (rule epoll_good_rest [OF _ rs]) (use s1 in \<open>simp add: epoll_good_def\<close>)
  moreover have "attached s1 iotest_file \<or> tx_readable s1 iotest_file" using s1(5) r Q(6) by (auto simp: STDIN_FILE_FD_def)
  moreover have "io ?s = io s1" using rs by (simp add: rest_step_def)
  moreover have "cat_io ?s"
    using Q(1,4,5) io bootedD(8) [OF b2] by (simp add: cat_io_def calculation(3) quiet_def boot_io_def)
  ultimately have "cat_block cat_tasks ?s" by (simp add: cat_block_def attached_def tx_readable_def)
  moreover have "boot_timers TM ?s" if "boot_timers TM s" for TM
    by (rule boot_timers_same [OF that]) (use Q(1) in \<open>simp_all add: quiet_def same_prog_def tx_task_init_def upd_task_def\<close>)
  moreover have "r = (-1, EPERM) \<longrightarrow> tx_readable ?s iotest_file" using Q(6) rs by (simp add: rest_step_def tx_readable_def)
  ultimately show ?thesis using s1(1) b2 Q(1) by (simp add: Let_def quiet_def)
qed

text \<open>All of the set-up.\<close>

lemma clock_okD:
  assumes "env_ok env" and "unat (tx_ticks s) + 65536 \<le> 2^31"
  obtains T where "clock_at (fst (clock_of env s)) T" "unat (tx_ticks s) \<le> T" "T + 65536 \<le> 2^31"
proof -
  have "clock_ok env s" using assms(1) by (simp add: env_ok_def)
  with assms(2) obtain T T2 where "clock_at (fst (clock_of env s)) T" "unat (tx_ticks s) \<le> T" "T \<le> T2" "T2 + 65536 \<le> 2^31"
    unfolding clock_ok_def by blast
  with that show thesis by simp
qed

lemma booted_cell:
  "booted T s \<Longrightarrow> booted T (set_cell i v s)" "boot_io s \<Longrightarrow> boot_io (set_cell i v s)"
  "boot_timers TM s \<Longrightarrow> boot_timers TM (set_cell i v s)"
  by (rule booted_frame [OF _ frame_cell], assumption)
    (rule boot_io_calm [OF _ calm_cell], assumption, rule boot_timers_same, assumption, simp_all add: set_cell_def)

lemma cat_setup_start:
  assumes env: "env_ok env"
  shows "\<exists>s. res_bind (opt_res (tx_epoll_init (Some cat_epoll) (fd_of env (snd (tx_loop_default zero_mem))) DefaultLoop
        (snd (tx_loop_default zero_mem)))) (\<lambda>(poll, s2).
      opt_res (tx_timer_ring_get cat_ring (fst (clock_of env s2)) DefaultLoop s2)) = Inr (cat_ring, s) \<and>
    booted boot_tasks s \<and> boot_io s \<and> boot_timers {} s"
proof -
  have "fd_of env (snd (tx_loop_default zero_mem)) \<noteq> -1" using env by (simp add: env_ok_def)
  from boot_poller [OF this] obtain s where s: "tx_epoll_init (Some cat_epoll) (fd_of env (snd (tx_loop_default zero_mem))) DefaultLoop
      (snd (tx_loop_default zero_mem)) = Some (Some (EpollTask cat_epoll), s)" "booted {cat_poller} s" "boot_io s" "mq s = zero_lheap"
      "timers s = timers zero_mem" "tx_ticks s = 0" by blast
  obtain T where T: "clock_at (fst (clock_of env s)) T" "T + 65536 \<le> 2^31"
    by (rule clock_okD [OF env, of s]) (use s(6) in auto)
  from boot_ring [OF s(2-5) T] obtain s' where "tx_timer_ring_get cat_ring (fst (clock_of env s)) DefaultLoop s = Some (cat_ring, s')"
    "booted boot_tasks s'" "boot_io s'" "boot_timers {} s'" by blast
  then show ?thesis by (intro exI [of _ s']) (simp add: s opt_res_def)
qed

lemma cat_boot_ok:
  assumes env: "env_ok env"
  shows "\<exists>s. cat_boot env zero_mem = Inr (DefaultLoop, s) \<and>
    booted (insert tmtask_task (insert uptick_task boot_tasks)) s \<and> boot_io s \<and> boot_timers {tmtask_timer} s"
proof -
  define s1 where "s1 = snd (tx_loop_default zero_mem)"
  obtain s where start: "res_bind (opt_res (tx_epoll_init (Some cat_epoll) (fd_of env s1) DefaultLoop s1)) (\<lambda>(poll, s2).
      opt_res (tx_timer_ring_get cat_ring (fst (clock_of env s2)) DefaultLoop s2)) = Inr (cat_ring, s)"
    and s: "booted boot_tasks s" "boot_io s" "boot_timers {} s"
    using cat_setup_start [OF env] unfolding s1_def by blast
  have again: "tx_timer_ring_get r now DefaultLoop s = Some (cat_ring, s)" for r now by (rule boot_ring_again [OF s(1)]) simp
  define s6 where "s6 = set_cell uptick_ticks 0 s"
  note c6 = booted_cell [where s = s and i = uptick_ticks and v = 0, folded s6_def]
  have tk: "unat (tx_ticks s6) + 65536 \<le> 2^31" using s(3) by (simp add: boot_timers_def s6_def set_cell_def)
  from clock_okD [OF env this] obtain T where T: "clock_at (fst (clock_of env s6)) T" "unat (tx_ticks s6) \<le> T" "T + 65536 \<le> 2^31" .
  define s10 where "s10 = tx_task_active (Some uptick_task) (VUser 0) (tx_task_init uptick_task DefaultLoop (UserCall 0) (VUser 0)
      (set_cell uptick_last_ticks (uint (fst (tx_getticks (fst (clock_of env s6)) s6))) (snd (tx_getticks (fst (clock_of env s6)) s6))))"
  note b10 = boot_uptick [OF c6(1) [OF s(1)] c6(2) [OF s(2)] c6(3) [OF s(3)] T, where v = "uint (fst (tx_getticks (fst (clock_of env s6)) s6))",
      folded s10_def]
  from boot_timer [OF b10, of "Ring 3" "fst (clock_of env s10)"] obtain s11 where
    s11: "tx_timer_init_loop tmtask_timer (Ring 3) (fst (clock_of env s10)) DefaultLoop (Some tmtask_task) s10 = Some s11"
    and t11: "let s' = tx_timer_reset tmtask_timer 500 (tx_task_init tmtask_task DefaultLoop (UserCall 1) (VUser 1) s11) in
      booted (insert tmtask_task (insert uptick_task boot_tasks)) s' \<and> boot_io s' \<and> boot_timers {tmtask_timer} s'" by blast
  define s13 where "s13 = tx_timer_reset tmtask_timer 500 (tx_task_init tmtask_task DefaultLoop (UserCall 1) (VUser 1) s11)"
  have b13: "booted (insert tmtask_task (insert uptick_task boot_tasks)) s13" "boot_io s13" "boot_timers {tmtask_timer} s13"
    using t11 unfolding s13_def Let_def by simp_all
  obtain p s2 where p: "tx_epoll_init (Some cat_epoll) (fd_of env s1) DefaultLoop s1 = Some (p, s2)"
    "tx_timer_ring_get cat_ring (fst (clock_of env s2)) DefaultLoop s2 = Some (cat_ring, s)"
    using start by (auto simp: opt_res_def res_bind_Inr_iff split: option.splits)
  have d: "tx_loop_default zero_mem = (DefaultLoop, s1)" using boot_loop(1) by (simp add: s1_def)
  have "cat_boot env zero_mem = Inr (DefaultLoop, s13)"
    unfolding cat_boot_def d Let_def prod.case p opt_res_def option.case res_bind.simps again s6_def [symmetric]
      prod.case_eq_if fst_conv snd_conv s10_def [symmetric] s11 s13_def [symmetric] by simp
  then show ?thesis using b13 by blast
qed

lemma cat_setup_block:
  assumes env: "env_ok env"
  shows "\<exists>s. cat_setup env zero_mem = res_bind (tx_aincb_active iotest_file iotest_task (ctl_of env s) s) (\<lambda>s16. Inr (DefaultLoop, s16)) \<and>
    booted cat_tasks s \<and> cat_block cat_tasks s \<and> boot_timers {tmtask_timer} s \<and>
    (add_of env = (-1, EPERM) \<longrightarrow> tx_readable s iotest_file)"
proof -
  from cat_boot_ok [OF env] obtain s13 where s13: "cat_boot env zero_mem = Inr (DefaultLoop, s13)"
    "booted (insert tmtask_task (insert uptick_task boot_tasks)) s13" "boot_io s13" "boot_timers {tmtask_timer} s13" by blast
  note b13 = s13(2-4)
  have r: "fst (add_of env) = 0 \<or> add_of env = (-1, EPERM)" using env by (simp add: env_ok_def)
  from boot_block [OF b13(1,2) r] obtain s14 where
    s14: "tx_aiocb_init iotest_file DefaultLoop STDIN_FILE_FD (\<lambda>_. add_of env) s13 = Inr s14"
    and t14: "let s' = tx_task_init iotest_task DefaultLoop (UserCall 2) (VUser 2) s14 in
      booted (insert iotest_task (insert tmtask_task (insert uptick_task boot_tasks))) s' \<and> cat_block cat_tasks s' \<and>
      (\<forall>TM. boot_timers TM s13 \<longrightarrow> boot_timers TM s') \<and> (add_of env = (-1, EPERM) \<longrightarrow> tx_readable s' iotest_file)" by auto
  define s15 where "s15 = tx_task_init iotest_task DefaultLoop (UserCall 2) (VUser 2) s14"
  have "insert iotest_task (insert tmtask_task (insert uptick_task boot_tasks)) = cat_tasks" by (auto simp: cat_tasks_def)
  then have b15: "booted cat_tasks s15" "cat_block cat_tasks s15" "boot_timers {tmtask_timer} s15"
    "add_of env = (-1, EPERM) \<longrightarrow> tx_readable s15 iotest_file"
    using t14 b13(3) unfolding s15_def Let_def by auto
  have "cat_setup env zero_mem = res_bind (tx_aincb_active iotest_file iotest_task (ctl_of env s15) s15) (\<lambda>s16. Inr (DefaultLoop, s16))"
    by (simp add: cat_setup_def s13(1) s14 s15_def Let_def)
  then show ?thesis using b15 by blast
qed

lemma booted_own:
  assumes env: "env_ok env" and b: "booted cat_tasks s" and k: "cat_block cat_tasks s" and tm: "boot_timers {tmtask_timer} s"
  shows "reach (cat_tasks, cat_heads, {}, s) \<and> cat_own env cat_tasks cat_heads s"
proof -
  have "cat_calls s" using bootedD(3,5,6) [OF b] by (simp add: cat_calls_def)
  moreover have "cat_timers s" "cat_ring_kept s" using tm by (simp_all add: boot_timers_def cat_timers_def cat_ring_kept_def)
  ultimately show ?thesis using env k bootedD(1) [OF b] by (simp add: cat_own_def)
qed

text \<open>The first activation of \<open>iotest_task\<close> puts it behind all others.\<close>

definition iotest_last :: "tx_mem \<Rightarrow> bool" where
  "iotest_last s \<longleftrightarrow> (\<forall>Q xs. loop_inv cat_tasks cat_heads {} s Q \<longrightarrow> runq Q DefaultLoop xs \<longrightarrow>
     iotest_task \<notin> set (butlast xs) \<and> (busy s iotest_task \<longrightarrow> iotest_task \<in> set xs))"

lemma iotest_last_wait:
  assumes "reach (cat_tasks, cat_heads, {}, s)" and "\<not> busy s iotest_task"
  shows "iotest_last s"
  unfolding iotest_last_def
proof (intro allI impI)
  fix Q xs assume inv: "loop_inv cat_tasks cat_heads {} s Q" and xs: "runq Q DefaultLoop xs"
  note D = loop_invD [OF inv]
  have "marked s iotest_task" using reach_tidy [OF assms(1)] by (simp add: tidy_def cat_tasks_def)
  then have "idle s iotest_task \<or> pending s iotest_task" using assms(2) by (simp add: marked_def)
  then have "iotest_task \<notin> set xs"
    using D(3) [of DefaultLoop iotest_task] D(8) [OF cat_tasks_in(3)] runq_on_list [OF xs, of iotest_task]
    by (auto simp: unlinked_on_list)
  then show "iotest_task \<notin> set (butlast xs) \<and> (busy s iotest_task \<longrightarrow> iotest_task \<in> set xs)"
    using assms(2) by (auto dest: in_set_butlastD)
qed

lemma iotest_last_active:
  assumes r: "reach (cat_tasks, cat_heads, {}, s)" and "\<not> busy s iotest_task" and lp: "loop_of s iotest_task = DefaultLoop"
    and ns: "\<not> stopped s DefaultLoop"
  shows "iotest_last (tx_task_active (Some iotest_task) v s)" and "busy (tx_task_active (Some iotest_task) v s) iotest_task"
proof -
  let ?s = "tx_task_active (Some iotest_task) v s"
  show "busy ?s iotest_task" using ns by (simp add: busy_active_iff lp)
  obtain Q where inv: "loop_inv cat_tasks cat_heads {} s Q" by (rule reach_inv [OF r])
  obtain xs where xs: "runq Q DefaultLoop xs" using loop_invD(2,6) [OF inv] by (auto simp: cat_heads_def)
  let ?Q = "q_before (Tailer DefaultLoop) iotest_task (q_remove iotest_task Q)"
  have Q: "loop_inv cat_tasks cat_heads {} ?s ?Q"
    using loop_inv_active [OF inv cat_tasks_in(3), of v] assms(2) ns by (simp add: lp)
  have q: "runq ?Q DefaultLoop (removeAll iotest_task xs @ [iotest_task])"
    using runq_wake [OF inv cat_tasks_in(3) xs] by (simp add: lp)
  show "iotest_last ?s" unfolding iotest_last_def
  proof (intro allI impI)
    fix Q' ys assume "loop_inv cat_tasks cat_heads {} ?s Q'" "runq Q' DefaultLoop ys"
    then have "lseg (tq ?s) (First (LoopQ DefaultLoop)) (ys @ [Tailer DefaultLoop]) None"
      using loop_invD(1) by (auto simp: list_rep_def runq_def)
    moreover have "lseg (tq ?s) (First (LoopQ DefaultLoop)) ((removeAll iotest_task xs @ [iotest_task]) @ [Tailer DefaultLoop]) None"
      using loop_invD(1) [OF Q] q by (auto simp: list_rep_def runq_def)
    ultimately have "ys @ [Tailer DefaultLoop] = (removeAll iotest_task xs @ [iotest_task]) @ [Tailer DefaultLoop]"
      by (rule lseg_same)
    then have "ys = removeAll iotest_task xs @ [iotest_task]" by simp
    then show "iotest_task \<notin> set (butlast ys) \<and> (busy ?s iotest_task \<longrightarrow> iotest_task \<in> set ys)" by simp
  qed
qed

lemma cat_setup_done:
  assumes env: "env_ok env"
  shows "\<exists>s. cat_setup env zero_mem = Inr (DefaultLoop, s) \<and> reach (cat_tasks, cat_heads, {}, s) \<and>
    cat_own env cat_tasks cat_heads s \<and> \<not> stopped s DefaultLoop \<and> iotest_last s \<and>
    (add_of env = (-1, EPERM) \<longrightarrow> busy s iotest_task)"
proof -
  from cat_setup_block [OF env] obtain s where
    s: "cat_setup env zero_mem = res_bind (tx_aincb_active iotest_file iotest_task (ctl_of env s) s) (\<lambda>s16. Inr (DefaultLoop, s16))"
    "booted cat_tasks s" "cat_block cat_tasks s" "boot_timers {tmtask_timer} s"
    and rd: "add_of env = (-1, EPERM) \<longrightarrow> tx_readable s iotest_file" by blast
  have own: "reach (cat_tasks, cat_heads, {}, s) \<and> cat_own env cat_tasks cat_heads s" by (rule booted_own [OF env s(2-4)])
  have run: "reach (cat_tasks, cat_heads, {}, s')" if "api_run cat_tasks cat_heads s s'" for s'
    using that by (induction) (use own in \<open>auto intro: reach_api\<close>)
  note B = bootedD(1,3,4,8) [OF s(2)]
  show ?thesis
  proof (cases "tx_readable s iotest_file")
    case True
    let ?s = "tx_task_active (Some iotest_task) (VAiocb iotest_file) s"
    have "tx_fops (filp s iotest_file) = GenericFops" using s(3) by (simp add: cat_block_def epoll_good_def blocks_ok_def)
    then have a: "tx_aincb_active iotest_file iotest_task (ctl_of env s) s = Inr ?s"
      using True by (simp add: tx_aincb_active_def generic_active_in_def)
    have rs: "rest_step s ?s" using calm_active by (simp add: calm_def)
    have "epoll_good cat_epoll cat_tasks ({iotest_file}, ?s)"
      by (rule epoll_good_rest [OF _ rs]) (use s(3) in \<open>simp add: cat_block_def\<close>)
    then have "cat_block cat_tasks ?s"
      using s(3) True rs by (simp add: cat_block_def cat_io_def rest_step_def attached_def tx_readable_def)
    moreover have "reach (cat_tasks, cat_heads, {}, ?s)"
      by (rule reach_api [OF B(1) api_active]) (simp add: cat_tasks_def)
    moreover have "\<not> stopped ?s DefaultLoop" using B(3) by (simp add: stopped_def)
    ultimately show ?thesis
      using s(1) a own cat_own_same [OF _ same_prog_step(1)] iotest_last_active [OF B(1,4,2,3), of "VAiocb iotest_file"]
      by (intro exI [of _ ?s]) auto
  next
    case False
    have "attached s iotest_file" using s(3) False by (simp add: cat_block_def)
    moreover have "\<forall>i. fst (ctl_of env s i) = 0" using env by (simp add: env_ok_def)
    ultimately obtain s' where s': "tx_aincb_active iotest_file iotest_task (ctl_of env s) s = Inr s'" "cat_block cat_tasks s'"
      "api_run cat_tasks cat_heads s s'" "same_prog s s'" "\<not> tx_readable s' iotest_file"
      "\<forall>up. tx_stop (loops s' up) = tx_stop (loops s up)"
      using stdio_wait [where U = cat_heads, OF s(3) cat_tasks_in(3) B(4) _ _ False] by blast
    have "\<not> busy s' iotest_task" using s'(2,5) by (simp add: cat_block_def cat_io_def)
    then have "iotest_last s'" by (rule iotest_last_wait [OF run [OF s'(3)]])
    moreover have "\<not> stopped s' DefaultLoop" using B(3) s'(6) by (simp add: stopped_def)
    ultimately show ?thesis
      using s(1) run [OF s'(3)] own cat_own_same [OF _ s'(4)] s'(1,2) rd False by (intro exI [of _ s']) auto
  qed
qed

lemma cat_setup_own:
  assumes "env_ok env"
  shows "\<exists>s. cat_setup env zero_mem = Inr (DefaultLoop, s) \<and> reach (cat_tasks, cat_heads, {}, s) \<and>
    cat_own env cat_tasks cat_heads s"
  using cat_setup_done [OF assms] by blast

section \<open>Properties\<close>

definition cat_entered :: "tx_mem \<Rightarrow> tx_mem" where
  "cat_entered s = on_tq (LIST_INSERT_BEFORE (Tailer DefaultLoop) (Phony DefaultLoop)) s"

lemma cat_turns_own:
  assumes "env_ok env" and "cat_setup env zero_mem = Inr (DefaultLoop, s)"
    and "loop_turns (cat_run env) DefaultLoop True (cat_entered s) fr s'"
  shows "\<exists>T U. reach (T, U, {DefaultLoop}, s') \<and> cat_own env T U s'"
proof -
  from cat_setup_own [OF assms(1)] assms(2) have s: "reach (cat_tasks, cat_heads, {}, s)" "cat_own env cat_tasks cat_heads s" by auto
  have "reach (cat_tasks, cat_heads, {DefaultLoop}, cat_entered s)" unfolding cat_entered_def
    by (rule reach.reach_step [OF s(1) sys_loop [OF loop_enter]]) (simp_all add: cat_heads_def)
  moreover have "cat_own env cat_tasks cat_heads (cat_entered s)"
    unfolding cat_entered_def by (rule cat_own_frame [OF s(2) loop_frame_on_tq])
  ultimately have "txcat.ready env {DefaultLoop} (cat_entered s)" by (auto simp: txcat.ready_def)
  from txcat.turns_ready [OF assms(3) this] show ?thesis by (auto simp: txcat.ready_def)
qed

text \<open>An environment: standard input is a regular file of two bytes, time stands still.\<close>

definition still_env :: cat_env where
  "still_env = \<lparr>clock_of = (\<lambda>s. ((uint (tx_ticks s) div 1000, uint (tx_ticks s) mod 1000 * 1000000),
       (uint (tx_ticks s) div 1000, uint (tx_ticks s) mod 1000 * 1000000))),
     wait_of = (\<lambda>s ms. ((0, 0), [])), ctl_of = (\<lambda>s i. (0, 0)), add_of = (-1, EPERM),
     reads_of = (\<lambda>s. ([[104, 105]], Eof)), fd_of = (\<lambda>s. 3)\<rparr>"

lemma still_env_reads: "reads_of still_env s = ([[104, 105]], Eof)" "add_of still_env = (-1, EPERM)"
  by (simp_all add: still_env_def)

lemma still_env_ok: "env_ok still_env"
proof -
  have "clock_ok still_env s" for s
  proof -
    have "clock_at (uint (tx_ticks s) div 1000, uint (tx_ticks s) mod 1000 * 1000000) (unat (tx_ticks s))"
      by (simp add: clock_at_def)
    then show ?thesis unfolding clock_ok_def still_env_def by fastforce
  qed
  then show ?thesis by (simp add: env_ok_def reads_ok_def) (simp add: still_env_def epoll_answer_def)
qed



text \<open>C25. One call of \<open>update_stdio\<close> writes exactly the bytes it reads, in order, then waits for more input if the
  reading ended with \<open>EAGAIN\<close>, and stops its loop if it ended with the end of the file or any other error.\<close>

theorem update_stdio_copies:
  assumes "cat_own env T U s" and "\<not> busy s iotest_task" and "tx_readable s iotest_file"
  shows "\<exists>s'. update_stdio env s = Inr s' \<and> cat_own env T U s' \<and>
    output_of (kcalls (io s')) = output_of (kcalls (io s)) @ concat (fst (reads_of env s)) \<and>
    (if snd (reads_of env s) = Failed EAGAIN
     then \<not> tx_readable s' iotest_file \<and> tx_filterin (filp s' iotest_file) = Some iotest_task \<and>
       (\<forall>up. tx_stop (loops s' up) = tx_stop (loops s up))
     else stopped s' DefaultLoop)"
  using update_stdio_own [OF assms] by blast

theorem update_stdio_copies_witness:
  "\<exists>s s'. tx_readable s iotest_file \<and> update_stdio still_env s = Inr s' \<and>
     output_of (kcalls (io s')) = output_of (kcalls (io s)) @ [104, 105] \<and> stopped s' DefaultLoop"
proof -
  obtain s where s: "booted cat_tasks s" "cat_block cat_tasks s" "boot_timers {tmtask_timer} s" "tx_readable s iotest_file"
    using cat_setup_block [OF still_env_ok] by (auto simp: still_env_reads)
  then have "cat_own still_env cat_tasks cat_heads s" using booted_own [OF still_env_ok] by blast
  from update_stdio_copies [OF this bootedD(8) [OF s(1)] s(4)] obtain s' where
    "update_stdio still_env s = Inr s'" "output_of (kcalls (io s')) = output_of (kcalls (io s)) @ [104, 105]"
    "stopped s' DefaultLoop" by (auto simp: still_env_reads)
  with s(4) show ?thesis by blast
qed

end
