(* ===== verification/TxCatEnd.thy ===== *)
theory TxCatEnd
  imports TxCatMain
begin

text \<open>
  The end of \<open>txcat\<close>: its loop ends without an error when it is told to, the timer ring it stops its timer
  on then still exists, and what follows the loop succeeds. The loop leaves at once when it is stopped in a
  later round, and in the first round \<open>update_stdio\<close> is the last task; so the callout of the timers, which would
  delete the ring of a stopped loop, is not called any more.
\<close>

section \<open>Calls of the loop\<close>

definition cat_good :: "cat_env \<Rightarrow> tx_mem \<Rightarrow> bool" where
  "cat_good env s \<longleftrightarrow> reach (cat_tasks, cat_heads, {DefaultLoop}, s) \<and> cat_own env cat_tasks cat_heads s \<and>
     ring_live s cat_ring"

text \<open>In the first round \<open>iotest_task\<close> is the last one, and nothing is called after it has stopped the loop.\<close>

definition cat_kept :: "cat_env \<Rightarrow> bool \<Rightarrow> tx_mem \<Rightarrow> bool" where
  "cat_kept env fr s \<longleftrightarrow> cat_good env s \<and>
     (fr \<longrightarrow> (\<exists>xs. ahead DefaultLoop s xs \<and> iotest_task \<notin> set (butlast xs) \<and> (stopped s DefaultLoop \<longrightarrow> xs = [])))"

lemma cat_goodD:
  assumes "cat_good env s"
  shows "reach (cat_tasks, cat_heads, {DefaultLoop}, s)" "cat_own env cat_tasks cat_heads s" "ring_live s cat_ring"
    "txcat.ready env {DefaultLoop} s"
  using assms by (auto simp: cat_good_def txcat.ready_def)

lemma ready_good: "txcat.ready env {DefaultLoop} s \<Longrightarrow> ring_live s cat_ring \<Longrightarrow> cat_good env s"
  by (auto simp: txcat.ready_def cat_good_def dest: cat_ownD(2,3))

lemma turn_phony:
  assumes g: "cat_good env s" and hd: "lh_first (tq s) (LoopQ DefaultLoop) = Some (Phony DefaultLoop)"
  shows "\<exists>s'. cat_good env s' \<and> (tx_loop_turn (cat_run env) DefaultLoop fr s = Inr (Leave s') \<or>
    tx_loop_turn (cat_run env) DefaultLoop fr s = Inr (Again False s'))"
proof -
  let ?s = "loop_round DefaultLoop (on_tq (LIST_REMOVE (Phony DefaultLoop)) s)"
  let ?b = "upd_loop DefaultLoop (\<lambda>l. l\<lparr>tx_break := 0\<rparr>) ?s"
  have turn: "tx_loop_turn (cat_run env) DefaultLoop fr s =
      (if tx_break (loops ?s DefaultLoop) \<noteq> 0 then Inr (Leave ?b) else Inr (Again False ?s))"
    using hd by (simp add: tx_loop_turn_def Let_def)
  have live: "ring_live ?s cat_ring" "ring_live ?b cat_ring"
    using cat_goodD(3) [OF g] by (simp_all add: loop_round_def on_tq_def upd_loop_def Let_def)
  from txcat.turn_cases [OF cat_goodD(4) [OF g], of DefaultLoop fr] obtain s' where "txcat.ready env {DefaultLoop} s'"
    "tx_loop_turn (cat_run env) DefaultLoop fr s = Inr (Leave s') \<or>
     (\<exists>fr'. tx_loop_turn (cat_run env) DefaultLoop fr s = Inr (Again fr' s')) \<or>
     (\<exists>e. tx_loop_turn (cat_run env) DefaultLoop fr s = Inl e)" by auto
  with turn live show ?thesis by (auto split: if_splits intro: ready_good)
qed

text \<open>The callbacks but \<open>update_stdio\<close> append to the queues and do not stop the loop.\<close>

lemma quiet_call:
  assumes own: "cat_own env T U s" and t: "t \<in> cat_tasks" "t \<noteq> iotest_task"
    and run: "cat_run env (fst (cat_call t)) (snd (cat_call t)) s = Inr s'"
  shows "grows T s s' \<and> (stopped s' DefaultLoop \<longleftrightarrow> stopped s DefaultLoop)"
proof -
  note D = cat_ownD [OF own]
  have T: "uptick_task \<in> T" "waker T tmtask_task" "iotest_task \<in> T" "cat_poller \<in> T" "cat_callout \<in> T"
    using D(2) by (simp_all add: cat_tasks_def waker_def)
  have tm: "\<forall>m. timer_task (timers s m) \<in> {None, Some tmtask_task}" using D(6) by (simp add: cat_timers_def)
  have tick: ?thesis if "ticked T U tmtask_task s s'" using that by (simp add: ticked_def stopped_def)
  consider "t = uptick_task" | "t = tmtask_task" | "t = cat_poller" | "t = cat_callout"
    using t by (auto simp: cat_tasks_def)
  then show ?thesis
  proof cases
    case 1
    then have s': "s' = update_tick s" using run by simp
    have c: "grows T x (set_cell i v x)" "stopped (set_cell i v x) up = stopped x up" for i v x up
      using grows_frame [OF set_cell_same(3)] by (simp_all add: set_cell_def stopped_def)
    have a: "grows T x (tx_task_active (Some uptick_task) r x)" for x r by (rule grows_active [OF T(1)]) simp
    have ag: "grows T x (set_cell i v (tx_task_active (Some uptick_task) r x))" for x r i v
      by (rule grows_trans [OF a c(1)])
    have st: "stopped (tx_task_active w r x) up = stopped x up" for w r x up by (simp add: stopped_def)
    show ?thesis unfolding s' update_tick_def Let_def
      by (intro conjI; simp add: c st ag split: if_split; intro impI conjI grows_trans [OF c(1) ag] c(1))
  next
    case 2
    then have s': "s' = tx_timer_reset tmtask_timer 50000 s" using run by (auto simp: update_timer_def split: if_splits)
    show ?thesis by (rule tick, unfold s') (rule ticked_reset [OF ticked_refl [OF tm]])
  next
    case 3
    have p: "tx_epoll_polling cat_epoll (wait_of env s) s = Inr s'" using run unfolding 3 by simp
    have io: "cat_io s" and g: "epoll_inv cat_epoll T {iotest_file} s" "polled_for {iotest_file} s"
      using D(2,5) by (simp_all add: cat_block_def epoll_good_def)
    have ans: "epoll_answer {iotest_file} s (wait_of env s ms)" for ms using D(1) by (simp add: env_ok_def)
    have "\<forall>up. tx_stop (loops s' up) = tx_stop (loops s up)"
      using tx_epoll_polling_spec [where U = U and wait = "wait_of env s", OF g T(4) ans] p by auto
    then show ?thesis using epoll_polling_cat(3) [OF io ans p T(3,4)] by (simp add: stopped_def)
  next
    case 4
    then have "tx_timer_polling cat_ring (fst (clock_of env s)) (snd (clock_of env s)) s = Some s'"
      using run by (auto simp: cat_polling_def split: if_splits option.splits)
    from timer_polling_ticked [OF this tm T(2,5)] show ?thesis by (rule tick)
  qed
qed

text \<open>One iteration that calls a task of a loop that is not stopped.\<close>

lemma turn_call:
  assumes g: "cat_good env s" and ns: "\<not> stopped s DefaultLoop"
    and hd: "lh_first (tq s) (LoopQ DefaultLoop) = Some t" "t \<noteq> Phony DefaultLoop"
  shows "\<exists>s'. tx_loop_turn (cat_run env) DefaultLoop fr s = Inr (Again fr s') \<and> cat_good env s' \<and>
    (\<forall>xs. ahead DefaultLoop s (t # xs) \<longrightarrow> (t = iotest_task \<longrightarrow> xs = []) \<longrightarrow> ahead DefaultLoop s' xs) \<and>
    (t \<noteq> iotest_task \<longrightarrow> \<not> stopped s' DefaultLoop) \<and>
    (t = iotest_task \<longrightarrow> (\<forall>x. snd (reads_of env x) \<noteq> Failed EAGAIN) \<longrightarrow> stopped s' DefaultLoop)"
proof -
  note G = cat_goodD [OF g]
  let ?T = cat_tasks and ?U = cat_heads and ?D = DefaultLoop
  let ?s = "loop_take ?D t (on_tq (LIST_REMOVE t) s)"
  obtain Q where inv: "loop_inv ?T ?U {?D} s Q" by (rule reach_inv [OF G(1)])
  obtain ys where ys: "runq Q ?D (t # ys)" by (rule at_front [OF inv _ hd(1)]) simp
  note take = loop_inv_take [OF inv ys hd(2)]
  have st: "sys_step (Call ?D t) (?T, ?U, {?D}, s) (?T, ?U, {?D}, ?s)"
    by (rule sys_loop [OF loop_call [OF _ hd]]) simp
  have r2: "reach (?T, ?U, {?D}, ?s)" by (rule reach.reach_step [OF G(1) st])
  have o2: "cat_own env ?T ?U ?s" by (rule cat_own_frame [OF G(2) loop_frame_take])
  have idle: "idle ?s t" by (simp add: loop_take_reads)
  have live: "ring_live ?s = ring_live s" "stopped ?s = stopped s"
    by (simp_all add: loop_take_def on_tq_def mem_defs Let_def stopped_def fun_eq_iff)
  have call: "task_call (tasks ?s t) = fst (cat_call t)" "task_data (tasks ?s t) = snd (cat_call t)"
    using cat_ownD(4) [OF o2] take(2) by (simp_all add: cat_calls_def prod_eq_iff)
  from cat_run_client [OF G(1,2) st o2 take(2) idle] obtain s' where
    s': "cat_run env (fst (cat_call t)) (snd (cat_call t)) ?s = Inr s'" "cat_own env ?T ?U s'" "api_run ?T ?U ?s s'"
    using G(3) by (auto simp: call live)
  have turn: "tx_loop_turn (cat_run env) ?D fr s = Inr (Again fr s')"
    using hd s'(1) by (simp add: tx_loop_turn_def Let_def call)
  have r3: "reach (?T, ?U, {?D}, s')" by (rule reach_client_run [OF api_run_client [OF s'(3)] r2])
  have dist: "distinct (t # ys @ [Tailer ?D])"
    using tq.distinct_list [OF loop_invD(1) [OF inv] ys [unfolded runq_def]] by simp
  have "runq (q_remove t Q) ?D (removeAll t (t # ys))"
    by (rule runq_q_remove [OF _ ys]) (use dist in auto)
  then have q2: "runq (q_remove t Q) ?D ys" using dist by simp
  have ah: "ahead ?D ?s xs" if "ahead ?D s (t # xs)" for xs
    using that ahead_runq [OF inv ys] ahead_runq [OF take(1) q2] by auto
  show ?thesis
  proof (cases "t = iotest_task")
    case False
    from quiet_call [OF o2 take(2) False s'(1)] have q: "grows ?T ?s s'" "\<not> stopped s' ?D" using ns by (simp_all add: live)
    have "ring_live s' cat_ring" using cat_ownD(7) [OF s'(2)] q(2) by (simp add: cat_ring_kept_def)
    then show ?thesis using turn r3 s'(2) q(2) ahead_grows [OF q(1) r2 ah] False by (auto simp: cat_good_def)
  next
    case True
    have "\<not> busy ?s iotest_task" using loop_invD(9) [OF take(1,2)] idle True by simp
    moreover have "tx_readable ?s iotest_file" using cat_called(2) [OF G(1,2) st o2 take(2) True] .
    moreover have "update_stdio env ?s = Inr s'" using s'(1) by (simp add: True numeral_2_eq_2)
    ultimately have "ring_live s' = ring_live ?s" "snd (reads_of env ?s) \<noteq> Failed EAGAIN \<Longrightarrow> stopped s' ?D"
      using update_stdio_own [OF o2] by (auto split: if_splits)
    then have io: "ring_live s' = ring_live s" "snd (reads_of env ?s) \<noteq> Failed EAGAIN \<Longrightarrow> stopped s' ?D"
      by (simp_all add: live)
    have "ahead ?D s' []" if "ahead ?D s [t]"
    proof -
      from ah [OF that] obtain zs where zs: "ys = Phony ?D # zs" using ahead_runq [OF take(1) q2] by auto
      obtain Q' where Q': "loop_inv ?T ?U {?D} s' Q'" "front (q_remove t Q) Q'"
        using loop_inv_client_run [OF api_run_client [OF s'(3)]] take(1) by auto
      then obtain ws where "runq Q' ?D ws" "Phony ?D \<in> set ws" "pos (Phony ?D) ws = 0"
        using q2 unfolding front_def by (force simp: zs pos_def)
      then show ?thesis using ahead_runq [OF Q'(1)] by (cases ws) (auto simp: pos_def split: if_splits)
    qed
    then show ?thesis using turn r3 s'(2) io G(3) True by (auto simp: cat_good_def)
  qed
qed

section \<open>The loop\<close>

lemma ahead_first: "ahead up s xs \<Longrightarrow> lh_first (tq s) (LoopQ up) = Some (hd (xs @ [Phony up]))"
  by (cases xs) (auto simp: ahead_def)

lemma turn_kept:
  assumes k: "cat_kept env fr s" and go: "tx_stop (loops s DefaultLoop) = 0 \<or> fr"
  shows "\<exists>s'. (tx_loop_turn (cat_run env) DefaultLoop fr s = Inr (Leave s') \<and> cat_good env s') \<or>
    (\<exists>fr'. tx_loop_turn (cat_run env) DefaultLoop fr s = Inr (Again fr' s') \<and> cat_kept env fr' s')"
proof -
  have g: "cat_good env s" using k by (simp add: cat_kept_def)
  obtain t where hd: "lh_first (tq s) (LoopQ DefaultLoop) = Some t"
    by (rule txcat.turn_empty [OF cat_goodD(1) [OF g]]) auto
  show ?thesis
  proof (cases "t = Phony DefaultLoop")
    case True
    from turn_phony [OF g hd [unfolded True], of fr] show ?thesis by (auto simp: cat_kept_def)
  next
    case False
    have ns: "\<not> stopped s DefaultLoop"
    proof
      assume st: "stopped s DefaultLoop"
      then have "fr" using go by (simp add: stopped_def)
      then have "ahead DefaultLoop s []" using k st by (auto simp: cat_kept_def)
      from ahead_first [OF this] hd False show False by simp
    qed
    from turn_call [OF g ns hd False, of fr] obtain s' where s': "tx_loop_turn (cat_run env) DefaultLoop fr s = Inr (Again fr s')"
      "cat_good env s'" "\<And>xs. ahead DefaultLoop s (t # xs) \<Longrightarrow> (t = iotest_task \<Longrightarrow> xs = []) \<Longrightarrow> ahead DefaultLoop s' xs"
      "t \<noteq> iotest_task \<Longrightarrow> \<not> stopped s' DefaultLoop" by blast
    have "\<exists>xs. ahead DefaultLoop s' xs \<and> iotest_task \<notin> set (butlast xs) \<and> (stopped s' DefaultLoop \<longrightarrow> xs = [])" if fr
    proof -
      from k that obtain xs where xs: "ahead DefaultLoop s xs" "iotest_task \<notin> set (butlast xs)" by (auto simp: cat_kept_def)
      from ahead_first [OF xs(1)] hd False obtain ys where ys: "xs = t # ys" by (cases xs) auto
      have "t = iotest_task \<Longrightarrow> ys = []" using xs(2) by (auto simp: ys split: if_splits)
      moreover have "iotest_task \<notin> set (butlast ys)" using xs(2) by (auto simp: ys split: if_splits)
      ultimately show ?thesis using s'(3) xs(1) s'(4) unfolding ys by blast
    qed
    then have "cat_kept env fr s'" using s'(2) by (simp add: cat_kept_def)
    then show ?thesis using s'(1) by blast
  qed
qed

lemma iter_kept:
  assumes "tx_loop_iter (cat_run env) DefaultLoop fr s = Some r" and "cat_kept env fr s"
  shows "\<exists>s'. r = Inr s' \<and> cat_good env s'"
proof -
  have "run' = cat_run env \<longrightarrow> up = DefaultLoop \<longrightarrow> cat_kept env fr s \<longrightarrow> (\<exists>s'. r = Inr s' \<and> cat_good env s')"
    if "tx_loop_iter run' up fr s = Some r" for run' up
    using that
  proof (induction run' up fr s r rule: tx_loop_iter.raw_induct [rotated, consumes 1, case_names 1])
    case (1 rec run' up fr s r)
    show ?case
    proof (intro impI)
      assume eq: "run' = cat_run env" "up = DefaultLoop" and k: "cat_kept env fr s"
      show "\<exists>s'. r = Inr s' \<and> cat_good env s'"
      proof (cases "tx_stop (loops s DefaultLoop) = 0 \<or> fr")
        case False
        then show ?thesis using 1(2) k by (auto simp: eq cat_kept_def)
      next
        case True
        from turn_kept [OF k True] show ?thesis using 1 True by (auto simp: eq)
      qed
    qed
  qed
  with assms show ?thesis by blast
qed

lemma entered_kept:
  assumes r: "reach (cat_tasks, cat_heads, {}, s)" and own: "cat_own env cat_tasks cat_heads s"
    and ns: "\<not> stopped s DefaultLoop" and last: "iotest_last s"
  shows "cat_kept env True (cat_entered s)"
    and "busy s iotest_task \<Longrightarrow> \<exists>xs. ahead DefaultLoop (cat_entered s) xs \<and> iotest_task \<in> set xs \<and> iotest_task \<notin> set (butlast xs)"
proof -
  obtain Q where inv: "loop_inv cat_tasks cat_heads {} s Q" by (rule reach_inv [OF r])
  obtain xs where xs: "runq Q DefaultLoop xs" using loop_invD(2,6) [OF inv] by (auto simp: cat_heads_def)
  have up: "LoopQ DefaultLoop \<in> dom Q" "DefaultLoop \<notin> {}" using loop_invD(6) [OF inv] by (simp_all add: cat_heads_def)
  have same: "tasks (cat_entered s) = tasks s" "loops (cat_entered s) = loops s" "ring_live (cat_entered s) = ring_live s"
    "tq (cat_entered s) = LIST_INSERT_BEFORE (Tailer DefaultLoop) (Phony DefaultLoop) (tq s)"
    by (simp_all add: cat_entered_def on_tq_def)
  have inv': "loop_inv cat_tasks cat_heads {DefaultLoop} (cat_entered s) (q_before (Tailer DefaultLoop) (Phony DefaultLoop) Q)"
    by (rule loop_inv_phony_in [OF inv up same(4,1)]) (use loop_inv_accD(1,2) [OF inv] in \<open>auto simp: same\<close>)
  from ahead_runq [OF inv' runq_q_before_same [OF loop_invD(1) [OF inv] xs]]
  have ah: "ahead DefaultLoop (cat_entered s) xs" by simp
  have io: "iotest_task \<notin> set (butlast xs)" "busy s iotest_task \<Longrightarrow> iotest_task \<in> set xs"
    using last inv xs unfolding iotest_last_def by blast+
  have "reach (cat_tasks, cat_heads, {DefaultLoop}, cat_entered s)" unfolding cat_entered_def
    by (rule reach.reach_step [OF r sys_loop [OF loop_enter]]) (simp_all add: cat_heads_def)
  moreover have "cat_own env cat_tasks cat_heads (cat_entered s)"
    unfolding cat_entered_def by (rule cat_own_frame [OF own loop_frame_on_tq])
  moreover have "ring_live s cat_ring" using cat_ownD(7) [OF own] ns by (simp add: cat_ring_kept_def)
  ultimately show "cat_kept env True (cat_entered s)"
    using ah io(1) ns by (auto simp: cat_kept_def cat_good_def same stopped_def)
  show "busy s iotest_task \<Longrightarrow> \<exists>xs. ahead DefaultLoop (cat_entered s) xs \<and> iotest_task \<in> set xs \<and> iotest_task \<notin> set (butlast xs)"
    using ah io by blast
qed

text \<open>If reading never has to wait, the first round ends the loop.\<close>

lemma first_round_told:
  assumes "cat_good env s" and "\<not> stopped s DefaultLoop" and "ahead DefaultLoop s xs" and "iotest_task \<in> set xs"
    and "iotest_task \<notin> set (butlast xs)" and read: "\<forall>x. snd (reads_of env x) \<noteq> Failed EAGAIN"
  shows "\<exists>fr s2. loop_turns (cat_run env) DefaultLoop True s fr s2 \<and> told DefaultLoop s2"
  using assms(1-5)
proof (induction xs arbitrary: s)
  case (Cons t xs)
  obtain Q where inv: "loop_inv cat_tasks cat_heads {DefaultLoop} s Q" by (rule reach_inv [OF cat_goodD(1) [OF Cons.prems(1)]])
  have hd: "lh_first (tq s) (LoopQ DefaultLoop) = Some t" using ahead_first [OF Cons.prems(3)] by simp
  have nt: "t \<noteq> Phony DefaultLoop"
  proof
    assume t: "t = Phony DefaultLoop"
    obtain ys where ys: "runq Q DefaultLoop (t # ys)" by (rule at_front [OF inv _ hd]) simp
    have "distinct (t # ys @ [Tailer DefaultLoop])"
      using tq.distinct_list [OF loop_invD(1) [OF inv] ys [unfolded runq_def]] by simp
    then show False using Cons.prems(3) ahead_runq [OF inv ys] by (auto simp: t)
  qed
  from turn_call [OF Cons.prems(1,2) hd nt, of True] obtain s' where s': "tx_loop_turn (cat_run env) DefaultLoop True s = Inr (Again True s')"
    "cat_good env s'" "(t = iotest_task \<Longrightarrow> xs = []) \<Longrightarrow> ahead DefaultLoop s' xs" "t \<noteq> iotest_task \<Longrightarrow> \<not> stopped s' DefaultLoop"
    "t = iotest_task \<Longrightarrow> stopped s' DefaultLoop" using Cons.prems(3) read by blast
  have step: "loop_turns (cat_run env) DefaultLoop True s fr s2" if "loop_turns (cat_run env) DefaultLoop True s' fr s2" for fr s2
    by (rule turns_step [OF _ s'(1) that]) simp
  show ?case
  proof (cases "t = iotest_task")
    case True
    then show ?thesis using step [OF turns_refl] s'(5) by (auto simp: told_def stopped_def)
  next
    case False
    then have "iotest_task \<in> set xs" "iotest_task \<notin> set (butlast xs)" using Cons.prems(4,5) by (auto split: if_splits)
    from Cons.IH [OF s'(2) s'(4) [OF False] s'(3) this] False step show ?thesis by blast
  qed
qed simp

section \<open>After the loop\<close>

lemma detach_streams:
  assumes "tx_epoll_detach a k s = Inr s'"
  shows "output_of (kcalls (io s')) = output_of (kcalls (io s)) \<and> input_of (kcalls (io s')) = input_of (kcalls (io s))"
  using assms by (auto simp: tx_epoll_detach_def epoll_ctl_def filp_upds upd_loop_def Let_def split: poll_p.splits if_splits)

lemma cat_teardown_ok:
  assumes own: "cat_own env T U s" and live: "ring_live s cat_ring"
  shows "\<exists>s'. cat_teardown env DefaultLoop s = Inr s' \<and> output_of (kcalls (io s')) = input_of (kcalls (io s')) \<and>
    \<not> attached s' iotest_file \<and> last (kcalls (io s')) = CloseFd STDIN_FILE_FD"
proof -
  note D = cat_ownD [OF own]
  have g: "epoll_good cat_epoll cat_tasks ({iotest_file}, s)" and c: "cat_io s" using D(5) by (simp_all add: cat_block_def)
  have f: "tx_fops (filp s iotest_file) = GenericFops" using g by (simp add: epoll_good_def blocks_ok_def)
  define s1 where "s1 = generic_cancel_in iotest_file (VTask iotest_task) s"
  have stop: "tx_aincb_stop iotest_file (VTask iotest_task) s = Inr s1" using f by (simp add: tx_aincb_stop_def s1_def)
  have R1: "kcalls (io s1) = kcalls (io s)" "ring_live s1 = ring_live s" "timers s1 = timers s"
    by (simp_all add: s1_def generic_cancel_in_def filp_upds)
  have "epoll_step cat_epoll cat_tasks ({iotest_file}, s) ({iotest_file}, s1)"
    by (rule es_op [OF op_stop [OF _ stop]]) simp
  then have g1: "epoll_good cat_epoll cat_tasks ({iotest_file}, s1)"
    by (rule epoll_step_good [OF _ g cat_tasks_in(4)])
  define s2 where "s2 = tx_timer_stop tmtask_timer s1"
  have rs: "rest_step s1 s2" by (simp add: s2_def tx_timer_stop_def rest_step_def on_mq_def upd_timer_def)
  have g2: "epoll_good cat_epoll cat_tasks ({iotest_file}, s2)" by (rule epoll_good_rest [OF g1 rs])
  have k: "fst (ctl_of env s2 0) = 0" using D(1) by (simp add: env_ok_def)
  have g3: "epoll_inv cat_epoll cat_tasks {iotest_file} s2" "polled_for {iotest_file} s2" "blocks_ok {iotest_file} s2"
    using g2 by (simp_all add: epoll_good_def)
  obtain s3 where fini: "tx_aiocb_fini iotest_file (ctl_of env s2) s2 = Inr s3" "\<not> attached s3 iotest_file"
    using epoll_fini_block [OF g3, of iotest_file "ctl_of env s2"] k by auto
  have "with_ops iotest_file s2 (\<lambda>ops. tx_detach ops iotest_file (ctl_of env s2) s2) = tx_epoll_detach iotest_file (ctl_of env s2) s2"
    using epoll.ok_ops [OF g3(1)] by (simp add: with_ops_def epoll_fns_def)
  then have str: "output_of (kcalls (io s3)) = output_of (kcalls (io s2)) \<and> input_of (kcalls (io s3)) = input_of (kcalls (io s2))"
    using fini(1) detach_streams by (auto simp: tx_aiocb_fini_def split: if_splits)
  have ring: "tx_ring (timers s tmtask_timer) = cat_ring" using D(6) by (simp add: cat_timers_def)
  have "cat_teardown env DefaultLoop s = Inr (log_kcall (CloseFd STDIN_FILE_FD) s3)"
    using stop fini(1) live by (simp add: cat_teardown_def ring R1 s2_def [symmetric] Let_def tx_loop_delete_def)
  then show ?thesis using str rs c fini(2) by (simp add: log_kcall_def rest_step_def R1 cat_io_def attached_def)
qed

text \<open>C22. \<open>txcat\<close> ends and its result is right. If reading standard input never has to wait (a regular file), or else
  whenever the loop is told to stop, the whole of \<open>main\<close> returns without an error: no assertion fails and no timer
  is unlinked from a ring that was deleted; what was written is what was read, and standard input was detached
  from the poller before it was closed.\<close>

theorem txcat_ends:
  assumes "env_ok env"
    and "add_of env = (-1, EPERM) \<and> (\<forall>x. snd (reads_of env x) \<noteq> Failed EAGAIN) \<or>
      (\<exists>s fr s2. cat_setup env zero_mem = Inr (DefaultLoop, s) \<and>
         loop_turns (cat_run env) DefaultLoop True (cat_entered s) fr s2 \<and> told DefaultLoop s2)"
  shows "\<exists>s'. txcat env zero_mem = Some (Inr s') \<and> output_of (kcalls (io s')) = input_of (kcalls (io s')) \<and>
    \<not> attached s' iotest_file \<and> last (kcalls (io s')) = CloseFd STDIN_FILE_FD"
proof -
  from cat_setup_done [OF assms(1)] obtain s where s: "cat_setup env zero_mem = Inr (DefaultLoop, s)"
    "reach (cat_tasks, cat_heads, {}, s)" "cat_own env cat_tasks cat_heads s" "\<not> stopped s DefaultLoop" "iotest_last s"
    "add_of env = (-1, EPERM) \<longrightarrow> busy s iotest_task" by blast
  note E = entered_kept [OF s(2-5)]
  have ns: "\<not> stopped (cat_entered s) DefaultLoop" using s(4) by (simp add: cat_entered_def on_tq_def stopped_def)
  have g: "cat_good env (cat_entered s)" using E(1) by (simp add: cat_kept_def)
  have "\<exists>fr s2. loop_turns (cat_run env) DefaultLoop True (cat_entered s) fr s2 \<and> told DefaultLoop s2"
    using assms(2) s(1,6) E(2) first_round_told [OF g ns] by auto
  then obtain r where r: "tx_loop_main (cat_run env) DefaultLoop s = Some r"
    using txcat.main_returns [OF s(2,3)] unfolding cat_entered_def by (fastforce simp: cat_heads_def)
  then obtain x where x: "tx_loop_iter (cat_run env) DefaultLoop True (cat_entered s) = Some x"
    "r = res_bind x (\<lambda>s'. Inr (on_tq (LIST_REMOVE (Phony DefaultLoop)) s'))"
    by (auto simp: tx_loop_main_def cat_entered_def)
  from iter_kept [OF x(1) E(1)] obtain s3 where s3: "x = Inr s3" "cat_good env s3" by blast
  let ?s = "on_tq (LIST_REMOVE (Phony DefaultLoop)) s3"
  have "cat_own env cat_tasks cat_heads ?s" by (rule cat_own_frame [OF cat_goodD(2) [OF s3(2)] loop_frame_on_tq])
  moreover have "ring_live ?s cat_ring" using cat_goodD(3) [OF s3(2)] by (simp add: on_tq_def)
  ultimately show ?thesis using cat_teardown_ok r by (fastforce simp: txcat_def s(1) x(2) s3(1))
qed

theorem txcat_ends_witness: "\<exists>s'. txcat still_env zero_mem = Some (Inr s') \<and> \<not> attached s' iotest_file"
  using txcat_ends [OF still_env_ok disjI1] by (auto simp: still_env_reads)

end
