(* ===== verification/TxCString.thy ===== *)
theory TxCString
  imports TxPrelude
begin

text \<open>
  What the programs use of the C library on strings: character classes, \<open>atoi\<close>, searching and comparing.
  A C string is the list of its characters before the terminating zero. \<open>atoi\<close> is the exact integer: for
  a number that is no \<open>int\<close> the C function is undefined. Network byte order is that of a little-endian host.
\<close>

section \<open>Characters and numbers\<close>

definition isdigit :: "char \<Rightarrow> bool" where
  "isdigit c \<longleftrightarrow> (48::nat) \<le> of_char c \<and> of_char c \<le> (57::nat)"

definition isalpha :: "char \<Rightarrow> bool" where
  "isalpha c \<longleftrightarrow> (65::nat) \<le> of_char c \<and> of_char c \<le> (90::nat) \<or> (97::nat) \<le> of_char c \<and> of_char c \<le> (122::nat)"

definition isspace :: "char \<Rightarrow> bool" where
  "isspace c \<longleftrightarrow> of_char c = (32::nat) \<or> (9::nat) \<le> of_char c \<and> of_char c \<le> (13::nat)"

definition digit_value :: "char \<Rightarrow> nat" where
  "digit_value c = of_char c - 48"

fun number_value :: "nat \<Rightarrow> string \<Rightarrow> nat" where
  "number_value n [] = n"
| "number_value n (c # s) = (if isdigit c then number_value (10 * n + digit_value c) s else n)"

definition atoi :: "string \<Rightarrow> int" where
  "atoi s =
     (case dropWhile isspace s of
        [] \<Rightarrow> 0
      | c # t \<Rightarrow> if c = CHR ''-'' then - int (number_value 0 t)
                 else if c = CHR ''+'' then int (number_value 0 t)
                 else int (number_value 0 (c # t)))"

text \<open>The decimal numeral of a number, without leading zeros.\<close>

definition digit_char :: "nat \<Rightarrow> char" where
  "digit_char d = char_of (48 + d)"

fun dec :: "nat \<Rightarrow> string" where
  "dec n = (if n < 10 then [digit_char n] else dec (n div 10) @ [digit_char (n mod 10)])"

declare dec.simps [simp del]

lemma digit_char_value [simp]:
  assumes "d < 10"
  shows "isdigit (digit_char d)" "digit_value (digit_char d) = d" "digit_char d \<noteq> CHR ''.''"
proof -
  have "(of_char (digit_char d) :: nat) = 48 + d" using assms by (simp add: digit_char_def)
  then show "isdigit (digit_char d)" "digit_value (digit_char d) = d" "digit_char d \<noteq> CHR ''.''"
    using assms by (auto simp: isdigit_def digit_value_def)
qed

lemma isdigit_char: "isdigit c \<longleftrightarrow> (\<exists>d<10. c = digit_char d)"
proof
  assume "isdigit c"
  then show "\<exists>d<10. c = digit_char d"
    by (intro exI [of _ "of_char c - 48"]) (auto simp: isdigit_def digit_char_def)
qed auto

lemma isdigit_value: "isdigit c \<Longrightarrow> digit_value c < 10" "isdigit c \<Longrightarrow> digit_char (digit_value c) = c"
  by (auto simp: isdigit_char)

lemma dec_small: "d < 10 \<Longrightarrow> dec d = [digit_char d]"
  by (subst dec.simps) simp

lemma dec_snoc: "n > 0 \<Longrightarrow> d < 10 \<Longrightarrow> dec (10 * n + d) = dec n @ [digit_char d]"
  by (subst dec.simps) auto

lemma dec_nonempty [simp]: "dec n \<noteq> []"
  by (subst dec.simps) simp

lemma dec_digits: "c \<in> set (dec n) \<Longrightarrow> isdigit c"
  by (induction n rule: dec.induct) (subst (asm) (2) dec.simps, auto split: if_splits)

lemma number_value_append:
  "\<forall>c\<in>set s. isdigit c \<Longrightarrow> number_value n (s @ t) = number_value (number_value n s) t"
  by (induction s arbitrary: n) auto

lemma number_value_dec: "number_value 0 (dec n) = n"
proof (induction n rule: dec.induct)
  case (1 n)
  show ?case
  proof (cases "n < 10")
    case False
    then have "dec n = dec (n div 10) @ [digit_char (n mod 10)]" by (subst dec.simps) simp
    moreover have "number_value 0 (dec (n div 10)) = n div 10" using 1 False by simp
    ultimately show ?thesis using dec_digits by (simp add: number_value_append)
  qed (simp add: dec_small)
qed

lemma isdigit_not: "isdigit c \<Longrightarrow> \<not> isspace c \<and> c \<noteq> CHR ''-'' \<and> c \<noteq> CHR ''+'' \<and> c \<noteq> CHR '':'' \<and> c \<noteq> CHR ''.'' \<and> \<not> isalpha c \<and>
    c \<noteq> CHR ''['' \<and> c \<noteq> CHR '']''"
  by (auto simp: isdigit_def isspace_def isalpha_def)

lemma atoi_digits: "\<forall>c\<in>set s. isdigit c \<Longrightarrow> atoi s = int (number_value 0 s)"
  using isdigit_not by (cases s) (auto simp: atoi_def)

lemma atoi_dec: "atoi (dec n) = int n"
  using atoi_digits dec_digits number_value_dec by simp

section \<open>Strings\<close>

definition strchr :: "string \<Rightarrow> char \<Rightarrow> nat option" where
  "strchr s c = (let n = length (takeWhile (\<lambda>x. x \<noteq> c) s) in if n < length s then Some n else None)"

lemma strchr_None: "strchr s c = None \<longleftrightarrow> c \<notin> set s"
proof (cases "c \<in> set s")
  case True
  then have "length (takeWhile (\<lambda>x. x \<noteq> c) s) < length s" by (induction s) auto
  with True show ?thesis by (simp add: strchr_def Let_def)
next
  case False
  then have "takeWhile (\<lambda>x. x \<noteq> c) s = s" by (induction s) auto
  then show ?thesis using False by (simp only: strchr_def Let_def) simp
qed

lemma strchr_Some: "strchr s c = Some n \<Longrightarrow> n < length s \<and> s ! n = c \<and> take n s = takeWhile (\<lambda>x. x \<noteq> c) s"
  using nth_length_takeWhile [of "\<lambda>x. x \<noteq> c" s] takeWhile_eq_take [of "\<lambda>x. x \<noteq> c" s, symmetric]
  by (simp only: strchr_def Let_def option.inject split: if_splits) simp_all

lemma strchr_append: "c \<notin> set s \<Longrightarrow> strchr (s @ c # t) c = Some (length s)"
proof -
  assume "c \<notin> set s"
  then have "takeWhile (\<lambda>x. x \<noteq> c) (s @ c # t) = s" by (induction s) auto
  then show ?thesis by (simp add: strchr_def Let_def)
qed

section \<open>Byte order\<close>

definition htons :: "16 word \<Rightarrow> 16 word" where
  "htons w = push_bit 8 w OR drop_bit 8 w"

definition htonl :: "u32 \<Rightarrow> u32" where
  "htonl w = push_bit 24 w OR (push_bit 8 w AND 0x00FF0000) OR (drop_bit 8 w AND 0x0000FF00) OR drop_bit 24 w"

text \<open>\<open>htons(n)\<close> of an \<open>int\<close>.\<close>

abbreviation (input) htons_int :: "int \<Rightarrow> 16 word" where
  "htons_int n \<equiv> htons (word_of_int n)"

end
