(* ===== verification/TxInet.thy ===== *)
theory TxInet
  imports TxCString
begin

text \<open>
  \<open>inet_pton4\<close> of \<open>tx_platform.cpp\<close> (and the same text in \<open>ncatutil.cpp\<close>): the parser of IPv4 addresses
  the Windows builds use. It accepts exactly the canonical dotted quads, and never writes outside its
  array of four bytes.
\<close>

section \<open>The parser\<close>

record pton =
  saw_digit :: bool
  octets :: nat
  tp :: nat                       \<comment> \<open>the index of \<open>tp\<close> in \<open>tmp\<close>\<close>
  tmp :: "8 word list"

text \<open>One round of the loop; \<open>None\<close> is \<open>return 0\<close>.\<close>

definition pton_char :: "char \<Rightarrow> pton \<Rightarrow> pton option res" where
  "pton_char ch p =
     (case strchr ''0123456789'' ch of
        Some d \<Rightarrow>
          let nw = unat (tmp p ! tp p) * 10 + d in
          if saw_digit p \<and> tmp p ! tp p = 0 then Inr None
          else if nw > 255 then Inr None
          else let p1 = p\<lparr>tmp := (tmp p)[tp p := word_of_nat nw]\<rparr> in
            if \<not> saw_digit p1
            then let p2 = p1\<lparr>octets := octets p1 + 1\<rparr> in
              if octets p2 > 4 then Inr None else Inr (Some (p2\<lparr>saw_digit := True\<rparr>))
            else Inr (Some p1)
      | None \<Rightarrow>
          if ch = CHR ''.'' \<and> saw_digit p
          then if octets p = 4 then Inr None
               else if tp p + 1 \<ge> length (tmp p) then Inl BufferOverflow
               else Inr (Some (p\<lparr>tp := tp p + 1, tmp := (tmp p)[tp p + 1 := 0], saw_digit := False\<rparr>))
          else Inr None)"

fun pton_loop :: "string \<Rightarrow> pton \<Rightarrow> pton option res" where
  "pton_loop [] p = Inr (Some p)"
| "pton_loop (ch # src) p =
     (case pton_char ch p of
        Inl e \<Rightarrow> Inl e
      | Inr None \<Rightarrow> Inr None
      | Inr (Some p1) \<Rightarrow> pton_loop src p1)"

text \<open>\<open>stack\<close> is what the array holds before it is written, \<open>dst\<close> the four bytes at the destination.\<close>

definition inet_pton4 :: "string \<Rightarrow> (nat \<Rightarrow> 8 word) \<Rightarrow> 8 word list \<Rightarrow> (int \<times> 8 word list) res" where
  "inet_pton4 src stack dst =
     res_bind (pton_loop src \<lparr>saw_digit = False, octets = 0, tp = 0, tmp = (map stack [0..<4])[0 := 0]\<rparr>) (\<lambda>r.
     case r of
       None \<Rightarrow> Inr (0, dst)
     | Some p \<Rightarrow> if octets p < 4 then Inr (0, dst) else Inr (1, tmp p))"

definition AF_INET :: int where "AF_INET = 2"

definition inet_pton :: "int \<Rightarrow> string \<Rightarrow> (nat \<Rightarrow> 8 word) \<Rightarrow> 8 word list \<Rightarrow> (int \<times> 8 word list) res" where
  "inet_pton af src stack dst = (if af = AF_INET then inet_pton4 src stack dst else Inr (0, dst))"

section \<open>Dotted quads\<close>

fun dotted :: "8 word list \<Rightarrow> string" where
  "dotted [] = []"
| "dotted [w] = dec (unat w)"
| "dotted (w # ws) = dec (unat w) @ CHR ''.'' # dotted ws"

lemma strchr_digits: "strchr ''0123456789'' c = (if isdigit c then Some (digit_value c) else None)"
proof (cases "isdigit c")
  case True
  then obtain d where d: "d < 10" "c = digit_char d" by (auto simp: isdigit_char)
  then have "d \<in> {0, 1, 2, 3, 4, 5, 6, 7, 8, 9}" by auto
  then show ?thesis using d by (elim insertE emptyE) (simp_all, code_simp+)
next
  case False
  then have "c \<notin> set ''0123456789''" by (auto simp: isdigit_def)
  then show ?thesis using False strchr_None by simp
qed

section \<open>What the parser accepts\<close>

lemma four_bytes: "length ws = 4 \<Longrightarrow> \<exists>a b c d. ws = [a, b, c, d]"
  by (simp add: length_Suc_conv eval_nat_numeral) blast

text \<open>The state after the characters \<open>q\<close>, when none of them was refused.\<close>

definition parsed :: "string \<Rightarrow> pton \<Rightarrow> bool" where
  "parsed q p \<longleftrightarrow> length (tmp p) = 4 \<and> tp p < 4 \<and> octets p = tp p + (if saw_digit p then 1 else 0) \<and>
     q = concat (map (\<lambda>w. dec (unat w) @ [CHR ''.'']) (take (tp p) (tmp p))) @ (if saw_digit p then dec (unat (tmp p ! tp p)) else []) \<and>
     (\<not> saw_digit p \<longrightarrow> tmp p ! tp p = 0)"

lemma parsed_char:
  assumes "parsed q p"
  shows "pton_char c p = Inr None \<or> (\<exists>p'. pton_char c p = Inr (Some p') \<and> parsed (q @ [c]) p')"
proof -
  note P = assms [unfolded parsed_def]
  show ?thesis
  proof (cases "isdigit c")
    case True
    define d where "d = digit_value c"
    have d: "d < 10" "c = digit_char d" using isdigit_value [OF True] by (simp_all add: d_def)
    define v where "v = unat (tmp p ! tp p)"
    let ?w = "word_of_nat (v * 10 + d) :: 8 word"
    have step: "pton_char c p = (if saw_digit p \<and> v = 0 \<or> v * 10 + d > 255 then Inr None
        else Inr (Some (p\<lparr>tmp := (tmp p)[tp p := ?w], octets := tp p + 1, saw_digit := True\<rparr>)))"
      using P True by (auto simp: pton_char_def strchr_digits d_def v_def Let_def unat_eq_0)
    have u: "unat ?w = v * 10 + d" if "\<not> v * 10 + d > 255"
      by (subst unat_of_nat) (use that in simp)
    have dg: "dec (v * 10 + d) = (if saw_digit p then dec v else []) @ [c]" if "\<not> (saw_digit p \<and> v = 0)"
      using dec_snoc [of v d] dec_small [of d] d P that by (auto simp: v_def mult.commute)
    show ?thesis
      using P u dg unfolding step parsed_def v_def by auto
  next
    case False
    show ?thesis
    proof (cases "c = CHR ''.'' \<and> saw_digit p \<and> octets p \<noteq> 4")
      case True
      then have t: "tp p + 1 < 4" using P by auto
      have "pton_char c p = Inr (Some (p\<lparr>tp := tp p + 1, tmp := (tmp p)[tp p + 1 := 0], saw_digit := False\<rparr>))"
        using True False t P by (simp add: pton_char_def strchr_digits)
      moreover have "take (tp p + 1) ((tmp p)[tp p + 1 := 0]) = take (tp p) (tmp p) @ [tmp p ! tp p]"
        using t P by (simp add: take_Suc_conv_app_nth)
      ultimately show ?thesis using True t P by (simp add: parsed_def)
    next
      case no: False
      then show ?thesis using False by (auto simp: pton_char_def strchr_digits)
    qed
  qed
qed

lemma parsed_loop:
  "parsed q p \<Longrightarrow> pton_loop s p = Inr None \<or> (\<exists>p'. pton_loop s p = Inr (Some p') \<and> parsed (q @ s) p')"
proof (induction s arbitrary: q p)
  case (Cons c s)
  from parsed_char [OF Cons.prems, of c] show ?case
  proof (elim disjE exE conjE)
    fix p' assume "pton_char c p = Inr (Some p')" and "parsed (q @ [c]) p'"
    then show ?case using Cons.IH [of "q @ [c]" p'] by auto
  qed simp
qed simp

lemma parsed_end:
  assumes "parsed q p" and "octets p \<ge> 4"
  shows "q = dotted (tmp p)"
proof -
  note P = assms(1) [unfolded parsed_def]
  have t: "tp p = 3" "saw_digit p" using P assms(2) by (auto split: if_splits)
  obtain a b c d where "tmp p = [a, b, c, d]" using P four_bytes by blast
  then show ?thesis using P t by simp
qed

text \<open>The numeral of a byte is read as that byte.\<close>

lemma pton_dec:
  assumes "n < 256" and "\<not> saw_digit p" and "octets p < 4" and "tp p < length (tmp p)" and "tmp p ! tp p = 0"
  shows "pton_loop (dec n @ rest) p =
    pton_loop rest (p\<lparr>tmp := (tmp p)[tp p := word_of_nat n], octets := octets p + 1, saw_digit := True\<rparr>)"
  using assms(1)
proof (induction n arbitrary: rest rule: dec.induct)
  case (1 n)
  show ?case
  proof (cases "n < 10")
    case True
    then show ?thesis using assms(2-5) by (simp add: dec_small pton_char_def strchr_digits)
  next
    case False
    have "dec n = dec (n div 10) @ [digit_char (n mod 10)]" using False by (subst dec.simps) simp
    moreover have "unat (word_of_nat (n div 10) :: 8 word) = n div 10" using 1(2) by (simp add: unat_of_nat)
    moreover have "word_of_nat (n div 10) \<noteq> (0 :: 8 word)" using False calculation(2) by (auto simp: unat_eq_0 [symmetric])
    ultimately show ?thesis using 1 False assms(2-5) by (cases p) (simp add: pton_char_def strchr_digits)
  qed
qed

lemma pton_dot:
  assumes "saw_digit p" and "octets p \<noteq> 4" and "tp p + 1 < length (tmp p)"
  shows "pton_char CHR ''.'' p = Inr (Some (p\<lparr>tp := tp p + 1, tmp := (tmp p)[tp p + 1 := 0], saw_digit := False\<rparr>))"
  using assms by (simp add: pton_char_def strchr_digits isdigit_def)

lemma word_byte: "word_of_nat (unat w) = (w :: 8 word)" "unat (w :: 8 word) < 256"
  using unsigned_less [of w] by simp_all

text \<open>C26. \<open>inet_pton4\<close> accepts exactly the canonical dotted quads (four decimal numerals below 256 without leading
  zeros), returns their four bytes, leaves the destination alone for every other string, and never writes outside
  its array.\<close>
theorem inet_pton4_dotted:
  "(\<forall>ws. inet_pton4 src stack dst = Inr (1, ws) \<longleftrightarrow> length ws = 4 \<and> src = dotted ws) \<and>
   ((\<nexists>ws. length ws = 4 \<and> src = dotted ws) \<longleftrightarrow> inet_pton4 src stack dst = Inr (0, dst))"
proof -
  let ?p = "\<lparr>saw_digit = False, octets = 0, tp = 0, tmp = (map stack [0..<4])[0 := 0]\<rparr>"
  have init: "parsed [] ?p" by (simp add: parsed_def upt_rec)
  have acc: "inet_pton4 (dotted ws) stack dst = Inr (1, ws)" if "length ws = 4" for ws
  proof -
    obtain a b c d where "ws = [a, b, c, d]" using four_bytes [of ws] \<open>length ws = 4\<close> by blast
    then show ?thesis using pton_dec [of "unat d" _ "[]"]
      by (simp add: inet_pton4_def pton_dec pton_dot word_byte upt_rec)
  qed
  have out: "inet_pton4 src stack dst = Inr (0, dst) \<or>
      (\<exists>ws. inet_pton4 src stack dst = Inr (1, ws) \<and> length ws = 4 \<and> src = dotted ws)"
  proof (cases "pton_loop src ?p = Inr None")
    case False
    then obtain p where p: "pton_loop src ?p = Inr (Some p)" "parsed src p" using parsed_loop [OF init, of src] by auto
    then have "length (tmp p) = 4" "octets p \<ge> 4 \<Longrightarrow> src = dotted (tmp p)" using parsed_end by (simp_all add: parsed_def)
    then show ?thesis using p(1) by (auto simp: inet_pton4_def)
  qed (simp add: inet_pton4_def)
  show ?thesis
  proof (intro conjI allI)
    show one: "inet_pton4 src stack dst = Inr (1, ws) \<longleftrightarrow> length ws = 4 \<and> src = dotted ws" for ws
    proof
      assume "inet_pton4 src stack dst = Inr (1, ws)"
      with out show "length ws = 4 \<and> src = dotted ws" by (elim disjE exE conjE) simp_all
    qed (use acc in blast)
    show "(\<nexists>ws. length ws = 4 \<and> src = dotted ws) \<longleftrightarrow> inet_pton4 src stack dst = Inr (0, dst)"
      unfolding one [symmetric] using out by (elim disjE exE conjE) simp_all
  qed
qed

end
