(* ===== verification/TxPlatform.thy ===== *)
theory TxPlatform
  imports TxInet
begin

text \<open>
  The rest of \<open>tx_platform.cpp\<close> and the module lists: \<open>get_target_address\<close>, \<open>tx_setblockopt\<close> on POSIX,
  \<open>socketpair\<close> and \<open>pipe\<close> of the Windows build, \<open>initialize_modules\<close> and \<open>cleanup_modules\<close>. The name
  service is a parameter; the answers of the system calls are arguments.
\<close>

section \<open>Target addresses\<close>

record tcpip_info =
  ti_port :: "16 word"
  ipv6 :: "u32 list"

text \<open>\<open>inet_addr\<close>, \<open>gethostbyname\<close> (the first address, if any) and \<open>inet_pton(AF_INET6)\<close>.\<close>

record resolver =
  inet_addr :: "string \<Rightarrow> u32"
  gethostbyname :: "string \<Rightarrow> u32 option"
  inet_pton6 :: "string \<Rightarrow> u32 list option"

definition FLAG_HAVE_DOT :: u32 where [flag_defs]: "FLAG_HAVE_DOT = 1"
definition FLAG_HAVE_ALPHA :: u32 where [flag_defs]: "FLAG_HAVE_ALPHA = 2"
definition FLAG_HAVE_NUMBER :: u32 where [flag_defs]: "FLAG_HAVE_NUMBER = 4"
definition FLAG_HAVE_SPLIT :: u32 where [flag_defs]: "FLAG_HAVE_SPLIT = 8"
definition FLAG_HAVE_IPV6 :: u32 where [flag_defs]: "FLAG_HAVE_IPV6 = 0x10"
definition FLAG_HAVE_LEFT :: u32 where [flag_defs]: "FLAG_HAVE_LEFT = 0x20"
definition FLAG_HAVE_RIGHT :: u32 where [flag_defs]: "FLAG_HAVE_RIGHT = 0x40"

text \<open>The loop over the characters; \<open>None\<close> is \<open>return -1\<close>.\<close>

fun address_flags :: "string \<Rightarrow> u32 \<Rightarrow> u32 option" where
  "address_flags [] flags = Some flags"
| "address_flags (c # s) flags =
     (if isdigit c then address_flags s (flags OR FLAG_HAVE_NUMBER)
      else if c = CHR '':'' \<and> has flags FLAG_HAVE_SPLIT then address_flags s (flags OR FLAG_HAVE_IPV6)
      else if c = CHR '':'' then address_flags s (flags OR FLAG_HAVE_SPLIT)
      else if c = CHR ''.'' then address_flags s (flags OR FLAG_HAVE_DOT)
      else if c = CHR ''-'' then address_flags s (flags OR FLAG_HAVE_ALPHA)
      else if c = CHR ''['' then address_flags s (flags OR FLAG_HAVE_LEFT)
      else if c = CHR '']'' then address_flags s (flags OR FLAG_HAVE_RIGHT)
      else if isalpha c then address_flags s (flags OR FLAG_HAVE_ALPHA)
      else None)"

text \<open>
  The loop that copies the host part into \<open>host[128]\<close>; \<open>stop\<close> is \<open>end\<close>, and \<open>host\<close> what was written so far.
  The result is the host and what \<open>address\<close> points to.
\<close>

fun copy_host :: "char option \<Rightarrow> string \<Rightarrow> string \<Rightarrow> (string \<times> string) res" where
  "copy_host stop [] host = (if length host < 128 then Inr (host, []) else Inl BufferOverflow)"
| "copy_host stop (c # s) host =
     (if Some c = stop then (if length host < 128 then Inr (host, c # s) else Inl BufferOverflow)
      else if length host < 128 then copy_host stop s (host @ [c]) else Inl BufferOverflow)"

definition address_ipv6 :: "resolver \<Rightarrow> tcpip_info \<Rightarrow> string \<Rightarrow> (int \<times> tcpip_info) res" where
  "address_ipv6 R info address =
     (let (address, stop) = (if take 1 address = ''['' then (drop 1 address, Some CHR '']'') else (address, None)) in
      res_bind (copy_host stop address []) (\<lambda>(host, address).
      let info1 = (if take 2 address = '']:'' then info\<lparr>ti_port := htons_int (atoi (drop 2 address))\<rparr> else info)
      in Inr (case inet_pton6 R host of
           Some words \<Rightarrow> (1, info1\<lparr>ipv6 := words\<rparr>)
         | None \<Rightarrow> (0, info1))))"

definition set_host :: "u32 option \<Rightarrow> tcpip_info \<Rightarrow> tcpip_info" where
  "set_host h info = (case h of None \<Rightarrow> info | Some a \<Rightarrow> info\<lparr>ipv6 := (ipv6 info)[3 := a]\<rparr>)"

definition get_target_address :: "resolver \<Rightarrow> tcpip_info \<Rightarrow> string \<Rightarrow> (int \<times> tcpip_info) res" where
  "get_target_address R info address =
     (case address_flags address 0 of
        None \<Rightarrow> Inr (-1, info)
      | Some flags \<Rightarrow>
          if flags = FLAG_HAVE_NUMBER then Inr (0, info\<lparr>ti_port := htons_int (atoi address)\<rparr>)
          else if has flags FLAG_HAVE_IPV6 then address_ipv6 R (info\<lparr>ipv6 := [0, 0, 0, 0]\<rparr>) address
          else
            let info1 = info\<lparr>ipv6 := [0, 0, htonl 0xffff, 0]\<rparr> in
            if flags = FLAG_HAVE_NUMBER OR FLAG_HAVE_DOT then Inr (0, set_host (Some (inet_addr R address)) info1)
            else if flags AND NOT FLAG_HAVE_NUMBER = FLAG_HAVE_ALPHA OR FLAG_HAVE_DOT
            then Inr (0, set_host (gethostbyname R address) info1)
            else if has flags FLAG_HAVE_SPLIT then
              (case strchr address CHR '':'' of
                 None \<Rightarrow> Inl NullDeref
               | Some split \<Rightarrow>
                   let info2 = info1\<lparr>ti_port := htons_int (atoi (drop (split + 1) address))\<rparr> in
                   if length address < 128 then
                     let host = take split address in
                     if has flags FLAG_HAVE_ALPHA then Inr (0, set_host (gethostbyname R host) info2)
                     else Inr (0, set_host (Some (inet_addr R host)) info2)
                   else Inr (0, info2))
            else Inr (0, info1))"

section \<open>Blocking mode\<close>

text \<open>\<open>fcntl\<close> on a table of the status flags of the open descriptors.\<close>

definition O_NONBLOCK :: u32 where "O_NONBLOCK = 0x800"

definition fcntl_getfl :: "(int \<rightharpoonup> u32) \<Rightarrow> int \<Rightarrow> u32" where
  "fcntl_getfl fl fd = (case fl fd of None \<Rightarrow> -1 | Some f \<Rightarrow> f)"

definition fcntl_setfl :: "(int \<rightharpoonup> u32) \<Rightarrow> int \<Rightarrow> u32 \<Rightarrow> u32 \<times> (int \<rightharpoonup> u32)" where
  "fcntl_setfl fl fd f = (case fl fd of None \<Rightarrow> (-1, fl) | Some _ \<Rightarrow> (0, fl(fd \<mapsto> f)))"

definition tx_setblockopt :: "int \<Rightarrow> bool \<Rightarrow> (int \<rightharpoonup> u32) \<Rightarrow> u32 \<times> (int \<rightharpoonup> u32)" where
  "tx_setblockopt fd blockopt fl =
     (let iflags = fcntl_getfl fl fd;
          oflags = (if blockopt then iflags AND NOT O_NONBLOCK else iflags OR O_NONBLOCK)
      in if iflags \<noteq> oflags then fcntl_setfl fl fd oflags else (iflags, fl))"

section \<open>Socket pairs on Windows\<close>

text \<open>What the system calls of \<open>socketpair\<close> answer, and the sockets it opens and closes.\<close>

record pair_answers =
  a_socket :: int
  a_bind :: int
  a_listen :: int
  a_sockname :: int
  a_socket1 :: int
  a_connect :: int
  a_accept :: int
  a_close :: int

datatype sock_call = Opened int | Closed int | ShutRecv int | ShutSend int

text \<open>The label \<open>clean\<close>.\<close>

definition pair_clean :: "int \<Rightarrow> int \<Rightarrow> int \<Rightarrow> sock_call list" where
  "pair_clean tcp tcp1 tcp2 =
     (if tcp \<noteq> -1 then [Closed tcp] else []) @ (if tcp2 \<noteq> -1 then [Closed tcp2] else []) @
     (if tcp1 \<noteq> -1 then [Closed tcp1] else [])"

definition socketpair :: "pair_answers \<Rightarrow> (int \<times> int) \<Rightarrow> int \<times> (int \<times> int) \<times> sock_call list" where
  "socketpair k fildes =
     (let fail = (\<lambda>calls tcp tcp1 tcp2. (-1, fildes, calls @ pair_clean tcp tcp1 tcp2));
          tcp = a_socket k
      in if tcp = -1 then fail [] tcp (-1) (-1)
      else let c1 = [Opened tcp]
      in if a_bind k = -1 then fail c1 tcp (-1) (-1)
      else if a_listen k = -1 then fail c1 tcp (-1) (-1)
      else if a_sockname k = -1 then fail c1 tcp (-1) (-1)
      else let tcp1 = a_socket1 k
      in if tcp1 = -1 then fail c1 tcp tcp1 (-1)
      else let c2 = c1 @ [Opened tcp1]
      in if a_connect k = -1 then fail c2 tcp tcp1 (-1)
      else let tcp2 = a_accept k
      in if tcp2 = -1 then fail c2 tcp tcp1 tcp2
      else let c3 = c2 @ [Opened tcp2, Closed tcp]
      in if a_close k = -1 then fail c3 tcp tcp1 tcp2
      else (0, (tcp1, tcp2), c3))"

definition win_pipe :: "pair_answers \<Rightarrow> (int \<times> int) \<Rightarrow> int \<times> (int \<times> int) \<times> sock_call list" where
  "win_pipe k fildes =
     (let (ret, fd, calls) = socketpair k fildes in
      if ret = 0 then (0, fd, calls @ [ShutRecv (snd fd), ShutSend (fst fd)]) else (ret, fd, calls))"

section \<open>Modules\<close>

text \<open>A list of modules is the array up to its null entry; a module's functions act on some state.\<close>

record 's module_stub =
  init_fn :: "('s \<Rightarrow> 's) option"
  clean_fn :: "('s \<Rightarrow> 's) option"

fun initialize_modules :: "'s module_stub list \<Rightarrow> 's \<Rightarrow> 's" where
  "initialize_modules [] s = s"
| "initialize_modules (m # ms) s =
     initialize_modules ms (case init_fn m of None \<Rightarrow> s | Some f \<Rightarrow> f s)"

fun cleanup_modules :: "'s module_stub list \<Rightarrow> 's \<Rightarrow> 's" where
  "cleanup_modules [] s = s"
| "cleanup_modules (m # ms) s =
     cleanup_modules ms (case clean_fn m of None \<Rightarrow> s | Some f \<Rightarrow> f s)"

section \<open>What the scan of the address finds\<close>

definition address_char :: "char \<Rightarrow> bool" where
  "address_char c \<longleftrightarrow> isdigit c \<or> isalpha c \<or> c \<in> set '':.-[]''"

lemma punctuation:
  "\<not> isdigit CHR '':''" "\<not> isdigit CHR ''.''" "\<not> isdigit CHR ''-''" "\<not> isdigit CHR ''[''" "\<not> isdigit CHR '']''"
  "\<not> isalpha CHR '':''" "\<not> isalpha CHR ''.''" "\<not> isalpha CHR ''-''" "\<not> isalpha CHR ''[''" "\<not> isalpha CHR '']''"
  by (simp_all add: isdigit_def isalpha_def)

lemma flag_tests [flags]:
  "has FLAG_HAVE_DOT FLAG_HAVE_IPV6 = False" "has FLAG_HAVE_ALPHA FLAG_HAVE_IPV6 = False" "has FLAG_HAVE_NUMBER FLAG_HAVE_IPV6 = False"
  "has FLAG_HAVE_SPLIT FLAG_HAVE_IPV6 = False" "has FLAG_HAVE_IPV6 FLAG_HAVE_IPV6 = True" "has FLAG_HAVE_LEFT FLAG_HAVE_IPV6 = False"
  "has FLAG_HAVE_RIGHT FLAG_HAVE_IPV6 = False"
  "has FLAG_HAVE_DOT FLAG_HAVE_SPLIT = False" "has FLAG_HAVE_ALPHA FLAG_HAVE_SPLIT = False" "has FLAG_HAVE_NUMBER FLAG_HAVE_SPLIT = False"
  "has FLAG_HAVE_SPLIT FLAG_HAVE_SPLIT = True" "has FLAG_HAVE_IPV6 FLAG_HAVE_SPLIT = False" "has FLAG_HAVE_LEFT FLAG_HAVE_SPLIT = False"
  "has FLAG_HAVE_RIGHT FLAG_HAVE_SPLIT = False"
  by (simp_all add: has_def flag_defs)

lemma address_flags_None: "address_flags s f = None \<longleftrightarrow> (\<exists>c\<in>set s. \<not> address_char c)"
  by (induction s f rule: address_flags.induct) (auto simp: address_char_def)

lemma address_flags_other:
  "c \<noteq> CHR '':'' \<Longrightarrow> address_flags (c # s) f \<noteq> None \<Longrightarrow>
     \<exists>h\<in>{FLAG_HAVE_NUMBER, FLAG_HAVE_DOT, FLAG_HAVE_ALPHA, FLAG_HAVE_LEFT, FLAG_HAVE_RIGHT}.
       address_flags (c # s) f = address_flags s (f OR h)"
  by (simp split: if_splits)

lemma address_flags_colons:
  "address_flags s f = Some g \<Longrightarrow>
     (has g FLAG_HAVE_SPLIT \<longleftrightarrow> has f FLAG_HAVE_SPLIT \<or> CHR '':'' \<in> set s) \<and>
     (has g FLAG_HAVE_IPV6 \<longleftrightarrow> has f FLAG_HAVE_IPV6 \<or> count_list s CHR '':'' + (if has f FLAG_HAVE_SPLIT then 1 else 0) \<ge> 2)"
proof (induction s arbitrary: f)
  case (Cons c s)
  consider "c = CHR '':''" | h where "c \<noteq> CHR '':''" "address_flags (c # s) f = address_flags s (f OR h)"
      "\<not> has h FLAG_HAVE_SPLIT" "\<not> has h FLAG_HAVE_IPV6"
    using address_flags_other [of c s f] Cons.prems by (cases "c = CHR '':''") (auto simp: flags)
  then show ?case
  proof cases
    case 1
    then show ?thesis using Cons.prems Cons.IH [of "f OR FLAG_HAVE_IPV6"] Cons.IH [of "f OR FLAG_HAVE_SPLIT"]
      by (auto simp: flags punctuation split: if_splits)
  next
    case 2
    then show ?thesis using Cons.prems Cons.IH [of "f OR h"] by (simp add: flags)
  qed
qed simp

lemma address_flags_append: "address_flags (s @ t) f = Option.bind (address_flags s f) (address_flags t)"
  by (induction s f rule: address_flags.induct) auto

text \<open>Strings without a colon set one flag for each class of characters they have.\<close>

definition class_flag :: "char \<Rightarrow> u32" where
  "class_flag c = (if isdigit c then FLAG_HAVE_NUMBER else if c = CHR ''.'' then FLAG_HAVE_DOT else FLAG_HAVE_ALPHA)"

definition host_char :: "char \<Rightarrow> bool" where
  "host_char c \<longleftrightarrow> isdigit c \<or> isalpha c \<or> c = CHR ''.'' \<or> c = CHR ''-''"

lemma address_flags_class:
  "\<forall>c\<in>set s. host_char c \<Longrightarrow> address_flags s f = Some (fold (\<lambda>c g. g OR class_flag c) s f)"
proof (induction s arbitrary: f)
  case (Cons c s)
  then have "host_char c" by simp
  then have "address_flags (c # s) f = address_flags s (f OR class_flag c)"
    using punctuation by (auto simp: host_char_def class_flag_def)
  then show ?case using Cons by simp
qed simp

definition host_flags :: "string \<Rightarrow> u32" where
  "host_flags s = (if \<exists>c\<in>set s. isdigit c then FLAG_HAVE_NUMBER else 0) OR (if CHR ''.'' \<in> set s then FLAG_HAVE_DOT else 0) OR
     (if \<exists>c\<in>set s. isalpha c \<or> c = CHR ''-'' then FLAG_HAVE_ALPHA else 0)"

lemma host_flags_cons: "host_char c \<Longrightarrow> host_flags (c # s) = class_flag c OR host_flags s"
  using isdigit_not [of c] punctuation
  by (auto simp: host_flags_def class_flag_def host_char_def or.assoc or.left_commute or.commute)

lemma address_flags_host:
  "\<forall>c\<in>set s. host_char c \<Longrightarrow> address_flags s f = Some (f OR host_flags s)"
proof -
  assume h: "\<forall>c\<in>set s. host_char c"
  have "fold (\<lambda>c g. g OR class_flag c) s f = f OR host_flags s"
    using h by (induction s arbitrary: f) (simp_all add: host_flags_cons or.assoc, simp add: host_flags_def)
  then show ?thesis using address_flags_class [OF h] by simp
qed

lemma dec_host: "c \<in> set (dec n) \<Longrightarrow> host_char c" "host_flags (dec n) = FLAG_HAVE_NUMBER"
proof -
  show "host_char c" if "c \<in> set (dec n)" for c using dec_digits [OF that] by (simp add: host_char_def)
  have "CHR ''.'' \<notin> set (dec n)" "\<not> (\<exists>c\<in>set (dec n). isalpha c \<or> c = CHR ''-'')" "\<exists>c\<in>set (dec n). isdigit c"
    using dec_digits isdigit_not dec_nonempty [of n] by (metis, metis, metis list.set_intros(1) neq_Nil_conv)
  then show "host_flags (dec n) = FLAG_HAVE_NUMBER" by (simp add: host_flags_def)
qed

lemma dotted_chars: "c \<in> set (dotted ws) \<Longrightarrow> isdigit c \<or> c = CHR ''.''"
  by (induction ws rule: dotted.induct) (auto dest: dec_digits)

lemma dotted_host:
  assumes "length ws = 4"
  shows "\<forall>c\<in>set (dotted ws). host_char c" "CHR '':'' \<notin> set (dotted ws)"
    "host_flags (dotted ws) = FLAG_HAVE_NUMBER OR FLAG_HAVE_DOT"
proof -
  show "\<forall>c\<in>set (dotted ws). host_char c" using dotted_chars by (auto simp: host_char_def)
  show "CHR '':'' \<notin> set (dotted ws)" using dotted_chars punctuation by blast
  obtain a b c d where "ws = [a, b, c, d]" using four_bytes [OF assms] by blast
  then have "CHR ''.'' \<in> set (dotted ws)" "set (dec (unat a)) \<subseteq> set (dotted ws)" by auto
  moreover have "\<exists>c\<in>set (dec (unat a)). isdigit c" using dec_digits dec_nonempty by (metis list.set_intros(1) neq_Nil_conv)
  moreover have "\<not> (\<exists>c\<in>set (dotted ws). isalpha c \<or> c = CHR ''-'')" using dotted_chars isdigit_not punctuation by fastforce
  ultimately show "host_flags (dotted ws) = FLAG_HAVE_NUMBER OR FLAG_HAVE_DOT"
    by (auto simp: host_flags_def)
qed

lemma flag_values:
  "FLAG_HAVE_NUMBER OR FLAG_HAVE_DOT \<noteq> FLAG_HAVE_NUMBER" "\<not> has (FLAG_HAVE_NUMBER OR FLAG_HAVE_DOT) FLAG_HAVE_IPV6"
  "\<not> has (FLAG_HAVE_NUMBER OR FLAG_HAVE_DOT) FLAG_HAVE_SPLIT" "\<not> has FLAG_HAVE_NUMBER FLAG_HAVE_IPV6"
  by (simp_all add: flags) (simp add: flag_defs)

text \<open>The copy of the host part.\<close>

lemma copy_host_spec:
  "copy_host stop s h = (let p = takeWhile (\<lambda>c. Some c \<noteq> stop) s in
     if length h + length p < 128 then Inr (h @ p, dropWhile (\<lambda>c. Some c \<noteq> stop) s) else Inl BufferOverflow)"
  by (induction stop s h rule: copy_host.induct) (auto simp: Let_def)

definition host_part :: "string \<Rightarrow> string" where
  "host_part address = (if take 1 address = ''['' then takeWhile (\<lambda>c. c \<noteq> CHR '']'') (drop 1 address) else address)"

lemma address_ipv6_error:
  "address_ipv6 R info address = Inl e \<longleftrightarrow> e = BufferOverflow \<and> 128 \<le> length (host_part address)"
proof -
  have "takeWhile (\<lambda>c. True) s = s" for s :: string by (induction s) auto
  note all = this
  show ?thesis by (auto simp: address_ipv6_def copy_host_spec host_part_def Let_def all)
qed

section \<open>Properties\<close>

text \<open>C35. \<open>get_target_address\<close> writes past its \<open>host[128]\<close> exactly for the addresses of acceptable characters with two
  colons whose host part (up to \<open>]\<close>, if the address starts with \<open>[\<close>) has 128 characters or more; it has no other error.\<close>
theorem target_address_overflow:
  "get_target_address R info address = Inl e \<longleftrightarrow>
     e = BufferOverflow \<and> list_all address_char address \<and> count_list address CHR '':'' \<ge> 2 \<and> 128 \<le> length (host_part address)"
proof (cases "address_flags address 0")
  case None
  then have "\<not> list_all address_char address" using address_flags_None by (auto simp: list_all_iff)
  then show ?thesis by (simp add: get_target_address_def None)
next
  case (Some g)
  have ok: "list_all address_char address" using Some address_flags_None [of address 0] by (auto simp: list_all_iff)
  have g: "has g FLAG_HAVE_SPLIT \<longleftrightarrow> CHR '':'' \<in> set address" "has g FLAG_HAVE_IPV6 \<longleftrightarrow> count_list address CHR '':'' \<ge> 2"
    using address_flags_colons [OF Some] by (simp_all add: flags)
  show ?thesis
  proof (cases "has g FLAG_HAVE_IPV6")
    case True
    then have "g \<noteq> FLAG_HAVE_NUMBER" using flag_values(4) by blast
    then show ?thesis using True g(2) ok by (simp add: get_target_address_def Some address_ipv6_error)
  next
    case False
    have "has g FLAG_HAVE_SPLIT \<Longrightarrow> strchr address CHR '':'' \<noteq> None" using g(1) strchr_None by blast
    then show ?thesis using False g(2)
      by (auto simp: get_target_address_def Some Let_def split: option.splits)
  qed
qed

text \<open>C37. What \<open>get_target_address\<close> understands: a decimal number sets the port alone; a canonical dotted quad
  sets the address alone; a dotted quad, a colon and a number set both.\<close>
theorem target_address_parses:
  assumes "length ws = 4" and "length (dotted ws @ CHR '':'' # dec n) < 128"
  shows "get_target_address R info (dec n) = Inr (0, info\<lparr>ti_port := htons (word_of_nat n)\<rparr>) \<and>
    get_target_address R info (dotted ws) = Inr (0, info\<lparr>ipv6 := [0, 0, htonl 0xffff, inet_addr R (dotted ws)]\<rparr>) \<and>
    get_target_address R info (dotted ws @ CHR '':'' # dec n) =
      Inr (0, \<lparr>ti_port = htons (word_of_nat n), ipv6 = [0, 0, htonl 0xffff, inet_addr R (dotted ws)]\<rparr>)"
proof -
  note D = dotted_host [OF assms(1)]
  have a: "address_flags (dec n) 0 = Some FLAG_HAVE_NUMBER" using address_flags_host dec_host by simp
  have 1: "get_target_address R info (dec n) = Inr (0, info\<lparr>ti_port := htons (word_of_nat n)\<rparr>)"
    by (simp add: get_target_address_def a atoi_dec)
  have b: "address_flags (dotted ws) 0 = Some (FLAG_HAVE_NUMBER OR FLAG_HAVE_DOT)" using address_flags_host [OF D(1)] D(3) by simp
  have 2: "get_target_address R info (dotted ws) = Inr (0, info\<lparr>ipv6 := [0, 0, htonl 0xffff, inet_addr R (dotted ws)]\<rparr>)"
    by (simp add: get_target_address_def b flag_values set_host_def Let_def)
  let ?g = "(FLAG_HAVE_NUMBER OR FLAG_HAVE_DOT OR FLAG_HAVE_SPLIT) OR FLAG_HAVE_NUMBER"
  have "address_flags (CHR '':'' # dec n) (FLAG_HAVE_NUMBER OR FLAG_HAVE_DOT) = Some ?g"
    using address_flags_host [of "dec n"] dec_host flag_values(3) punctuation by (simp add: or.assoc)
  then have c: "address_flags (dotted ws @ CHR '':'' # dec n) 0 = Some ?g" by (simp add: address_flags_append b)
  have n: "?g \<noteq> FLAG_HAVE_NUMBER" "\<not> has ?g FLAG_HAVE_IPV6" "?g \<noteq> FLAG_HAVE_NUMBER OR FLAG_HAVE_DOT"
    "?g AND NOT FLAG_HAVE_NUMBER \<noteq> FLAG_HAVE_ALPHA OR FLAG_HAVE_DOT" "has ?g FLAG_HAVE_SPLIT" "\<not> has ?g FLAG_HAVE_ALPHA"
    by (simp_all add: has_def flag_defs)
  have "get_target_address R info (dotted ws @ CHR '':'' # dec n) =
      Inr (0, \<lparr>ti_port = htons (word_of_nat n), ipv6 = [0, 0, htonl 0xffff, inet_addr R (dotted ws)]\<rparr>)"
    unfolding get_target_address_def c option.case n if_False Let_def
    using assms(2) by (cases info) (simp add: n strchr_append [OF D(2)] atoi_dec set_host_def)
  with 1 2 show ?thesis by blast
qed

definition demo_resolver :: resolver where
  "demo_resolver = \<lparr>inet_addr = (\<lambda>s. if s = ''127.0.0.1'' then 0x0100007f else -1), gethostbyname = (\<lambda>s. None),
     inet_pton6 = (\<lambda>s. None)\<rparr>"

lemma demo_dotted: "dotted [127, 0, 0, 1] = ''127.0.0.1''" "dec 80 = ''80''"
  by code_simp+

lemma target_address_parses_witness:
  "get_target_address demo_resolver \<lparr>ti_port = 0, ipv6 = [0, 0, 0, 0]\<rparr> ''127.0.0.1:80'' =
     Inr (0, \<lparr>ti_port = htons 80, ipv6 = [0, 0, htonl 0xffff, 0x0100007f]\<rparr>)"
  using target_address_parses [of "[127, 0, 0, 1]" 80 demo_resolver "\<lparr>ti_port = 0, ipv6 = [0, 0, 0, 0]\<rparr>"]
  unfolding demo_dotted by (simp add: demo_resolver_def)

lemma target_address_overflow_witness:
  "get_target_address demo_resolver \<lparr>ti_port = 0, ipv6 = [0, 0, 0, 0]\<rparr> (replicate 128 CHR '':'') = Inl BufferOverflow"
proof -
  have "count_list (replicate n CHR '':'') CHR '':'' = n" for n by (induction n) auto
  then show ?thesis using target_address_overflow [of demo_resolver _ "replicate 128 CHR '':''" BufferOverflow]
    by (simp add: list_all_iff address_char_def host_part_def)
qed

text \<open>A host name is looked up only if it has a dot: any other name is reported as understood (0) with the address
  \<open>0.0.0.0\<close> whatever the name service knows, and so is a name whose lookup fails.\<close>
theorem target_address_unresolved:
  assumes "\<forall>c\<in>set address. host_char c" and "\<exists>c\<in>set address. isalpha c"
    and "CHR ''.'' \<in> set address \<Longrightarrow> gethostbyname R address = None"
  shows "get_target_address R info address = Inr (0, info\<lparr>ipv6 := [0, 0, htonl 0xffff, 0]\<rparr>)"
proof -
  define g where "g = host_flags address"
  have g: "address_flags address 0 = Some g" using address_flags_host [OF assms(1)] by (simp add: g_def)
  have a: "\<exists>c\<in>set address. isalpha c \<or> c = CHR ''-''" using assms(2) by blast
  have "g = (if \<exists>c\<in>set address. isdigit c then FLAG_HAVE_NUMBER else 0) OR (if CHR ''.'' \<in> set address then FLAG_HAVE_DOT else 0) OR FLAG_HAVE_ALPHA"
    using a by (simp add: g_def host_flags_def)
  then have n: "g \<noteq> FLAG_HAVE_NUMBER" "\<not> has g FLAG_HAVE_IPV6" "g \<noteq> FLAG_HAVE_NUMBER OR FLAG_HAVE_DOT" "\<not> has g FLAG_HAVE_SPLIT"
    "g AND NOT FLAG_HAVE_NUMBER = FLAG_HAVE_ALPHA OR FLAG_HAVE_DOT \<Longrightarrow> CHR ''.'' \<in> set address"
    by (simp_all add: has_def flag_defs split: if_splits)
  show ?thesis
  proof (cases "g AND NOT FLAG_HAVE_NUMBER = FLAG_HAVE_ALPHA OR FLAG_HAVE_DOT")
    case True
    have "gethostbyname R address = None" by (rule assms(3) [OF n(5) [OF True]])
    then show ?thesis using n True by (simp add: get_target_address_def g Let_def set_host_def)
  qed (simp add: get_target_address_def g Let_def n)
qed

lemma target_address_unresolved_witness:
  "get_target_address (demo_resolver\<lparr>gethostbyname := \<lambda>_. Some 0x0100007f\<rparr>) \<lparr>ti_port = 0, ipv6 = [0, 0, 0, 0]\<rparr> ''localhost'' =
     Inr (0, \<lparr>ti_port = 0, ipv6 = [0, 0, htonl 0xffff, 0]\<rparr>)"
  using target_address_unresolved [of "''localhost''" "demo_resolver\<lparr>gethostbyname := \<lambda>_. Some 0x0100007f\<rparr>"
      "\<lparr>ti_port = 0, ipv6 = [0, 0, 0, 0]\<rparr>"]
  by (simp add: host_char_def isalpha_def)

text \<open>The sockets that are open after some calls.\<close>

fun open_sockets :: "sock_call list \<Rightarrow> int set \<Rightarrow> int set" where
  "open_sockets [] S = S"
| "open_sockets (Opened f # cs) S = open_sockets cs (insert f S)"
| "open_sockets (Closed f # cs) S = open_sockets cs (S - {f})"
| "open_sockets (_ # cs) S = open_sockets cs S"

text \<open>The Windows \<open>socketpair\<close> leaks no socket and closes none it returns, whichever call fails: when it returns 0
  exactly the two sockets it stored are open, when it returns -1 none is and the result array is as it was.\<close>
lemma socketpair_balanced:
  assumes "a_socket1 k \<noteq> a_socket k" and "a_accept k \<noteq> a_socket k" and "a_accept k \<noteq> a_socket1 k"
  shows "case socketpair k fildes of (r, fd, calls) \<Rightarrow>
    r = 0 \<and> open_sockets calls {} = {fst fd, snd fd} \<and> fst fd \<noteq> snd fd \<or>
    r = -1 \<and> open_sockets calls {} = {} \<and> fd = fildes"
  using assms by (auto simp: socketpair_def pair_clean_def Let_def)

lemma socketpair_balanced_witness:
  "socketpair \<lparr>a_socket = 3, a_bind = 0, a_listen = 0, a_sockname = 0, a_socket1 = 4, a_connect = 0, a_accept = -1, a_close = 0\<rparr>
     (0, 0) = (-1, (0, 0), [Opened 3, Opened 4, Closed 3, Closed 4]) \<and> open_sockets [Opened 3, Opened 4, Closed 3, Closed 4] {} = {}"
  using socketpair_balanced [of "\<lparr>a_socket = 3, a_bind = 0, a_listen = 0, a_sockname = 0, a_socket1 = 4, a_connect = 0,
      a_accept = -1, a_close = 0\<rparr>" "(0, 0)"]
  by (simp add: socketpair_def pair_clean_def)

lemma setblockopt_set:
  "snd (tx_setblockopt fd blockopt fl) =
     (case fl fd of None \<Rightarrow> fl | Some f \<Rightarrow> fl(fd \<mapsto> if blockopt then f AND NOT O_NONBLOCK else f OR O_NONBLOCK)) \<and>
   fst (tx_setblockopt fd blockopt fl) =
     (case fl fd of None \<Rightarrow> -1 | Some f \<Rightarrow> if has f O_NONBLOCK = blockopt then 0 else f)"
proof -
  have n: "f AND NOT O_NONBLOCK = f \<longleftrightarrow> \<not> has f O_NONBLOCK" "f OR O_NONBLOCK = f \<longleftrightarrow> has f O_NONBLOCK" for f :: u32
  proof -
    have "f AND NOT m = f \<longleftrightarrow> f AND m = 0" "f OR m = f \<longleftrightarrow> f AND m = m" for m :: u32
      by (auto simp: bit_eq_iff bit_simps)
    then show "f AND NOT O_NONBLOCK = f \<longleftrightarrow> \<not> has f O_NONBLOCK" "f OR O_NONBLOCK = f \<longleftrightarrow> has f O_NONBLOCK"
      using has_single [of O_NONBLOCK 11 f] by (simp_all add: has_def) (simp add: O_NONBLOCK_def)
  qed
  have m1: "(-1 :: u32) AND NOT O_NONBLOCK \<noteq> -1" "(-1 :: u32) OR O_NONBLOCK = -1" by (simp_all add: O_NONBLOCK_def)
  show ?thesis
  proof (cases "fl fd")
    case None
    then show ?thesis using m1 by (simp add: tx_setblockopt_def fcntl_getfl_def fcntl_setfl_def Let_def)
  next
    case (Some f)
    then have "fl(fd \<mapsto> f) = fl" by (rule map_upd_triv)
    with Some n [of f] show ?thesis
      by (cases "has f O_NONBLOCK"; cases blockopt) (simp_all add: tx_setblockopt_def fcntl_getfl_def fcntl_setfl_def Let_def)
  qed
qed

text \<open>\<open>tx_setblockopt\<close> sets or clears \<open>O_NONBLOCK\<close> of an open descriptor and changes no other status flag and no
  other descriptor; for a descriptor that is not open it returns -1 and changes nothing.\<close>
lemma setblockopt_flags:
  "snd (tx_setblockopt fd blockopt fl) =
     (case fl fd of None \<Rightarrow> fl | Some f \<Rightarrow> fl(fd \<mapsto> if blockopt then f AND NOT O_NONBLOCK else f OR O_NONBLOCK)) \<and>
   fst (tx_setblockopt fd blockopt fl) =
     (case fl fd of None \<Rightarrow> -1 | Some f \<Rightarrow> if has f O_NONBLOCK = blockopt then 0 else f)"
  by (rule setblockopt_set)

end
