(* ===== verification/TxNcat.thy ===== *)
theory TxNcat
  imports TxPlatform
begin

text \<open>
  \<open>ncatutil.cpp\<close>: the command line of the netcat programs, their option string, and the socket they
  make of it. The name service functions are parameters; the answers of the system calls are arguments,
  and the calls that open, bind, connect and close are recorded.
\<close>

section \<open>The command line\<close>

record netcat_t =
  l_mode :: bool
  cat_option :: "string option"
  sai_port :: "string option"
  sai_addr :: "string option"
  dai_port :: "string option"
  dai_addr :: "string option"

definition error_check :: "bool \<Rightarrow> 'a res \<Rightarrow> 'a res" where
  "error_check exited k = (if exited then Inl PanicExit else k)"

text \<open>The variables of \<open>get_cat_context\<close> during its loop; the length of \<open>parts\<close> is \<open>opt_pidx\<close>.\<close>

record cat_args =
  opt_listen :: bool
  opt_option :: "string option"
  s_domain :: "string option"
  s_port :: "string option"
  parts :: "string list"

text \<open>The loop over the arguments; \<open>None\<close> is \<open>return 0\<close>.\<close>

fun parse_args :: "string list \<Rightarrow> cat_args \<Rightarrow> cat_args option res" where
  "parse_args [] a = Inr (Some a)"
| "parse_args (x # xs) a =
     (if x = ''-l'' then parse_args xs (a\<lparr>opt_listen := True\<rparr>)
      else if x = ''-o'' then
        (case xs of [] \<Rightarrow> error_check True (Inr None) | v # ys \<Rightarrow> parse_args ys (a\<lparr>opt_option := Some v\<rparr>))
      else if x = ''-s'' then
        (case xs of [] \<Rightarrow> error_check True (Inr None) | v # ys \<Rightarrow> parse_args ys (a\<lparr>s_domain := Some v\<rparr>))
      else if x = ''-p'' then
        (case xs of [] \<Rightarrow> error_check True (Inr None) | v # ys \<Rightarrow> parse_args ys (a\<lparr>s_port := Some v\<rparr>))
      else if length (parts a) < 2 then parse_args xs (a\<lparr>parts := parts a @ [x]\<rparr>)
      else Inr None)"

text \<open>The domain and the port the other arguments give.\<close>

definition domain_port :: "string list \<Rightarrow> (string option \<times> string option) res" where
  "domain_port ps =
     (case ps of
        [p] \<Rightarrow> Inr (if \<exists>c\<in>set p. \<not> isdigit c then (Some p, None) else (None, Some p))
      | [d, p] \<Rightarrow> error_check (\<forall>c\<in>set d. isdigit c) (Inr (Some d, Some p))
      | _ \<Rightarrow> Inr (None, None))"

definition INADDR_ANY :: u32 where "INADDR_ANY = 0"
definition INADDR_NONE :: u32 where "INADDR_NONE = -1"

definition cat_context :: "resolver \<Rightarrow> cat_args \<Rightarrow> netcat_t res" where
  "cat_context R a =
     res_bind (domain_port (parts a)) (\<lambda>(domain, port).
     let ctx = \<lparr>l_mode = opt_listen a, cat_option = opt_option a, sai_port = s_port a, sai_addr = s_domain a,
                dai_port = port, dai_addr = domain\<rparr>
     in if opt_listen a then
          error_check (s_domain a \<noteq> None \<and> domain \<noteq> None) (error_check (s_port a \<noteq> None \<and> port \<noteq> None)
            (Inr (ctx\<lparr>sai_addr := if s_domain a \<noteq> None then s_domain a else domain,
                      sai_port := if s_port a \<noteq> None then s_port a else port\<rparr>)))
        else
          (case domain of
             None \<Rightarrow> error_check True (Inr ctx)
           | Some d \<Rightarrow> error_check (inet_addr R d = INADDR_ANY) (error_check (inet_addr R d = INADDR_NONE) (Inr ctx))))"

definition get_cat_context :: "resolver \<Rightarrow> string list \<Rightarrow> netcat_t option res" where
  "get_cat_context R argv =
     res_bind (parse_args (drop 1 argv) \<lparr>opt_listen = False, opt_option = None, s_domain = None, s_port = None, parts = []\<rparr>)
       (\<lambda>r. case r of None \<Rightarrow> Inr None | Some a \<Rightarrow> res_bind (cat_context R a) (\<lambda>c. Inr (Some c)))"

section \<open>The option string\<close>

abbreviation (input) NUL :: char where "NUL \<equiv> CHR 0x00"

text \<open>\<open>options\<close> after \<open>strncpy\<close> and the write of its last element.\<close>

definition options_buffer :: "string \<Rightarrow> char list" where
  "options_buffer s = (take 8192 s @ replicate (8192 - length s) NUL)[8191 := NUL]"

text \<open>The string at an index of the buffer; a pointer \<open>val\<close> that is \<open>None\<close> points to \<open>enabled\<close>.\<close>

definition cstr_at :: "char list \<Rightarrow> nat \<Rightarrow> string" where
  "cstr_at buf i = takeWhile (\<lambda>c. c \<noteq> NUL) (drop i buf)"

definition val_str :: "char list \<Rightarrow> nat option \<Rightarrow> string" where
  "val_str buf val = (case val of None \<Rightarrow> ''enabled'' | Some i \<Rightarrow> cstr_at buf i)"

function options_loop :: "string \<Rightarrow> char list \<Rightarrow> nat \<Rightarrow> nat option \<Rightarrow> nat \<Rightarrow> string option" where
  "options_loop name buf key val i =
     (if i < length buf \<and> buf ! i \<noteq> NUL then
        if buf ! i = CHR ''='' then options_loop name (buf[i := NUL]) key (Some (i + 1)) (i + 1)
        else if buf ! i = CHR '','' then
          let buf1 = buf[i := NUL] in
          if cstr_at buf1 key = name then Some (val_str buf1 val)
          else options_loop name buf1 (i + 1) None (i + 1)
        else options_loop name buf key val (i + 1)
      else if cstr_at buf key = name then Some (val_str buf val) else None)"
  by pat_completeness auto
termination by (relation "measure (\<lambda>(name, buf, key, val, i). length buf - i)") auto

declare options_loop.simps [simp del]

definition get_cat_options :: "netcat_t \<Rightarrow> string \<Rightarrow> string option" where
  "get_cat_options upp name =
     (case cat_option upp of None \<Rightarrow> None | Some opt \<Rightarrow> options_loop name (options_buffer opt) 0 None 0)"

section \<open>The socket\<close>

text \<open>The address parser of the Windows build is the text of \<open>tx_platform.cpp\<close>'s.\<close>

definition cat_inet_pton4 :: "string \<Rightarrow> (nat \<Rightarrow> 8 word) \<Rightarrow> 8 word list \<Rightarrow> (int \<times> 8 word list) res" where
  "cat_inet_pton4 src stack dst = inet_pton4 src stack dst"

definition cat_inet_pton :: "int \<Rightarrow> string \<Rightarrow> (nat \<Rightarrow> 8 word) \<Rightarrow> 8 word list \<Rightarrow> (int \<times> 8 word list) res" where
  "cat_inet_pton af src stack dst = (if af = AF_INET then cat_inet_pton4 src stack dst else Inr (0, dst))"

datatype net_call =
    NetSocket int
  | NetBind int "16 word" u32
  | NetConnect int "16 word" u32
  | NetClose int

text \<open>What the system calls answer, \<open>inet_pton(AF_INET)\<close>, and what the stack holds at \<open>my_addr.sin_addr\<close>.\<close>

record net_answers =
  n_socket :: int
  n_bind :: int
  n_listen :: int
  n_accept :: int
  n_connect :: int
  n_pton :: "string \<Rightarrow> u32 option"
  n_stack :: u32

definition get_cat_socket :: "net_answers \<Rightarrow> netcat_t \<Rightarrow> (int \<times> net_call list) res" where
  "get_cat_socket k upp =
     (let serv = n_socket k;
          port = htons_int (case sai_port upp of None \<Rightarrow> 0 | Some p \<Rightarrow> atoi p);
          addr = (if sai_addr upp = None then INADDR_ANY else n_stack k);
          bound = sai_addr upp \<noteq> None \<or> sai_port upp \<noteq> None;
          c1 = NetSocket serv # (if bound then [NetBind serv port addr] else [])
      in if bound \<and> n_bind k = -1 then Inr (-1, c1)
      else if l_mode upp then
        error_check (n_listen k = -1) (error_check (n_accept k = -1)
          (Inr (n_accept k, c1 @ [NetSocket (n_accept k), NetClose serv])))
      else
        (case (dai_port upp, dai_addr upp) of
           (Some p, Some d) \<Rightarrow>
             (case n_pton k d of
                None \<Rightarrow> Inr (-1, c1 @ [NetClose serv])
              | Some a \<Rightarrow>
                  let c2 = c1 @ [NetConnect serv (htons_int (atoi p)) a] in
                  if n_connect k = -1 then Inr (-1, c2 @ [NetClose serv]) else Inr (serv, c2))
         | _ \<Rightarrow> Inl NullDeref))"

definition get_netcat_socket :: "resolver \<Rightarrow> net_answers \<Rightarrow> string list \<Rightarrow> (int \<times> net_call list) res" where
  "get_netcat_socket R k argv =
     res_bind (get_cat_context R argv) (\<lambda>r. case r of
       None \<Rightarrow> Inr (-1, [])
     | Some upp \<Rightarrow> res_bind (get_cat_socket k upp) (\<lambda>(nfd, calls). Inr (if nfd < 0 then -1 else nfd, calls)))"

section \<open>Options as a list of items\<close>

fun split_commas :: "string \<Rightarrow> string list" where
  "split_commas [] = [[]]"
| "split_commas (c # s) =
     (if c = CHR '','' then [] # split_commas s
      else (case split_commas s of [] \<Rightarrow> [[c]] | x # xs \<Rightarrow> (c # x) # xs))"

text \<open>The key of an item ends at its first \<open>=\<close>, its value starts after the last.\<close>

definition item_key :: "string \<Rightarrow> string" where
  "item_key u = takeWhile (\<lambda>c. c \<noteq> CHR ''='') u"

definition item_value :: "string \<Rightarrow> string" where
  "item_value u = (if CHR ''='' \<in> set u then rev (takeWhile (\<lambda>c. c \<noteq> CHR ''='') (rev u)) else ''enabled'')"

definition lookup_item :: "string \<Rightarrow> string list \<Rightarrow> string option" where
  "lookup_item name its = map_option item_value (find (\<lambda>u. item_key u = name) its)"

lemma split_commas_item: "CHR '','' \<notin> set u \<Longrightarrow> split_commas u = [u]"
  by (induction u) auto

lemma split_commas_append: "CHR '','' \<notin> set u \<Longrightarrow> split_commas (u @ CHR '','' # r) = u # split_commas r"
  by (induction u) auto

text \<open>What the scan has made of the part \<open>u\<close> of the current item, at index \<open>n\<close>.\<close>

definition cut :: "string \<Rightarrow> string" where
  "cut u = map (\<lambda>c. if c = CHR ''='' then NUL else c) u"

definition value_at :: "nat \<Rightarrow> string \<Rightarrow> nat option" where
  "value_at n u = (if CHR ''='' \<in> set u then Some (n + length u - length (takeWhile (\<lambda>c. c \<noteq> CHR ''='') (rev u))) else None)"

lemma cut_simps [simp]: "length (cut u) = length u" "cut (u @ [c]) = cut u @ [if c = CHR ''='' then NUL else c]"
  by (simp_all add: cut_def)

lemma cut_id: "CHR ''='' \<notin> set u \<Longrightarrow> cut u = u"
  unfolding cut_def by (rule map_idI) auto

lemma cstr_key:
  assumes "NUL \<notin> set u"
  shows "cstr_at (pre @ cut u @ NUL # post) (length pre) = item_key u"
  using assms by (induction u) (auto simp: cstr_at_def cut_def item_key_def)

lemma last_item:
  assumes "CHR ''='' \<in> set u"
  obtains v w where "u = v @ CHR ''='' # w" "CHR ''='' \<notin> set w" "takeWhile (\<lambda>c. c \<noteq> CHR ''='') (rev u) = rev w"
proof -
  obtain v w where u: "u = v @ CHR ''='' # w" "CHR ''='' \<notin> set w" using split_list_last [OF assms] by blast
  then have "takeWhile (\<lambda>c. c \<noteq> CHR ''='') (rev u) = rev w" by (simp add: takeWhile_append)
  with u that show thesis by blast
qed

lemma cstr_value:
  assumes "NUL \<notin> set u"
  shows "val_str (pre @ cut u @ NUL # post) (value_at (length pre) u) = item_value u"
proof (cases "CHR ''='' \<in> set u")
  case True
  from last_item [OF True] obtain v w where u: "u = v @ CHR ''='' # w" "CHR ''='' \<notin> set w"
    "takeWhile (\<lambda>c. c \<noteq> CHR ''='') (rev u) = rev w" .
  have c: "cut u = cut v @ NUL # w" using u(1) cut_id [OF u(2)] by (simp add: cut_def)
  have w0: "NUL \<notin> set w" using assms u(1) by simp
  have w: "takeWhile (\<lambda>c. c \<noteq> NUL) (w @ NUL # post) = w"
    using w0 by (induction w) auto
  have "value_at (length pre) u = Some (length pre + length v + 1)" using True u(3) by (simp add: value_at_def) (simp add: u(1))
  then show ?thesis using True u(3) w by (simp add: val_str_def cstr_at_def c item_value_def)
qed (simp add: value_at_def val_str_def item_value_def)

lemma value_at_snoc:
  "value_at n (u @ [c]) = (if c = CHR ''='' then Some (n + length u + 1) else value_at n u)"
  by (auto simp: value_at_def)

lemma options_loop_items:
  assumes "NUL \<notin> set u" and "NUL \<notin> set r" and "CHR '','' \<notin> set u"
  shows "options_loop name (pre @ cut u @ r @ NUL # post) (length pre) (value_at (length pre) u) (length pre + length u) =
    lookup_item name (split_commas (u @ r))"
  using assms
proof (induction r arbitrary: u pre)
  case Nil
  have "(pre @ cut u @ NUL # post) ! (length pre + length u) = NUL" by (simp add: nth_append)
  then show ?case using Nil cstr_key [of u pre post] cstr_value [of u pre post]
    by (subst options_loop.simps) (simp add: lookup_item_def split_commas_item)
next
  case (Cons c r)
  let ?buf = "pre @ cut u @ (c # r) @ NUL # post" and ?i = "length pre + length u"
  have at: "?i < length ?buf" "?buf ! ?i = c" "c \<noteq> NUL" using Cons.prems(2) by (auto simp: nth_append)
  have set: "?buf[?i := d] = pre @ cut u @ d # r @ NUL # post" for d by (simp add: list_update_append)
  consider "c = CHR ''=''" | "c = CHR '',''" | "c \<noteq> CHR ''=''" "c \<noteq> CHR '',''" by blast
  then show ?case
  proof cases
    case 1
    have "options_loop name ?buf (length pre) (value_at (length pre) u) ?i =
        options_loop name (pre @ cut (u @ [c]) @ r @ NUL # post) (length pre) (value_at (length pre) (u @ [c])) (length pre + length (u @ [c]))"
      using at 1 set by (subst options_loop.simps) (simp add: value_at_snoc)
    then show ?thesis using Cons.IH [of "u @ [c]" pre] Cons.prems 1 by simp
  next
    case 2
    have "options_loop name ?buf (length pre) (value_at (length pre) u) ?i =
        (if item_key u = name then Some (item_value u)
         else options_loop name ((pre @ cut u @ [NUL]) @ cut [] @ r @ NUL # post) (length (pre @ cut u @ [NUL])) None (?i + 1))"
      using at 2 set [of NUL] cstr_key [of u pre "r @ NUL # post"] cstr_value [of u pre "r @ NUL # post"] Cons.prems(1)
      by (subst options_loop.simps) (simp add: cut_def)
    moreover have "options_loop name ((pre @ cut u @ [NUL]) @ cut [] @ r @ NUL # post) (length (pre @ cut u @ [NUL])) None (?i + 1) =
        lookup_item name (split_commas r)"
      using Cons.IH [of "[]" "pre @ cut u @ [NUL]"] Cons.prems(2) by (simp add: value_at_def)
    ultimately show ?thesis using Cons.prems(3) 2 by (simp add: split_commas_append lookup_item_def)
  next
    case 3
    have "options_loop name ?buf (length pre) (value_at (length pre) u) ?i =
        options_loop name (pre @ cut (u @ [c]) @ r @ NUL # post) (length pre) (value_at (length pre) (u @ [c])) (length pre + length (u @ [c]))"
      using at 3 by (subst options_loop.simps) (simp add: value_at_snoc)
    then show ?thesis using Cons.IH [of "u @ [c]" pre] Cons.prems 3 by simp
  qed
qed

lemma options_buffer_shape: "\<exists>post. options_buffer s = take 8191 s @ NUL # post"
proof (cases "length s \<le> 8191")
  case True
  then have "options_buffer s = s @ replicate (8192 - length s) NUL"
    by (simp add: options_buffer_def list_update_append list_update_same_conv nth_append)
  moreover have "replicate (8192 - length s) NUL = NUL # replicate (8191 - length s) NUL"
  proof -
    have "8192 - length s = Suc (8191 - length s)" using True by simp
    then show ?thesis by (simp only: replicate_Suc)
  qed
  ultimately show ?thesis using True by auto
next
  case False
  then have "take 8192 s = take 8191 s @ [s ! 8191]" using take_Suc_conv_app_nth [of 8191 s] by simp
  then show ?thesis using False by (simp add: options_buffer_def list_update_append)
qed

text \<open>C27. \<open>get_cat_options\<close> is the lookup in the list of items of the option string: the scan that cuts the string up in
  place finds the first item, between commas, whose key is the name, and returns what follows its last \<open>=\<close>, or
  \<open>enabled\<close> if it has none. Only the first 8191 characters count.\<close>
theorem get_cat_options_items:
  assumes "cat_option upp = Some opt" and "NUL \<notin> set opt"
  shows "get_cat_options upp name = lookup_item name (split_commas (take 8191 opt))"
proof -
  obtain post where "options_buffer opt = take 8191 opt @ NUL # post" using options_buffer_shape by blast
  moreover have "NUL \<notin> set (take 8191 opt)" using assms(2) by (auto dest: in_set_takeD)
  ultimately show ?thesis
    using options_loop_items [of "[]" "take 8191 opt" name "[]" post] assms(1)
    by (simp add: get_cat_options_def value_at_def cut_def)
qed

lemma get_cat_options_items_witness:
  "get_cat_options \<lparr>l_mode = False, cat_option = Some ''blkio,write=a=off'', sai_port = None, sai_addr = None,
     dai_port = None, dai_addr = None\<rparr> ''write'' = Some ''off''"
proof -
  let ?upp = "\<lparr>l_mode = False, cat_option = Some ''blkio,write=a=off'', sai_port = None, sai_addr = None, dai_port = None, dai_addr = None\<rparr>"
  have "get_cat_options ?upp ''write'' = lookup_item ''write'' (split_commas (take 8191 ''blkio,write=a=off''))"
    by (rule get_cat_options_items) simp_all
  also have "\<dots> = Some ''off''" by (simp add: lookup_item_def item_key_def item_value_def)
  finally show ?thesis .
qed

section \<open>The command line as a list of tokens\<close>

datatype token = Listen | Opt char string | Word string

definition option_letter :: "string \<Rightarrow> char option" where
  "option_letter x = (if x \<in> {''-o'', ''-s'', ''-p''} then Some (x ! 1) else None)"

fun tokens :: "string list \<Rightarrow> token list option" where
  "tokens [] = Some []"
| "tokens (x # xs) =
     (if x = ''-l'' then map_option (Cons Listen) (tokens xs)
      else case option_letter x of
        Some q \<Rightarrow> (case xs of [] \<Rightarrow> None | v # ys \<Rightarrow> map_option (Cons (Opt q v)) (tokens ys))
      | None \<Rightarrow> map_option (Cons (Word x)) (tokens xs))"

text \<open>The last value an option is given.\<close>

fun opt_value :: "char \<Rightarrow> token list \<Rightarrow> string option" where
  "opt_value ch [] = None"
| "opt_value ch (Opt q v # ts) = (case opt_value ch ts of Some w \<Rightarrow> Some w | None \<Rightarrow> if q = ch then Some v else None)"
| "opt_value ch (_ # ts) = opt_value ch ts"

fun words :: "token list \<Rightarrow> string list" where
  "words [] = []"
| "words (Word w # ts) = w # words ts"
| "words (_ # ts) = words ts"

definition or_else :: "'a option \<Rightarrow> 'a option \<Rightarrow> 'a option" where
  "or_else x y = (case x of Some v \<Rightarrow> Some v | None \<Rightarrow> y)"

definition add_tokens :: "token list \<Rightarrow> cat_args \<Rightarrow> cat_args" where
  "add_tokens ts a =
     \<lparr>opt_listen = (opt_listen a \<or> Listen \<in> set ts), opt_option = or_else (opt_value CHR ''o'' ts) (opt_option a),
      s_domain = or_else (opt_value CHR ''s'' ts) (s_domain a), s_port = or_else (opt_value CHR ''p'' ts) (s_port a),
      parts = parts a @ words ts\<rparr>"

lemma add_tokens_cons:
  "add_tokens (Listen # ts) a = add_tokens ts (a\<lparr>opt_listen := True\<rparr>)"
  "add_tokens (Opt CHR ''o'' v # ts) a = add_tokens ts (a\<lparr>opt_option := Some v\<rparr>)"
  "add_tokens (Opt CHR ''s'' v # ts) a = add_tokens ts (a\<lparr>s_domain := Some v\<rparr>)"
  "add_tokens (Opt CHR ''p'' v # ts) a = add_tokens ts (a\<lparr>s_port := Some v\<rparr>)"
  "add_tokens (Word x # ts) a = add_tokens ts (a\<lparr>parts := parts a @ [x]\<rparr>)"
  by (simp_all add: add_tokens_def or_else_def split: option.splits)

text \<open>What remains of the arguments is what its tokens add.\<close>

definition adds :: "string list \<Rightarrow> cat_args \<Rightarrow> cat_args \<Rightarrow> bool" where
  "adds xs a b \<longleftrightarrow> (\<exists>ts. tokens xs = Some ts \<and> (words ts = [] \<or> length (parts a) + length (words ts) \<le> 2) \<and> b = add_tokens ts a)"

lemma adds_simps:
  "adds [] a b \<longleftrightarrow> b = a"
  "adds (''-l'' # xs) a b \<longleftrightarrow> adds xs (a\<lparr>opt_listen := True\<rparr>) b"
  "adds (''-o'' # v # xs) a b \<longleftrightarrow> adds xs (a\<lparr>opt_option := Some v\<rparr>) b"
  "adds (''-s'' # v # xs) a b \<longleftrightarrow> adds xs (a\<lparr>s_domain := Some v\<rparr>) b"
  "adds (''-p'' # v # xs) a b \<longleftrightarrow> adds xs (a\<lparr>s_port := Some v\<rparr>) b"
  "x \<notin> {''-l'', ''-o'', ''-s'', ''-p''} \<Longrightarrow>
     adds (x # xs) a b \<longleftrightarrow> length (parts a) < 2 \<and> adds xs (a\<lparr>parts := parts a @ [x]\<rparr>) b"
  by (auto simp: adds_def option_letter_def add_tokens_cons) (auto simp: add_tokens_def or_else_def)

lemma adds_missing: "x \<in> {''-o'', ''-s'', ''-p''} \<Longrightarrow> \<not> adds [x] a b"
  by (auto simp: adds_def option_letter_def)

lemma parse_args_tokens: "parse_args xs a = Inr (Some b) \<longleftrightarrow> adds xs a b"
proof (induction xs a rule: parse_args.induct)
  case (2 x xs a)
  consider "x = ''-l''" | "x \<in> {''-o'', ''-s'', ''-p''}" "xs = []" | v ys where "x \<in> {''-o'', ''-s'', ''-p''}" "xs = v # ys"
    | "x \<notin> {''-l'', ''-o'', ''-s'', ''-p''}" by (cases xs) auto
  then show ?case
  proof cases
    case 2
    then show ?thesis using adds_missing by (auto simp: error_check_def)
  next
    case 3
    then show ?thesis using 2(2-4) by (auto simp: adds_simps)
  qed (use 2(1,5) in \<open>auto simp: adds_simps\<close>)
qed (auto simp: adds_simps)

text \<open>The variables the tokens of a command line give.\<close>

definition args_of :: "token list \<Rightarrow> cat_args" where
  "args_of ts = \<lparr>opt_listen = Listen \<in> set ts, opt_option = opt_value CHR ''o'' ts, s_domain = opt_value CHR ''s'' ts,
     s_port = opt_value CHR ''p'' ts, parts = words ts\<rparr>"

lemma context_tokens:
  "get_cat_context R argv = Inr (Some c) \<longleftrightarrow>
     (\<exists>ts. tokens (drop 1 argv) = Some ts \<and> length (words ts) \<le> 2 \<and> cat_context R (args_of ts) = Inr c)"
proof -
  let ?a = "\<lparr>opt_listen = False, opt_option = None, s_domain = None, s_port = None, parts = []\<rparr>"
  have e: "add_tokens ts ?a = args_of ts" for ts by (simp add: add_tokens_def args_of_def or_else_def split: option.splits)
  have "get_cat_context R argv = Inr (Some c) \<longleftrightarrow> (\<exists>a. parse_args (drop 1 argv) ?a = Inr (Some a) \<and> cat_context R a = Inr c)"
    by (auto simp: get_cat_context_def res_bind_Inr_iff split: option.splits)
  also have "\<dots> \<longleftrightarrow> (\<exists>ts. tokens (drop 1 argv) = Some ts \<and> length (words ts) \<le> 2 \<and> cat_context R (args_of ts) = Inr c)"
    unfolding parse_args_tokens adds_def e by auto
  finally show ?thesis .
qed

text \<open>C28. The command line parser is its reference: \<open>get_cat_context\<close> makes a context exactly of the command lines whose
  tokens (options with their argument, other words) have at most two words, from the last value given to each option and
  the words in order; where the options stand does not matter.\<close>
theorem get_cat_context_tokens:
  "get_cat_context R argv = Inr (Some c) \<longleftrightarrow>
     (\<exists>ts. tokens (drop 1 argv) = Some ts \<and> length (words ts) \<le> 2 \<and> cat_context R (args_of ts) = Inr c)"
  by (rule context_tokens)

lemma domain_port_cases:
  assumes "domain_port ps = Inr (d, p)"
  shows "(d = None \<longrightarrow> p = None \<or> (\<exists>q. p = Some q \<and> (\<forall>c\<in>set q. isdigit c))) \<and>
    (\<forall>x. d = Some x \<longrightarrow> \<not> (\<forall>c\<in>set x. isdigit c))"
  using assms by (auto simp: domain_port_def error_check_def split: list.splits if_splits)

text \<open>What the fields of a context mean.\<close>

definition context_wf :: "resolver \<Rightarrow> netcat_t \<Rightarrow> bool" where
  "context_wf R c \<longleftrightarrow>
     (\<forall>d. dai_addr c = Some d \<longrightarrow> \<not> (\<forall>x\<in>set d. isdigit x)) \<and>
     (dai_addr c = None \<longrightarrow> (\<forall>p. dai_port c = Some p \<longrightarrow> (\<forall>x\<in>set p. isdigit x))) \<and>
     (if l_mode c then (dai_addr c = None \<or> sai_addr c = dai_addr c) \<and> (dai_port c = None \<or> sai_port c = dai_port c)
      else \<exists>d. dai_addr c = Some d \<and> inet_addr R d \<noteq> INADDR_ANY \<and> inet_addr R d \<noteq> INADDR_NONE)"

text \<open>C29. Every context \<open>get_cat_context\<close> returns is well formed: a host name is not a number and a port without a host
  is one; when listening the destination given is the address to bind; when connecting there is a destination host, and
  it has an address.\<close>
theorem get_cat_context_wf:
  assumes "get_cat_context R argv = Inr (Some c)"
  shows "context_wf R c"
proof -
  obtain ts where "cat_context R (args_of ts) = Inr c" using assms context_tokens by auto
  then obtain a where "cat_context R a = Inr c" by blast
  then obtain d p where dp: "domain_port (parts a) = Inr (d, p)"
    and c: "(let ctx = \<lparr>l_mode = opt_listen a, cat_option = opt_option a, sai_port = s_port a, sai_addr = s_domain a,
                dai_port = p, dai_addr = d\<rparr>
     in if opt_listen a then
          error_check (s_domain a \<noteq> None \<and> d \<noteq> None) (error_check (s_port a \<noteq> None \<and> p \<noteq> None)
            (Inr (ctx\<lparr>sai_addr := if s_domain a \<noteq> None then s_domain a else d,
                      sai_port := if s_port a \<noteq> None then s_port a else p\<rparr>)))
        else
          (case d of
             None \<Rightarrow> error_check True (Inr ctx)
           | Some d \<Rightarrow> error_check (inet_addr R d = INADDR_ANY) (error_check (inet_addr R d = INADDR_NONE) (Inr ctx)))) = Inr c"
    by (auto simp: cat_context_def res_bind_Inr_iff)
  show ?thesis using c domain_port_cases [OF dp]
    by (cases "opt_listen a"; cases d) (auto simp: context_wf_def error_check_def Let_def split: if_splits)
qed

lemma get_cat_context_wf_witness:
  "\<exists>c. get_cat_context demo_resolver [''nc'', ''-o'', ''blkio'', ''127.0.0.1'', ''80''] = Inr (Some c) \<and> context_wf demo_resolver c \<and>
     dai_port c = Some ''80''"
proof -
  let ?c = "\<lparr>l_mode = False, cat_option = Some ''blkio'', sai_port = None, sai_addr = None, dai_port = Some ''80'',
     dai_addr = Some ''127.0.0.1''\<rparr>"
  have "get_cat_context demo_resolver [''nc'', ''-o'', ''blkio'', ''127.0.0.1'', ''80''] = Inr (Some ?c)"
    by (simp add: get_cat_context_def cat_context_def domain_port_def error_check_def isdigit_def demo_resolver_def
      INADDR_ANY_def INADDR_NONE_def)
  with get_cat_context_wf [OF this] show ?thesis by simp
qed

section \<open>What the socket function does\<close>

fun net_open :: "net_call list \<Rightarrow> int set \<Rightarrow> int set" where
  "net_open [] S = S"
| "net_open (NetSocket f # cs) S = net_open cs (insert f S)"
| "net_open (NetClose f # cs) S = net_open cs (S - {f})"
| "net_open (_ # cs) S = net_open cs S"

text \<open>C40. A host without a port crashes the program: the command line is accepted and \<open>get_cat_socket\<close> hands the null
  \<open>dai_port\<close> to \<open>atoi\<close>.\<close>
theorem netcat_host_only_crashes:
  assumes "host \<notin> {''-l'', ''-o'', ''-s'', ''-p''}" and "\<exists>c\<in>set host. \<not> isdigit c"
    and "inet_addr R host \<noteq> INADDR_ANY" and "inet_addr R host \<noteq> INADDR_NONE"
  shows "get_netcat_socket R k [prog, host] = Inl NullDeref"
  using assms by (simp add: get_netcat_socket_def get_cat_context_def cat_context_def domain_port_def error_check_def
      get_cat_socket_def)

definition demo_answers :: net_answers where
  "demo_answers = \<lparr>n_socket = 3, n_bind = -1, n_listen = 0, n_accept = 4, n_connect = 0, n_pton = (\<lambda>_. Some 0x0100007f),
     n_stack = 0xdeadbeef\<rparr>"

lemma netcat_host_only_crashes_witness:
  "get_netcat_socket demo_resolver demo_answers [''nc'', ''127.0.0.1''] = Inl NullDeref"
  using netcat_host_only_crashes [of "''127.0.0.1''" demo_resolver demo_answers "''nc''"]
  by (simp add: isdigit_def demo_resolver_def INADDR_ANY_def INADDR_NONE_def)

text \<open>The sockets \<open>get_cat_socket\<close> leaves open are the one it returns and, when \<open>bind\<close> fails, the one it made and
  forgets: every other way out closes what it opened.\<close>
lemma get_cat_socket_open:
  assumes "get_cat_socket k upp = Inr (r, calls)" and "n_socket k \<noteq> -1" and "n_accept k \<noteq> n_socket k"
  shows "net_open calls {} =
    (if (sai_addr upp \<noteq> None \<or> sai_port upp \<noteq> None) \<and> n_bind k = -1 then {n_socket k}
     else if r = -1 then {} else {r})"
  using assms by (auto simp: get_cat_socket_def error_check_def Let_def split: if_splits option.splits)

lemma get_cat_socket_open_witness:
  "\<exists>calls. get_cat_socket demo_answers \<lparr>l_mode = True, cat_option = None, sai_port = Some ''80'', sai_addr = None,
     dai_port = None, dai_addr = None\<rparr> = Inr (-1, calls) \<and> net_open calls {} = {3}"
proof -
  let ?upp = "\<lparr>l_mode = True, cat_option = None, sai_port = Some ''80'', sai_addr = None, dai_port = None, dai_addr = None\<rparr>"
  obtain calls where c: "get_cat_socket demo_answers ?upp = Inr (-1, calls)"
    by (simp add: get_cat_socket_def demo_answers_def Let_def)
  with get_cat_socket_open [OF c] show ?thesis by (simp add: demo_answers_def)
qed

text \<open>The source address of the command line is not used: whatever it is, \<open>get_cat_socket\<close> binds to the address that
  happens to be on the stack (the call of \<open>inet_pton\<close> is compiled out).\<close>
lemma source_address_unused:
  "get_cat_socket k (upp\<lparr>sai_addr := Some a\<rparr>) = get_cat_socket k (upp\<lparr>sai_addr := Some b\<rparr>) \<and>
   (\<exists>port. \<forall>r calls. get_cat_socket k (upp\<lparr>sai_addr := Some a\<rparr>) = Inr (r, calls) \<longrightarrow>
      NetBind (n_socket k) port (n_stack k) \<in> set calls)"
  by (auto simp: get_cat_socket_def error_check_def Let_def split: if_splits option.splits)

lemma source_address_unused_witness:
  "\<exists>port. NetBind 3 port 0xdeadbeef \<in> set (snd (the (case get_cat_socket demo_answers \<lparr>l_mode = False, cat_option = None,
     sai_port = None, sai_addr = Some ''127.0.0.1'', dai_port = Some ''80'', dai_addr = Some ''127.0.0.1''\<rparr> of Inr x \<Rightarrow> Some x | Inl _ \<Rightarrow> None)))"
  using source_address_unused [where k = demo_answers and upp = "\<lparr>l_mode = False, cat_option = None,
     sai_port = None, sai_addr = None, dai_port = Some ''80'', dai_addr = Some ''127.0.0.1''\<rparr>" and a = "''127.0.0.1''"]
  by (auto simp: get_cat_socket_def error_check_def Let_def demo_answers_def)

end
