(* ===== verification/TxGet.thy ===== *)
theory TxGet
  imports TxCatMain TxNcat
begin

text \<open>
  \<open>txget.cpp\<close>, the program that fetches a URL: \<open>get_url_socket\<close>, the callback \<open>update_stdio\<close> and \<open>main\<close>
  up to its loop, on Linux. Its first part and its reading loop have the text of \<open>txcat\<close>'s. The messages
  of \<open>LOG_VERBOSE\<close> are left out.
\<close>

section \<open>The URL\<close>

text \<open>The static buffers, and what the name service and \<open>socket\<close> answer.\<close>

record url_world =
  g_host :: string
  g_path :: string
  fd_flags :: "int \<rightharpoonup> u32"

record url_answers =
  u_aton :: "string \<Rightarrow> u32 option"
  u_hostbyname :: "string \<Rightarrow> u32 option"
  u_socket :: int

text \<open>Copying into a buffer of 256.\<close>

definition strcpy256 :: "string \<Rightarrow> string res" where
  "strcpy256 s = (if length s < 256 then Inr s else Inl BufferOverflow)"

text \<open>\<open>domain\<close> and \<open>_g_path\<close>.\<close>

definition url_parts :: "string \<Rightarrow> (string \<times> string) res" where
  "url_parts line =
     (case strchr line CHR ''/'' of
        Some n \<Rightarrow>
          if n < 256 then res_bind (strcpy256 (drop n line)) (\<lambda>path. Inr (take n line, path))
          else res_bind (strcpy256 ''/'') (\<lambda>path. Inr (take 255 line, path))
      | None \<Rightarrow> res_bind (strcpy256 ''/'') (\<lambda>path. Inr (take 255 line, path)))"

definition get_url_socket :: "url_answers \<Rightarrow> string option \<Rightarrow> url_world \<Rightarrow> (int \<times> net_call list \<times> url_world) res" where
  "get_url_socket k url w =
     (case url of
        None \<Rightarrow> Inl NullDeref
      | Some u \<Rightarrow>
          if take 7 u \<noteq> ''http://'' then Inr (-1, [], w)
          else
            res_bind (url_parts (drop 7 u)) (\<lambda>(domain, path).
            res_bind (strcpy256 domain) (\<lambda>host.
            let w1 = w\<lparr>g_host := host, g_path := path\<rparr>;
                (port, domain1) = (case strchr domain CHR '':'' of
                    Some p \<Rightarrow> (atoi (drop (p + 1) domain), take p domain)
                  | None \<Rightarrow> (80, domain));
                sin_port = htons_int port
            in res_bind (case u_aton k domain1 of
                   Some a \<Rightarrow> Inr a
                 | None \<Rightarrow> (case u_hostbyname k domain1 of None \<Rightarrow> Inl SafeExit | Some a \<Rightarrow> Inr a)) (\<lambda>addr.
               let fd = u_socket k;
                   (error, fl) = tx_setblockopt fd False (fd_flags w1)
               in Inr (fd, [NetSocket fd, NetConnect fd sin_port addr], w1\<lparr>fd_flags := fl\<rparr>)))))"

section \<open>The callback and the set-up\<close>

abbreviation (input) get_sent :: nat where "get_sent \<equiv> 2"
abbreviation (input) get_fd :: nat where "get_fd \<equiv> 3"

record get_env = cat_env +
  write_of :: "tx_mem \<Rightarrow> nat \<Rightarrow> kres"

definition crlf :: string where "crlf = [CHR 0x0D, CHR 0x0A]"

definition request_text :: "url_world \<Rightarrow> string" where
  "request_text w = ''GET '' @ g_path w @ '' HTTP/1.0'' @ crlf @ ''Host: '' @ g_host w @ crlf @ crlf"

text \<open>The reading loop.\<close>

definition get_stdio_loop :: "'a cat_env_scheme \<Rightarrow> tx_mem \<Rightarrow> tx_mem res" where
  "get_stdio_loop env s = stdio_loop (cells s get_fd) (ctl_of env s) (fst (reads_of env s)) (snd (reads_of env s)) s"

definition get_update_stdio :: "get_env \<Rightarrow> url_world \<Rightarrow> tx_mem \<Rightarrow> tx_mem res" where
  "get_update_stdio env w s =
     (if cells s get_sent = 0 then
        if length (request_text w) \<ge> 8192 * 4 then Inl BufferOverflow
        else
          res_bind (tx_outcb_write iotest_file (map of_char (request_text w)) (write_of env s) s) (\<lambda>(len, s1).
          let s2 = set_cell get_sent 1 s1 in
          if \<not> tx_readable s2 iotest_file then tx_aincb_active iotest_file iotest_task (ctl_of env s2) s2
          else get_stdio_loop env s2)
      else get_stdio_loop env s)"

definition get_update_tick :: "tx_mem \<Rightarrow> tx_mem" where
  "get_update_tick s = update_tick s"

definition get_update_timer :: "tx_mem \<Rightarrow> tx_mem res" where
  "get_update_timer s = update_timer s"

definition get_boot :: "cat_env \<Rightarrow> tx_mem \<Rightarrow> (loop_p \<times> tx_mem) res" where
  "get_boot env s = cat_boot env s"

definition get_setup :: "cat_env \<Rightarrow> url_answers \<Rightarrow> string option \<Rightarrow> url_world \<Rightarrow> tx_mem \<Rightarrow>
    (loop_p \<times> int \<times> url_world \<times> tx_mem) res" where
  "get_setup env k url w s =
     res_bind (get_boot env s) (\<lambda>(loop, s1).
     res_bind (get_url_socket k url w) (\<lambda>(fd, calls, w1).
     let s2 = set_cell get_sent 0 (set_cell get_fd fd s1)
     in res_bind (tx_aiocb_init iotest_file loop fd (\<lambda>_. add_of env) s2) (\<lambda>s3.
     let s4 = tx_task_init iotest_task loop (UserCall 2) (VUser 2) s3
     in res_bind (tx_outcb_prepare iotest_file iotest_task (ctl_of env s4) s4) (\<lambda>s5.
        res_bind (tx_aincb_active iotest_file iotest_task (ctl_of env s5) s5) (\<lambda>s6.
        Inr (loop, fd, w1, s6))))))"

text \<open>The call through \<open>task->tx_call\<close>, and what \<open>main\<close> does after its loop.\<close>

fun get_run :: "get_env \<Rightarrow> url_world \<Rightarrow> call_p \<Rightarrow> void_p \<Rightarrow> tx_mem \<Rightarrow> tx_mem res" where
  "get_run env w (UserCall 0) _ s = Inr (get_update_tick s)"
| "get_run env w (UserCall (Suc 0)) _ s = get_update_timer s"
| "get_run env w (UserCall (Suc (Suc 0))) _ s = get_update_stdio env w s"
| "get_run env w TimerPolling (VRing r) s = cat_polling (cat_env.truncate env) r s"
| "get_run env w EpollPolling (VEpoll e) s = tx_epoll_polling e (wait_of env s) s"
| "get_run env w _ _ s = Inl NullDeref"

definition get_teardown :: "get_env \<Rightarrow> loop_p \<Rightarrow> int \<Rightarrow> tx_mem \<Rightarrow> tx_mem res" where
  "get_teardown env loop fd s =
     res_bind (tx_aincb_stop iotest_file (VTask iotest_task) s) (\<lambda>s1.
     res_bind (tx_outcb_cancel iotest_file (VTask iotest_task) s1) (\<lambda>s2.
     if \<not> has (timer_flags (timers s2 tmtask_timer)) TIMER_IDLE \<and> \<not> ring_live s2 (tx_ring (timers s2 tmtask_timer))
     then Inl UseAfterFree
     else
       let s3 = tx_timer_stop tmtask_timer s2
       in res_bind (tx_aiocb_fini iotest_file (ctl_of env s3) s3) (\<lambda>s4.
          let s5 = snd (tx_loop_delete loop (log_kcall (CloseFd STDIN_FILE_FD) s4))
          in Inr (log_kcall (CloseFd fd) s5))))"

definition txget :: "get_env \<Rightarrow> url_answers \<Rightarrow> string option \<Rightarrow> url_world \<Rightarrow> tx_mem \<Rightarrow> tx_mem res option" where
  "txget env k url w s =
     (case get_setup (cat_env.truncate env) k url w s of
        Inl e \<Rightarrow> Some (Inl e)
      | Inr (loop, fd, w1, s1) \<Rightarrow>
          map_option (\<lambda>r. res_bind r (get_teardown env loop fd)) (tx_loop_main (get_run env w1) loop s1))"

section \<open>Properties\<close>

text \<open>C36. \<open>get_url_socket\<close> copies the path of the URL into \<open>_g_path[256]\<close> without a bound: it overruns the buffer exactly for
  the URLs whose host part is shorter than 256 characters and whose path has 256 or more.\<close>
theorem get_url_overflow:
  "get_url_socket k (Some url) w = Inl BufferOverflow \<longleftrightarrow>
     (\<exists>host path. url = ''http://'' @ host @ CHR ''/'' # path \<and> CHR ''/'' \<notin> set host \<and> length host < 256 \<and> 255 \<le> length path)"
proof -
  have tail: "get_url_socket k (Some url) w = Inl BufferOverflow \<longleftrightarrow>
      take 7 url = ''http://'' \<and> url_parts (drop 7 url) = Inl BufferOverflow"
  proof (cases "url_parts (drop 7 url)")
    case (Inr r)
    then obtain d p where r: "r = (d, p)" "length d < 256"
      by (cases r) (auto simp: url_parts_def strcpy256_def res_bind_Inr_iff split: option.splits if_splits)
    then show ?thesis using Inr
      by (auto simp: get_url_socket_def strcpy256_def Let_def split: option.splits prod.splits)
  qed (auto simp: get_url_socket_def)
  have parts: "url_parts line = Inl BufferOverflow \<longleftrightarrow>
      (\<exists>host path. line = host @ CHR ''/'' # path \<and> CHR ''/'' \<notin> set host \<and> length host < 256 \<and> 255 \<le> length path)" for line
  proof (cases "strchr line CHR ''/''")
    case None
    then have "CHR ''/'' \<notin> set line" by (simp add: strchr_None)
    then show ?thesis by (auto simp: url_parts_def strcpy256_def None)
  next
    case (Some n)
    have n: "n < length line" "line ! n = CHR ''/''" "CHR ''/'' \<notin> set (take n line)"
      using strchr_Some [OF Some] by (auto dest: set_takeWhileD)
    have l: "line = take n line @ CHR ''/'' # drop (Suc n) line" using id_take_nth_drop [OF n(1)] n(2) by simp
    have u: "length host = n" if "line = host @ CHR ''/'' # path" "CHR ''/'' \<notin> set host" for host path
      using strchr_append [OF that(2), of path] that(1) Some by simp
    show ?thesis
    proof
      assume "url_parts line = Inl BufferOverflow"
      then have "n < 256" "256 \<le> length line - n" by (auto simp: url_parts_def strcpy256_def Some split: if_splits)
      then show "\<exists>host path. line = host @ CHR ''/'' # path \<and> CHR ''/'' \<notin> set host \<and> length host < 256 \<and> 255 \<le> length path"
        using l n by (intro exI [of _ "take n line"] exI [of _ "drop (Suc n) line"]) auto
    next
      assume "\<exists>host path. line = host @ CHR ''/'' # path \<and> CHR ''/'' \<notin> set host \<and> length host < 256 \<and> 255 \<le> length path"
      then obtain host path where h: "line = host @ CHR ''/'' # path" "CHR ''/'' \<notin> set host" "length host < 256" "255 \<le> length path"
        by blast
      then show "url_parts line = Inl BufferOverflow" by (simp add: url_parts_def strcpy256_def strchr_append [OF h(2)])
    qed
  qed
  have pre: "take 7 url = ''http://'' \<longleftrightarrow> url = ''http://'' @ drop 7 url"
  proof
    assume "take 7 url = ''http://''"
    then show "url = ''http://'' @ drop 7 url" by (metis append_take_drop_id)
  next
    assume "url = ''http://'' @ drop 7 url"
    then have "take 7 url = take 7 (''http://'' @ drop 7 url)" by (rule arg_cong)
    then show "take 7 url = ''http://''" by simp
  qed
  show ?thesis
  proof
    assume "get_url_socket k (Some url) w = Inl BufferOverflow"
    then show "\<exists>host path. url = ''http://'' @ host @ CHR ''/'' # path \<and> CHR ''/'' \<notin> set host \<and> length host < 256 \<and> 255 \<le> length path"
      unfolding tail parts pre by metis
  next
    assume "\<exists>host path. url = ''http://'' @ host @ CHR ''/'' # path \<and> CHR ''/'' \<notin> set host \<and> length host < 256 \<and> 255 \<le> length path"
    then show "get_url_socket k (Some url) w = Inl BufferOverflow" unfolding tail parts by fastforce
  qed
qed

text \<open>C38. The parts of a URL: for a host without \<open>/\<close> and \<open>:\<close>, a port number and a path, \<open>get_url_socket\<close> keeps the host
  with its port for the request and the path, connects a socket in non-blocking mode to the address of the host alone at
  that port, and without a port to port 80.\<close>
theorem get_url_socket_parses:
  assumes "CHR ''/'' \<notin> set host" and "CHR '':'' \<notin> set host" and "length (host @ CHR '':'' # dec n) < 256" and "length path < 255"
    and "u_aton k host = Some a" and "fd_flags w (u_socket k) = Some f"
  shows "get_url_socket k (Some (''http://'' @ host @ CHR '':'' # dec n @ CHR ''/'' # path)) w =
      Inr (u_socket k, [NetSocket (u_socket k), NetConnect (u_socket k) (htons (word_of_nat n)) a],
        \<lparr>g_host = host @ CHR '':'' # dec n, g_path = CHR ''/'' # path, fd_flags = (fd_flags w)(u_socket k \<mapsto> f OR O_NONBLOCK)\<rparr>) \<and>
    get_url_socket k (Some (''http://'' @ host @ CHR ''/'' # path)) w =
      Inr (u_socket k, [NetSocket (u_socket k), NetConnect (u_socket k) (htons 80) a],
        \<lparr>g_host = host, g_path = CHR ''/'' # path, fd_flags = (fd_flags w)(u_socket k \<mapsto> f OR O_NONBLOCK)\<rparr>)"
proof -
  have d: "CHR ''/'' \<notin> set (dec n)" using dec_digits [of "CHR ''/''" n] by (auto simp: isdigit_def)
  then have slash: "CHR ''/'' \<notin> set (host @ CHR '':'' # dec n)" using assms(1) by simp
  have p1: "url_parts (host @ CHR '':'' # dec n @ CHR ''/'' # path) = Inr (host @ CHR '':'' # dec n, CHR ''/'' # path)"
    using strchr_append [OF slash, of path] assms(3,4) by (simp add: url_parts_def strcpy256_def)
  have p2: "url_parts (host @ CHR ''/'' # path) = Inr (host, CHR ''/'' # path)"
    using strchr_append [OF assms(1), of path] assms(3,4) by (simp add: url_parts_def strcpy256_def)
  have c: "strchr host CHR '':'' = None" using assms(2) by (simp add: strchr_None)
  obtain gh gp fl where w: "w = \<lparr>g_host = gh, g_path = gp, fd_flags = fl\<rparr>" by (cases w)
  have b: "snd (tx_setblockopt (u_socket k) False fl) = fl(u_socket k \<mapsto> f OR O_NONBLOCK)"
    using setblockopt_set assms(6) by (simp add: w)
  show ?thesis
    using assms(3,5) by (simp add: w get_url_socket_def p1 p2 strcpy256_def strchr_append [OF assms(2)] c atoi_dec Let_def
      b case_prod_beta)
qed

lemma get_setup_bad_url:
  assumes env: "env_ok env" and "take 7 url \<noteq> ''http://''"
  shows "get_setup env k (Some url) w zero_mem = Inl AssertFail"
proof -
  from cat_boot_ok [OF env] obtain s where s: "cat_boot env zero_mem = Inr (DefaultLoop, s)" "boot_io s" by blast
  define s2 where "s2 = set_cell get_sent 0 (set_cell get_fd (-1) s)"
  have io: "boot_io s2" unfolding s2_def by (intro booted_cell s(2))
  define s3 where "s3 = upd_filp iotest_file (fresh_filp (EpollTask cat_epoll) (-1)) s2"
  have g: "poll_ops (io s2) (EpollTask cat_epoll) = EpollOps"
    using io by (auto simp: boot_io_def epoll_good_def epoll_inv_def epoll_core_def)
  have i: "tx_aiocb_init iotest_file DefaultLoop (-1) (\<lambda>_. add_of env) s2 = Inr s3"
    using io by (simp add: tx_aiocb_init_def tx_poll_get_def boot_io_def tx_aiocb_init_poll_def s3_def)
  define s4 where "s4 = tx_task_init iotest_task DefaultLoop (UserCall 2) (VUser 2) s3"
  have f: "filp s4 iotest_file = fresh_filp (EpollTask cat_epoll) (-1) (filp s2 iotest_file)" "poll_ops (io s4) = poll_ops (io s2)"
    by (simp_all add: s4_def s3_def upd_filp_def upd_io_def tx_task_init_def upd_task_def)
  define s5 where "s5 = tx_task_active (Some iotest_task) (VAiocb iotest_file) s4"
  have p: "tx_outcb_prepare iotest_file iotest_task k' s4 = Inr s5" for k'
    using f by (simp add: tx_outcb_prepare_def generic_active_out_def tx_writable_def s5_def flags)
  have f5: "filp s5 = filp s4" "poll_ops (io s5) = poll_ops (io s4)" by (simp_all add: s5_def)
  have a: "tx_aincb_active iotest_file iotest_task k' s5 = Inl AssertFail" for k'
    using f g f5 by (simp add: tx_aincb_active_def generic_active_in_def tx_readable_def upd_filp_def upd_io_def epoll_fns_def
        tx_epoll_pollin_def flags)
  show ?thesis
    using assms(2) s(1) i p a by (simp add: get_setup_def get_boot_def get_url_socket_def s2_def [symmetric] s4_def [symmetric] Let_def)
qed

text \<open>A URL that does not start with \<open>http://\<close> aborts the program: \<open>main\<close> does not look at the -1 that
  \<open>get_url_socket\<close> returns, and waiting for input on the block it makes of it fails an assertion of the poller.\<close>
theorem bad_url_aborts:
  assumes "env_ok (cat_env.truncate env)" and "take 7 url \<noteq> ''http://''"
  shows "txget env k (Some url) w zero_mem = Some (Inl AssertFail)"
  by (simp add: txget_def get_setup_bad_url [OF assms])

lemma get_url_overflow_witness:
  "get_url_socket \<lparr>u_aton = (\<lambda>_. None), u_hostbyname = (\<lambda>_. None), u_socket = 3\<rparr> (Some (''http://h/'' @ replicate 300 CHR ''a''))
     \<lparr>g_host = [], g_path = [], fd_flags = Map.empty\<rparr> = Inl BufferOverflow"
proof -
  have "\<exists>host path. ''http://h/'' @ replicate 300 CHR ''a'' = ''http://'' @ host @ CHR ''/'' # path \<and> CHR ''/'' \<notin> set host \<and>
      length host < 256 \<and> 255 \<le> length path"
    by (rule exI [of _ "''h''"], rule exI [of _ "replicate 300 CHR ''a''"]) simp
  then show ?thesis by (simp only: get_url_overflow)
qed

definition demo_url_answers :: url_answers where
  "demo_url_answers = \<lparr>u_aton = (\<lambda>h. if h = ''127.0.0.1'' then Some 0x0100007f else None), u_hostbyname = (\<lambda>_. None), u_socket = 3\<rparr>"

lemma get_url_socket_parses_witness:
  "get_url_socket demo_url_answers (Some ''http://127.0.0.1:80/x'') \<lparr>g_host = [], g_path = [], fd_flags = [3 \<mapsto> 2]\<rparr> =
     Inr (3, [NetSocket 3, NetConnect 3 (htons 80) 0x0100007f],
       \<lparr>g_host = ''127.0.0.1:80'', g_path = ''/x'', fd_flags = [3 \<mapsto> 2 OR O_NONBLOCK]\<rparr>)"
  using get_url_socket_parses [where host = "''127.0.0.1''" and n = "80" and path = "''x''" and k = demo_url_answers and a = "0x0100007f"
      and w = "\<lparr>g_host = [], g_path = [], fd_flags = [3 \<mapsto> 2]\<rparr>" and f = "2"]
  unfolding demo_dotted(2) by (simp add: demo_url_answers_def)

definition still_get_env :: get_env where
  "still_get_env = cat_env.extend still_env \<lparr>write_of = (\<lambda>s i. (0, 0))\<rparr>"

lemma bad_url_aborts_witness:
  "txget still_get_env demo_url_answers (Some ''https://x'') \<lparr>g_host = [], g_path = [], fd_flags = Map.empty\<rparr> zero_mem =
     Some (Inl AssertFail)"
proof (rule bad_url_aborts)
  have "cat_env.truncate still_get_env = still_env"
    unfolding still_get_env_def by (cases still_env) (simp add: cat_env.defs)
  then show "env_ok (cat_env.truncate still_get_env)" by (simp add: still_env_ok)
qed simp

end
