(* ===== verification/TxLog.thy ===== *)
theory TxLog
  imports TxCString
begin

text \<open>
  \<open>tx_debug.cpp\<close> on glibc: the checks, the tags that are logged, and the log stream, whose lines get a header.
  The clock, \<open>localtime_r\<close>, the environment variable, the text \<open>vfprintf\<close> makes and the results of \<open>write\<close>
  are arguments. The \<open>_logfmt\<close> of other C libraries is not modelled.
\<close>

section \<open>Checks\<close>

definition int_str :: "int \<Rightarrow> string" where
  "int_str n = (if n < 0 then CHR ''-'' # dec (nat (- n)) else dec (nat n))"

text \<open>\<open>err\<close> is what was written to \<open>stderr\<close>.\<close>

definition tx_check :: "int \<Rightarrow> string \<Rightarrow> int \<Rightarrow> string \<Rightarrow> string \<Rightarrow> string" where
  "tx_check cond msg line file err =
     (if cond = 0 then err @ msg @ '' '' @ file @ '':'' @ int_str line @ [CHR 0x0A] else err)"

definition tx_panic :: "int \<Rightarrow> string \<Rightarrow> int \<Rightarrow> string \<Rightarrow> string \<Rightarrow> string res" where
  "tx_panic cond msg line file err =
     (if cond = 0 then Inl PanicExit else Inr err)"

section \<open>The log stream\<close>

record tm =
  tm_mon :: nat
  tm_mday :: nat
  tm_hour :: nat
  tm_min :: nat
  tm_sec :: nat

text \<open>
  \<open>_log_cookie\<close>, the static variables of \<open>log_get\<close>, the characters the descriptor got, and the number of
  calls of \<open>write\<close>. \<open>log_fmt\<close> is the string in the buffer of 256.
\<close>

record log_cookie =
  log_nol :: int
  log_len :: nat
  log_fmt :: string
  log_lt :: tm
  log_tv1 :: int
  log_out :: string
  log_writes :: nat

text \<open>What the calls of \<open>write\<close> answer.\<close>

type_synonym write_fn = "nat \<Rightarrow> string \<Rightarrow> int"

text \<open>\<open>write\<close> of the whole of \<open>buf\<close>, and the assertion on its result that always follows.\<close>

definition fd_write :: "write_fn \<Rightarrow> string \<Rightarrow> log_cookie \<Rightarrow> log_cookie res" where
  "fd_write k buf c =
     (let len = k (log_writes c) buf;
          c1 = c\<lparr>log_writes := log_writes c + 1, log_out := log_out c @ take (nat len) buf\<rparr>
      in c_assert (len = int (length buf)) c1)"

text \<open>The string is followed by its zero; a length beyond the buffer makes \<open>write\<close> read past it.\<close>

definition log_header :: "write_fn \<Rightarrow> log_cookie \<Rightarrow> log_cookie res" where
  "log_header k c =
     (if log_nol c = 0 then Inr c
      else if log_len c > 256 then Inl BufferOverflow
      else fd_write k (take (log_len c) (log_fmt c @ [CHR 0x00])) (c\<lparr>log_nol := 0\<rparr>))"

text \<open>The loop of \<open>_log_write\<close>: \<open>cur\<close> is the text from \<open>buf\<close> to \<open>p\<close>.\<close>

fun log_write_loop :: "write_fn \<Rightarrow> string \<Rightarrow> string \<Rightarrow> log_cookie \<Rightarrow> log_cookie res" where
  "log_write_loop k cur [] c =
     (if cur \<noteq> [] then res_bind (log_header k c) (fd_write k cur) else Inr c)"
| "log_write_loop k cur (ch # rest) c =
     (if ch = CHR 0x0A then
        res_bind (log_header k c) (\<lambda>c1. res_bind (fd_write k (cur @ [ch]) c1) (\<lambda>c2.
        log_write_loop k [] rest (c2\<lparr>log_nol := 1\<rparr>)))
      else log_write_loop k (cur @ [ch]) rest c)"

definition log_write :: "write_fn \<Rightarrow> string \<Rightarrow> log_cookie \<Rightarrow> log_cookie res" where
  "log_write k buf c = (if buf = [] then Inr c else log_write_loop k [] buf c)"

text \<open>\<open>%2d\<close>, \<open>%02d\<close>, \<open>%03d\<close>.\<close>

definition pad :: "nat \<Rightarrow> char \<Rightarrow> nat \<Rightarrow> string" where
  "pad w ch n = replicate (w - length (dec n)) ch @ dec n"

definition log_stamp :: "tm \<Rightarrow> nat \<Rightarrow> string \<Rightarrow> string" where
  "log_stamp lt msec tag =
     pad 2 CHR '' '' (1 + tm_mon lt) @ ''-'' @ pad 2 CHR ''0'' (tm_mday lt) @ '' '' @ pad 2 CHR ''0'' (tm_hour lt) @ '':'' @
     pad 2 CHR ''0'' (tm_min lt) @ '':'' @ pad 2 CHR ''0'' (tm_sec lt) @ ''.'' @ pad 3 CHR ''0'' msec @ '' '' @ tag @ '' ''"

text \<open>\<open>now\<close> is what \<open>gettimeofday\<close> answers, seconds and microseconds.\<close>

definition log_get :: "(int \<Rightarrow> tm) \<Rightarrow> int \<times> nat \<Rightarrow> string \<Rightarrow> log_cookie \<Rightarrow> log_cookie" where
  "log_get localtime now tag c =
     (let c1 = (if fst now \<noteq> log_tv1 c then c\<lparr>log_tv1 := fst now, log_lt := localtime (fst now)\<rparr> else c);
          text = log_stamp (log_lt c1) (snd now div 1000) tag
      in c1\<lparr>log_fmt := take 255 text, log_len := length text, log_nol := 1\<rparr>)"

definition log_put :: "write_fn \<Rightarrow> log_cookie \<Rightarrow> log_cookie" where
  "log_put k c =
     (if log_nol c = 0
      then c\<lparr>log_writes := log_writes c + 1, log_out := log_out c @ take (nat (k (log_writes c) [CHR 0x0D, CHR 0x0A])) [CHR 0x0D, CHR 0x0A]\<rparr>
      else c)"

section \<open>The tags that are logged\<close>

definition tag_bit :: "char \<Rightarrow> u32" where
  "tag_bit c = 2 ^ (of_char c - 0x40)"

text \<open>The \<open>switch\<close>, whose cases fall through to the less verbose ones.\<close>

definition tag_bits :: "char \<Rightarrow> u32" where
  "tag_bits c =
     (if c \<in> set ''Vv'' then tag_bit CHR ''V'' OR tag_bit CHR ''D'' OR tag_bit CHR ''I'' OR tag_bit CHR ''W'' OR tag_bit CHR ''E'' OR tag_bit CHR ''F''
      else if c \<in> set ''Dd'' then tag_bit CHR ''D'' OR tag_bit CHR ''I'' OR tag_bit CHR ''W'' OR tag_bit CHR ''E'' OR tag_bit CHR ''F''
      else if c \<in> set ''Ii'' then tag_bit CHR ''I'' OR tag_bit CHR ''W'' OR tag_bit CHR ''E'' OR tag_bit CHR ''F''
      else if c \<in> set ''Ww'' then tag_bit CHR ''W'' OR tag_bit CHR ''E'' OR tag_bit CHR ''F''
      else if c \<in> set ''Ee'' then tag_bit CHR ''E'' OR tag_bit CHR ''F''
      else if c \<in> set ''Ff'' then tag_bit CHR ''F''
      else if (0x40::nat) \<le> of_char c \<and> of_char c < (0x60::nat) then tag_bit c
      else 0)"

definition default_logable_tags :: string where "default_logable_tags = ''EFIW''"

text \<open>\<open>env\<close> is \<open>getenv("LOGABLE_TAGS")\<close>; the bits are the static \<open>_logable_bits\<close>.\<close>

definition logable_bits :: "string option \<Rightarrow> u32 \<Rightarrow> u32" where
  "logable_bits env bits =
     (if bits = 0 then fold (\<lambda>c b. b OR tag_bits c) (case env of None \<Rightarrow> default_logable_tags | Some t \<Rightarrow> t) bits else bits)"

definition log_logable :: "string option \<Rightarrow> string option \<Rightarrow> u32 \<Rightarrow> bool \<times> u32" where
  "log_logable env logtag bits =
     (case logtag of
        None \<Rightarrow> (False, bits)
      | Some tag \<Rightarrow>
          let bits1 = logable_bits env bits;
              c = (case tag of [] \<Rightarrow> 0 | ch # _ \<Rightarrow> of_char ch) :: u32;
              bitoff = (c XOR 0x40) AND NOT 0x20
          in (bitoff AND 0xc0 = 0 \<and> bit bits1 (unat bitoff), bits1))"

section \<open>Logging\<close>

text \<open>
  \<open>chunks\<close> is the text \<open>vfprintf\<close> makes of its arguments, in the pieces in which the buffering of the
  stream hands it to \<open>_log_write\<close>.
\<close>

fun write_chunks :: "write_fn \<Rightarrow> string list \<Rightarrow> log_cookie \<Rightarrow> log_cookie res" where
  "write_chunks k [] c = Inr c"
| "write_chunks k (buf # bufs) c = res_bind (log_write k buf c) (write_chunks k bufs)"

record log_env =
  log_tags :: "string option"
  log_localtime :: "int \<Rightarrow> tm"
  log_now :: "int \<times> nat"
  log_answers :: write_fn

definition log_tag_vputlog :: "log_env \<Rightarrow> string option \<Rightarrow> string list \<Rightarrow> u32 \<times> log_cookie \<Rightarrow> (nat \<times> u32 \<times> log_cookie) res" where
  "log_tag_vputlog env tag chunks st =
     (let (ok, bits) = log_logable (log_tags env) tag (fst st) in
      case (ok, tag) of
        (True, Some t) \<Rightarrow>
          res_bind (write_chunks (log_answers env) chunks (log_get (log_localtime env) (log_now env) t (snd st))) (\<lambda>c.
          Inr (length (concat chunks), bits, log_put (log_answers env) c))
      | _ \<Rightarrow> Inr (0, bits, snd st))"

text \<open>\<open>log_tag_putlog\<close> does the same with its own argument list.\<close>

definition log_tag_putlog :: "log_env \<Rightarrow> string option \<Rightarrow> string list \<Rightarrow> u32 \<times> log_cookie \<Rightarrow> (nat \<times> u32 \<times> log_cookie) res" where
  "log_tag_putlog env tag chunks st =
     (let (ok, bits) = log_logable (log_tags env) tag (fst st) in
      case (ok, tag) of
        (True, Some t) \<Rightarrow>
          let c1 = log_get (log_localtime env) (log_now env) t (snd st) in
          res_bind (write_chunks (log_answers env) chunks c1) (\<lambda>c2.
          Inr (length (concat chunks), bits, log_put (log_answers env) c2))
      | _ \<Rightarrow> Inr (0, bits, snd st))"

section \<open>What the stream carries\<close>

text \<open>The text with the header \<open>h\<close> at the start of every line; \<open>nol\<close> is whether the text starts a line.\<close>

fun annotate :: "bool \<Rightarrow> string \<Rightarrow> string \<Rightarrow> string" where
  "annotate nol h [] = []"
| "annotate nol h (c # s) = (if nol then h else []) @ c # annotate (c = CHR 0x0A) h s"

definition line_open :: "bool \<Rightarrow> string \<Rightarrow> bool" where
  "line_open nol s = (if s = [] then nol else last s = CHR 0x0A)"

lemma annotate_append: "annotate nol h (s @ t) = annotate nol h s @ annotate (line_open nol s) h t"
  by (induction nol h s rule: annotate.induct) (auto simp: line_open_def)

lemma annotate_line: "CHR 0x0A \<notin> set s \<Longrightarrow> s \<noteq> [] \<Longrightarrow> annotate nol h s = (if nol then h else []) @ s"
proof -
  have "annotate False h s = s" if "CHR 0x0A \<notin> set s" for s using that by (induction s) auto
  then show "CHR 0x0A \<notin> set s \<Longrightarrow> s \<noteq> [] \<Longrightarrow> annotate nol h s = (if nol then h else []) @ s" by (cases s) auto
qed

lemma line_open_append: "line_open nol (s @ t) = line_open (line_open nol s) t"
  by (simp add: line_open_def)

definition full_writes :: "write_fn \<Rightarrow> bool" where
  "full_writes k \<longleftrightarrow> (\<forall>i buf. k i buf = int (length buf))"

definition header :: "log_cookie \<Rightarrow> string" where
  "header c = take (log_len c) (log_fmt c @ [CHR 0x00])"

text \<open>The parts of the cookie a write does not change, and what it puts on the stream.\<close>

definition streamed :: "string \<Rightarrow> log_cookie \<Rightarrow> log_cookie \<Rightarrow> bool" where
  "streamed s c c' \<longleftrightarrow> log_len c' = log_len c \<and> log_fmt c' = log_fmt c \<and> log_lt c' = log_lt c \<and> log_tv1 c' = log_tv1 c \<and>
     log_out c' = log_out c @ annotate (log_nol c \<noteq> 0) (header c) s \<and> (log_nol c' \<noteq> 0) = line_open (log_nol c \<noteq> 0) s"

lemma streamed_trans: "streamed s c c' \<Longrightarrow> streamed t c' c'' \<Longrightarrow> streamed (s @ t) c c''"
  by (simp add: streamed_def annotate_append line_open_append header_def)

lemma fd_write_full:
  "full_writes k \<Longrightarrow> fd_write k buf c = Inr (c\<lparr>log_writes := log_writes c + 1, log_out := log_out c @ buf\<rparr>)"
  by (simp add: fd_write_def full_writes_def Let_def)

lemma header_write:
  assumes k: "full_writes k" and len: "log_len c \<le> 256" and s: "s \<noteq> []" "CHR 0x0A \<notin> set (butlast s)"
  shows "\<exists>c'. res_bind (log_header k c) (fd_write k s) = Inr c' \<and>
    streamed s c (c'\<lparr>log_nol := if last s = CHR 0x0A then 1 else log_nol c'\<rparr>) \<and> log_nol c' = 0"
proof -
  have a: "annotate nol h s = (if nol then h else []) @ s" for nol h
  proof (cases "butlast s = []")
    case True
    then have "s = [last s]" using s(1) by (metis append_butlast_last_id append_Nil)
    then show ?thesis by (metis annotate.simps append_Nil2)
  next
    case False
    have l: "last (butlast s) \<noteq> CHR 0x0A" using s(2) last_in_set [OF False] by metis
    have "annotate nol h (butlast s @ [last s]) = (if nol then h else []) @ butlast s @ [last s]"
      using annotate_line [OF s(2) False] False l by (simp add: annotate_append line_open_def)
    then show ?thesis using s(1) by simp
  qed
  show ?thesis
    using s(1) len
    by (cases "log_nol c = 0")
      (simp_all add: log_header_def fd_write_full [OF k] streamed_def a line_open_def header_def [symmetric], simp_all add: header_def)
qed

lemma log_write_loop_stream:
  assumes "full_writes k" and "log_len c \<le> 256" and "CHR 0x0A \<notin> set cur"
  shows "\<exists>c'. log_write_loop k cur s c = Inr c' \<and> streamed (cur @ s) c c'"
  using assms(2,3)
proof (induction s arbitrary: cur c)
  case Nil
  show ?case
  proof (cases "cur = []")
    case True
    then show ?thesis by (simp add: streamed_def line_open_def)
  next
    case False
    then have "last cur \<noteq> CHR 0x0A" "CHR 0x0A \<notin> set (butlast cur)" using Nil(2) last_in_set [of cur] by (metis, auto dest: in_set_butlastD)
    then show ?thesis using header_write [OF assms(1) Nil(1) False] False by auto
  qed
next
  case (Cons ch s)
  show ?case
  proof (cases "ch = CHR 0x0A")
    case True
    obtain c1 where c1: "res_bind (log_header k c) (fd_write k (cur @ [ch])) = Inr c1" "streamed (cur @ [ch]) c (c1\<lparr>log_nol := 1\<rparr>)"
      using header_write [OF assms(1) Cons.prems(1), of "cur @ [ch]"] Cons.prems(2) True by auto
    then have len: "log_len (c1\<lparr>log_nol := 1\<rparr>) \<le> 256" using Cons.prems(1) unfolding streamed_def by simp
    from Cons.IH [OF len, of "[]"] obtain c' where "log_write_loop k [] s (c1\<lparr>log_nol := 1\<rparr>) = Inr c'" "streamed s (c1\<lparr>log_nol := 1\<rparr>) c'"
      by auto
    then show ?thesis using c1 True streamed_trans [of "cur @ [ch]" c "c1\<lparr>log_nol := 1\<rparr>" s c'] by (auto simp: res_bind_Inr_iff)
  next
    case False
    then show ?thesis using Cons.IH [OF Cons.prems(1), of "cur @ [ch]"] Cons.prems(2) by simp
  qed
qed

lemma log_write_stream:
  "full_writes k \<Longrightarrow> log_len c \<le> 256 \<Longrightarrow> \<exists>c'. log_write k buf c = Inr c' \<and> streamed buf c c'"
  using log_write_loop_stream [of k c "[]" buf] by (auto simp: log_write_def streamed_def line_open_def)

lemma write_chunks_stream:
  assumes "full_writes k" and "log_len c \<le> 256"
  shows "\<exists>c'. write_chunks k bufs c = Inr c' \<and>
    log_out c' = log_out c @ annotate (log_nol c \<noteq> 0) (header c) (concat bufs) \<and>
    (log_nol c' \<noteq> 0) = line_open (log_nol c \<noteq> 0) (concat bufs)"
proof -
  have "\<exists>c'. write_chunks k bufs c = Inr c' \<and> streamed (concat bufs) c c'"
    using assms(2)
  proof (induction bufs arbitrary: c)
    case Nil
    then show ?case by (simp add: streamed_def line_open_def)
  next
    case (Cons b bufs)
    from log_write_stream [OF assms(1) Cons.prems, of b] obtain c1 where c1: "log_write k b c = Inr c1" "streamed b c c1" by blast
    then have "log_len c1 \<le> 256" using Cons.prems by (simp add: streamed_def)
    from Cons.IH [OF this] c1 show ?case using streamed_trans by fastforce
  qed
  then show ?thesis by (auto simp: streamed_def)
qed

text \<open>C34. The log stream carries what was logged with the header at the start of every line and nothing else, however the
  buffering of the stream cuts the text into pieces: the output depends on the concatenation of the pieces alone.\<close>
theorem log_stream:
  assumes "full_writes k" and "log_len c \<le> 256"
  shows "\<exists>c'. write_chunks k bufs c = Inr c' \<and>
    log_out c' = log_out c @ annotate (log_nol c \<noteq> 0) (header c) (concat bufs) \<and>
    (log_nol c' \<noteq> 0) = line_open (log_nol c \<noteq> 0) (concat bufs)"
  by (rule write_chunks_stream [OF assms])

definition demo_cookie :: log_cookie where
  "demo_cookie = \<lparr>log_nol = 1, log_len = 2, log_fmt = ''> '', log_lt = \<lparr>tm_mon = 0, tm_mday = 0, tm_hour = 0, tm_min = 0, tm_sec = 0\<rparr>,
     log_tv1 = 0, log_out = [], log_writes = 0\<rparr>"

lemma full_writes_length: "full_writes (\<lambda>i buf. int (length buf))"
  by (simp add: full_writes_def)

lemma log_stream_witness:
  "\<exists>c'. write_chunks (\<lambda>i buf. int (length buf)) [''a'', ''b'' @ [CHR 0x0A] @ ''c''] demo_cookie = Inr c' \<and>
     log_out c' = ''> ab'' @ [CHR 0x0A] @ ''> c''"
  using log_stream [OF full_writes_length, of demo_cookie "[''a'', ''b'' @ [CHR 0x0A] @ ''c'']"] by (auto simp: demo_cookie_def header_def)

section \<open>Messages\<close>

lemma log_get_reads:
  "log_nol (log_get localtime now tag c) = 1" "log_out (log_get localtime now tag c) = log_out c"
  "log_len (log_get localtime now tag c) = length (log_stamp (log_lt (log_get localtime now tag c)) (snd now div 1000) tag)"
  "log_fmt (log_get localtime now tag c) = take 255 (log_stamp (log_lt (log_get localtime now tag c)) (snd now div 1000) tag)"
  "(log_tv1 c = fst now \<Longrightarrow> log_lt c = localtime (log_tv1 c)) \<Longrightarrow> log_lt (log_get localtime now tag c) = localtime (fst now)"
  by (simp_all add: log_get_def Let_def)

text \<open>C39. A message of one line that is logged comes out as the time, the tag, the text and a line break, in one piece
  after what was logged before; the number of its characters is returned. (The cached time is that of its second.)\<close>
theorem log_message:
  assumes "fst (log_logable (log_tags env) (Some t) bits)" and "full_writes (log_answers env)"
    and "log_tv1 c = fst (log_now env) \<Longrightarrow> log_lt c = log_localtime env (log_tv1 c)"
    and "length (log_stamp (log_localtime env (fst (log_now env))) (snd (log_now env) div 1000) t) < 256"
    and "concat chunks \<noteq> []" and "CHR 0x0A \<notin> set (concat chunks)"
  shows "\<exists>bits' c'. log_tag_putlog env (Some t) chunks (bits, c) = Inr (length (concat chunks), bits', c') \<and>
    log_out c' = log_out c @ log_stamp (log_localtime env (fst (log_now env))) (snd (log_now env) div 1000) t @
      concat chunks @ [CHR 0x0D, CHR 0x0A]"
proof -
  let ?st = "log_stamp (log_localtime env (fst (log_now env))) (snd (log_now env) div 1000) t"
  let ?g = "log_get (log_localtime env) (log_now env) t c"
  note G = log_get_reads [where localtime = "log_localtime env" and now = "log_now env" and tag = t and c = c]
  have lt: "log_lt ?g = log_localtime env (fst (log_now env))" by (rule G(5) [OF assms(3)])
  have h: "header ?g = ?st" using assms(4) by (simp add: header_def G(3,4) lt)
  have "log_len ?g \<le> 256" using assms(4) by (simp add: G(3) lt)
  from write_chunks_stream [OF assms(2) this, of chunks] obtain c2 where c2: "write_chunks (log_answers env) chunks ?g = Inr c2"
    "log_out c2 = log_out c @ annotate True ?st (concat chunks)" "(log_nol c2 \<noteq> 0) = line_open True (concat chunks)"
    by (auto simp: G(1,2) h)
  have l: "last (concat chunks) \<noteq> CHR 0x0A" using assms(6) last_in_set [OF assms(5)] by metis
  then have n: "log_nol c2 = 0" using c2(3) assms(5) unfolding line_open_def by presburger
  obtain bits' where b: "log_logable (log_tags env) (Some t) bits = (True, bits')" using assms(1) by (metis prod.collapse)
  show ?thesis
    using c2(1,2) b n annotate_line [OF assms(6,5)] assms(2)
    by (auto simp: log_tag_putlog_def Let_def log_put_def full_writes_def)
qed

definition demo_log_env :: log_env where
  "demo_log_env = \<lparr>log_tags = None, log_localtime = (\<lambda>_. \<lparr>tm_mon = 0, tm_mday = 2, tm_hour = 3, tm_min = 4, tm_sec = 5\<rparr>),
     log_now = (7, 8000), log_answers = (\<lambda>i buf. int (length buf))\<rparr>"

definition demo_log_cookie :: log_cookie where
  "demo_log_cookie = \<lparr>log_nol = 0, log_len = 0, log_fmt = [], log_lt = \<lparr>tm_mon = 0, tm_mday = 2, tm_hour = 3, tm_min = 4, tm_sec = 5\<rparr>,
     log_tv1 = 0, log_out = [], log_writes = 0\<rparr>"

lemma demo_logable: "fst (log_logable None (Some ''E'') 0)" "\<not> fst (log_logable None (Some ''D'') 0)"
  by code_simp+

lemma demo_stamp:
  "log_stamp \<lparr>tm_mon = 0, tm_mday = 2, tm_hour = 3, tm_min = 4, tm_sec = 5\<rparr> 8 ''E'' = '' 1-02 03:04:05.008 E ''"
  by code_simp

lemma log_message_witness:
  "\<exists>bits' c'. log_tag_putlog demo_log_env (Some ''E'') [''up'', ''!''] (0, demo_log_cookie) = Inr (3, bits', c') \<and>
     log_out c' = '' 1-02 03:04:05.008 E up!'' @ [CHR 0x0D, CHR 0x0A]"
  using log_message [of demo_log_env "''E''" 0 demo_log_cookie "[''up'', ''!'']"] demo_logable(1) demo_stamp
  by (simp add: demo_log_env_def demo_log_cookie_def full_writes_length numeral_3_eq_3)

text \<open>\<open>log_get\<close> keeps the length the header would have, not the length it was cut to: a tag of 237 characters or more
  makes the first write of the message read past the end of \<open>log_fmt[256]\<close>.\<close>
lemma log_long_tag_overread:
  assumes "fst (log_logable (log_tags env) (Some t) bits)" and "length t \<ge> 237" and "buf \<noteq> []"
  shows "log_tag_putlog env (Some t) (buf # chunks) (bits, c) = Inl BufferOverflow"
proof -
  let ?g = "log_get (log_localtime env) (log_now env) t c"
  have p: "w \<le> length (pad w ch n)" for w ch n by (simp add: pad_def)
  have "length (log_stamp lt ms t) \<ge> 20 + length t" for lt ms
    using p [of 2 "CHR '' ''" "1 + tm_mon lt"] p [of 2 "CHR ''0''" "tm_mday lt"] p [of 2 "CHR ''0''" "tm_hour lt"]
      p [of 2 "CHR ''0''" "tm_min lt"] p [of 2 "CHR ''0''" "tm_sec lt"] p [of 3 "CHR ''0''" ms]
    by (simp add: log_stamp_def)
  then have len: "256 < log_len ?g" using assms(2) by (simp add: log_get_reads(3) order.strict_trans2 [of 256 "20 + length t"])
  have "log_write_loop k cur s ?g = Inl BufferOverflow" if "cur \<noteq> [] \<or> s \<noteq> []" for k cur s
    using that by (induction s arbitrary: cur) (auto simp: log_header_def log_get_reads(1) len)
  then have "log_write (log_answers env) buf ?g = Inl BufferOverflow" using assms(3) by (simp add: log_write_def)
  moreover obtain bits' where "log_logable (log_tags env) (Some t) bits = (True, bits')" using assms(1) by (metis prod.collapse)
  ultimately show ?thesis by (simp add: log_tag_putlog_def Let_def)
qed

lemma log_long_tag_overread_witness:
  "log_tag_putlog demo_log_env (Some (replicate 237 CHR ''E'')) [''up''] (0, demo_log_cookie) = Inl BufferOverflow"
proof -
  have "fst (log_logable None (Some (CHR ''E'' # s)) 0)" for s using demo_logable(1) by (simp add: log_logable_def Let_def)
  from this [of "replicate 236 CHR ''E''"] have "fst (log_logable (log_tags demo_log_env) (Some (replicate (Suc 236) CHR ''E'')) 0)"
    by (simp only: replicate_Suc demo_log_env_def log_env.simps)
  then show ?thesis
    using log_long_tag_overread [of demo_log_env "replicate 237 CHR ''E''" 0 "''up''" "[]" demo_log_cookie] by simp
qed

section \<open>Other C libraries\<close>

text \<open>
  Where a stream cannot be given a function, the header is put into the format: \<open>_logfmt\<close>, whose result is a
  buffer of 8192. The stream is then the descriptor's, and \<open>_log_write\<close> is not called.
\<close>

definition logfmt :: "(int \<Rightarrow> tm) \<Rightarrow> int \<times> nat \<Rightarrow> string \<Rightarrow> string \<Rightarrow> string res" where
  "logfmt localtime now fmt tag =
     (if fmt = [] \<or> take 1 tag = ''%'' then Inr fmt
      else
        let text = log_stamp (localtime (fst now)) (snd now div 1000) (take 1 tag) @ fmt @ [CHR 0x0A];
            len = length text
        in c_assert (len < 8192) (if text ! (len - 2) = CHR 0x0A then take (len - 1) text else text))"

text \<open>\<open>printf\<close> is the text \<open>vfprintf\<close> makes of a format and the arguments of the call.\<close>

definition logfmt_putlog :: "log_env \<Rightarrow> (string \<Rightarrow> string) \<Rightarrow> string option \<Rightarrow> string \<Rightarrow> u32 \<times> log_cookie \<Rightarrow>
    (nat \<times> u32 \<times> log_cookie) res" where
  "logfmt_putlog env printf tag fmt st =
     (let (ok, bits) = log_logable (log_tags env) tag (fst st) in
      case (ok, tag) of
        (True, Some t) \<Rightarrow>
          let c1 = log_get (log_localtime env) (log_now env) t (snd st) in
          res_bind (logfmt (log_localtime env) (log_now env) fmt t) (\<lambda>f.
          Inr (length (printf f), bits, log_put (log_answers env) (c1\<lparr>log_out := log_out c1 @ printf f\<rparr>)))
      | _ \<Rightarrow> Inr (0, bits, snd st))"

lemma pad_no_percent: "CHR ''%'' \<notin> set (pad w ch n)" if "ch \<noteq> CHR ''%''"
  using that dec_digits [of "CHR ''%''" n] by (auto simp: pad_def isdigit_def)

lemma stamp_no_percent: "CHR ''%'' \<notin> set tag \<Longrightarrow> CHR ''%'' \<notin> set (log_stamp lt ms tag)"
  by (simp add: log_stamp_def pad_no_percent)

definition whole_line :: "string \<Rightarrow> string" where
  "whole_line fmt = (if last fmt = CHR 0x0A then fmt else fmt @ [CHR 0x0A])"

lemma logfmt_line:
  assumes "fmt \<noteq> []" and "take 1 tag \<noteq> ''%''"
    and "length (log_stamp (localtime (fst now)) (snd now div 1000) (take 1 tag)) + length fmt < 8191"
  shows "logfmt localtime now fmt tag = Inr (log_stamp (localtime (fst now)) (snd now div 1000) (take 1 tag) @ whole_line fmt)"
proof -
  let ?h = "log_stamp (localtime (fst now)) (snd now div 1000) (take 1 tag)"
  obtain f c where f: "fmt = f @ [c]" using assms(1) by (metis rev_exhaust)
  have "(?h @ fmt @ [CHR 0x0A]) ! (length (?h @ fmt @ [CHR 0x0A]) - 2) = c"
    using nth_append_length [of "?h @ f" c "[CHR 0x0A]"] by (simp add: f)
  then show ?thesis using assms(2,3) by (simp add: logfmt_def Let_def f whole_line_def c_assert_def)
qed

text \<open>A message comes out as one line, the header, the text and one line break: the header never adds a conversion to
  the format, whatever the tag is, so what \<open>printf\<close> copies it copies.\<close>

lemma logfmt_message:
  assumes "fst (log_logable (log_tags env) (Some t) bits)" and "fmt \<noteq> []" and "take 1 t \<noteq> ''%''"
    and "length (log_stamp (log_localtime env (fst (log_now env))) (snd (log_now env) div 1000) (take 1 t)) + length fmt < 8191"
    and copies: "\<And>h f. CHR ''%'' \<notin> set h \<Longrightarrow> printf (h @ f) = h @ printf f"
  shows "\<exists>n bits' c'. logfmt_putlog env printf (Some t) fmt (bits, c) = Inr (n, bits', c') \<and>
    log_out c' = log_out c @ log_stamp (log_localtime env (fst (log_now env))) (snd (log_now env) div 1000) (take 1 t) @
      printf (whole_line fmt)"
proof -
  have "CHR ''%'' \<notin> set (take 1 t)" using assms(3) by (cases t) auto
  then have p: "printf (log_stamp lt ms (take 1 t) @ f) = log_stamp lt ms (take 1 t) @ printf f" for lt ms f
    by (rule copies [OF stamp_no_percent])
  obtain bits' where b: "log_logable (log_tags env) (Some t) bits = (True, bits')" using assms(1) by (metis prod.collapse)
  show ?thesis using logfmt_line [where localtime = "log_localtime env" and now = "log_now env", OF assms(2,3,4)] b
    by (simp add: logfmt_putlog_def Let_def p log_put_def log_get_reads del: One_nat_def)
qed

section \<open>Levels\<close>

text \<open>The positions of the levels' bits, from the most to the least verbose; a set of bits is closed when it has with a
  level every less verbose one.\<close>

definition closed_bits :: "u32 \<Rightarrow> bool" where
  "closed_bits b \<longleftrightarrow> (bit b 22 \<longrightarrow> bit b 4) \<and> (bit b 4 \<longrightarrow> bit b 9) \<and> (bit b 9 \<longrightarrow> bit b 23) \<and> (bit b 23 \<longrightarrow> bit b 5) \<and>
     (bit b 5 \<longrightarrow> bit b 6)"

lemma bit_tag_bit: "of_char c - (0x40::nat) < 32 \<Longrightarrow> bit (tag_bit c) n \<longleftrightarrow> n = of_char c - 0x40"
  by (auto simp: tag_bit_def bit_simps)

lemma closed_tag_bits: "closed_bits (tag_bits c)"
proof -
  have L: "tag_bit CHR ''V'' = 2 ^ 22" "tag_bit CHR ''D'' = 2 ^ 4" "tag_bit CHR ''I'' = 2 ^ 9" "tag_bit CHR ''W'' = 2 ^ 23"
    "tag_bit CHR ''E'' = 2 ^ 5" "tag_bit CHR ''F'' = 2 ^ 6" by (simp_all add: tag_bit_def)
  have B: "bit (2 ^ m :: u32) n \<longleftrightarrow> n = m" if "m < 32" for m n using that by (auto simp: bit_simps)
  have D: "of_char c \<noteq> (of_char d :: nat)" if "c \<noteq> d" for d using that by simp
  show ?thesis
  proof (cases "c \<in> set ''VvDdIiWwEeFf''")
    case True
    then show ?thesis unfolding closed_bits_def tag_bits_def L by (auto simp: bit_or_iff B simp del: power_numeral)
  next
    case False
    then have n: "tag_bits c = (if (0x40::nat) \<le> of_char c \<and> of_char c < (0x60::nat) then tag_bit c else 0)"
      unfolding tag_bits_def by simp
    have "of_char c \<notin> {86, 68, 73, 87, 69, 70 :: nat}"
      using False D [of "CHR ''V''"] D [of "CHR ''D''"] D [of "CHR ''I''"] D [of "CHR ''W''"] D [of "CHR ''E''"] D [of "CHR ''F''"] by auto
    then show ?thesis unfolding closed_bits_def n by (auto simp: bit_tag_bit)
  qed
qed

lemma closed_fold: "closed_bits b \<Longrightarrow> closed_bits (fold (\<lambda>c b. b OR tag_bits c) s b)"
proof (induction s arbitrary: b)
  case (Cons c s)
  have "closed_bits (b OR tag_bits c)"
    using Cons.prems closed_tag_bits [of c] by (auto simp: closed_bits_def bit_or_iff)
  then show ?case using Cons.IH by simp
qed simp

lemma closed_logable: "closed_bits (logable_bits env 0)"
  using closed_fold [of 0] by (simp add: logable_bits_def closed_bits_def)

text \<open>A tag is looked up by its first letter, in either case.\<close>

definition level_of :: "nat \<Rightarrow> char \<Rightarrow> bool" where
  "level_of i x \<longleftrightarrow> i < 6 \<and> (x = ''VDIWEF'' ! i \<or> x = ''vdiwef'' ! i)"

lemma log_logable_level:
  assumes "level_of i x"
  shows "fst (log_logable env (Some (x # s)) bits) \<longleftrightarrow> bit (logable_bits env bits) ([22, 4, 9, 23, 5, 6] ! i)"
proof -
  have "i \<in> {0, 1, 2, 3, 4, 5}" using assms by (auto simp: level_of_def)
  then show ?thesis using assms
    by (auto simp: level_of_def log_logable_def Let_def)
qed

text \<open>The levels are ordered: whatever \<open>LOGABLE_TAGS\<close> says, when a level is logged so is every less verbose one, in
  the order V, D, I, W, E, F, in upper or lower case.\<close>
theorem log_levels_ordered:
  assumes "level_of i x" and "level_of j y" and "i \<le> j" and "bits = 0 \<or> bits = logable_bits env 0"
    and "fst (log_logable env (Some (x # s)) bits)"
  shows "fst (log_logable env (Some (y # t)) bits)"
proof -
  have "closed_bits (logable_bits env bits)"
    using assms(4) closed_logable [of env] by (auto simp: logable_bits_def)
  moreover have "i \<in> {0, 1, 2, 3, 4, 5}" "j \<in> {0, 1, 2, 3, 4, 5}" using assms(1,2) by (auto simp: level_of_def)
  ultimately show ?thesis
    using assms(3,5) unfolding log_logable_level [OF assms(1)] log_logable_level [OF assms(2)] closed_bits_def
    by auto
qed

lemma log_levels_ordered_witness:
  "fst (log_logable (Some ''i'') (Some ''W'') 0) \<and> fst (log_logable (Some ''i'') (Some ''error'') 0)"
proof -
  have l: "level_of 2 CHR ''I''" "level_of 3 CHR ''W''" "level_of 4 CHR ''e''" by (simp_all add: level_of_def)
  have "fst (log_logable (Some ''i'') (Some ''I'') 0)" by code_simp
  then show ?thesis
    using log_levels_ordered [OF l(1,2), of 0 "Some ''i''" "[]" "[]"] log_levels_ordered [OF l(1,3), of 0 "Some ''i''" "[]" "''rror''"]
    by simp
qed

end
