(* ===== verification/TxPipe.thy ===== *)
theory TxPipe
  imports TxPortSystem
begin

text \<open>
  \<open>netcat.cpp\<close>: the copying loops between two descriptors, \<open>tx_pipling_t::pipling\<close> on blocks of a poller
  and \<open>pipling\<close> of the threads on handles, and \<open>update_netcat\<close>. What the system calls answer in each round is an
  argument. Beside its result a loop returns what was read and what was taken, which the code does not keep.
\<close>

section \<open>The buffer\<close>

record tx_pipling_t =
  pl_eof :: bool
  pl_off :: nat
  pl_len :: nat
  pl_buf :: bytes                \<comment> \<open>the first \<open>len\<close> bytes of \<open>buf\<close>\<close>

text \<open>The bytes read and not yet taken, and what a run has read and has had taken.\<close>

definition pending_bytes :: "tx_pipling_t \<Rightarrow> bytes" where
  "pending_bytes p = take (pl_len p - pl_off p) (drop (pl_off p) (pl_buf p))"

record pipe_log =
  bytes_read :: bytes
  bytes_taken :: bytes

text \<open>A buffer of \<open>n\<close> bytes in use as the loops use it.\<close>

definition pipling_ok :: "nat \<Rightarrow> tx_pipling_t \<Rightarrow> bool" where
  "pipling_ok n p \<longleftrightarrow> pl_off p \<le> pl_len p \<and> pl_len p = length (pl_buf p) \<and> pl_len p \<le> n"

section \<open>The threads\<close>

text \<open>The answers of \<open>P_READ\<close> and, for so many bytes, of \<open>P_WRITE\<close>, by the round.\<close>

datatype read_answer = Bytes bytes | ReadError

type_synonym thread_env = "(nat \<Rightarrow> read_answer) \<times> (nat \<Rightarrow> nat \<Rightarrow> int)"

text \<open>One round of the loop of \<open>pipling\<close>; \<open>True\<close> is \<open>break\<close>.\<close>

definition thread_round :: "thread_env \<Rightarrow> nat \<Rightarrow> tx_pipling_t \<Rightarrow> pipe_log \<Rightarrow> bool \<times> tx_pipling_t \<times> pipe_log" where
  "thread_round env n p l =
     (let (failed, p1, l1) =
        (if pl_off p = pl_len p then
           (case fst env n of
              ReadError \<Rightarrow> (True, p, l)
            | Bytes b \<Rightarrow> (False, p\<lparr>pl_eof := pl_eof p \<or> b = [], pl_len := length b, pl_off := 0, pl_buf := b\<rparr>,
                         l\<lparr>bytes_read := bytes_read l @ b\<rparr>))
         else (False, p, l))
      in if failed then (True, p1, l1)
      else if pl_off p1 < pl_len p1 then
        let err = snd env n (pl_len p1 - pl_off p1) in
        if err = -1 then (True, p1, l1)
        else (False, p1\<lparr>pl_off := pl_off p1 + nat err\<rparr>,
              l1\<lparr>bytes_taken := bytes_taken l1 @ take (nat err) (pending_bytes p1)\<rparr>)
      else (False, p1, l1))"

partial_function (option) thread_loop ::
    "thread_env \<Rightarrow> nat \<Rightarrow> tx_pipling_t \<Rightarrow> pipe_log \<Rightarrow> (tx_pipling_t \<times> pipe_log) option" where
  "thread_loop env n p l =
     (if \<not> pl_eof p \<or> pl_off p < pl_len p then
        (let (stop, p1, l1) = thread_round env n p l in
         if stop then Some (p1, l1) else thread_loop env (n + 1) p1 l1)
      else Some (p, l))"

definition thread_pipling :: "thread_env \<Rightarrow> (tx_pipling_t \<times> pipe_log) option" where
  "thread_pipling env = thread_loop env 0 \<lparr>pl_eof = False, pl_off = 0, pl_len = 0, pl_buf = []\<rparr> \<lparr>bytes_read = [], bytes_taken = []\<rparr>"

section \<open>The loop on blocks\<close>

text \<open>
  What one call of \<open>tx_pipling_t::pipling\<close> meets: in each round the bytes \<open>recv\<close> returns or its result and error
  code, what \<open>WriteFile\<close> answers for so many bytes, and what the system calls below \<open>tx_outcb_write\<close> (for so many
  bytes) and below \<open>tx_aincb_active\<close> and \<open>tx_outcb_prepare\<close> answer.
\<close>

record pipe_env =
  p_recv :: "nat \<Rightarrow> bytes + kres"
  p_file :: "nat \<Rightarrow> nat \<Rightarrow> bool \<times> nat"
  p_send :: "nat \<Rightarrow> nat \<Rightarrow> nat \<Rightarrow> kres"
  p_calls :: "nat \<Rightarrow> nat \<Rightarrow> kres"

type_synonym pipe_state = "tx_pipling_t \<times> pipe_log \<times> tx_mem"

text \<open>How a round ends: \<open>continue\<close> (or its end), \<open>break\<close>, which returns 0, or \<open>return 1\<close>.\<close>

datatype round_end = GoOn | BreakOff | Wait

definition recv_kres :: "bytes + kres \<Rightarrow> kres" where
  "recv_kres r = (case r of Inl b \<Rightarrow> (int (length b), 0) | Inr k \<Rightarrow> k)"

text \<open>The second \<open>if\<close>: what is read when the buffer is empty; \<open>True\<close> is \<open>break\<close>.\<close>

definition pipe_fill :: "bytes + kres \<Rightarrow> aiocb_p \<Rightarrow> pipe_state \<Rightarrow> bool \<times> pipe_state" where
  "pipe_fill r f st =
     (case st of (p, l, s) \<Rightarrow>
      let err = fst (recv_kres r);
          p1 = p\<lparr>pl_eof := pl_eof p \<or> err = 0\<rparr>;
          s1 = tx_aincb_update f (recv_kres r) s
      in if err = -1 \<and> tx_readable s1 f then (True, p1, l, s1)
         else
           let b = (case r of Inl b \<Rightarrow> b | Inr _ \<Rightarrow> []) in
           (False, p1\<lparr>pl_len := length b, pl_off := 0, pl_buf := b\<rparr>, l\<lparr>bytes_read := bytes_read l @ b\<rparr>, s1))"

definition pipe_take :: "nat \<Rightarrow> tx_mem \<Rightarrow> pipe_state \<Rightarrow> pipe_state" where
  "pipe_take n s1 st =
     (case st of (p, l, s) \<Rightarrow>
        (p\<lparr>pl_off := pl_off p + n\<rparr>, l\<lparr>bytes_taken := bytes_taken l @ take n (pending_bytes p)\<rparr>, s1))"

text \<open>The rest of a round, with bytes in the buffer or not; \<open>t\<close> is \<open>None\<close> for the standard output.\<close>

definition pipe_drain :: "pipe_env \<Rightarrow> nat \<Rightarrow> aiocb_p option \<Rightarrow> task_p \<Rightarrow> pipe_state \<Rightarrow> (round_end \<times> pipe_state) res" where
  "pipe_drain env n t sk st =
     (case st of (p, l, s) \<Rightarrow>
      if \<not> pl_off p < pl_len p then Inr (GoOn, st)
      else case t of
        None \<Rightarrow>
          (case p_file env n (pl_len p - pl_off p) of (writok, wroted) \<Rightarrow>
             if \<not> writok then Inr (BreakOff, st) else Inr (GoOn, pipe_take wroted s st))
      | Some a \<Rightarrow>
          if \<not> tx_writable s a
          then res_bind (tx_outcb_prepare a sk (p_calls env n) s) (\<lambda>s1. Inr (Wait, (p, l, s1)))
          else
            res_bind (tx_outcb_write a (pending_bytes p) (p_send env n (pl_len p - pl_off p)) s) (\<lambda>(err, s1).
              if err = -1 \<and> tx_writable s1 a then Inr (BreakOff, (p, l, s1))
              else Inr (GoOn, pipe_take (if err = -1 then 0 else nat err) s1 st)))"

definition pipe_round :: "pipe_env \<Rightarrow> nat \<Rightarrow> aiocb_p \<Rightarrow> aiocb_p option \<Rightarrow> task_p \<Rightarrow> pipe_state \<Rightarrow> (round_end \<times> pipe_state) res" where
  "pipe_round env n f t sk st =
     (case st of (p, l, s) \<Rightarrow>
      if pl_off p = pl_len p \<and> \<not> tx_readable s f
      then res_bind (tx_aincb_active f sk (p_calls env n) s) (\<lambda>s1. Inr (Wait, (p, l, s1)))
      else if pl_off p = pl_len p then
        (let (stop, st1) = pipe_fill (p_recv env n) f st in
         if stop then Inr (BreakOff, st1) else pipe_drain env n t sk st1)
      else pipe_drain env n t sk st)"

partial_function (option) pipe_loop ::
    "pipe_env \<Rightarrow> nat \<Rightarrow> aiocb_p \<Rightarrow> aiocb_p option \<Rightarrow> task_p \<Rightarrow> pipe_state \<Rightarrow> (int \<times> pipe_state) res option" where
  "pipe_loop env n f t sk st =
     (if \<not> pl_eof (fst st) \<or> pl_off (fst st) < pl_len (fst st) then
        (case pipe_round env n f t sk st of
           Inl e \<Rightarrow> Some (Inl e)
         | Inr (w, st1) \<Rightarrow>
             if w = Wait then Some (Inr (1, st1))
             else if w = BreakOff then Some (Inr (0, st1))
             else pipe_loop env (n + 1) f t sk st1)
      else Some (Inr (0, st)))"

text \<open>\<open>update_netcat\<close>: the two directions, then the loop is stopped if either is done.\<close>

definition update_netcat :: "pipe_env \<times> pipe_env \<Rightarrow> aiocb_p \<Rightarrow> aiocb_p \<Rightarrow> task_p \<Rightarrow>
    (tx_pipling_t \<times> pipe_log) \<times> (tx_pipling_t \<times> pipe_log) \<Rightarrow> tx_mem \<Rightarrow>
    (((tx_pipling_t \<times> pipe_log) \<times> (tx_pipling_t \<times> pipe_log)) \<times> tx_mem) res option" where
  "update_netcat env file file2 task pl s =
     (case pl of ((s2n, l1), (n2s, l2)) \<Rightarrow>
      Option.bind (pipe_loop (fst env) 0 file2 (Some file) task (s2n, l1, s)) (\<lambda>r1.
      case r1 of
        Inl e \<Rightarrow> Some (Inl e)
      | Inr (d1, p1, m1, s1) \<Rightarrow>
          Option.bind (pipe_loop (snd env) 0 file (Some file2) task (n2s, l2, s1)) (\<lambda>r2.
          case r2 of
            Inl e \<Rightarrow> Some (Inl e)
          | Inr (d2, p2, m2, s2) \<Rightarrow>
              Some (Inr (((p1, m1), (p2, m2)),
                if d1 = 0 \<or> d2 = 0 then tx_loop_stop (tx_loop_get task s2) s2 else s2)))))"

section \<open>What the loops keep\<close>

text \<open>The bytes read are those taken and then those in the buffer, in order.\<close>

definition piped :: "nat \<Rightarrow> tx_pipling_t \<Rightarrow> pipe_log \<Rightarrow> bool" where
  "piped n p l \<longleftrightarrow> pipling_ok n p \<and> bytes_read l = bytes_taken l @ pending_bytes p"

lemma pending_length: "pipling_ok n p \<Longrightarrow> length (pending_bytes p) = pl_len p - pl_off p"
  by (simp add: pending_bytes_def pipling_ok_def)

lemma pending_none: "pipling_ok n p \<Longrightarrow> pl_off p = pl_len p \<Longrightarrow> pending_bytes p = []"
  by (simp add: pending_bytes_def)

lemma piped_fill:
  "piped n p l \<Longrightarrow> pl_off p = pl_len p \<Longrightarrow> length b \<le> n \<Longrightarrow>
     piped n (p\<lparr>pl_eof := e, pl_len := length b, pl_off := 0, pl_buf := b\<rparr>) (l\<lparr>bytes_read := bytes_read l @ b\<rparr>)"
  by (simp add: piped_def pipling_ok_def pending_bytes_def)

lemma piped_eof: "piped n p l \<Longrightarrow> piped n (p\<lparr>pl_eof := e\<rparr>) l"
  by (simp add: piped_def pipling_ok_def pending_bytes_def)

lemma piped_take:
  assumes "piped n p l" and "m \<le> pl_len p - pl_off p"
  shows "piped n (p\<lparr>pl_off := pl_off p + m\<rparr>) (l\<lparr>bytes_taken := bytes_taken l @ take m (pending_bytes p)\<rparr>)"
proof -
  have "pending_bytes p = take m (pending_bytes p) @ drop m (pending_bytes p)" by simp
  moreover have "drop m (pending_bytes p) = pending_bytes (p\<lparr>pl_off := pl_off p + m\<rparr>)"
    by (simp add: pending_bytes_def drop_take add.commute)
  moreover have "pl_off p + m \<le> pl_len p" using assms by (simp add: piped_def pipling_ok_def) arith
  ultimately show ?thesis using assms by (simp add: piped_def pipling_ok_def)
qed

section \<open>The threads lose nothing\<close>

definition thread_ok :: "thread_env \<Rightarrow> bool" where
  "thread_ok env \<longleftrightarrow> (\<forall>n. (\<forall>b. fst env n = Bytes b \<longrightarrow> length b \<le> 8192) \<and> (\<forall>m. -1 \<le> snd env n m \<and> snd env n m \<le> int m))"

lemma thread_round_piped:
  assumes ok: "thread_ok env" and p: "piped 8192 p l" and r: "thread_round env n p l = (stop, p1, l1)"
  shows "piped 8192 p1 l1"
proof -
  have w: "nat (snd env n m) \<le> m" for m using ok by (simp add: thread_ok_def nat_le_iff)
  have step: "piped 8192 p1 l1" if "piped 8192 q k" and
    "(if pl_off q < pl_len q then
        let err = snd env n (pl_len q - pl_off q) in
        if err = -1 then (True, q, k)
        else (False, q\<lparr>pl_off := pl_off q + nat err\<rparr>, k\<lparr>bytes_taken := bytes_taken k @ take (nat err) (pending_bytes q)\<rparr>)
      else (False, q, k)) = (stop, p1, l1)" for q k
    using that piped_take [OF that(1) w] by (auto simp: Let_def split: if_splits)
  show ?thesis
  proof (cases "pl_off p = pl_len p")
    case True
    show ?thesis
    proof (cases "fst env n")
      case (Bytes b)
      have "length b \<le> 8192" using ok Bytes by (simp add: thread_ok_def)
      from step [OF piped_fill [OF p True this, of "pl_eof p \<or> b = []"]] r True Bytes show ?thesis
        by (simp add: thread_round_def Let_def)
    qed (use r True p in \<open>simp add: thread_round_def\<close>)
  next
    case False
    then show ?thesis using step [OF p] r by (simp add: thread_round_def)
  qed
qed

text \<open>Without failures a round does not break off.\<close>

definition thread_live :: "thread_env \<Rightarrow> nat \<Rightarrow> bool" where
  "thread_live env N \<longleftrightarrow> (\<forall>n. fst env n \<noteq> ReadError \<and> (\<forall>m>0. 0 < snd env n m)) \<and> (\<forall>n\<ge>N. fst env n = Bytes [])"

lemma thread_round_live:
  assumes ok: "thread_ok env" and live: "thread_live env N" and p: "piped 8192 p l"
  shows "\<exists>p1 l1. thread_round env n p l = (False, p1, l1) \<and> piped 8192 p1 l1 \<and>
    (pl_off p < pl_len p \<longrightarrow> pl_len p1 - pl_off p1 < pl_len p - pl_off p \<and> pl_eof p1 = pl_eof p) \<and>
    (pl_off p = pl_len p \<and> N \<le> n \<longrightarrow> pl_eof p1 \<and> pl_off p1 = pl_len p1)"
proof -
  have pos: "0 < snd env n m" if "m > 0" for m using live that by (simp add: thread_live_def)
  have no: "snd env n m \<noteq> -1" if "m > 0" for m using pos [OF that] by simp
  obtain b where b: "fst env n = Bytes b" using live by (cases "fst env n") (auto simp: thread_live_def)
  have nil: "N \<le> n \<Longrightarrow> b = []" using live b by (simp add: thread_live_def)
  have le: "pl_off p \<le> pl_len p" using p by (simp add: piped_def pipling_ok_def)
  show ?thesis
  proof (cases "pl_off p = pl_len p")
    case False
    then have m: "pl_len p - pl_off p > 0" "pl_off p < pl_len p" using le by simp_all
    let ?m = "nat (snd env n (pl_len p - pl_off p))"
    let ?p = "p\<lparr>pl_off := pl_off p + ?m\<rparr>" and ?l = "l\<lparr>bytes_taken := bytes_taken l @ take ?m (pending_bytes p)\<rparr>"
    have r: "thread_round env n p l = (False, ?p, ?l)" using False m no [OF m(1)] by (simp add: thread_round_def Let_def)
    moreover have "pl_len ?p - pl_off ?p < pl_len p - pl_off p" using pos [OF m(1)] m(1) by simp
    ultimately show ?thesis using thread_round_piped [OF ok p r] False by simp
  next
    case True
    let ?q = "p\<lparr>pl_eof := pl_eof p \<or> b = [], pl_len := length b, pl_off := 0, pl_buf := b\<rparr>"
      and ?k = "l\<lparr>bytes_read := bytes_read l @ b\<rparr>"
    show ?thesis
    proof (cases "b = []")
      case True
      have r: "thread_round env n p l = (False, ?q, ?k)"
        using b True \<open>pl_off p = pl_len p\<close> by (simp add: thread_round_def)
      then show ?thesis using thread_round_piped [OF ok p r] True \<open>pl_off p = pl_len p\<close> by simp
    next
      case b0: False
      have r: "thread_round env n p l = (False, ?q\<lparr>pl_off := nat (snd env n (length b))\<rparr>,
          ?k\<lparr>bytes_taken := bytes_taken l @ take (nat (snd env n (length b))) (pending_bytes ?q)\<rparr>)"
        using b b0 True no [of "length b"] by (simp add: thread_round_def Let_def)
      then show ?thesis using thread_round_piped [OF ok p r] True nil b0 by (simp del: length_greater_0_conv) auto
    qed
  qed
qed

lemma thread_loop_done:
  assumes ok: "thread_ok env" and live: "thread_live env N" and "piped 8192 p l"
  shows "\<exists>p' l'. thread_loop env n p l = Some (p', l') \<and> piped 8192 p' l' \<and> pl_eof p' \<and> pl_off p' = pl_len p'"
  using assms(3)
proof (induction "(N - n) * 8194 + (pl_len p - pl_off p) + (if pl_eof p then 0 else 1)" arbitrary: n p l rule: less_induct)
  case less
  have le: "pl_off p \<le> pl_len p" using less.prems by (simp add: piped_def pipling_ok_def)
  show ?case
  proof (cases "\<not> pl_eof p \<or> pl_off p < pl_len p")
    case False
    then show ?thesis using less.prems le by (subst thread_loop.simps) simp
  next
    case True
    from thread_round_live [OF ok live less.prems, of n] obtain p1 l1 where
      r: "thread_round env n p l = (False, p1, l1)" and p1: "piped 8192 p1 l1"
      and a: "pl_off p < pl_len p \<Longrightarrow> pl_len p1 - pl_off p1 < pl_len p - pl_off p \<and> pl_eof p1 = pl_eof p"
      and b: "pl_off p = pl_len p \<Longrightarrow> N \<le> n \<Longrightarrow> pl_eof p1 \<and> pl_off p1 = pl_len p1" by blast
    have sz: "pl_len p1 - pl_off p1 \<le> 8192" using p1 by (auto simp: piped_def pipling_ok_def)
    have "(N - (n + 1)) * 8194 + (pl_len p1 - pl_off p1) + (if pl_eof p1 then 0 else 1)
        < (N - n) * 8194 + (pl_len p - pl_off p) + (if pl_eof p then 0 else 1)"
    proof (cases "n < N")
      case True
      then have "N - n = Suc (N - (n + 1))" by simp
      then show ?thesis using sz by simp
    next
      case n: False
      then show ?thesis using True a b le by (cases "pl_off p = pl_len p") auto
    qed
    from less.hyps [OF this p1] show ?thesis using r True by (subst thread_loop.simps) simp
  qed
qed

text \<open>C30. When its input ends and nothing fails, the copying thread of netcat returns, with everything it read written, in
  order, however short the writes are.\<close>
theorem thread_copies_all:
  assumes "thread_ok env" and "thread_live env N"
  shows "\<exists>p l. thread_pipling env = Some (p, l) \<and> bytes_taken l = bytes_read l \<and> pl_eof p"
proof -
  have "piped 8192 \<lparr>pl_eof = False, pl_off = 0, pl_len = 0, pl_buf = []\<rparr> \<lparr>bytes_read = [], bytes_taken = []\<rparr>"
    by (simp add: piped_def pipling_ok_def pending_bytes_def)
  from thread_loop_done [OF assms this, of 0] show ?thesis
    unfolding thread_pipling_def using pending_none [of 8192] by (auto simp: piped_def)
qed

lemma thread_copies_all_witness:
  "\<exists>p l. thread_pipling (\<lambda>n. if n = 0 then Bytes [1, 2, 3] else Bytes [], \<lambda>n m. min 2 (int m)) = Some (p, l) \<and>
     bytes_taken l = bytes_read l \<and> pl_eof p"
  by (rule thread_copies_all [where N = 1]) (auto simp: thread_ok_def thread_live_def)

section \<open>The loop on blocks loses nothing\<close>

text \<open>The system calls take and return no more than they were given or asked for.\<close>

definition pipe_ok :: "pipe_env \<Rightarrow> bool" where
  "pipe_ok env \<longleftrightarrow> (\<forall>n. (\<forall>b. p_recv env n = Inl b \<longrightarrow> length b \<le> 131072) \<and> (\<forall>k. p_recv env n = Inr k \<longrightarrow> fst k = -1) \<and>
     (\<forall>m. snd (p_file env n m) \<le> m) \<and> (\<forall>m. -1 \<le> fst (p_send env n m 0) \<and> fst (p_send env n m 0) \<le> int m))"

lemma outcb_write_bound:
  assumes "tx_outcb_write a buf k s = Inr (err, s')" and "-1 \<le> fst (k 0)" and "fst (k 0) \<le> int (length buf)"
  shows "-1 \<le> err \<and> err \<le> int (length buf)"
proof -
  have port: "-1 \<le> n \<and> n \<le> int (length buf)" if "tx_completion_port_sendout a (take m buf) k s = Inr (n, s')" for n m
    using that assms(2,3)
    by (auto simp: tx_completion_port_sendout_def with_ovl_def Let_def split: if_splits option.splits)
  show ?thesis
    using assms port by (cases "ops_of s a")
      (auto simp: tx_outcb_write_def with_ops_def epoll_fns_def kqueue_fns_def port_fns_def split: if_splits)
qed

text \<open>What a round that waits has asked for: input when the buffer is empty, room in the output when it is not.\<close>

definition waits_for :: "pipe_env \<Rightarrow> aiocb_p \<Rightarrow> aiocb_p option \<Rightarrow> task_p \<Rightarrow> tx_pipling_t \<Rightarrow> tx_mem \<Rightarrow> bool" where
  "waits_for env f t sk p s \<longleftrightarrow>
     (if pending_bytes p = [] then \<exists>n s0. \<not> tx_readable s0 f \<and> tx_aincb_active f sk (p_calls env n) s0 = Inr s
      else \<exists>n a s0. t = Some a \<and> \<not> tx_writable s0 a \<and> tx_outcb_prepare a sk (p_calls env n) s0 = Inr s)"

lemma pending_iff: "pipling_ok n p \<Longrightarrow> pending_bytes p = [] \<longleftrightarrow> pl_off p = pl_len p"
  by (auto simp: pending_bytes_def pipling_ok_def)

lemma pipe_drain_piped:
  assumes ok: "pipe_ok env" and p: "piped 131072 p l" and r: "pipe_drain env n t sk (p, l, s) = Inr (w, p1, l1, s1)"
  shows "piped 131072 p1 l1 \<and> (w = Wait \<longrightarrow> waits_for env f t sk p1 s1) \<and> bytes_read l1 = bytes_read l"
proof (cases "pl_off p < pl_len p")
  case False
  then show ?thesis using r p by (auto simp: pipe_drain_def)
next
  case True
  have pp: "pipling_ok 131072 p" using p by (simp add: piped_def)
  have ne: "pending_bytes p \<noteq> []" using True pending_iff [OF pp] by simp
  show ?thesis
  proof (cases t)
    case None
    have "snd (p_file env n (pl_len p - pl_off p)) \<le> pl_len p - pl_off p" using ok by (simp add: pipe_ok_def)
    from piped_take [OF p this] show ?thesis using r p True None
      by (auto simp: pipe_drain_def pipe_take_def split: prod.splits if_splits)
  next
    case (Some a)
    show ?thesis
    proof (cases "tx_writable s a")
      case False
      then show ?thesis using r p True Some ne by (auto simp: pipe_drain_def res_bind_Inr_iff waits_for_def)
    next
      case w: True
      then obtain err s2 where o: "tx_outcb_write a (pending_bytes p) (p_send env n (pl_len p - pl_off p)) s = Inr (err, s2)"
        and e: "(if err = -1 \<and> tx_writable s2 a then Inr (BreakOff, (p, l, s2))
              else Inr (GoOn, pipe_take (if err = -1 then 0 else nat err) s2 (p, l, s))) = (Inr (w, p1, l1, s1) :: (round_end \<times> pipe_state) res)"
        using r True Some by (auto simp: pipe_drain_def res_bind_Inr_iff)
      have "fst (p_send env n (pl_len p - pl_off p) 0) \<ge> -1"
        "fst (p_send env n (pl_len p - pl_off p) 0) \<le> int (length (pending_bytes p))"
        using ok unfolding pending_length [OF pp] by (simp_all add: pipe_ok_def)
      from outcb_write_bound [OF o this] have "(if err = -1 then 0 else nat err) \<le> pl_len p - pl_off p"
        unfolding pending_length [OF pp] by auto
      from piped_take [OF p this] show ?thesis using e p by (auto simp: pipe_take_def split: if_splits)
    qed
  qed
qed

lemma pipe_round_piped:
  assumes ok: "pipe_ok env" and p: "piped 131072 p l" and r: "pipe_round env n f t sk (p, l, s) = Inr (w, p1, l1, s1)"
  shows "piped 131072 p1 l1 \<and> (w = Wait \<longrightarrow> waits_for env f t sk p1 s1)"
proof (cases "pl_off p = pl_len p")
  case False
  then show ?thesis using r pipe_drain_piped [OF ok p] by (auto simp: pipe_round_def)
next
  case True
  show ?thesis
  proof (cases "tx_readable s f")
    case False
    have "pending_bytes p = []" using p True pending_none [of 131072 p] by (simp add: piped_def)
    then show ?thesis using r p True False by (auto simp: pipe_round_def res_bind_Inr_iff waits_for_def)
  next
    case rd: True
    let ?b = "case p_recv env n of Inl b \<Rightarrow> b | Inr _ \<Rightarrow> []"
    have b: "length ?b \<le> 131072" using ok by (auto simp: pipe_ok_def split: sum.splits)
    obtain stop q k s2 where fill: "pipe_fill (p_recv env n) f (p, l, s) = (stop, q, k, s2)" by (metis prod_cases4)
    have q: "piped 131072 q k"
      using fill p piped_fill [OF p True b] piped_eof [OF p] by (auto simp: pipe_fill_def Let_def split: if_splits)
    show ?thesis
      using r True rd q pipe_drain_piped [OF ok q, of n t sk s2 w p1 l1 s1 f] by (auto simp: pipe_round_def fill split: if_splits)
  qed
qed

lemma pipe_loop_piped:
  assumes "pipe_ok env" and "piped 131072 p l" and "pipe_loop env n f t sk (p, l, s) = Some (Inr (r, p1, l1, s1))"
  shows "piped 131072 p1 l1 \<and> (r = 1 \<longrightarrow> waits_for env f t sk p1 s1)"
proof -
  have "env' = env \<longrightarrow> f' = f \<longrightarrow> t' = t \<longrightarrow> sk' = sk \<longrightarrow> piped 131072 (fst st) (fst (snd st)) \<longrightarrow>
      (\<forall>r p1 l1 s1. x = Inr (r, p1, l1, s1) \<longrightarrow> piped 131072 p1 l1 \<and> (r = 1 \<longrightarrow> waits_for env f t sk p1 s1))"
    if "pipe_loop env' n f' t' sk' st = Some x" for env' f' t' sk' st x
    using that
  proof (induction env' n f' t' sk' st x rule: pipe_loop.raw_induct [rotated, consumes 1, case_names 1])
    case (1 rec env' n f' t' sk' st x)
    show ?case
    proof (intro impI)
      assume e: "env' = env" "f' = f" "t' = t" "sk' = sk" and p: "piped 131072 (fst st) (fst (snd st))"
      obtain q k m where st: "st = (q, k, m)" by (metis prod_cases3)
      show "\<forall>r p1 l1 s1. x = Inr (r, p1, l1, s1) \<longrightarrow> piped 131072 p1 l1 \<and> (r = 1 \<longrightarrow> waits_for env f t sk p1 s1)"
      proof (cases "\<not> pl_eof q \<or> pl_off q < pl_len q")
        case False
        then show ?thesis using 1(2) p by (auto simp: st)
      next
        case True
        show ?thesis
        proof (cases "pipe_round env n f t sk st")
          case (Inl a)
          then show ?thesis using 1(2) True by (auto simp: st e)
        next
          case (Inr y)
          obtain w q1 k1 m1 where y: "y = (w, q1, k1, m1)" by (metis prod_cases4)
          have pr: "piped 131072 q1 k1" "w = Wait \<Longrightarrow> waits_for env f t sk q1 m1"
            using pipe_round_piped [OF assms(1), of q k n f t sk m w q1 k1 m1] p Inr by (auto simp: st y)
          show ?thesis
          proof (cases w)
            case GoOn
            then have "rec env (n + 1) f t sk (q1, k1, m1) = Some x" using 1(2) True Inr by (simp add: st e y)
            from 1(1) [OF this] show ?thesis using pr(1) by simp
          qed (use 1(2) True Inr pr in \<open>auto simp: st e y\<close>)
        qed
      qed
    qed
  qed
  from this [OF assms(3)] assms(2) show ?thesis by simp
qed

text \<open>C31. The loop of netcat between a socket and its other end keeps the stream: when it returns, the bytes read since it
  started are the bytes the output took followed by those still in its buffer, no more than 128 KB; and it has
  returned 1 only after asking to be called again, for input if the buffer is empty and for room in the output if not.\<close>
theorem pipling_keeps_stream:
  assumes "pipe_ok env" and "piped 131072 p l" and "pipe_loop env n f t sk (p, l, s) = Some (Inr (r, p1, l1, s1))"
  shows "piped 131072 p1 l1 \<and> (r = 1 \<longrightarrow> waits_for env f t sk p1 s1)"
  by (rule pipe_loop_piped [OF assms])

text \<open>A socket block that waits in the poller already.\<close>

definition pipe_demo :: tx_mem where
  "pipe_demo = upd_filp (Aiocb 0) (\<lambda>f. f\<lparr>filp_flags := TX_POLLIN, tx_fops := GenericFops\<rparr>) zero_mem"

definition pipe_demo_env :: pipe_env where
  "pipe_demo_env = \<lparr>p_recv = (\<lambda>n. Inl [1]), p_file = (\<lambda>n m. (True, m)), p_send = (\<lambda>n m i. (0, 0)), p_calls = (\<lambda>n i. (0, 0))\<rparr>"

lemma pipe_demo_run:
  "pipe_loop pipe_demo_env 0 (Aiocb 0) t (Task 0) (\<lparr>pl_eof = False, pl_off = 0, pl_len = 0, pl_buf = []\<rparr>,
     \<lparr>bytes_read = [], bytes_taken = []\<rparr>, pipe_demo) =
   Some (Inr (1, \<lparr>pl_eof = False, pl_off = 0, pl_len = 0, pl_buf = []\<rparr>, \<lparr>bytes_read = [], bytes_taken = []\<rparr>,
     upd_filp (Aiocb 0) (\<lambda>f. f\<lparr>tx_filterin := Some (Task 0)\<rparr>) pipe_demo))"
proof -
  have "fl pipe_demo (Aiocb 0) = TX_POLLIN" "tx_fops (filp pipe_demo (Aiocb 0)) = GenericFops" "tx_filterin (filp pipe_demo (Aiocb 0)) = None"
    by (simp_all add: pipe_demo_def upd_filp_def upd_io_def zero_mem_def zero_io_def)
  then have "tx_aincb_active (Aiocb 0) (Task 0) k pipe_demo =
      Inr (upd_filp (Aiocb 0) (\<lambda>f. f\<lparr>tx_filterin := Some (Task 0)\<rparr>) pipe_demo)" "\<not> tx_readable pipe_demo (Aiocb 0)" for k
    by (simp_all add: tx_aincb_active_def generic_active_in_def tx_readable_def flags upd_filp_def upd_io_def)
  then show ?thesis by (subst pipe_loop.simps) (simp add: pipe_round_def)
qed

lemma pipling_keeps_stream_witness:
  "waits_for pipe_demo_env (Aiocb 0) None (Task 0) \<lparr>pl_eof = False, pl_off = 0, pl_len = 0, pl_buf = []\<rparr>
     (upd_filp (Aiocb 0) (\<lambda>f. f\<lparr>tx_filterin := Some (Task 0)\<rparr>) pipe_demo)"
proof -
  have "pipe_ok pipe_demo_env" by (simp add: pipe_ok_def pipe_demo_env_def)
  moreover have "piped 131072 \<lparr>pl_eof = False, pl_off = 0, pl_len = 0, pl_buf = []\<rparr> \<lparr>bytes_read = [], bytes_taken = []\<rparr>"
    by (simp add: piped_def pipling_ok_def pending_bytes_def)
  ultimately show ?thesis using pipling_keeps_stream [OF _ _ pipe_demo_run] by blast
qed

text \<open>netcat stops as soon as one direction is done: once the standard input has ended and all of it was sent, the
  first call of \<open>update_netcat\<close> that returns stops the loop, whatever the other direction still has to receive or to
  write.\<close>
theorem netcat_stops_half_closed:
  assumes "pl_eof s2n" and "pl_off s2n = pl_len s2n"
    and "update_netcat env file file2 task ((s2n, l1), n2s) s = Some (Inr (pl, s'))"
  shows "tx_stop (loops s' (loop_of s' task)) \<noteq> 0"
proof -
  have "pipe_loop (fst env) 0 file2 (Some file) task (s2n, l1, s) = Some (Inr (0, s2n, l1, s))"
    using assms(1,2) by (subst pipe_loop.simps) simp
  then obtain r2 :: "(int \<times> pipe_state) res" where "(case r2 of Inl e \<Rightarrow> Some (Inl e)
      | Inr (d2, p2, m2, s2) \<Rightarrow> Some (Inr (((s2n, l1), (p2, m2)), tx_loop_stop (tx_loop_get task s2) s2))) = Some (Inr (pl, s'))"
    using assms(3) by (cases n2s) (auto simp: update_netcat_def bind_eq_Some_conv)
  then show ?thesis
    by (cases r2) (auto simp: tx_loop_stop_def upd_loop_def tx_loop_get_def)
qed

lemma netcat_stops_half_closed_witness:
  "\<exists>pl s'. update_netcat (pipe_demo_env, pipe_demo_env) (Aiocb 0) (Aiocb 1) (Task 0)
     ((\<lparr>pl_eof = True, pl_off = 0, pl_len = 0, pl_buf = []\<rparr>, \<lparr>bytes_read = [], bytes_taken = []\<rparr>),
      (\<lparr>pl_eof = False, pl_off = 0, pl_len = 0, pl_buf = []\<rparr>, \<lparr>bytes_read = [], bytes_taken = []\<rparr>)) pipe_demo = Some (Inr (pl, s')) \<and>
     tx_stop (loops s' (loop_of s' (Task 0))) \<noteq> 0"
proof -
  let ?u = "update_netcat (pipe_demo_env, pipe_demo_env) (Aiocb 0) (Aiocb 1) (Task 0)
     ((\<lparr>pl_eof = True, pl_off = 0, pl_len = 0, pl_buf = []\<rparr>, \<lparr>bytes_read = [], bytes_taken = []\<rparr>),
      (\<lparr>pl_eof = False, pl_off = 0, pl_len = 0, pl_buf = []\<rparr>, \<lparr>bytes_read = [], bytes_taken = []\<rparr>)) pipe_demo"
  have "\<exists>pl s'. ?u = Some (Inr (pl, s'))"
    unfolding update_netcat_def
    by (subst pipe_loop.simps) (simp add: pipe_demo_run)
  then obtain pl s' where u: "?u = Some (Inr (pl, s'))" by blast
  from u netcat_stops_half_closed [OF _ _ u] show ?thesis by (intro exI conjI) simp_all
qed

end
