(* ===== verification/TxNetcat.thy ===== *)
theory TxNetcat
  imports TxPipe TxNcat TxTimer "HOL-Library.Sublist"
begin

text \<open>
  \<open>netcat.cpp\<close> as a whole: the operations of the threads on handles and on sockets, \<open>tx_stdio_start\<close> and
  \<open>tx_stdio_stop\<close>, and \<open>main\<close> with its two ways of working: two threads between the socket and the standard
  streams (option \<open>blkio\<close>), or the loop of the library on a completion port between the socket and one end of
  a pair of sockets, with the threads at its other end. The loops themselves are in \<open>TxPipe\<close>. The program
  is the system of its threads and its loop, in any interleaving.
\<close>

section \<open>Handles and sockets\<close>

text \<open>
  The answers of \<open>ReadFile\<close> (the bytes it transferred) and \<open>recv\<close> in each round of a thread, and of \<open>WriteFile\<close>
  and \<open>send\<close> when given so many bytes.
\<close>

record nc_sys =
  sys_ReadFile :: "nat \<Rightarrow> bool \<times> bytes"
  sys_recv :: "nat \<Rightarrow> bytes option"
  sys_WriteFile :: "nat \<Rightarrow> nat \<Rightarrow> bool \<times> nat"
  sys_send :: "nat \<Rightarrow> nat \<Rightarrow> int"

datatype nc_call =
    NcNet net_call
  | NcPair sock_call
  | NcThread int          \<comment> \<open>\<open>CreateThread\<close>, which returned this handle\<close>
  | NcWait int int
  | NcCloseHandle int
  | NcShutdown int
  | NcCloseSocket int
  | NcCleanup

definition p_handle_read :: "nc_sys \<Rightarrow> nat \<Rightarrow> read_answer" where
  "p_handle_read y n = (case sys_ReadFile y n of (callok, b) \<Rightarrow> if callok then Bytes b else ReadError)"

definition p_handle_write :: "nc_sys \<Rightarrow> nat \<Rightarrow> nat \<Rightarrow> int" where
  "p_handle_write y n len = (case sys_WriteFile y n len of (callok, transfer) \<Rightarrow> if callok then int transfer else -1)"

definition p_handle_close :: "int \<Rightarrow> nc_call list" where
  "p_handle_close upp = [NcCloseHandle upp]"

definition p_network_read :: "nc_sys \<Rightarrow> nat \<Rightarrow> read_answer" where
  "p_network_read y n = (case sys_recv y n of Some b \<Rightarrow> Bytes b | None \<Rightarrow> ReadError)"

definition p_network_write :: "nc_sys \<Rightarrow> nat \<Rightarrow> nat \<Rightarrow> int" where
  "p_network_write y n len = sys_send y n len"

definition p_network_close :: "int \<Rightarrow> nc_call list" where
  "p_network_close upp = [NcShutdown upp, NcCloseSocket upp]"

text \<open>\<open>_handle_ops\<close> and \<open>_network_ops\<close>, and the calls through them.\<close>

datatype pipling_ops = HandleOps | NetworkOps

record pipling_file =
  p_upp :: int
  p_ops :: pipling_ops

definition P_READ :: "pipling_file \<Rightarrow> nc_sys \<Rightarrow> nat \<Rightarrow> read_answer" where
  "P_READ p y n = (case p_ops p of HandleOps \<Rightarrow> p_handle_read y n | NetworkOps \<Rightarrow> p_network_read y n)"

definition P_WRITE :: "pipling_file \<Rightarrow> nc_sys \<Rightarrow> nat \<Rightarrow> nat \<Rightarrow> int" where
  "P_WRITE p y n len = (case p_ops p of HandleOps \<Rightarrow> p_handle_write y n len | NetworkOps \<Rightarrow> p_network_write y n len)"

definition P_CLOSE :: "pipling_file \<Rightarrow> nc_call list" where
  "P_CLOSE p = (case p_ops p of HandleOps \<Rightarrow> p_handle_close (p_upp p) | NetworkOps \<Rightarrow> p_network_close (p_upp p))"

type_synonym plu = "pipling_file \<times> pipling_file"

definition plu_env :: "plu \<Rightarrow> nc_sys \<Rightarrow> thread_env" where
  "plu_env plu y = (P_READ (fst plu) y, P_WRITE (snd plu) y)"

text \<open>The thread function \<open>pipling\<close>: the loop, then the output is closed.\<close>

definition pipling_thread :: "plu \<Rightarrow> nc_sys \<Rightarrow> (tx_pipling_t \<times> pipe_log \<times> nc_call list) option" where
  "pipling_thread plu y = map_option (\<lambda>(p, l). (p, l, P_CLOSE (snd plu))) (thread_pipling (plu_env plu y))"

section \<open>The threads of the program\<close>

text \<open>What \<open>GetStdHandle\<close> and \<open>CreateThread\<close> return; \<open>handle[1]\<close> stays \<open>NULL\<close> without the second thread.\<close>

record nc_handles =
  std_input :: int
  std_output :: int
  thread0 :: int
  thread1 :: int

record nc_threads =
  s2n_plu :: plu
  n2s_plu :: "plu option"
  handle0 :: int
  handle1 :: int

definition tx_stdio_start :: "nc_handles \<Rightarrow> int \<Rightarrow> bool \<Rightarrow> nc_threads \<times> nc_call list" where
  "tx_stdio_start k fd threadout =
     (let i = \<lparr>p_upp = std_input k, p_ops = HandleOps\<rparr>;
          n = \<lparr>p_upp = fd, p_ops = NetworkOps\<rparr>
      in if \<not> threadout then
           (\<lparr>s2n_plu = (i, n), n2s_plu = None, handle0 = thread0 k, handle1 = 0\<rparr>, [NcThread (thread0 k)])
         else
           let o' = \<lparr>p_upp = std_output k, p_ops = HandleOps\<rparr>
           in (\<lparr>s2n_plu = (i, n), n2s_plu = Some (n, o'), handle0 = thread0 k, handle1 = thread1 k\<rparr>,
               [NcThread (thread0 k), NcThread (thread1 k)]))"

definition tx_stdio_stop :: "nc_threads \<Rightarrow> nc_call list" where
  "tx_stdio_stop h = [NcCloseHandle (handle0 h), NcCloseHandle (handle1 h)]"

section \<open>The loop\<close>

text \<open>The members of the global \<open>netcat\<close> and what the program allocates.\<close>

abbreviation (input) nc_task :: task_p where "nc_task \<equiv> Task 0"
abbreviation (input) nc_file :: aiocb_p where "nc_file \<equiv> Aiocb 0"
abbreviation (input) nc_file2 :: aiocb_p where "nc_file2 \<equiv> Aiocb 1"
abbreviation (input) nc_timer :: timer_p where "nc_timer \<equiv> Timer 0"
abbreviation (input) nc_port :: port_p where "nc_port \<equiv> Port 0"
abbreviation (input) nc_ring :: ring_p where "nc_ring \<equiv> Ring 0"

type_synonym nc_flow = "tx_pipling_t \<times> pipe_log"

definition empty_flow :: nc_flow where
  "empty_flow = (\<lparr>pl_eof = False, pl_off = 0, pl_len = 0, pl_buf = []\<rparr>, \<lparr>bytes_read = [], bytes_taken = []\<rparr>)"

text \<open>
  What one call through a task meets: the milliseconds of the counter at the two readings of a timer polling,
  the completion port's packets, and what the two directions of \<open>update_netcat\<close> meet.
\<close>

record nc_env =
  nc_ms :: "int \<times> int"
  nc_kernel :: port_kernel
  nc_pipes :: "pipe_env \<times> pipe_env"

text \<open>The call through \<open>task->tx_call\<close>; the buffers \<open>s2n\<close> and \<open>n2s\<close> live outside the memory of the library.\<close>

fun netcat_run :: "nc_env \<Rightarrow> nc_flow \<times> nc_flow \<Rightarrow> call_p \<Rightarrow> void_p \<Rightarrow> tx_mem \<Rightarrow> ((nc_flow \<times> nc_flow) \<times> tx_mem) res" where
  "netcat_run e pl (UserCall 0) _ s =
     res_bind (opt_res (update_netcat (nc_pipes e) nc_file nc_file2 nc_task pl s)) id"
| "netcat_run e pl TimerPolling (VRing r) s =
     (if \<not> ring_live s r then Inl UseAfterFree
      else res_bind (opt_res (tx_timer_polling r (win_reading (fst (nc_ms e))) (win_reading (snd (nc_ms e))) s)) (\<lambda>s1. Inr (pl, s1)))"
| "netcat_run e pl PortPolling (VPort p) s =
     res_bind (opt_res (tx_completion_port_polling p (nc_kernel e) s)) (\<lambda>r. res_bind r (\<lambda>s1. Inr (pl, s1)))"
| "netcat_run e pl _ _ s = Inl NullDeref"

text \<open>
  One iteration of \<open>tx_loop_main\<close>, which knows nothing of the buffers: they change as the call it makes
  changes them.
\<close>

definition netcat_called :: "nc_env \<Rightarrow> loop_p \<Rightarrow> nc_flow \<times> nc_flow \<Rightarrow> tx_mem \<Rightarrow> nc_flow \<times> nc_flow" where
  "netcat_called e loop pl s =
     (case lh_first (tq s) (LoopQ loop) of
        None \<Rightarrow> pl
      | Some t \<Rightarrow>
          if t = Phony loop then pl
          else
            let s1 = loop_take loop t (on_tq (LIST_REMOVE t) s) in
            case netcat_run e pl (task_call (tasks s1 t)) (task_data (tasks s1 t)) s1 of
              Inl _ \<Rightarrow> pl
            | Inr (pl1, _) \<Rightarrow> pl1)"

definition netcat_turn :: "nc_env \<Rightarrow> loop_p \<Rightarrow> bool \<Rightarrow> nc_flow \<times> nc_flow \<Rightarrow> tx_mem \<Rightarrow> (turn \<times> nc_flow \<times> nc_flow) res" where
  "netcat_turn e loop fr pl s =
     res_bind (tx_loop_turn (\<lambda>c d s. res_bind (netcat_run e pl c d s) (\<lambda>r. Inr (snd r))) loop fr s)
       (\<lambda>t. Inr (t, netcat_called e loop pl s))"

section \<open>main\<close>

text \<open>
  What the calls of \<open>main\<close> return: the handle of the new completion port, the counter, what happens in the two
  \<open>tx_aiocb_init\<close> and \<open>tx_aincb_active\<close>, and what \<open>tx_aiocb_fini\<close> meets.
\<close>

record nc_boot =
  b_port :: int
  b_ms :: int
  b_init :: "nat \<Rightarrow> kres"
  b_init2 :: "nat \<Rightarrow> kres"
  b_active2 :: "nat \<Rightarrow> kres"
  b_active :: "nat \<Rightarrow> kres"
  b_fini :: "nat \<Rightarrow> kres"

text \<open>The set-up of the loop with the socket and the descriptor the loop reads.\<close>

definition netcat_setup :: "nc_boot \<Rightarrow> int \<Rightarrow> int \<Rightarrow> tx_mem \<Rightarrow> (loop_p \<times> tx_mem) res" where
  "netcat_setup b net_fd fd0 s =
     (let (loop, s1) = tx_loop_default s in
      res_bind (opt_res (tx_completion_port_init (Some nc_port) (b_port b) loop s1)) (\<lambda>(poll, s2).
      res_bind (opt_res (tx_timer_ring_get nc_ring (win_reading (b_ms b)) loop s2)) (\<lambda>(provider, s3).
      let s4 = tx_task_init nc_task loop (UserCall 0) (VUser 0) s3 in
      res_bind (tx_aiocb_init nc_file loop net_fd (b_init b) s4) (\<lambda>s5.
      res_bind (tx_aiocb_init nc_file2 loop fd0 (b_init2 b) s5) (\<lambda>s6.
      let s7 = tx_timer_init nc_timer provider (Some nc_task) s6 in
      res_bind (tx_aincb_active nc_file2 nc_task (b_active2 b) s7) (\<lambda>s8.
      res_bind (tx_aincb_active nc_file nc_task (b_active b) s8) (\<lambda>s9. Inr (loop, s9))))))))"

text \<open>How \<open>main\<close> goes on after its checks: \<open>NcExit\<close> is \<open>return\<close>.\<close>

datatype nc_begin =
    NcExit int
  | NcBlocking nc_threads
  | NcLooping nc_threads int loop_p tx_mem

definition netcat_main ::
    "resolver \<Rightarrow> net_answers \<Rightarrow> pair_answers \<Rightarrow> nc_handles \<Rightarrow> nc_boot \<Rightarrow> int \<times> int \<Rightarrow> string list \<Rightarrow> tx_mem \<Rightarrow>
     (nc_call list \<times> nc_begin) res" where
  "netcat_main R k pk h b stack argv s =
     res_bind (get_cat_context R argv) (\<lambda>r. case r of
       None \<Rightarrow> Inr ([], NcExit 1)
     | Some upp \<Rightarrow>
         (case win_pipe pk stack of (error, filds, pcalls) \<Rightarrow>
          let c1 = map NcPair pcalls in
          if error = -1 then Inr (c1, NcExit 1)
          else res_bind (get_cat_socket k upp) (\<lambda>(net_fd, ncalls).
            let c2 = c1 @ map NcNet ncalls in
            if net_fd < 0 then Inr (c2, NcExit 1)
            else
              let blkio = get_cat_options upp ''blkio'' in
              if blkio \<noteq> None \<and> blkio \<noteq> Some '''' then
                let (th, tcalls) = tx_stdio_start h net_fd True
                in Inr (c2 @ tcalls @ [NcWait (handle0 th) (handle1 th)], NcBlocking th)
              else
                let off = get_cat_options upp ''write'';
                    (th, tcalls) = tx_stdio_start h (snd filds) (off = None \<or> off \<noteq> Some ''off'')
                in res_bind (netcat_setup b net_fd (fst filds) s) (\<lambda>(loop, s1).
                   Inr (c2 @ tcalls, NcLooping th net_fd loop (on_tq (LIST_INSERT_BEFORE (Tailer loop) (Phony loop)) s1))))))"

text \<open>The end of \<open>main\<close>: after the wait for the threads, and after the loop. Both return the exit status.\<close>

definition netcat_blocking_end :: "nc_threads \<Rightarrow> nc_call list \<times> int" where
  "netcat_blocking_end th = (tx_stdio_stop th, 0)"

definition netcat_teardown :: "nc_boot \<Rightarrow> nc_threads \<Rightarrow> int \<Rightarrow> loop_p \<Rightarrow> tx_mem \<Rightarrow> (nc_call list \<times> tx_mem \<times> int) res" where
  "netcat_teardown b th net_fd loop s =
     (let s0 = on_tq (LIST_REMOVE (Phony loop)) s in
      res_bind (tx_aincb_stop nc_file2 (VTask nc_task) s0) (\<lambda>s1.
      res_bind (tx_aincb_stop nc_file (VTask nc_task) s1) (\<lambda>s2.
      let s3 = tx_timer_stop nc_timer s2 in
      res_bind (tx_aiocb_fini nc_file2 (b_fini b) s3) (\<lambda>s4.
      res_bind (tx_aiocb_fini nc_file (b_fini b) s4) (\<lambda>s5.
      Inr (tx_stdio_stop th @ [NcShutdown net_fd, NcCloseSocket net_fd, NcCleanup], snd (tx_loop_delete loop s5), 1))))))"

section \<open>The program as a system of its threads and its loop\<close>

text \<open>
  A thread between two rounds of its loop, and the loop of \<open>main\<close> where it evaluates its condition. What the
  end of the pair that is read gets is what was written to the other end, in order: the bytes read are at
  every moment a prefix of those taken by the other side. Everything else that the system calls answer is arbitrary.
\<close>

record nc_thread =
  th_done :: bool
  th_flow :: nc_flow

definition thread_step :: "thread_env \<Rightarrow> nc_thread \<Rightarrow> nc_thread" where
  "thread_step env t =
     (case th_flow t of (p, l) \<Rightarrow>
      if \<not> pl_eof p \<or> pl_off p < pl_len p then
        (case thread_round env 0 p l of (stop, p1, l1) \<Rightarrow> \<lparr>th_done = stop, th_flow = (p1, l1)\<rparr>)
      else t\<lparr>th_done := True\<rparr>)"

record netcat_state =
  ns_in :: nc_thread
  ns_out :: "nc_thread option"
  ns_first :: bool
  ns_flows :: "nc_flow \<times> nc_flow"
  ns_mem :: tx_mem

definition thread_begin :: nc_thread where
  "thread_begin = \<lparr>th_done = False, th_flow = empty_flow\<rparr>"

definition netcat_begin :: "nc_threads \<Rightarrow> tx_mem \<Rightarrow> netcat_state" where
  "netcat_begin th s =
     \<lparr>ns_in = thread_begin, ns_out = map_option (\<lambda>_. thread_begin) (n2s_plu th), ns_first = True,
      ns_flows = (empty_flow, empty_flow), ns_mem = s\<rparr>"

abbreviation flow_read :: "nc_flow \<Rightarrow> bytes" where "flow_read w \<equiv> bytes_read (snd w)"
abbreviation flow_taken :: "nc_flow \<Rightarrow> bytes" where "flow_taken w \<equiv> bytes_taken (snd w)"
abbreviation flow_pending :: "nc_flow \<Rightarrow> bytes" where "flow_pending w \<equiv> pending_bytes (fst w)"

inductive netcat_step :: "nc_threads \<Rightarrow> loop_p \<Rightarrow> netcat_state \<Rightarrow> netcat_state \<Rightarrow> bool" for th loop where
  nc_in: "\<not> th_done (ns_in y) \<Longrightarrow> thread_ok (plu_env (s2n_plu th) e) \<Longrightarrow>
    netcat_step th loop y (y\<lparr>ns_in := thread_step (plu_env (s2n_plu th) e) (ns_in y)\<rparr>)"
| nc_out: "ns_out y = Some t \<Longrightarrow> \<not> th_done t \<Longrightarrow> n2s_plu th = Some plu \<Longrightarrow> thread_ok (plu_env plu e) \<Longrightarrow>
    t' = thread_step (plu_env plu e) t \<Longrightarrow> prefix (flow_read (th_flow t')) (flow_taken (snd (ns_flows y))) \<Longrightarrow>
    netcat_step th loop y (y\<lparr>ns_out := Some t'\<rparr>)"
| nc_loop: "tx_stop (loops (ns_mem y) loop) = 0 \<or> ns_first y \<Longrightarrow>
    pipe_ok (fst (nc_pipes e)) \<Longrightarrow> pipe_ok (snd (nc_pipes e)) \<Longrightarrow>
    netcat_turn e loop (ns_first y) (ns_flows y) (ns_mem y) = Inr (Again fr s, pl) \<Longrightarrow>
    prefix (flow_read (fst pl)) (flow_taken (th_flow (ns_in y))) \<Longrightarrow>
    netcat_step th loop y (y\<lparr>ns_first := fr, ns_flows := pl, ns_mem := s\<rparr>)"

section \<open>What the program keeps\<close>

lemma thread_round_grows:
  assumes "thread_round env n p l = (stop, p1, l1)"
  shows "prefix (bytes_taken l) (bytes_taken l1)"
  using assms by (auto simp: thread_round_def Let_def split: if_splits read_answer.splits)

lemma thread_step_flow:
  assumes ok: "thread_ok env" and t: "case_prod (piped 8192) (th_flow t)"
  shows "case_prod (piped 8192) (th_flow (thread_step env t))"
    and "prefix (flow_taken (th_flow t)) (flow_taken (th_flow (thread_step env t)))"
proof -
  obtain p l where pl: "th_flow t = (p, l)" by fastforce
  obtain stop p1 l1 where r: "thread_round env 0 p l = (stop, p1, l1)" by (metis prod_cases3)
  have "piped 8192 p1 l1" using thread_round_piped [OF ok _ r] t by (simp add: pl)
  then show "case_prod (piped 8192) (th_flow (thread_step env t))" using t by (simp add: thread_step_def pl r)
  show "prefix (flow_taken (th_flow t)) (flow_taken (th_flow (thread_step env t)))"
    using thread_round_grows [OF r] by (simp add: thread_step_def pl r)
qed

text \<open>What every round of the loop on blocks keeps, the loop keeps.\<close>

lemma pipe_loop_keeps:
  assumes step: "\<And>n st w st1. P st \<Longrightarrow> pipe_round env n f t sk st = Inr (w, st1) \<Longrightarrow> P st1"
    and run: "pipe_loop env n f t sk st = Some (Inr (r, st1))" and "P st"
  shows "P st1"
proof -
  have "env' = env \<longrightarrow> f' = f \<longrightarrow> t' = t \<longrightarrow> sk' = sk \<longrightarrow> P st \<longrightarrow> (\<forall>r st1. x = Inr (r, st1) \<longrightarrow> P st1)"
    if "pipe_loop env' n f' t' sk' st = Some x" for env' f' t' sk' st x
    using that
  proof (induction env' n f' t' sk' st x rule: pipe_loop.raw_induct [rotated, consumes 1, case_names 1])
    case (1 rec env' n f' t' sk' st x)
    show ?case
    proof (intro impI)
      assume e: "env' = env" "f' = f" "t' = t" "sk' = sk" and p: "P st"
      show "\<forall>r st1. x = Inr (r, st1) \<longrightarrow> P st1"
      proof (cases "\<not> pl_eof (fst st) \<or> pl_off (fst st) < pl_len (fst st)")
        case False
        then show ?thesis using 1(2) p by auto
      next
        case True
        show ?thesis
        proof (cases "pipe_round env n f t sk st")
          case (Inl a)
          then show ?thesis using 1(2) True by (auto simp: e)
        next
          case (Inr y)
          obtain w st2 where y: "y = (w, st2)" by (rule prod.exhaust)
          have p2: "P st2" using step [OF p] Inr y by blast
          show ?thesis
          proof (cases w)
            case GoOn
            then have "rec env (n + 1) f t sk st2 = Some x" using 1(2) True Inr by (simp add: e y)
            from 1(1) [OF this] show ?thesis using p2 by simp
          qed (use 1(2) True Inr p2 in \<open>auto simp: e y\<close>)
        qed
      qed
    qed
  qed
  from this [OF run] assms(3) show ?thesis by (cases st1) simp
qed

lemma pipe_drain_grows:
  "pipe_drain env n t sk (p, l, s) = Inr (w, p1, l1, s1) \<Longrightarrow> prefix (bytes_taken l) (bytes_taken l1)"
  by (auto simp: pipe_drain_def pipe_take_def res_bind_Inr_iff split: option.splits prod.splits if_splits)

lemma pipe_round_grows:
  assumes "pipe_round env n f t sk (p, l, s) = Inr (w, p1, l1, s1)"
  shows "prefix (bytes_taken l) (bytes_taken l1)"
proof (cases "pl_off p = pl_len p \<and> tx_readable s f")
  case True
  obtain stop q k s2 where fill: "pipe_fill (p_recv env n) f (p, l, s) = (stop, q, k, s2)" by (metis prod_cases4)
  have k: "bytes_taken k = bytes_taken l" using fill by (auto simp: pipe_fill_def Let_def split: if_splits)
  show ?thesis using assms True k pipe_drain_grows [of env n t sk q k s2]
    by (auto simp: pipe_round_def fill split: if_splits)
next
  case False
  then show ?thesis using assms pipe_drain_grows [of env n t sk p l s]
    by (auto simp: pipe_round_def res_bind_Inr_iff split: if_splits)
qed

lemma pipe_loop_grows:
  assumes "pipe_loop env n f t sk (p, l, s) = Some (Inr (r, p1, l1, s1))"
  shows "prefix (bytes_taken l) (bytes_taken l1)"
proof -
  have "prefix (bytes_taken l) (bytes_taken (fst (snd (p1, l1, s1))))"
  proof (rule pipe_loop_keeps [OF _ assms, where P = "\<lambda>st. prefix (bytes_taken l) (bytes_taken (fst (snd st)))"])
    fix n st w st1
    assume "prefix (bytes_taken l) (bytes_taken (fst (snd st)))" "pipe_round env n f t sk st = Inr (w, st1)"
    then show "prefix (bytes_taken l) (bytes_taken (fst (snd st1)))"
      using pipe_round_grows [of env n f t sk "fst st" "fst (snd st)" "snd (snd st)" w "fst st1" "fst (snd st1)" "snd (snd st1)"]
      by (auto intro: prefix_order.trans)
  qed simp
  then show ?thesis by simp
qed

text \<open>\<open>update_netcat\<close>, and with it an iteration of the loop, keeps both streams.\<close>

definition flows_ok :: "nc_flow \<times> nc_flow \<Rightarrow> bool" where
  "flows_ok pl \<longleftrightarrow> case_prod (piped 131072) (fst pl) \<and> case_prod (piped 131072) (snd pl)"

definition flows_grow :: "nc_flow \<times> nc_flow \<Rightarrow> nc_flow \<times> nc_flow \<Rightarrow> bool" where
  "flows_grow pl pl' \<longleftrightarrow> prefix (flow_taken (fst pl)) (flow_taken (fst pl')) \<and> prefix (flow_taken (snd pl)) (flow_taken (snd pl'))"

lemma update_netcat_flows:
  assumes "pipe_ok (fst env)" and "pipe_ok (snd env)" and "flows_ok pl"
    and "update_netcat env file file2 task pl s = Some (Inr (pl', s'))"
  shows "flows_ok pl'" and "flows_grow pl pl'"
proof -
  obtain s2n l1 n2s l2 where pl: "pl = ((s2n, l1), (n2s, l2))" by (metis prod.exhaust)
  obtain x1 where x1: "pipe_loop (fst env) 0 file2 (Some file) task (s2n, l1, s) = Some x1"
    using assms(4) by (auto simp: update_netcat_def pl bind_eq_Some_conv)
  then obtain d1 p1 m1 s1 where i1: "x1 = Inr (d1, p1, m1, s1)"
    using assms(4) by (cases x1) (auto simp: update_netcat_def pl)
  obtain x2 where x2: "pipe_loop (snd env) 0 file (Some file2) task (n2s, l2, s1) = Some x2"
    using assms(4) x1 by (auto simp: update_netcat_def pl i1 bind_eq_Some_conv)
  then obtain d2 p2 m2 s2 where i2: "x2 = Inr (d2, p2, m2, s2)"
    using assms(4) x1 by (cases x2) (auto simp: update_netcat_def pl i1)
  have pl': "pl' = ((p1, m1), (p2, m2))" using assms(4) x1 x2 by (simp add: update_netcat_def pl i1 i2)
  note r1 = x1 [unfolded i1] and r2 = x2 [unfolded i2]
  have "piped 131072 p1 m1" "piped 131072 p2 m2"
    using pipe_loop_piped [OF assms(1) _ r1] pipe_loop_piped [OF assms(2) _ r2] assms(3) by (simp_all add: flows_ok_def pl)
  then show "flows_ok pl'" by (simp add: flows_ok_def pl')
  show "flows_grow pl pl'"
    using pipe_loop_grows [OF r1] pipe_loop_grows [OF r2] by (simp add: flows_grow_def pl pl')
qed

lemma flows_grow_refl [simp]: "flows_grow pl pl"
  by (simp add: flows_grow_def)

lemma netcat_run_flows:
  assumes "pipe_ok (fst (nc_pipes e))" and "pipe_ok (snd (nc_pipes e))" and "flows_ok pl"
    and "netcat_run e pl c d s = Inr (pl', s')"
  shows "flows_ok pl' \<and> flows_grow pl pl'"
  using assms
proof (induction e pl c d s rule: netcat_run.induct)
  case (1 e pl d s)
  then show ?case using update_netcat_flows [of "nc_pipes e" pl nc_file nc_file2 nc_task s pl' s']
    by (auto simp: res_bind_Inr_iff opt_res_def split: option.splits)
qed (auto simp: res_bind_Inr_iff split: if_splits)

lemma netcat_turn_flows:
  assumes "pipe_ok (fst (nc_pipes e))" and "pipe_ok (snd (nc_pipes e))" and "flows_ok pl"
    and "netcat_turn e loop fr pl s = Inr (t, pl')"
  shows "flows_ok pl' \<and> flows_grow pl pl'"
proof -
  have "pl' = netcat_called e loop pl s" using assms(4) by (auto simp: netcat_turn_def res_bind_Inr_iff)
  then show ?thesis using netcat_run_flows [OF assms(1,2)] assms(3)
    by (auto simp: netcat_called_def Let_def split: option.splits sum.splits)
qed

definition netcat_inv :: "netcat_state \<Rightarrow> bool" where
  "netcat_inv y \<longleftrightarrow> case_prod (piped 8192) (th_flow (ns_in y)) \<and> flows_ok (ns_flows y) \<and>
     prefix (flow_read (fst (ns_flows y))) (flow_taken (th_flow (ns_in y))) \<and>
     (\<forall>t. ns_out y = Some t \<longrightarrow> case_prod (piped 8192) (th_flow t) \<and>
        prefix (flow_read (th_flow t)) (flow_taken (snd (ns_flows y))))"

lemma netcat_inv_begin: "netcat_inv (netcat_begin th s)"
  by (auto simp: netcat_inv_def netcat_begin_def thread_begin_def empty_flow_def flows_ok_def piped_def pipling_ok_def pending_bytes_def)

lemma netcat_inv_step: "netcat_step th loop y y' \<Longrightarrow> netcat_inv y \<Longrightarrow> netcat_inv y'"
proof (induction rule: netcat_step.induct)
  case (nc_in y e)
  then show ?case using thread_step_flow [OF nc_in(2), of "ns_in y"]
    by (auto simp: netcat_inv_def intro: prefix_order.trans)
next
  case (nc_out y t plu e t')
  then show ?case using thread_step_flow [OF nc_out(4), of t] by (auto simp: netcat_inv_def)
next
  case (nc_loop y e fr s pl)
  have "flows_ok pl \<and> flows_grow (ns_flows y) pl"
    using netcat_turn_flows [OF nc_loop(2,3) _ nc_loop(4)] nc_loop.prems by (simp add: netcat_inv_def)
  then show ?case using nc_loop by (auto simp: netcat_inv_def flows_grow_def intro: prefix_order.trans)
qed

lemma netcat_reach_inv: "(netcat_step th loop)\<^sup>*\<^sup>* (netcat_begin th s) y \<Longrightarrow> netcat_inv y"
  by (induction rule: rtranclp_induct) (auto simp: netcat_inv_begin intro: netcat_inv_step)

text \<open>The streams of the program: the bytes of a stream are in order at the far end, in a buffer, between the ends of the pair or in the other buffer.\<close>

definition streams_kept :: "netcat_state \<Rightarrow> bool" where
  "streams_kept y \<longleftrightarrow>
     (\<exists>w. flow_read (th_flow (ns_in y)) =
        flow_taken (fst (ns_flows y)) @ flow_pending (fst (ns_flows y)) @ w @ flow_pending (th_flow (ns_in y))) \<and>
     (\<forall>t. ns_out y = Some t \<longrightarrow> (\<exists>w. flow_read (snd (ns_flows y)) =
        flow_taken (th_flow t) @ flow_pending (th_flow t) @ w @ flow_pending (snd (ns_flows y)))) \<and>
     length (flow_pending (th_flow (ns_in y))) \<le> 8192 \<and>
     length (flow_pending (fst (ns_flows y))) \<le> 131072 \<and> length (flow_pending (snd (ns_flows y))) \<le> 131072"

lemma piped_join:
  assumes "case_prod (piped n) fl1" and "case_prod (piped m) fl2" and "prefix (flow_read fl2) (flow_taken fl1)"
  shows "\<exists>w. flow_read fl1 = flow_taken fl2 @ flow_pending fl2 @ w @ flow_pending fl1"
  using assms by (auto simp: piped_def prefix_def)

lemma piped_size: "case_prod (piped n) fl1 \<Longrightarrow> length (flow_pending fl1) \<le> n"
  by (auto simp: piped_def pipling_ok_def pending_bytes_def)

lemma netcat_inv_streams:
  assumes "netcat_inv y"
  shows "streams_kept y"
proof -
  have I: "case_prod (piped 8192) (th_flow (ns_in y))" "case_prod (piped 131072) (fst (ns_flows y))"
    "case_prod (piped 131072) (snd (ns_flows y))" "prefix (flow_read (fst (ns_flows y))) (flow_taken (th_flow (ns_in y)))"
    using assms by (simp_all add: netcat_inv_def flows_ok_def)
  have out: "\<exists>w. flow_read (snd (ns_flows y)) = flow_taken (th_flow t) @ flow_pending (th_flow t) @ w @ flow_pending (snd (ns_flows y))"
    if "ns_out y = Some t" for t
    using assms that by (intro piped_join [OF I(3), of 8192]) (simp_all add: netcat_inv_def)
  show ?thesis unfolding streams_kept_def
    using piped_join [OF I(1,2,4)] out piped_size [OF I(1)] piped_size [OF I(2)] piped_size [OF I(3)] by blast
qed

section \<open>The set-up succeeds\<close>

text \<open>What the calls of the set-up have to return: no failure, and memory that is not in use.\<close>

definition boot_ok :: "nc_boot \<Rightarrow> bool" where
  "boot_ok b \<longleftrightarrow> b_port b \<noteq> 0 \<and> fst (b_init b 0) \<noteq> 0 \<and> fst (b_init2 b 0) \<noteq> 0 \<and>
     nat (fst (b_init b 1)) \<noteq> nat (fst (b_init2 b 1)) \<and> fst (b_active b 0) \<noteq> -1 \<and> fst (b_active2 b 0) \<noteq> -1"

text \<open>The queue of the fresh loop, with the port's task and without it, as the searches of the initialisers walk it.\<close>

lemma fresh_loop:
  defines "s1 \<equiv> snd (tx_loop_default zero_mem)"
  shows "tx_loop_default zero_mem = (DefaultLoop, s1)" "lh_first (tq s1) (LoopQ DefaultLoop) = Some (Tailer DefaultLoop)"
    "le_next (tq s1) (Tailer DefaultLoop) = None" "le_prev (tq s1) (Tailer DefaultLoop) = First (LoopQ DefaultLoop)"
    "tasks s1 = tasks zero_mem" "loops s1 = loops zero_mem" "io s1 = zero_io"
  unfolding s1_def
  by (simp_all add: tx_loop_default_def zero_mem_def LIST_INIT_def LIST_INSERT_HEAD_def set_prev_opt_def set_prev_def on_tq_def zero_lheap_def Let_def)

lemma netcat_port:
  assumes "h \<noteq> 0"
  shows "\<exists>s. tx_completion_port_init (Some nc_port) h DefaultLoop (snd (tx_loop_default zero_mem)) = Some (Some (PortPoll nc_port), s) \<and>
    tx_poll_get DefaultLoop s = Some (PortPoll nc_port) \<and> port_good nc_port T ({}, s) \<and> (\<forall>v. \<not> live s v) \<and>
    lh_first (tq s) (LoopQ DefaultLoop) = Some (PollTask (PortPoll nc_port)) \<and>
    le_next (tq s) (PollTask (PortPoll nc_port)) = Some (Tailer DefaultLoop) \<and> le_next (tq s) (Tailer DefaultLoop) = None \<and>
    task_call (tasks s (PollTask (PortPoll nc_port))) = PortPolling \<and> task_call (tasks s (Tailer DefaultLoop)) = NullCall"
proof -
  define s1 where "s1 = snd (tx_loop_default zero_mem)"
  note F = fresh_loop [folded s1_def]
  obtain q s where new: "tx_completion_port_new (Some nc_port) h DefaultLoop s1 = (q, s)" by fastforce
  have "q = Some (PortPoll nc_port) \<and> tx_poll_get DefaultLoop s = Some (PortPoll nc_port) \<and> port_good nc_port T ({}, s) \<and> (\<forall>v. \<not> live s v)"
    by (rule tx_completion_port_new_good [OF new assms]) (simp_all add: F zero_io_def list_rep_def disjoint_lists_def)
  moreover have "tx_completion_port_init (Some nc_port) h DefaultLoop s1 = Some (q, s)"
    by (simp add: tx_completion_port_init_def port_search_def F list_search.simps zero_mem_def zero_loop_def zero_task_def new)
  moreover have "lh_first (tq s) (LoopQ DefaultLoop) = Some (PollTask (PortPoll nc_port))"
    "le_next (tq s) (PollTask (PortPoll nc_port)) = Some (Tailer DefaultLoop)" "le_next (tq s) (Tailer DefaultLoop) = None"
    "task_call (tasks s (PollTask (PortPoll nc_port))) = PortPolling" "task_call (tasks s (Tailer DefaultLoop)) = NullCall"
    using new assms F
    by (auto simp: tx_completion_port_new_def tx_poll_init_def tx_task_init_def tx_poll_active_def zero_mem_def zero_loop_def zero_task_def
        mem_defs flags LIST_INSERT_BEFORE_def set_prev_def Let_def on_pq_def upd_io_def)
  ultimately show ?thesis by (simp add: s1_def)
qed

lemma netcat_ring:
  assumes "lh_first (tq s) (LoopQ DefaultLoop) = Some (PollTask (PortPoll nc_port))"
    and "le_next (tq s) (PollTask (PortPoll nc_port)) = Some (Tailer DefaultLoop)" and "le_next (tq s) (Tailer DefaultLoop) = None"
    and "task_call (tasks s (PollTask (PortPoll nc_port))) = PortPolling" and "task_call (tasks s (Tailer DefaultLoop)) = NullCall"
  shows "\<exists>r s'. tx_timer_ring_get nc_ring now DefaultLoop s = Some (r, s') \<and> io s' = io s \<and> tx_poll_get l s' = tx_poll_get l s"
proof -
  have lp [simp]: "loops (init_heads hs u) = loops u" for hs u
    by (induction hs arbitrary: u) (auto simp: init_heads_def on_mq_def)
  have pa: "tx_poller (loops (tx_poll_active q u) l) = tx_poller (loops u l)" for q u
    by (simp add: tx_poll_active_def mem_defs Let_def)
  obtain r s' where new: "tx_timer_ring_new nc_ring now DefaultLoop s = (r, s')" by fastforce
  have "io s' = io s" "tx_poll_get l s' = tx_poll_get l s"
    using new by (auto simp: tx_timer_ring_new_def Let_def tx_getticks_def on_mq_def upd_ring_def tx_poll_init_def tx_task_init_def
      upd_task_def tx_poll_get_def pa split: if_splits)
  then show ?thesis using new
    by (simp add: tx_timer_ring_get_def assms list_search.simps)
qed

lemma port_good_io: "io s' = io s \<Longrightarrow> port_good p T (A, s) \<Longrightarrow> port_good p T (A, s')"
  by (simp add: port_good_def port_inv_def port_core_def ovl_ok_def filp_ok_def waiters_def attached_def fops_ok_def tx_writable_def)

text \<open>What setting up a block on the port and asking for its input leave alone.\<close>

lemma port_init_frame:
  assumes "tx_aiocb_init a loop fd k s = Inr s'" and "tx_poll_get loop s = Some (PortPoll p)"
    and "poll_ops (io s) (PortPoll p) = PortOps"
  shows "tx_poll_get l s' = tx_poll_get l s" and "live s' w \<Longrightarrow> live s w \<or> w = Ovl (nat (fst (k 1)))"
    and "b \<noteq> a \<Longrightarrow> filp s' b = filp s b"
  using assms
  by (auto simp: tx_aiocb_init_def tx_aiocb_init_poll_def with_ops_def tx_completion_port_attach_def Let_def ovl_upds port_fns_def
      tx_poll_get_def split: if_splits option.splits)

lemma pollin_attached: "tx_completion_port_pollin a k s = Inr s' \<Longrightarrow> attached s' b = attached s b"
  by (auto simp: tx_completion_port_pollin_def port_pollin_listen_def with_ovl_def Let_def ovl_upds attached_def flags
      split: if_splits option.splits)

lemma port_active_attached:
  assumes "tx_aincb_active a t k s = Inr s'" and "ops_of s a = PortOps"
  shows "attached s' b = attached s b"
proof -
  have f: "attached (upd_filp a (\<lambda>f. f\<lparr>tx_filterin := Some t\<rparr>) s) b = attached s b"
    "ops_of (upd_filp a (\<lambda>f. f\<lparr>tx_filterin := Some t\<rparr>) s) a = PortOps"
    using assms(2) by (simp_all add: attached_def upd_filp_def)
  have act: "attached (tx_task_active w r s) b = attached s b" for w r by (simp add: attached_def)
  show ?thesis using assms(1,2) f act
    by (auto simp: tx_aincb_active_def generic_active_in_def port_fns_def Let_def dest: pollin_attached split: fops_p.splits if_splits option.splits)
qed

lemma netcat_setup_ok:
  assumes "boot_ok b" and "net_fd \<noteq> -1" and "fd0 \<noteq> -1" and T: "nc_task \<in> T"
  shows "\<exists>s. netcat_setup b net_fd fd0 zero_mem = Inr (DefaultLoop, s) \<and> port_good nc_port T ({nc_file, nc_file2}, s) \<and>
    attached s nc_file \<and> attached s nc_file2"
proof -
  note B = assms(1) [unfolded boot_ok_def]
  define s1 where "s1 = snd (tx_loop_default zero_mem)"
  from netcat_port [of "b_port b" T, folded s1_def] B obtain s2 where
    2: "tx_completion_port_init (Some nc_port) (b_port b) DefaultLoop s1 = Some (Some (PortPoll nc_port), s2)"
      "tx_poll_get DefaultLoop s2 = Some (PortPoll nc_port)" "port_good nc_port T ({}, s2)" "\<And>v. \<not> live s2 v"
    and Q: "lh_first (tq s2) (LoopQ DefaultLoop) = Some (PollTask (PortPoll nc_port))"
      "le_next (tq s2) (PollTask (PortPoll nc_port)) = Some (Tailer DefaultLoop)" "le_next (tq s2) (Tailer DefaultLoop) = None"
      "task_call (tasks s2 (PollTask (PortPoll nc_port))) = PortPolling" "task_call (tasks s2 (Tailer DefaultLoop)) = NullCall"
    by blast
  from netcat_ring [OF Q, of "win_reading (b_ms b)" DefaultLoop] obtain r s3 where
    3: "tx_timer_ring_get nc_ring (win_reading (b_ms b)) DefaultLoop s2 = Some (r, s3)" "io s3 = io s2"
      "tx_poll_get DefaultLoop s3 = tx_poll_get DefaultLoop s2" by blast
  define s4 where "s4 = tx_task_init nc_task DefaultLoop (UserCall 0) (VUser 0) s3"
  have 4: "io s4 = io s2" "tx_poll_get DefaultLoop s4 = Some (PortPoll nc_port)"
    using 2(2) 3(2,3) by (simp_all add: s4_def tx_task_init_def upd_task_def tx_poll_get_def)
  have g4: "port_good nc_port T ({}, s4)" "\<not> live s4 v" for v using port_good_io [OF 4(1) 2(3)] 2(4) by (simp_all add: 4(1))
  obtain s5 where 5: "tx_aiocb_init nc_file DefaultLoop net_fd (b_init b) s4 = Inr s5" "port_good nc_port T ({nc_file}, s5)"
    "attached s5 nc_file" using good_init [where a = nc_file and k = "b_init b" and fd = net_fd, OF g4(1) _ 4(2)] B g4(2) assms(2) by auto
  have P4: "poll_ops (io s4) (PortPoll nc_port) = PortOps" using g4(1) by (simp add: port_good_def)
  note F5 = port_init_frame [OF 5(1) 4(2) P4]
  have l5: "\<not> live s5 (Ovl (nat (fst (b_init2 b 1))))" using F5(2) g4(2) B by fastforce
  have p5: "tx_poll_get DefaultLoop s5 = Some (PortPoll nc_port)" using F5(1) 4(2) by simp
  obtain s6 where 6: "tx_aiocb_init nc_file2 DefaultLoop fd0 (b_init2 b) s5 = Inr s6" "port_good nc_port T ({nc_file2, nc_file}, s6)"
    "attached s6 nc_file2" using good_init [where a = nc_file2 and k = "b_init2 b" and fd = fd0, OF 5(2) _ p5 _ l5] B assms(3) by auto
  have P5: "poll_ops (io s5) (PortPoll nc_port) = PortOps" using 5(2) by (simp add: port_good_def)
  have a6: "attached s6 nc_file" using port_init_frame(3) [OF 6(1) p5 P5, of nc_file] 5(3) by (simp add: attached_def)
  define s7 where "s7 = tx_timer_init nc_timer r (Some nc_task) s6"
  have i7: "io s7 = io s6" by (simp add: s7_def tx_timer_init_def upd_timer_def)
  have g7: "port_good nc_port T ({nc_file2, nc_file}, s7)" "attached s7 nc_file" "attached s7 nc_file2"
    using port_good_io [OF i7 6(2)] a6 6(3) by (simp_all add: attached_def i7)
  have ops: "ops_of s a = PortOps" if "port_good nc_port T ({nc_file2, nc_file}, s)" "a \<in> {nc_file2, nc_file}" for s a
    using that port.ok_ops by (auto simp: port_good_def)
  obtain s8 where 8: "tx_aincb_active nc_file2 nc_task (b_active2 b) s7 = Inr s8" "port_good nc_port T ({nc_file2, nc_file}, s8)"
    using good_active [where a = nc_file2 and t = nc_task and k = "b_active2 b", OF g7(1)] g7(3) T B by blast
  have a8: "attached s8 nc_file" "attached s8 nc_file2"
    using port_active_attached [OF 8(1) ops [OF g7(1)]] g7(2,3) by simp_all
  obtain s9 where 9: "tx_aincb_active nc_file nc_task (b_active b) s8 = Inr s9" "port_good nc_port T ({nc_file2, nc_file}, s9)"
    using good_active [where a = nc_file and t = nc_task and k = "b_active b", OF 8(2)] a8(1) T B by blast
  have a9: "attached s9 nc_file" "attached s9 nc_file2"
    using port_active_attached [OF 9(1) ops [OF 8(2)]] a8 by simp_all
  have "tx_loop_default zero_mem = (DefaultLoop, s1)" unfolding s1_def by (rule fresh_loop(1))
  then have "netcat_setup b net_fd fd0 zero_mem = Inr (DefaultLoop, s9)"
    using 5(1) 6(1) 8(1) 9(1) by (simp add: netcat_setup_def 2(1) 3(1) opt_res_def s4_def [symmetric] s7_def [symmetric])
  then show ?thesis using 9(2) a9 by (auto simp: insert_commute)
qed

section \<open>The properties of the program\<close>

lemma win_pipe_open: "win_pipe pk stack = (0, filds, calls) \<Longrightarrow> fst filds \<noteq> -1 \<and> ShutSend (fst filds) \<in> set calls"
  by (auto simp: win_pipe_def socketpair_def Let_def split: prod.splits if_splits)


definition nc_demo_sys :: nc_sys where
  "nc_demo_sys = \<lparr>sys_ReadFile = (\<lambda>n. (True, [104, 105])), sys_recv = (\<lambda>n. Some []), sys_WriteFile = (\<lambda>n m. (True, m)), sys_send = (\<lambda>n m. min 1 (int m))\<rparr>"

definition nc_demo_boot :: nc_boot where
  "nc_demo_boot = \<lparr>b_port = 3, b_ms = 0, b_init = (\<lambda>_. (1, 0)), b_init2 = (\<lambda>_. (2, 0)), b_active2 = (\<lambda>_. (0, 0)),
     b_active = (\<lambda>_. (0, 0)), b_fini = (\<lambda>_. (0, 0))\<rparr>"

definition nc_demo_net :: net_answers where
  "nc_demo_net = \<lparr>n_socket = 3, n_bind = 0, n_listen = 0, n_accept = 4, n_connect = 0, n_pton = (\<lambda>_. Some 0x0100007f), n_stack = 0\<rparr>"

definition nc_demo_pair :: pair_answers where
  "nc_demo_pair = \<lparr>a_socket = 5, a_bind = 0, a_listen = 0, a_sockname = 0, a_socket1 = 6, a_connect = 0, a_accept = 7, a_close = 0\<rparr>"

definition nc_demo_handles :: nc_handles where
  "nc_demo_handles = \<lparr>std_input = 11, std_output = 12, thread0 = 13, thread1 = 14\<rparr>"


text \<open>
  \<open>pipe\<close> of the Windows build shuts the two sockets it pairs down for one direction each. What is documented of
  a socket that was shut down for sending is that \<open>send\<close> and \<open>WSASend\<close> fail.
\<close>

definition shut_refused :: "sock_call list \<Rightarrow> int \<Rightarrow> pipe_env \<Rightarrow> bool" where
  "shut_refused calls fd env \<longleftrightarrow> (ShutSend fd \<in> set calls \<longrightarrow>
     (\<forall>n m. fst (p_send env n m 0) = -1 \<and> \<not> wsa_started (p_send env n m 1)))"

lemma refused_write:
  assumes "ops_of s a = PortOps" and "attached s a" and "tx_privp (filp s a) = Some v" and "live s v" and "tx_writable s a"
    and "buf \<noteq> []" and "fst (k 0) = -1" and "\<not> wsa_started (k 1)"
  shows "\<exists>s'. tx_outcb_write a buf k s = Inr (-1, s') \<and> tx_writable s' a"
  using assms
  by (auto simp: tx_outcb_write_def with_ops_def port_fns_def tx_completion_port_sendout_def with_ovl_def Let_def ovl_upds
      attached_def tx_writable_def flags)

text \<open>C32. netcat cannot receive. The far side of the pair, where the loop writes what it gets from the connection, is
  shut down for sending by \<open>pipe\<close>: the first bytes that arrive stay in the buffer, \<open>update_netcat\<close> takes the refusal for
  the end of the stream and stops the loop.
\<close>

theorem netcat_cannot_receive:
  assumes pair: "win_pipe pk stack = (0, filds, calls)" and shut: "shut_refused calls (fst filds) env"
    and first: "pipe_loop env1 0 nc_file2 (Some nc_file) nc_task (s2n, l1, s0) = Some (Inr (d, p1, m1, s))"
    and block: "ops_of s nc_file2 = PortOps" "attached s nc_file2" "tx_privp (filp s nc_file2) = Some v" "live s v" "tx_writable s nc_file2"
    and input: "tx_readable s nc_file" "p_recv env 0 = Inl b" "b \<noteq> []"
    and buffer: "\<not> pl_eof n2s" "pl_off n2s = pl_len n2s"
  shows "\<exists>q m s'. update_netcat (env1, env) nc_file nc_file2 nc_task ((s2n, l1), (n2s, l)) s0 = Some (Inr (((p1, m1), (q, m)), s')) \<and>
    bytes_read m = bytes_read l @ b \<and> bytes_taken m = bytes_taken l \<and> pending_bytes q = b \<and>
    tx_stop (loops s' (loop_of s' nc_task)) \<noteq> 0"
proof -
  have no: "fst (p_send env n m 0) = -1" "\<not> wsa_started (p_send env n m 1)" for n m
    using shut win_pipe_open [OF pair] by (auto simp: shut_refused_def)
  let ?q = "n2s\<lparr>pl_len := length b, pl_off := 0, pl_buf := b\<rparr>" and ?m = "l\<lparr>bytes_read := bytes_read l @ b\<rparr>"
  have p: "pending_bytes ?q = b" by (simp add: pending_bytes_def)
  obtain s1 where w: "tx_outcb_write nc_file2 b (p_send env 0 (length b)) s = Inr (-1, s1)" "tx_writable s1 nc_file2"
    using refused_write [OF block input(3), of "p_send env 0 (length b)"] no by blast
  have fill: "pipe_fill (p_recv env 0) nc_file (n2s, l, s) = (False, ?q, ?m, s)"
    using input buffer(1) by (simp add: pipe_fill_def recv_kres_def tx_aincb_update_def Let_def)
  have "pipe_drain env 0 (Some nc_file2) nc_task (?q, ?m, s) = Inr (BreakOff, ?q, ?m, s1)"
    using w input(3) block(5) p by (simp add: pipe_drain_def)
  then have "pipe_round env 0 nc_file (Some nc_file2) nc_task (n2s, l, s) = Inr (BreakOff, ?q, ?m, s1)"
    using input(1) buffer(2) fill by (simp add: pipe_round_def)
  then have "pipe_loop env 0 nc_file (Some nc_file2) nc_task (n2s, l, s) = Some (Inr (0, ?q, ?m, s1))"
    using buffer(1) by (subst pipe_loop.simps) simp
  then have "update_netcat (env1, env) nc_file nc_file2 nc_task ((s2n, l1), (n2s, l)) s0 =
      Some (Inr (((p1, m1), (?q, ?m)), tx_loop_stop (tx_loop_get nc_task s1) s1))"
    using first by (simp add: update_netcat_def)
  then show ?thesis using p by (auto simp: tx_loop_stop_def upd_loop_def tx_loop_get_def task_reads)
qed

text \<open>The same for the thread at the other end, shut down for receiving: its first read fails and it ends.\<close>

lemma refused_thread:
  assumes "p_ops (fst plu) = NetworkOps" and "sys_recv y 0 = None"
  shows "pipling_thread plu y = Some (fst empty_flow, snd empty_flow, P_CLOSE (snd plu))"
  using assms
  by (simp add: pipling_thread_def thread_pipling_def empty_flow_def plu_env_def P_READ_def p_network_read_def
      thread_loop.simps thread_round_def)

text \<open>A state in which both blocks are attached, input has arrived and the loop's task waits for the thread.\<close>

definition nc_demo_mem :: tx_mem where
  "nc_demo_mem = upd_io (\<lambda>i. i\<lparr>poll_ops := (\<lambda>_. PortOps), ovl_live := (\<lambda>_. True)\<rparr>)
     (upd_filp nc_file (\<lambda>f. f\<lparr>filp_flags := TX_ATTACHED OR TX_READABLE OR TX_WRITABLE, tx_privp := Some (Ovl 1), tx_fops := GenericFops\<rparr>)
     (upd_filp nc_file2 (\<lambda>f. f\<lparr>filp_flags := TX_ATTACHED OR TX_POLLIN OR TX_WRITABLE, tx_privp := Some (Ovl 2), tx_fops := GenericFops,
        tx_filterin := Some nc_task\<rparr>) zero_mem))"

definition nc_demo_env :: pipe_env where
  "nc_demo_env = \<lparr>p_recv = (\<lambda>n. Inl [104]), p_file = (\<lambda>n m. (True, m)), p_send = (\<lambda>n m i. (-1, 10058)), p_calls = (\<lambda>n i. (0, 0))\<rparr>"

lemma netcat_cannot_receive_witness:
  "\<exists>pl s'. update_netcat (nc_demo_env, nc_demo_env) nc_file nc_file2 nc_task (empty_flow, empty_flow) nc_demo_mem = Some (Inr (pl, s')) \<and>
     pending_bytes (fst (snd pl)) = [104] \<and> tx_stop (loops s' (loop_of s' nc_task)) \<noteq> 0"
proof -
  note mem = nc_demo_mem_def upd_filp_def upd_io_def zero_mem_def zero_io_def flags
  let ?p = "\<lparr>pl_eof = False, pl_off = 0, pl_len = 0, pl_buf = []\<rparr>" and ?l = "\<lparr>bytes_read = [], bytes_taken = []\<rparr>"
  obtain pcalls where 1: "win_pipe nc_demo_pair (0, 0) = (0, (6, 7), pcalls)"
    by (simp add: win_pipe_def socketpair_def Let_def nc_demo_pair_def)
  have 2: "shut_refused pcalls (fst (6, 7)) nc_demo_env"
    by (simp add: shut_refused_def nc_demo_env_def wsa_started_def SOCKET_ERROR_def WSA_IO_PENDING_def)
  have a: "\<not> tx_readable nc_demo_mem nc_file2" "tx_aincb_active nc_file2 nc_task (p_calls nc_demo_env 0) nc_demo_mem = Inr nc_demo_mem"
    by (simp_all add: tx_readable_def tx_aincb_active_def generic_active_in_def mem)
  then have 3: "pipe_loop nc_demo_env 0 nc_file2 (Some nc_file) nc_task (?p, ?l, nc_demo_mem) = Some (Inr (1, ?p, ?l, nc_demo_mem))"
    by (subst pipe_loop.simps) (simp add: pipe_round_def)
  have "ops_of nc_demo_mem nc_file2 = PortOps" "attached nc_demo_mem nc_file2" "tx_privp (filp nc_demo_mem nc_file2) = Some (Ovl 2)"
    "live nc_demo_mem (Ovl 2)" "tx_writable nc_demo_mem nc_file2" "tx_readable nc_demo_mem nc_file" "p_recv nc_demo_env 0 = Inl [104]"
    by (simp_all add: attached_def tx_writable_def tx_readable_def mem nc_demo_env_def)
  from netcat_cannot_receive [OF 1 2 3 this, of ?p ?l] show ?thesis by (auto simp: empty_flow_def)
qed

text \<open>The end of \<open>main\<close> succeeds on blocks in order, detaches both, and returns 1 like the failures before it.\<close>

lemma netcat_teardown_ok:
  assumes "port_good nc_port T ({nc_file, nc_file2}, s)"
  shows "\<exists>calls s'. netcat_teardown b th net_fd loop s = Inr (calls, s', 1) \<and> \<not> attached s' nc_file"
proof -
  let ?A = "{nc_file, nc_file2}"
  define s0 where "s0 = on_tq (LIST_REMOVE (Phony loop)) s"
  have g0: "port_good nc_port T (?A, s0)" by (rule port_good_io [OF _ assms]) (simp add: s0_def on_tq_def)
  obtain s1 where 1: "tx_aincb_stop nc_file2 (VTask nc_task) s0 = Inr s1" "port_good nc_port T (?A, s1)"
    using good_cancel(1) [OF g0, of nc_file2 "VTask nc_task"] by blast
  obtain s2 where 2: "tx_aincb_stop nc_file (VTask nc_task) s1 = Inr s2" "port_good nc_port T (?A, s2)"
    using good_cancel(1) [OF 1(2), of nc_file "VTask nc_task"] by blast
  have "io (tx_timer_stop nc_timer s2) = io s2" by (simp add: tx_timer_stop_def mem_defs Let_def)
  then have g3: "port_good nc_port T (?A, tx_timer_stop nc_timer s2)" using port_good_io 2(2) by blast
  obtain s4 where 4: "tx_aiocb_fini nc_file2 (b_fini b) (tx_timer_stop nc_timer s2) = Inr s4" "port_good nc_port T (?A - {nc_file2}, s4)"
    using good_fini [where a = nc_file2 and k = "b_fini b", OF g3] by blast
  have "nc_file \<in> ?A - {nc_file2}" by simp
  from good_fini [where k = "b_fini b", OF 4(2) this] obtain s5 where
    5: "tx_aiocb_fini nc_file (b_fini b) s4 = Inr s5" "\<not> attached s5 nc_file" by blast
  have "io (snd (tx_loop_delete loop s5)) = io s5" by (simp add: tx_loop_delete_def)
  then show ?thesis using 1(1) 2(1) 4(1) 5
    by (simp add: netcat_teardown_def s0_def [symmetric] Let_def attached_def)
qed

end
