(* ===== verification/TxWin32.thy ===== *)
theory TxWin32
  imports TxNcat "HOL-Library.Sublist"
begin

text \<open>
  \<open>netcat-win32.cpp\<close>, the netcat of two worker threads on a Windows completion port: the operations the
  threads post, their callback and the machine of both threads. A callback is one step: two that run at the
  same time are those of different \<open>IO_DATA\<close>, which is proved. What the system calls answer is free.
\<close>

section \<open>The state\<close>

type_synonym bytes = "8 word list"

datatype io_action = IO_ZERO_READ | IO_COOL_READ | IO_BYTE_WRITE

text \<open>The two \<open>IO_DATA\<close> of \<open>main\<close>; \<open>aiobuf\<close> is the part of the buffer in use.\<close>

datatype io_id = RecvData | SendData

record io_data =
  action :: io_action
  aiobuf :: bytes

text \<open>
  What is before the port: the operation of each \<open>IO_DATA\<close> and the packets of \<open>do_post_quit\<close>; the thread that
  runs the callback of an \<open>IO_DATA\<close>; the threads that left their loop; and the streams.
\<close>

record win_state =
  io_datas :: "io_id \<Rightarrow> io_data"
  posted :: "io_id \<Rightarrow> bool"
  held :: "io_id \<Rightarrow> nat option"
  quit_posts :: nat
  left_loop :: "nat \<Rightarrow> bool"
  net_in :: bytes
  std_out :: bytes
  std_in :: bytes
  net_out :: bytes

definition MAX_BUFF_SIZE :: nat where "MAX_BUFF_SIZE = 8192"
definition THREAD_COUNT :: nat where "THREAD_COUNT = 2"

definition upd_data :: "io_id \<Rightarrow> (io_data \<Rightarrow> io_data) \<Rightarrow> win_state \<Rightarrow> win_state" where
  "upd_data i f s = s\<lparr>io_datas := (io_datas s)(i := f (io_datas s i))\<rparr>"

section \<open>The operations\<close>

definition do_post_quit :: "win_state \<Rightarrow> win_state" where
  "do_post_quit s = s\<lparr>quit_posts := quit_posts s + THREAD_COUNT\<rparr>"

text \<open>\<open>zero_copy\<close> is whether \<open>ENABLE_ZERO_COPY\<close> is defined, \<open>ok\<close> whether the call started the operation.\<close>

definition do_post_recv :: "bool \<Rightarrow> bool \<Rightarrow> io_id \<Rightarrow> win_state \<Rightarrow> int \<times> win_state" where
  "do_post_recv zero_copy ok i s =
     (let s1 = upd_data i (\<lambda>d. d\<lparr>action := if zero_copy then IO_ZERO_READ else IO_COOL_READ\<rparr>) s
      in if \<not> ok then (-1, s1) else (0, s1\<lparr>posted := (posted s1)(i := True)\<rparr>))"

definition do_post_send :: "bool \<Rightarrow> io_id \<Rightarrow> bytes \<Rightarrow> win_state \<Rightarrow> int \<times> win_state" where
  "do_post_send ok i buf s =
     (let s1 = upd_data i (\<lambda>d. d\<lparr>action := IO_BYTE_WRITE, aiobuf := buf\<rparr>) s
      in if \<not> ok then (-1, s1) else (0, s1\<lparr>posted := (posted s1)(i := True)\<rparr>))"

text \<open>
  What a callback meets: the chunks \<open>recv\<close> returns and then its last answer, what \<open>WriteFile\<close> writes of a
  chunk (\<open>None\<close> if it fails), what \<open>ReadFile\<close> reads, and whether the post starts.
\<close>

datatype recv_end = WouldBlock | NetEof | NetError

record cb_env =
  c_recvs :: "bytes list"
  c_end :: recv_end
  c_write :: "bytes \<Rightarrow> nat option"
  c_read :: "bytes option"
  c_post :: bool

definition got :: "io_id \<Rightarrow> bytes \<Rightarrow> win_state \<Rightarrow> win_state" where
  "got i b s = upd_data i (\<lambda>d. d\<lparr>aiobuf := b\<rparr>) (s\<lparr>net_in := net_in s @ b\<rparr>)"

text \<open>The \<open>while\<close> loop of the callback; \<open>recvs\<close> are the chunks still to come.\<close>

fun write_out :: "bool \<Rightarrow> cb_env \<Rightarrow> io_id \<Rightarrow> bytes list \<Rightarrow> win_state \<Rightarrow> win_state" where
  "write_out zc env i [] s =
     (let buf = aiobuf (io_datas s i) in
      if buf = [] then do_post_quit s
      else case c_write env buf of
        None \<Rightarrow> do_post_quit s
      | Some n \<Rightarrow>
          let s1 = s\<lparr>std_out := std_out s @ take n buf\<rparr> in
          if n \<noteq> length buf then do_post_quit s1
          else (case c_end env of
              WouldBlock \<Rightarrow> snd (do_post_recv zc (c_post env) i s1)
            | NetEof \<Rightarrow> do_post_quit s1
            | NetError \<Rightarrow> do_post_quit s1))"
| "write_out zc env i (b # recvs) s =
     (let buf = aiobuf (io_datas s i) in
      if buf = [] then do_post_quit s
      else case c_write env buf of
        None \<Rightarrow> do_post_quit s
      | Some n \<Rightarrow>
          let s1 = s\<lparr>std_out := std_out s @ take n buf\<rparr> in
          if n \<noteq> length buf then do_post_quit s1
          else write_out zc env i recvs (got i b s1))"

text \<open>\<open>callback\<close>; the bytes the operation transferred are in the buffer.\<close>

definition callback :: "bool \<Rightarrow> cb_env \<Rightarrow> io_id \<Rightarrow> win_state \<Rightarrow> win_state" where
  "callback zc env i s =
     (case action (io_datas s i) of
        IO_ZERO_READ \<Rightarrow>
          (case (c_recvs env, c_end env) of
             ([], NetEof) \<Rightarrow> write_out zc env i [] (got i [] s)
           | ([], _) \<Rightarrow> do_post_quit s
           | (b # recvs, _) \<Rightarrow> write_out zc env i recvs (got i b s))
      | IO_COOL_READ \<Rightarrow> write_out zc env i (c_recvs env) s
      | IO_BYTE_WRITE \<Rightarrow>
          (case c_read env of
             None \<Rightarrow> do_post_quit s
           | Some b \<Rightarrow>
               if b \<noteq> [] then snd (do_post_send (c_post env) i b (s\<lparr>std_in := std_in s @ b\<rparr>)) else do_post_quit s))"

text \<open>\<open>main\<close> between the port and the threads: the first operations, a receive and a send of nothing.\<close>

definition win_start :: "bool \<Rightarrow> bool \<Rightarrow> bool \<Rightarrow> win_state option" where
  "win_start zc ok ok2 =
     (let s0 = \<lparr>io_datas = (\<lambda>_. \<lparr>action = IO_ZERO_READ, aiobuf = []\<rparr>), posted = (\<lambda>_. False), held = (\<lambda>_. None), quit_posts = 0,
                left_loop = (\<lambda>_. False), net_in = [], std_out = [], std_in = [], net_out = []\<rparr>;
          (r, s1) = do_post_recv zc ok RecvData s0
      in if r \<noteq> 0 then None
      else let (r2, s2) = do_post_send ok2 SendData [] s1
      in if r2 \<noteq> 0 then None else Some s2)"

text \<open>
  The whole of \<open>main\<close> up to its call of \<open>WorkerThread\<close>: the calls it made and, if it gets there, the state the
  threads start in. The answers are those of \<open>WSAStartup\<close>, \<open>ioctlsocket\<close>, the two calls of
  \<open>CreateIoCompletionPort\<close> and the first posts. \<open>win_clean\<close> is what follows the label \<open>clean\<close>.
\<close>

record win_answers =
  w_startup :: int
  w_nonblock :: int
  w_port :: bool
  w_bind :: bool
  w_recv :: bool
  w_send :: bool

datatype win_call = WinNet net_call | WinThread | WinClose int | WinCleanup

definition win_clean :: "int \<Rightarrow> win_call list" where
  "win_clean catfd = [WinClose catfd, WinCleanup]"

definition win_main :: "bool \<Rightarrow> resolver \<Rightarrow> net_answers \<Rightarrow> string list \<Rightarrow> win_answers \<Rightarrow> (win_call list \<times> win_state option) res" where
  "win_main zc R k argv a =
     (if w_startup a \<noteq> 0 then Inr ([], None)
      else res_bind (get_netcat_socket R k argv) (\<lambda>(catfd, nets).
        let c = map WinNet nets in
        if catfd = -1 then Inr (c, None)
        else if w_nonblock a \<noteq> 0 then Inr (c, None)
        else if \<not> w_port a then Inr (c, None)
        else if \<not> w_bind a then Inr (c, None)
        else case win_start zc (w_recv a) (w_send a) of
            None \<Rightarrow> Inr (c @ win_clean catfd, None)
          | Some s \<Rightarrow> Inr (c @ replicate (THREAD_COUNT - 1) WinThread, Some s)))"

section \<open>The threads\<close>

text \<open>
  The steps of \<open>WorkerThread\<close>. A completed receive has put the bytes it transferred into the buffer (none when it
  was posted for no bytes), a completed send has sent what is in the buffer by then.
\<close>

definition transfer :: "io_id \<Rightarrow> bytes \<Rightarrow> win_state \<Rightarrow> win_state" where
  "transfer i b s =
     (case action (io_datas s i) of
        IO_BYTE_WRITE \<Rightarrow> s\<lparr>net_out := net_out s @ aiobuf (io_datas s i)\<rparr>
      | _ \<Rightarrow> got i b s)"

inductive worker_step :: "bool \<Rightarrow> win_state \<Rightarrow> win_state \<Rightarrow> bool" for zc where
  worker_take: "w < THREAD_COUNT \<Longrightarrow> \<not> left_loop s w \<Longrightarrow> \<forall>j. held s j \<noteq> Some w \<Longrightarrow> posted s i \<Longrightarrow>
    length b \<le> MAX_BUFF_SIZE \<Longrightarrow> (action (io_datas s i) = IO_ZERO_READ \<Longrightarrow> b = []) \<Longrightarrow>
    worker_step zc s ((transfer i b s)\<lparr>posted := (posted s)(i := False), held := (held s)(i := Some w)\<rparr>)"
| worker_call: "held s i = Some w \<Longrightarrow> \<forall>b\<in>set (c_recvs env). b \<noteq> [] \<and> length b \<le> MAX_BUFF_SIZE \<Longrightarrow>
    (\<And>b. c_read env = Some b \<Longrightarrow> length b \<le> MAX_BUFF_SIZE) \<Longrightarrow> (\<And>b n. c_write env b = Some n \<Longrightarrow> n \<le> length b) \<Longrightarrow>
    worker_step zc s ((callback zc env i s)\<lparr>held := (held s)(i := None)\<rparr>)"
| worker_fail: "w < THREAD_COUNT \<Longrightarrow> \<not> left_loop s w \<Longrightarrow> \<forall>j. held s j \<noteq> Some w \<Longrightarrow>
    worker_step zc s ((do_post_quit s)\<lparr>left_loop := (left_loop s)(w := True)\<rparr>)"
| worker_quit: "w < THREAD_COUNT \<Longrightarrow> \<not> left_loop s w \<Longrightarrow> \<forall>j. held s j \<noteq> Some w \<Longrightarrow> quit_posts s > 0 \<Longrightarrow>
    worker_step zc s (s\<lparr>quit_posts := quit_posts s - 1, left_loop := (left_loop s)(w := True)\<rparr>)"

inductive win_reach :: "bool \<Rightarrow> win_state \<Rightarrow> bool" for zc where
  win_init: "win_start zc ok ok2 = Some s \<Longrightarrow> win_reach zc s"
| win_step: "win_reach zc s \<Longrightarrow> worker_step zc s s' \<Longrightarrow> win_reach zc s'"

text \<open>The states the threads start in are those \<open>main\<close> leaves; with its own it starts \<open>THREAD_COUNT\<close> of them.\<close>

lemma win_main_reach: "win_main zc R k argv a = Inr (c, Some s) \<Longrightarrow> win_reach zc s"
  by (auto simp: win_main_def res_bind_Inr_iff Let_def intro: win_init split: if_splits option.splits)

lemma win_main_threads:
  assumes "win_main zc R k argv a = Inr (c, r)"
  shows "count_list c WinThread + 1 = THREAD_COUNT \<longleftrightarrow> r \<noteq> None"
proof -
  have n: "count_list (map WinNet nets) WinThread = 0" for nets by (induction nets) auto
  show ?thesis using assms n
    by (auto simp: win_main_def res_bind_Inr_iff Let_def THREAD_COUNT_def win_clean_def split: if_splits option.splits)
qed

section \<open>The streams\<close>

definition win_inv :: "win_state \<Rightarrow> bool" where
  "win_inv s \<longleftrightarrow>
     (\<forall>i. posted s i \<longrightarrow> held s i = None) \<and>
     (\<forall>i j w. held s i = Some w \<longrightarrow> held s j = Some w \<longrightarrow> i = j) \<and>
     action (io_datas s SendData) = IO_BYTE_WRITE \<and> action (io_datas s RecvData) \<noteq> IO_BYTE_WRITE \<and>
     (\<forall>i. length (aiobuf (io_datas s i)) \<le> MAX_BUFF_SIZE) \<and>
     prefix (std_out s) (net_in s) \<and> prefix (net_out s) (std_in s) \<and>
     (posted s RecvData \<longrightarrow> net_in s = std_out s) \<and>
     (held s RecvData \<noteq> None \<longrightarrow> net_in s = std_out s @ aiobuf (io_datas s RecvData) \<and>
        (action (io_datas s RecvData) = IO_ZERO_READ \<longrightarrow> aiobuf (io_datas s RecvData) = [])) \<and>
     (posted s SendData \<longrightarrow> std_in s = net_out s @ aiobuf (io_datas s SendData)) \<and>
     (held s SendData \<noteq> None \<longrightarrow> std_in s = net_out s)"

text \<open>What a callback leaves alone, of the other \<open>IO_DATA\<close> and of the threads.\<close>

definition other_kept :: "io_id \<Rightarrow> win_state \<Rightarrow> win_state \<Rightarrow> bool" where
  "other_kept i s s' \<longleftrightarrow> held s' = held s \<and> left_loop s' = left_loop s \<and>
     (\<forall>j. j \<noteq> i \<longrightarrow> posted s' j = posted s j \<and> io_datas s' j = io_datas s j)"

lemma other_kept_refl: "other_kept i s s"
  by (simp add: other_kept_def)

lemma other_kept_trans: "other_kept i s s' \<Longrightarrow> other_kept i s' s'' \<Longrightarrow> other_kept i s s''"
  by (simp add: other_kept_def)

lemma quit_reads [simp]:
  "io_datas (do_post_quit s) = io_datas s" "posted (do_post_quit s) = posted s" "held (do_post_quit s) = held s"
  "net_in (do_post_quit s) = net_in s" "std_out (do_post_quit s) = std_out s" "std_in (do_post_quit s) = std_in s"
  "net_out (do_post_quit s) = net_out s" "left_loop (do_post_quit s) = left_loop s"
  by (simp_all add: do_post_quit_def)

lemma got_reads [simp]:
  "io_datas (got i b s) = (io_datas s)(i := (io_datas s i)\<lparr>aiobuf := b\<rparr>)" "posted (got i b s) = posted s" "held (got i b s) = held s"
  "net_in (got i b s) = net_in s @ b" "std_out (got i b s) = std_out s" "std_in (got i b s) = std_in s"
  "net_out (got i b s) = net_out s" "left_loop (got i b s) = left_loop s"
  by (simp_all add: got_def upd_data_def)

lemma recv_reads [simp]:
  "aiobuf (io_datas (snd (do_post_recv zc ok i s)) j) = aiobuf (io_datas s j)"
  "action (io_datas (snd (do_post_recv zc ok i s)) j) =
     (if j = i then if zc then IO_ZERO_READ else IO_COOL_READ else action (io_datas s j))"
  "posted (snd (do_post_recv zc ok i s)) j \<longleftrightarrow> posted s j \<or> ok \<and> j = i" "held (snd (do_post_recv zc ok i s)) = held s"
  "net_in (snd (do_post_recv zc ok i s)) = net_in s" "std_out (snd (do_post_recv zc ok i s)) = std_out s"
  "std_in (snd (do_post_recv zc ok i s)) = std_in s" "net_out (snd (do_post_recv zc ok i s)) = net_out s"
  "left_loop (snd (do_post_recv zc ok i s)) = left_loop s"
  "j \<noteq> i \<Longrightarrow> io_datas (snd (do_post_recv zc ok i s)) j = io_datas s j"
  by (auto simp: do_post_recv_def upd_data_def Let_def)

lemma write_out_streams:
  assumes "net_in s = std_out s @ aiobuf (io_datas s i)" and "\<not> posted s i" and "action (io_datas s i) \<noteq> IO_BYTE_WRITE"
    and "\<forall>b\<in>set recvs. length b \<le> MAX_BUFF_SIZE" and "length (aiobuf (io_datas s i)) \<le> MAX_BUFF_SIZE"
    and "\<And>b n. c_write env b = Some n \<Longrightarrow> n \<le> length b"
  shows "prefix (std_out (write_out zc env i recvs s)) (net_in (write_out zc env i recvs s)) \<and>
    (posted (write_out zc env i recvs s) i \<longrightarrow> net_in (write_out zc env i recvs s) = std_out (write_out zc env i recvs s)) \<and>
    action (io_datas (write_out zc env i recvs s) i) \<noteq> IO_BYTE_WRITE \<and>
    length (aiobuf (io_datas (write_out zc env i recvs s) i)) \<le> MAX_BUFF_SIZE \<and>
    other_kept i s (write_out zc env i recvs s) \<and>
    std_in (write_out zc env i recvs s) = std_in s \<and> net_out (write_out zc env i recvs s) = net_out s"
  using assms
proof (induction zc env i recvs s rule: write_out.induct)
  case (1 zc env i s)
  have pre: "prefix (std_out s @ take n (aiobuf (io_datas s i))) (std_out s @ aiobuf (io_datas s i))" for n
    by (simp add: take_is_prefix)
  show ?case using 1 pre by (auto simp: Let_def other_kept_def split: option.splits recv_end.splits)
next
  case (2 zc env i b recvs s)
  let ?buf = "aiobuf (io_datas s i)"
  have pre: "prefix (std_out s @ take n ?buf) (std_out s @ ?buf)" for n by (simp add: take_is_prefix)
  show ?case
  proof (cases "?buf \<noteq> [] \<and> c_write env ?buf = Some (length ?buf)")
    case False
    then show ?thesis using 2(2-) pre by (auto simp: Let_def other_kept_def split: option.splits)
  next
    case True
    let ?s = "got i b (s\<lparr>std_out := std_out s @ ?buf\<rparr>)"
    have eq: "write_out zc env i (b # recvs) s = write_out zc env i recvs ?s" using True by (simp add: Let_def)
    have k: "other_kept i s ?s" by (simp add: other_kept_def)
    have "prefix (std_out (write_out zc env i recvs ?s)) (net_in (write_out zc env i recvs ?s)) \<and>
      (posted (write_out zc env i recvs ?s) i \<longrightarrow> net_in (write_out zc env i recvs ?s) = std_out (write_out zc env i recvs ?s)) \<and>
      action (io_datas (write_out zc env i recvs ?s) i) \<noteq> IO_BYTE_WRITE \<and>
      length (aiobuf (io_datas (write_out zc env i recvs ?s) i)) \<le> MAX_BUFF_SIZE \<and>
      other_kept i ?s (write_out zc env i recvs ?s) \<and>
      std_in (write_out zc env i recvs ?s) = std_in ?s \<and> net_out (write_out zc env i recvs ?s) = net_out ?s"
      by (rule 2(1) [of ?buf "length ?buf" "s\<lparr>std_out := std_out s @ ?buf\<rparr>"]) (use 2(2-) True in auto)
    then show ?thesis unfolding eq using other_kept_trans [OF k] by auto
  qed
qed

text \<open>The callbacks of the two \<open>IO_DATA\<close>.\<close>

definition env_fits :: "cb_env \<Rightarrow> bool" where
  "env_fits env \<longleftrightarrow> (\<forall>b\<in>set (c_recvs env). b \<noteq> [] \<and> length b \<le> MAX_BUFF_SIZE) \<and>
     (\<forall>b. c_read env = Some b \<longrightarrow> length b \<le> MAX_BUFF_SIZE) \<and> (\<forall>b n. c_write env b = Some n \<longrightarrow> n \<le> length b)"

definition recv_result :: "win_state \<Rightarrow> win_state \<Rightarrow> bool" where
  "recv_result s s' \<longleftrightarrow> prefix (std_out s') (net_in s') \<and> (posted s' RecvData \<longrightarrow> net_in s' = std_out s') \<and>
     action (io_datas s' RecvData) \<noteq> IO_BYTE_WRITE \<and> length (aiobuf (io_datas s' RecvData)) \<le> MAX_BUFF_SIZE \<and>
     other_kept RecvData s s' \<and> std_in s' = std_in s \<and> net_out s' = net_out s"

lemma callback_recv:
  assumes inv: "win_inv s" and h: "held s RecvData = Some w" and env: "env_fits env"
  shows "recv_result s (callback zc env RecvData s)"
proof -
  have I: "\<not> posted s RecvData" "action (io_datas s RecvData) \<noteq> IO_BYTE_WRITE" "length (aiobuf (io_datas s RecvData)) \<le> MAX_BUFF_SIZE"
    "net_in s = std_out s @ aiobuf (io_datas s RecvData)" "action (io_datas s RecvData) = IO_ZERO_READ \<Longrightarrow> aiobuf (io_datas s RecvData) = []"
    using inv h by (auto simp: win_inv_def)
  have E: "\<forall>b\<in>set (c_recvs env). length b \<le> MAX_BUFF_SIZE" "\<And>b n. c_write env b = Some n \<Longrightarrow> n \<le> length b"
    using env by (auto simp: env_fits_def)
  have run: "recv_result s (write_out zc env RecvData rs (got RecvData b s))"
    if "action (io_datas s RecvData) = IO_ZERO_READ" "length b \<le> MAX_BUFF_SIZE" "\<forall>b\<in>set rs. length b \<le> MAX_BUFF_SIZE" for b rs
  proof -
    have k: "other_kept RecvData s (got RecvData b s)" by (simp add: other_kept_def)
    show ?thesis
      using write_out_streams [of "got RecvData b s" RecvData rs env zc, OF _ _ _ that(3) _ E(2)] I that(2) other_kept_trans [OF k]
      by (auto simp: recv_result_def that(1))
  qed
  have z: "length ([] :: bytes) \<le> MAX_BUFF_SIZE" by simp
  show ?thesis
  proof (cases "action (io_datas s RecvData)")
    case IO_ZERO_READ
    then show ?thesis using run z E(1) I
      by (cases "c_recvs env"; cases "c_end env") (auto simp: callback_def recv_result_def other_kept_refl, auto simp: other_kept_def)
  next
    case IO_COOL_READ
    then show ?thesis using write_out_streams [of s RecvData "c_recvs env" env zc, OF I(4,1,2) E(1) I(3) E(2)]
      by (simp add: callback_def recv_result_def)
  qed (use I(2) in simp)
qed

definition send_result :: "win_state \<Rightarrow> win_state \<Rightarrow> bool" where
  "send_result s s' \<longleftrightarrow> prefix (net_out s') (std_in s') \<and>
     (posted s' SendData \<longrightarrow> std_in s' = net_out s' @ aiobuf (io_datas s' SendData)) \<and>
     action (io_datas s' SendData) = IO_BYTE_WRITE \<and> length (aiobuf (io_datas s' SendData)) \<le> MAX_BUFF_SIZE \<and>
     other_kept SendData s s' \<and> net_in s' = net_in s \<and> std_out s' = std_out s"

lemma callback_send:
  assumes inv: "win_inv s" and h: "held s SendData = Some w" and env: "env_fits env"
  shows "send_result s (callback zc env SendData s)"
proof -
  have I: "\<not> posted s SendData" "action (io_datas s SendData) = IO_BYTE_WRITE" "length (aiobuf (io_datas s SendData)) \<le> MAX_BUFF_SIZE"
    "std_in s = net_out s"
    using inv h by (auto simp: win_inv_def)
  have "\<And>b. c_read env = Some b \<Longrightarrow> length b \<le> MAX_BUFF_SIZE" using env by (simp add: env_fits_def)
  then show ?thesis using I
    by (auto simp: callback_def send_result_def other_kept_def do_post_send_def upd_data_def Let_def split: option.splits)
qed

lemma win_inv_start: "win_start zc ok ok2 = Some s \<Longrightarrow> win_inv s"
  by (auto simp: win_start_def do_post_recv_def do_post_send_def upd_data_def Let_def win_inv_def split: if_splits)

lemma io_id_all: "(\<forall>i. P i) \<longleftrightarrow> P RecvData \<and> P SendData"
  by (metis io_id.exhaust)

lemma win_inv_take:
  assumes inv: "win_inv s" and w: "\<forall>j. held s j \<noteq> Some w" and p: "posted s i" and b: "length b \<le> MAX_BUFF_SIZE"
    and z: "action (io_datas s i) = IO_ZERO_READ \<Longrightarrow> b = []"
  shows "win_inv ((transfer i b s)\<lparr>posted := (posted s)(i := False), held := (held s)(i := Some w)\<rparr>)"
proof (cases i)
  case RecvData
  then show ?thesis using assms
    by (cases "action (io_datas s RecvData)") (auto simp: win_inv_def transfer_def io_id_all)
next
  case SendData
  then show ?thesis using assms by (auto simp: win_inv_def transfer_def io_id_all)
qed

lemma win_inv_call:
  assumes inv: "win_inv s" and h: "held s i = Some w" and env: "env_fits env"
  shows "win_inv ((callback zc env i s)\<lparr>held := (held s)(i := None)\<rparr>)"
proof (cases i)
  case RecvData
  then show ?thesis using inv callback_recv [OF inv _ env, of w zc] h
    by (auto simp: win_inv_def recv_result_def other_kept_def io_id_all)
next
  case SendData
  then show ?thesis using inv callback_send [OF inv _ env, of w zc] h
    by (auto simp: win_inv_def send_result_def other_kept_def io_id_all)
qed

lemma win_inv_step:
  assumes "worker_step zc s s'" and "win_inv s"
  shows "win_inv s'"
  using assms
proof (induction rule: worker_step.induct)
  case (worker_call s i w env)
  have "env_fits env" using worker_call(2-4) by (simp add: env_fits_def)
  then show ?case by (rule win_inv_call [OF worker_call(5) worker_call(1)])
next
  case (worker_take w s i b)
  show ?case by (rule win_inv_take [OF worker_take(7,3,4,5)]) (rule worker_take(6))
qed (auto simp: win_inv_def)

section \<open>Properties\<close>

text \<open>C33. In every interleaving of the two threads each \<open>IO_DATA\<close> is before the port or in the callback of one thread, never
  both, and a thread runs the callback of one; what was written to the standard output is a prefix of what came from the
  network, all of it whenever the receive is posted, and what went to the network is a prefix of what was read from the
  standard input, with the rest in the send buffer whenever the send is posted.\<close>
theorem win32_streams:
  assumes "win_reach zc s"
  shows "win_inv s"
  using assms by (induction) (blast intro: win_inv_start, blast intro: win_inv_step)

definition win_demo :: win_state where
  "win_demo = \<lparr>io_datas = (\<lambda>i. case i of RecvData \<Rightarrow> \<lparr>action = IO_COOL_READ, aiobuf = []\<rparr> | SendData \<Rightarrow> \<lparr>action = IO_BYTE_WRITE, aiobuf = []\<rparr>),
     posted = (\<lambda>_. True), held = (\<lambda>_. None), quit_posts = 0, left_loop = (\<lambda>_. False), net_in = [], std_out = [], std_in = [], net_out = []\<rparr>"

lemma all_io_fun: "(f = g) \<longleftrightarrow> f RecvData = g RecvData \<and> f SendData = g SendData"
  by (metis ext io_id.exhaust)

lemma win_demo_start: "win_start False True True = Some win_demo"
  by (simp add: win_start_def do_post_recv_def do_post_send_def upd_data_def Let_def win_demo_def all_io_fun)

lemma win_demo_taken:
  "win_reach False ((transfer RecvData [1, 2] win_demo)\<lparr>posted := (posted win_demo)(RecvData := False), held := (held win_demo)(RecvData := Some 0)\<rparr>)"
proof -
  have "win_reach False win_demo" by (rule win_init [OF win_demo_start])
  moreover have "worker_step False win_demo ((transfer RecvData [1, 2] win_demo)\<lparr>posted := (posted win_demo)(RecvData := False),
      held := (held win_demo)(RecvData := Some 0)\<rparr>)"
    by (rule worker_take) (simp_all add: win_demo_def THREAD_COUNT_def MAX_BUFF_SIZE_def)
  ultimately show ?thesis by (rule win_step)
qed

lemma win32_streams_witness:
  "win_inv ((transfer RecvData [1, 2] win_demo)\<lparr>posted := (posted win_demo)(RecvData := False), held := (held win_demo)(RecvData := Some 0)\<rparr>)"
  by (rule win32_streams [OF win_demo_taken])

text \<open>The callbacks ignore a post that fails: the \<open>IO_DATA\<close> is then neither before the port nor held, no quit packet is
  sent, and nothing that happens later posts it again, so its direction is dead while the threads go on.\<close>
lemma win32_failed_post_is_final:
  assumes "c_post env = False" and "c_read env = Some (x # xs)" and "action (io_datas s i) = IO_BYTE_WRITE" and "\<not> posted s i"
    and "(worker_step zc)\<^sup>*\<^sup>* ((callback zc env i s)\<lparr>held := (held s)(i := None)\<rparr>) s'"
  shows "quit_posts (callback zc env i s) = quit_posts s \<and> \<not> posted s' i \<and> held s' i = None"
proof -
  let ?c = "(callback zc env i s)\<lparr>held := (held s)(i := None)\<rparr>"
  have c: "quit_posts (callback zc env i s) = quit_posts s" "\<not> posted ?c i" "held ?c i = None"
    using assms(1-4) by (simp_all add: callback_def do_post_send_def upd_data_def)
  have other: "posted (callback zc e j u) i = posted u i" if "j \<noteq> i" for e j u
  proof -
    have w: "posted (write_out zc e j rs v) i = posted v i" for rs v
      using that by (induction zc e j rs v rule: write_out.induct) (auto simp: Let_def split: option.splits recv_end.splits)
    show ?thesis using that w by (auto simp: callback_def do_post_send_def upd_data_def Let_def
        split: io_action.splits list.splits recv_end.splits option.splits)
  qed
  have "\<not> posted s' i \<and> held s' i = None"
    using assms(5)
  proof (induction rule: rtranclp_induct)
    case base
    then show ?case using c by simp
  next
    case (step u v)
    from step(2,3) show ?case
    proof (induction rule: worker_step.induct)
      case (worker_take w s j b)
      then have "j \<noteq> i" by auto
      then show ?case using worker_take by (auto simp: transfer_def split: io_action.splits)
    next
      case (worker_call s j w e)
      then have "j \<noteq> i" by auto
      then show ?case using worker_call other [of j e s] by simp
    qed auto
  qed
  with c(1) show ?thesis by blast
qed

lemma win32_failed_post_is_final_witness:
  "\<not> posted ((callback False \<lparr>c_recvs = [], c_end = NetEof, c_write = (\<lambda>_. None), c_read = Some [1], c_post = False\<rparr> SendData
     (win_demo\<lparr>posted := (\<lambda>_. False)\<rparr>))\<lparr>held := (held win_demo)(SendData := None)\<rparr>) SendData"
proof -
  let ?env = "\<lparr>c_recvs = [], c_end = NetEof, c_write = (\<lambda>_. None), c_read = Some [1], c_post = False\<rparr>"
  let ?s = "win_demo\<lparr>posted := (\<lambda>_. False)\<rparr>"
  have h: "held ?s = held win_demo" by simp
  show ?thesis
    using win32_failed_post_is_final [of ?env 1 "[]" ?s SendData False, OF _ _ _ _ rtranclp.rtrancl_refl] by (simp add: win_demo_def)
qed

end
