(* ===== verification/Spec2Isabelle.thy ===== *)
theory Spec2Isabelle
  imports TxLists TxStack TxKqSystem TxPortSystem TxCatEnd TxGet TxLog TxNetcat TxWin32
begin

text \<open>
  A verification of \<^bold>\<open>libtx\<close>, a single threaded event loop library in C++, and of the programs that come
  with it. File names are relative to \<open>src/\<close>; the headers are in
  \<open>src/include/\<close>.

  \<^bold>\<open>The program.\<close> A \<^emph>\<open>task\<close> is a callback with a state: idle, queued to run on its \<^emph>\<open>loop\<close> (busy), or
  recorded in a wait queue (pending). \<open>tx_loop_main\<close> takes tasks off the loop's queue and calls them. The
  queue holds two more entries: the tailer, which is always last, and the phony task, which separates one
  round from the next. A \<^emph>\<open>poller task\<close> runs once a round; the timers (\<open>tx_timer.cpp\<close>) and one of three
  pollers (\<open>tx_epoll.cpp\<close>, \<open>tx_kqueue.cpp\<close>, \<open>tx_completion_port.cpp\<close>) are poller tasks. A user of a
  descriptor sets up an I/O control block (\<open>tx_aiocb.cpp\<close>), which names the tasks that wait to read and to
  write and calls the poller through a table of functions. A poller asks the loop with \<open>tx_loop_timeout\<close>
  whether it may sleep. \<open>txcat.cpp\<close>, \<open>txget.cpp\<close> and \<open>netcat.cpp\<close> are programs on top of this;
  \<open>netcat-win32.cpp\<close> has a completion port and two threads of its own and shares \<open>ncatutil.cpp\<close> with
  \<open>netcat.cpp\<close>.

  \<^bold>\<open>How the code is modelled.\<close> The memory is the record \<open>tx_mem\<close> (theory TxState): one map from addresses to
  structures for each structure of the code, with the fields of the structure; an address is a constructor
  that says which object it is the address of. Links of the intrusive lists are modelled as they are: each
  element has the next element and the address of the \<^emph>\<open>field\<close> that points to it. An operation is a function
  from memory to memory; where the code asserts, panics, exits or touches freed memory it returns
  \<open>Inl\<close> of an \<open>error\<close>, and where a loop may not end it is a \<open>partial_function (option)\<close> and the value \<open>None\<close> is
  not returning. Every property says that the operations it is about do return. Integers of the code are words of
  their width where they wrap or carry flags. \<open>int\<close> is used for counters whose bounds are proved or that are
  compared with zero only, and \<open>atoi\<close> is exact. The result and \<open>errno\<close> of a system call is an argument of the
  operation that makes the call (a function of the number of the call where there are several); the
  requests that succeed are recorded in \<open>kcalls\<close>, so that a property can say what the kernel was asked
  for. What the kernel promises is a named predicate.

  \<^bold>\<open>The theories.\<close>

  \<^descr> TxPrelude, TxState: words, flags, results, \<open>LIST_FOREACH_SAFE\<close>; the structures of \<open>include/tx_loop.h\<close>,
    \<open>tx_timer.h\<close>, \<open>tx_poll.h\<close>, \<open>tx_aiocb.h\<close> and of the pollers.
  \<^descr> TxQueue: the \<open>LIST\<close> macros of \<open>include/libtx/queue.h\<close>. A table of lists is represented by the links if each
    segment follows the links and no element is on two lists; locale \<open>intrusive_queue\<close> states what its users need
    and is interpreted for the links.
  \<^descr> TxLists: the \<open>SLIST\<close>, \<open>STAILQ\<close> and \<open>TAILQ\<close> macros. \<open>lop_spec\<close> is the meaning of an operation on the lists of the
    heads; locales \<open>queue_macros\<close>, \<open>tail_queue_macros\<close> and \<open>two_way_macros\<close>, each an extension of the one before, say
    that the macros of a family implement it, and are interpreted for the four families. The links are read as those
    of a \<open>LIST\<close>, with \<open>le_prev\<close> existing in the proofs only for the singly linked ones. Programs of macros (C20, C21).
  \<^descr> TxTask, TxTaskInv, TxLoop, TxMachine: \<open>tx_loop.cpp\<close> and \<open>tx_poll.cpp\<close>. \<open>loop_inv\<close> relates flags, lists and
    the counters \<open>tx_actives\<close> and \<open>tx_busy\<close> of the loop. The machine \<open>sys_step\<close> lets any callback and any client
    make any library call in any order, while any number of loops run. C1 to C4: nothing sleeps over a
    runnable task, a runnable task is not overtaken, flags say where a task is linked, waking a queue.
  \<^descr> TxCallbacks: \<open>tx_loop_main\<close> with callbacks. Locale \<open>loop_callbacks\<close> asks that calling a task is a sequence of
    library calls that keeps the client's invariant; it gives that the loop is a run of the machine, that it
    comes around, and that it returns soon after it has been told to stop.
  \<^descr> TxTimer, TxTimerInv, TxWheel: \<open>tx_timer.cpp\<close> and the clock. \<open>timers_ok\<close> says in which slot a timer with a
    given deadline may be. C5, C6: a polling ends, never fires 15 ms early and leaves nothing 15 ms late
    (750 ms for a timer set more than 45 s ahead). The arithmetic is on natural numbers under the bound that
    the clock has not passed \<open>2^31\<close> ms; C9 shows what the code does after \<open>2^32\<close> ms. C10: the ring of a
    stopped loop.
  \<^descr> TxStack: the task stacks of \<open>tx_loop.cpp\<close>, with the abstract specification \<open>a_push\<close>, \<open>a_pop\<close>, \<open>a_raise\<close>
    on a list of frames and a refinement between the two (C7, C8).
  \<^descr> TxFilp, TxAiocb: \<open>tx_aiocb.cpp\<close>. Locales \<open>poller_in\<close> and \<open>poller\<close> are the table of functions a block
    calls and what a poller promises; \<open>poller_user\<close> is what its users then get. They are interpreted on the three
    pollers (the completion port gives the reading half only; its writes start operations).
  \<^descr> TxEpoll, TxSystem; TxKqueue, TxKqSystem; TxPort, TxPortSystem: the pollers, and for each the system of one
    loop with any number of blocks through any sequence of operations. Whoever waits is registered with the
    kernel and is woken by the next report (C11, C14); the reference counts (C15) and a leak of one (C18);
    operations succeed (C16) and never touch freed memory, the kernel's writes into \<open>OVERLAPPED\<close>s
    included (C12), polling ends (C13), sends are bounded by the cache (C17), a failed accept (C19).
  \<^descr> TxCat, TxCatRun, TxCatMain, TxCatEnd: \<open>txcat.cpp\<close> on the modelled loop, timers and epoll poller. \<open>cat_run\<close> dispatches a
    call to the callback that is named in the task; it is the interpretation \<open>txcat\<close> of \<open>loop_callbacks\<close>. \<open>cat_env\<close> is
    the environment: the answers of the clock and the kernel as functions of the memory; \<open>env_ok\<close> says what is
    assumed of them. C22, C23, C25: the program ends, without an error, and copies its input to its output.
  \<^descr> TxCString, TxInet, TxPlatform: strings, \<open>inet_pton\<close> (C26), \<open>get_target_address\<close> (C35, C37, lemma \<open>target_address_unresolved\<close>),
    \<open>tx_setblockopt\<close>, \<open>pipe\<close> and \<open>socketpair\<close> of the Windows build, and the module lists.
  \<^descr> TxNcat: \<open>ncatutil.cpp\<close>: the command line and the option string against parsers on tokens and items
    (C27, C28), well-formedness of the result (C29), and the socket made of it (C40).
  \<^descr> TxLog: \<open>tx_debug.cpp\<close>. The stream of glibc that puts a header before each line, however it is cut into writes
    (C34), the levels (lemma \<open>log_levels_ordered\<close>), a message (C39), and \<open>_logfmt\<close> of other C libraries.
  \<^descr> TxGet: \<open>txget.cpp\<close>: the URL, the request and the program (C36, C38, lemma \<open>bad_url_aborts\<close>).
  \<^descr> TxPipe: the copying loops of \<open>netcat.cpp\<close>, with threads (C30) and on blocks of a poller (C31), and its end
    (lemma \<open>netcat_stops_half_closed\<close>).
  \<^descr> TxNetcat: the rest of \<open>netcat.cpp\<close>: the files of the threads and \<open>main\<close> (\<open>netcat_main\<close> up to the loop or the
    wait, \<open>netcat_teardown\<close> after it). \<open>netcat_step\<close> is a round of a thread or an iteration of the loop on the completion
    port; the buffers lie beside \<open>tx_mem\<close>, so \<open>netcat_turn\<close> is \<open>tx_loop_turn\<close> with what the call does to them. What is
    read at one end of the pair is assumed to be a prefix of what was written to the other. The set-up succeeds and
    the streams are kept from end to end (C24); what \<open>pipe\<close> does to one of them (C32).
  \<^descr> TxWin32: \<open>netcat-win32.cpp\<close> as a step relation on the two threads, the port and the kernel (C33).

  \<^bold>\<open>Bounds and fuel.\<close> No definition takes fuel. The reading loops of the programs are recursion on the list of
  chunks that \<open>read\<close> or \<open>recv\<close> returns before its last answer. \<open>LIST_FOREACH_SAFE\<close>, the wheels of the timers,
  \<open>tx_loop_main\<close>, the loop of the completion port and \<open>pipling\<close> are partial functions; that they return is C4, C5,
  C13, C30 and the lemmas of \<open>loop_callbacks\<close>.

  \<^bold>\<open>What modelling showed.\<close>

  \<^item> Timers after 49.7 days: \<open>timer->interval\<close> has 32 bits and wraps, the ticks of the wheel do not
    (\<open>tx_timer.cpp:52\<close>, C9). A stopped loop deletes its ring under pending timers (\<open>tx_timer.cpp:178\<close>, C10).
  \<^item> \<open>tx_kqueue_detach\<close> gives back one reference of two (C18). \<open>TX_PANIC(1, ...)\<close> never panics, so a failed
    \<open>AcceptEx\<close> leaves its task waiting for ever (C19). The check of \<open>tx_loop_delete\<close> never fails, the queue always
    holds its tailer (lemma \<open>tx_loop_delete_unchecked\<close>).
  \<^item> Buffers: the host of an IPv6 address (\<open>tx_platform.cpp:62\<close>, C35), the path of a URL (\<open>txget.cpp:140\<close>, C36), the
    length of a log header (\<open>tx_debug.cpp:179\<close>, lemma \<open>log_long_tag_overread\<close>).
  \<^item> Unchecked results: names that are not looked up are address 0.0.0.0 (lemma \<open>target_address_unresolved\<close>), a host without a port crashes netcat
    (C40), a bad URL fails an assertion (lemma \<open>bad_url_aborts\<close>), \<open>-s\<close> binds to an unset address and a failed \<open>bind\<close> leaks its socket
    (\<open>ncatutil.cpp:126\<close> and \<open>135\<close>), the request of \<open>txget\<close> is taken for sent (\<open>txget.cpp:85\<close>), a failed post
    stops a direction of \<open>netcat-win32\<close> (\<open>netcat-win32.cpp:109\<close>).
  \<^item> \<open>netcat\<close> ends when either direction does (\<open>netcat.cpp:94\<close>, lemma \<open>netcat_stops_half_closed\<close>). It uses both directions
    of a pair of which \<open>pipe\<close> shuts one down, so nothing it receives comes out (\<open>netcat.cpp:242\<close>, C32). Its input thread
    closes the connection the other thread reads (\<open>netcat.cpp:192\<close>), and an orderly end has the exit status of a failure
    (\<open>netcat.cpp:290\<close>, lemma \<open>netcat_teardown_ok\<close>).

  \<^bold>\<open>Not modelled.\<close> The tracing of \<open>queue.h\<close> (\<open>QUEUE_MACRO_DEBUG\<close>) and \<open>insque\<close>, \<open>remque\<close>, which are compiled in a BSD
  kernel only. The wait queues at the end of \<open>tx_loop.cpp\<close>, which \<open>#if 0\<close> compiles out. The clock of macOS,
  which is the arithmetic of Linux on another reading. The stream of
  macOS (\<open>fwopen\<close>), which calls \<open>_log_write\<close> as that of glibc does. The headers
  \<open>include/tx_network.h\<close> and \<open>include/tx_aiobuf.h\<close>, which nothing uses. The name service, \<open>inet_addr\<close> and the text
  \<open>vfprintf\<close> makes are parameters. Diagnostics to \<open>stderr\<close> are left out, and \<open>fwrite\<close> to \<open>stdout\<close> is identified with
  output. \<open>DISABLE_MULTI_POLLER\<close> is taken to be undefined, as in the build files.
\<close>

end
